(* ===== verification/Prelude.thy ===== *)
theory Prelude
  imports Complex_Main "HOL-Library.Multiset" "HOL-Library.Char_ord" "HOL-Library.List_Lexorder"
begin

section \<open>Prelude: the JavaScript vocabulary the components share\<close>

text \<open>
  What the TypeScript sources use of their language and its standard library, and the
  generic lemmas the component theories share: the nullish default \<open>x ?? d\<close>, stable
  sorting by a comparator (\<open>Array.prototype.sort\<close>), decimal printing of a count inside a
  template string, trimming and upper-casing of a label.

  Conventions of the whole development. A value that may be \<open>null\<close> or \<open>undefined\<close> is an
  \<open>option\<close>. A whole number is an \<open>int\<close> (a \<open>nat\<close> where it counts or indexes); the
  code only adds, subtracts, multiplies and halves such numbers far below \<open>2^53\<close>, where
  JavaScript numbers are exact. A string is a list of characters (code units up to 255).
\<close>

named_theorems match_format_defs \<open>the unfolding rules of the match format\<close>
named_theorems clock_defs \<open>the unfolding rules of the clock\<close>
named_theorems bracket_defs \<open>the unfolding rules of the bracket generators\<close>
named_theorems swiss_defs \<open>the unfolding rules of the Swiss pairing\<close>

subsection \<open>The nullish default\<close>

text \<open>\<open>x ?? d\<close>: the value, or the default when it is null or undefined.\<close>

definition or_else :: "'a option \<Rightarrow> 'a \<Rightarrow> 'a" where
  "or_else x d = (case x of None \<Rightarrow> d | Some v \<Rightarrow> v)"

lemma or_else_simps [simp]: "or_else None d = d" "or_else (Some v) d = v"
  by (simp_all add: or_else_def)

subsection \<open>Sorting with a comparator\<close>

text \<open>
  \<open>xs.sort(cmp)\<close> is a stable sort: \<open>cmp a b\<close> below zero puts \<open>a\<close> first, above zero
  puts \<open>b\<close> first, and zero keeps the order of the input. The model is the stable insertion
  sort. That any other stable sort returns the same list is the lemma \<open>sort_by_unique\<close>
  of the locale below, so nothing depends on the algorithm of the engine.
\<close>

fun insert_by :: "('a \<Rightarrow> 'a \<Rightarrow> 'n::linordered_idom) \<Rightarrow> 'a \<Rightarrow> 'a list \<Rightarrow> 'a list" where
  "insert_by cmp x [] = [x]"
| "insert_by cmp x (y # ys) = (if cmp x y \<le> 0 then x # y # ys else y # insert_by cmp x ys)"

definition sort_by :: "('a \<Rightarrow> 'a \<Rightarrow> 'n::linordered_idom) \<Rightarrow> 'a list \<Rightarrow> 'a list" where
  "sort_by cmp xs = foldr (insert_by cmp) xs []"

lemma sort_by_simps [simp]:
  "sort_by cmp [] = []"
  "sort_by cmp (x # xs) = insert_by cmp x (sort_by cmp xs)"
  by (simp_all add: sort_by_def)

lemma mset_insert_by [simp]: "mset (insert_by cmp x xs) = add_mset x (mset xs)"
  by (induction xs) auto

lemma mset_sort_by [simp]: "mset (sort_by cmp xs) = mset xs"
  by (induction xs) auto

lemma set_sort_by [simp]: "set (sort_by cmp xs) = set xs"
  by (metis mset_sort_by set_mset_mset)

lemma length_sort_by [simp]: "length (sort_by cmp xs) = length xs"
  by (metis mset_sort_by size_mset)

lemma distinct_sort_by [simp]: "distinct (sort_by cmp xs) \<longleftrightarrow> distinct xs"
  by (metis mset_sort_by mset_eq_imp_distinct_iff)

lemma sort_by_eq_Nil [simp]: "sort_by cmp xs = [] \<longleftrightarrow> xs = []"
  by (metis length_0_conv length_sort_by)

lemma distinct_map_sort_by:
  "distinct (map f (sort_by cmp xs)) \<longleftrightarrow> distinct (map f xs)"
  by (metis mset_sort_by mset_map mset_eq_imp_distinct_iff)

text \<open>A list that is in order already is not changed.\<close>

lemma sort_by_id: "sorted_wrt (\<lambda>a b. cmp a b \<le> 0) xs \<Longrightarrow> sort_by cmp xs = xs"
proof (induction xs)
  case Nil
  then show ?case by simp
next
  case (Cons x xs)
  then have "sort_by cmp xs = xs" and "\<forall>y \<in> set xs. cmp x y \<le> 0" by simp_all
  then show ?case by (cases xs) simp_all
qed

text \<open>
  The contract of a comparator: its sign is antisymmetric and \<open>cmp a b \<le> 0\<close> is
  transitive, a total preorder. Every comparator of the model is an interpretation.
\<close>

locale comparator =
  fixes cmp :: "'a \<Rightarrow> 'a \<Rightarrow> 'n::linordered_idom"
  assumes flip: "cmp a b \<le> 0 \<longleftrightarrow> 0 \<le> cmp b a"
    and trans: "cmp a b \<le> 0 \<Longrightarrow> cmp b c \<le> 0 \<Longrightarrow> cmp a c \<le> 0"
begin

lemma total: "cmp a b \<le> 0 \<or> cmp b a \<le> 0"
  using flip [of a b] flip [of b a] by linarith

lemma self: "cmp a a = 0"
  using flip [of a a] by linarith

lemma sorted_insert_by:
  "sorted_wrt (\<lambda>a b. cmp a b \<le> 0) xs \<Longrightarrow> sorted_wrt (\<lambda>a b. cmp a b \<le> 0) (insert_by cmp x xs)"
proof (induction xs)
  case Nil
  then show ?case by simp
next
  case (Cons y ys)
  show ?case
  proof (cases "cmp x y \<le> 0")
    case True
    with Cons.prems show ?thesis by (auto intro: trans)
  next
    case False
    then have "cmp y x \<le> 0" using total by blast
    moreover have "set (insert_by cmp x ys) = insert x (set ys)"
      by (metis mset_insert_by set_mset_add_mset_insert set_mset_mset)
    ultimately show ?thesis using Cons False by auto
  qed
qed

lemma sorted_sort_by: "sorted_wrt (\<lambda>a b. cmp a b \<le> 0) (sort_by cmp xs)"
  by (induction xs) (simp_all add: sorted_insert_by)

text \<open>Stability: the elements level with \<open>a\<close> keep their order.\<close>

lemma filter_insert_by:
  "sorted_wrt (\<lambda>a b. cmp a b \<le> 0) xs \<Longrightarrow>
   filter (\<lambda>b. cmp a b = 0) (insert_by cmp x xs) = filter (\<lambda>b. cmp a b = 0) (x # xs)"
proof (induction xs)
  case Nil
  then show ?case by simp
next
  case (Cons y ys)
  show ?case
  proof (cases "cmp x y \<le> 0")
    case True
    then show ?thesis by simp
  next
    case False
    have "\<not> (cmp a x = 0 \<and> cmp a y = 0)"
    proof
      assume level: "cmp a x = 0 \<and> cmp a y = 0"
      then have "cmp x a \<le> 0" and "cmp a y \<le> 0" using flip [of x a] by simp_all
      then have "cmp x y \<le> 0" by (rule trans)
      with False show False by simp
    qed
    with Cons False show ?thesis by auto
  qed
qed

lemma stable_sort_by: "filter (\<lambda>b. cmp a b = 0) (sort_by cmp xs) = filter (\<lambda>b. cmp a b = 0) xs"
  by (induction xs) (simp_all add: filter_insert_by [OF sorted_sort_by])

text \<open>
  Two sorted lists with the same elements, in which level elements come in the same order,
  are the same list: the result of a stable sort does not depend on the algorithm.
\<close>

lemma sorted_stable_unique:
  assumes "sorted_wrt (\<lambda>a b. cmp a b \<le> 0) xs" and "sorted_wrt (\<lambda>a b. cmp a b \<le> 0) ys"
    and "\<And>a. filter (\<lambda>b. cmp a b = 0) xs = filter (\<lambda>b. cmp a b = 0) ys"
  shows "xs = ys"
  using assms
proof (induction xs arbitrary: ys)
  case Nil
  then have "filter (\<lambda>b. cmp (hd ys) b = 0) ys = []" by simp
  then show ?case using self [of "hd ys"] by (cases ys) simp_all
next
  case (Cons x xs)
  have "x \<in> set (filter (\<lambda>b. cmp x b = 0) ys)"
    unfolding Cons.prems(3) [symmetric] by (simp add: self)
  then have x: "x \<in> set ys" by simp
  then obtain y zs where ys: "ys = y # zs" by (cases ys) auto
  have "y \<in> set (filter (\<lambda>b. cmp y b = 0) (x # xs))"
    unfolding Cons.prems(3) using ys by (simp add: self)
  then have "y = x \<or> y \<in> set xs" by (auto split: if_splits)
  then have "cmp x y \<le> 0" using Cons.prems(1) self [of x] by auto
  moreover have "x = y \<or> x \<in> set zs" using x ys by simp
  then have "cmp y x \<le> 0" using ys Cons.prems(2) self [of y] by auto
  ultimately have "cmp x y = 0" using flip [of y x] by simp
  then have "x = y" using Cons.prems(3) [of x] self ys by simp
  moreover have "xs = zs"
  proof (rule Cons.IH)
    show "filter (\<lambda>b. cmp a b = 0) xs = filter (\<lambda>b. cmp a b = 0) zs" for a
      using Cons.prems(3) [of a] ys \<open>x = y\<close> by (cases "cmp a y = 0") simp_all
  qed (use Cons.prems ys in simp_all)
  ultimately show ?case using ys by simp
qed

lemma sort_by_unique:
  assumes "sorted_wrt (\<lambda>a b. cmp a b \<le> 0) ys"
    and "\<And>a. filter (\<lambda>b. cmp a b = 0) ys = filter (\<lambda>b. cmp a b = 0) xs"
  shows "sort_by cmp xs = ys"
  by (rule sorted_stable_unique) (simp_all add: assms sorted_sort_by stable_sort_by)

text \<open>
  The sorted list depends on the elements alone, not on the order they were read in, if no
  two different elements of the list are level.
\<close>

lemma sort_by_mset_on:
  assumes "mset xs = mset ys" and "\<And>a b. a \<in> set xs \<Longrightarrow> b \<in> set xs \<Longrightarrow> cmp a b = 0 \<Longrightarrow> a = b"
  shows "sort_by cmp xs = sort_by cmp ys"
proof (rule sort_by_unique)
  show "sorted_wrt (\<lambda>a b. cmp a b \<le> 0) (sort_by cmp ys)" by (rule sorted_sort_by)
  fix a
  have same: "x = y" if "x \<in> set (filter (\<lambda>b. cmp a b = 0) xs)" "y \<in> set (filter (\<lambda>b. cmp a b = 0) xs)" for x y
  proof (rule assms(2))
    have "cmp x a \<le> 0" "cmp a y \<le> 0" "cmp y a \<le> 0" "cmp a x \<le> 0"
      using that flip [of x a] flip [of y a] by simp_all
    then have "cmp x y \<le> 0" "cmp y x \<le> 0" using trans by blast+
    then show "cmp x y = 0" using flip [of y x] by simp
  qed (use that in simp_all)
  have "mset (filter (\<lambda>b. cmp a b = 0) ys) = mset (filter (\<lambda>b. cmp a b = 0) xs)"
    using assms(1) by (simp add: mset_filter)
  then have "filter (\<lambda>b. cmp a b = 0) ys = filter (\<lambda>b. cmp a b = 0) xs"
    using same
  proof (induction "filter (\<lambda>b. cmp a b = 0) xs" arbitrary: xs ys)
    case Nil
    then show ?case by simp
  next
    case (Cons x zs)
    let ?F = "filter (\<lambda>b. cmp a b = 0)"
    have "\<forall>z \<in> set (?F xs). z = x" using Cons.prems(2) Cons.hyps(2) [symmetric] by auto
    moreover have "\<forall>z \<in> set (?F ys). z = x" using calculation mset_eq_setD [OF Cons.prems(1)] by blast
    ultimately have "?F xs = replicate (length (?F xs)) x" "?F ys = replicate (length (?F ys)) x"
      by (simp_all add: replicate_length_same)
    then show ?case using mset_eq_length [OF Cons.prems(1)] by metis
  qed
  then show "filter (\<lambda>b. cmp a b = 0) (sort_by cmp ys) = filter (\<lambda>b. cmp a b = 0) xs"
    by (simp add: stable_sort_by)
qed

end

text \<open>
  A comparator in which level elements are equal: the sorted list depends on the elements
  alone, not on the order they were read in.
\<close>

locale strict_comparator = comparator +
  assumes level_eq: "cmp a b = 0 \<Longrightarrow> a = b"
begin

lemma filter_level: "filter (\<lambda>b. cmp a b = 0) xs = replicate (count (mset xs) a) a"
  by (induction xs) (auto simp: self dest: level_eq)

lemma sort_by_mset: "mset xs = mset ys \<Longrightarrow> sort_by cmp xs = sort_by cmp ys"
  by (rule sort_by_unique) (simp_all add: sorted_sort_by filter_level)

end

text \<open>\<open>first || second\<close>: the second comparison decides where the first is level.\<close>

definition then_by :: "('a \<Rightarrow> 'a \<Rightarrow> 'n::linordered_idom) \<Rightarrow> ('a \<Rightarrow> 'a \<Rightarrow> 'n) \<Rightarrow> 'a \<Rightarrow> 'a \<Rightarrow> 'n" where
  "then_by c1 c2 a b = (if c1 a b \<noteq> 0 then c1 a b else c2 a b)"

lemma then_by_comparator:
  assumes "comparator c1" and "comparator c2"
  shows "comparator (then_by c1 c2)"
proof
  note f = comparator.flip [OF assms(1)] comparator.flip [OF assms(2)]
  note t = comparator.trans [OF assms(1)] comparator.trans [OF assms(2)]
  have level: "c1 b a = 0" if "c1 a b = 0" for a b using that f(1) [of a b] f(1) [of b a] by simp
  show "then_by c1 c2 a b \<le> 0 \<longleftrightarrow> 0 \<le> then_by c1 c2 b a" for a b
    using f(1) [of a b] f(2) [of a b] level [of a b] level [of b a] by (auto simp: then_by_def)
  show "then_by c1 c2 a b \<le> 0 \<Longrightarrow> then_by c1 c2 b c \<le> 0 \<Longrightarrow> then_by c1 c2 a c \<le> 0" for a b c
  proof -
    assume ab: "then_by c1 c2 a b \<le> 0" and bc: "then_by c1 c2 b c \<le> 0"
    then have le: "c1 a b \<le> 0" "c1 b c \<le> 0" by (auto simp: then_by_def split: if_splits)
    then have ac: "c1 a c \<le> 0" by (rule t(1))
    show ?thesis
    proof (cases "c1 a c = 0")
      case True
      then have "c1 c a \<le> 0" using level by simp
      then have "c1 b a \<le> 0" "c1 c b \<le> 0" using le t(1) by blast+
      then have "c1 a b = 0" "c1 b c = 0" using le f(1) [of b a] f(1) [of c b] by simp_all
      then show ?thesis using ab bc t(2) [of a b c] True by (simp add: then_by_def)
    next
      case False
      then show ?thesis using ac by (simp add: then_by_def)
    qed
  qed
qed

subsection \<open>Decimal numbers in template strings\<close>

text \<open>\<open>String(n)\<close> for a count: its decimal digits, without leading zeros.\<close>

definition digit_char :: "nat \<Rightarrow> char" where
  "digit_char d = char_of (48 + d)"

fun show_nat :: "nat \<Rightarrow> string" where
  "show_nat n = (if n < 10 then [digit_char n] else show_nat (n div 10) @ [digit_char (n mod 10)])"

declare show_nat.simps [simp del]

text \<open>The value of a string of digits; any other character gives nothing (\<open>\d+\<close>, \<open>Number\<close>).\<close>

definition digit_value :: "char \<Rightarrow> nat option" where
  "digit_value c = (let k = of_char c in if 48 \<le> k \<and> k \<le> (57::nat) then Some (k - 48) else None)"

fun read_digits :: "nat \<Rightarrow> string \<Rightarrow> nat option" where
  "read_digits acc [] = Some acc"
| "read_digits acc (c # cs) =
     (case digit_value c of None \<Rightarrow> None | Some d \<Rightarrow> read_digits (10 * acc + d) cs)"

definition read_nat :: "string \<Rightarrow> nat option" where
  "read_nat s = (if s = [] then None else read_digits 0 s)"

lemma digit_value_digit_char [simp]: "d < 10 \<Longrightarrow> digit_value (digit_char d) = Some d"
  by (simp add: digit_value_def digit_char_def Let_def)

lemma read_digits_append:
  "read_digits acc (s @ t) = (case read_digits acc s of None \<Rightarrow> None | Some a \<Rightarrow> read_digits a t)"
  by (induction s arbitrary: acc) (auto split: option.splits)

lemma show_nat_nonempty [simp]: "show_nat n \<noteq> []"
  by (subst show_nat.simps) simp

lemma read_digits_show_nat: "read_digits 0 (show_nat n) = Some n"
proof (induction n rule: show_nat.induct)
  case (1 n)
  show ?case
  proof (cases "n < 10")
    case True
    then show ?thesis by (simp add: show_nat.simps [of n])
  next
    case False
    with 1 have "read_digits 0 (show_nat (n div 10)) = Some (n div 10)" by simp
    with False show ?thesis
      by (simp add: show_nat.simps [of n] read_digits_append)
  qed
qed

lemma read_nat_show_nat [simp]: "read_nat (show_nat n) = Some n"
  by (simp add: read_nat_def read_digits_show_nat)

lemma show_nat_inject [simp]: "show_nat m = show_nat n \<longleftrightarrow> m = n"
  by (metis option.inject read_nat_show_nat)

text \<open>\<open>s.padStart(w, '0')\<close>.\<close>

definition pad_start :: "nat \<Rightarrow> string \<Rightarrow> string" where
  "pad_start w s = replicate (w - length s) (digit_char 0) @ s"

lemma length_pad_start [simp]: "length (pad_start w s) = max w (length s)"
  by (simp add: pad_start_def)

lemma read_digits_zeros: "read_digits 0 (replicate k (digit_char 0) @ s) = read_digits 0 s"
  by (induction k) simp_all

lemma read_nat_pad_start [simp]: "s \<noteq> [] \<Longrightarrow> read_nat (pad_start w s) = read_nat s"
  by (simp add: pad_start_def read_nat_def read_digits_zeros)

subsection \<open>Trimming and upper-casing a label\<close>

text \<open>\<open>trim()\<close> removes white space at both ends; \<open>toUpperCase()\<close> maps the letters a to z.\<close>

definition js_space :: "char \<Rightarrow> bool" where
  "js_space c = (let k = (of_char c :: nat) in (9 \<le> k \<and> k \<le> 13) \<or> k = 32 \<or> k = 160)"

definition js_trim :: "string \<Rightarrow> string" where
  "js_trim s = rev (dropWhile js_space (rev (dropWhile js_space s)))"

definition upper_char :: "char \<Rightarrow> char" where
  "upper_char c = (let k = (of_char c :: nat) in if 97 \<le> k \<and> k \<le> 122 then char_of (k - 32) else c)"

definition js_upper :: "string \<Rightarrow> string" where
  "js_upper s = map upper_char s"

subsection \<open>Counting in lists\<close>

lemma length_filter_split:
  "length (filter P xs) + length (filter (\<lambda>x. \<not> P x) xs) = length xs"
  by (rule sum_length_filter_compl)

lemma find_key:
  assumes "distinct (map f xs)" and "a \<in> set xs"
  shows "find (\<lambda>x. f x = f a) xs = Some a"
  using assms
proof (induction xs)
  case (Cons x xs)
  then show ?case by (cases "x = a") (auto simp: image_iff)
qed simp

lemma find_map_key:
  assumes "\<And>x. f (g x) = f x"
  shows "find (\<lambda>x. f x = k) (map g xs) = map_option g (find (\<lambda>x. f x = k) xs)"
  by (induction xs) (simp_all add: assms)

lemma find_append: "find P (xs @ ys) = (case find P xs of None \<Rightarrow> find P ys | Some x \<Rightarrow> Some x)"
  by (induction xs) simp_all

lemma fold_invariant:
  "P s \<Longrightarrow> (\<And>x s. x \<in> set xs \<Longrightarrow> P s \<Longrightarrow> P (f x s)) \<Longrightarrow> P (fold f xs s)"
  by (induction xs arbitrary: s) auto

end
