(* ===== verification/Domain.thy ===== *)
theory Domain
  imports Prelude
begin

section \<open>Domain: the bout, its exchanges, its score\<close>

text \<open>
  The shapes of \<open>packages/rules/src/domain.ts\<close> and the afterblow netting of
  \<open>packages/rules/src/afterblow.ts\<close>. A time stamp is the instant its ISO string denotes,
  in milliseconds since the epoch.
\<close>

type_synonym timestamp = int
type_synonym reg_id = string

datatype exchange_type = Clean | Afterblow | DoubleHit | NoExchange

datatype color = Red | Blue

text \<open>\<open>StrikerColor\<close> is a colour or null.\<close>

type_synonym striker_color = "color option"

datatype phase_type = PoolPhase | SingleElimPhase | DoubleElimPhase | SwissPhase

record exchange =
  ex_id :: string
  clientUuid :: string
  ex_matchId :: string
  ex_sequence :: int
  ex_type :: exchange_type
  ex_occurredAt :: timestamp
  firstStrikerColor :: striker_color
  firstStrikeValue :: "int option"
  afterblowValue :: "int option"
  noExchangeReason :: "string option"
  voided :: bool

datatype match_status = Scheduled | MRunning | MPaused | MCompleted | MVoided

record match =
  m_id :: string
  redRegistrationId :: reg_id
  blueRegistrationId :: reg_id
  rulesetCode :: string
  rulesetVersion :: string
  m_status :: match_status
  m_phaseType :: "phase_type option"
  matchNumberLabel :: "string option"

text \<open>A finished bout, as the standings read it.\<close>

record scored_match =
  sm_id :: string
  sm_redRegistrationId :: reg_id
  sm_blueRegistrationId :: reg_id
  sm_winnerRegistrationId :: "reg_id option"
  sm_endReason :: "string option"
  sm_redScore :: "int option"
  sm_blueScore :: "int option"
  sm_exchanges :: "exchange list"

record match_score =
  redScore :: int
  blueScore :: int
  redWins :: int
  blueWins :: int
  redTargetPoints :: int
  blueTargetPoints :: int
  redTimesHit :: int
  blueTimesHit :: int
  doubles :: int
  redBelowZero :: "int option"
  blueBelowZero :: "int option"

subsection \<open>The other colour\<close>

text \<open>
  The fairness theorems say that exchanging the two fighters exchanges the result: the
  mirror image of an exchange, and of a score.
\<close>

fun other :: "color \<Rightarrow> color" where
  "other Red = Blue"
| "other Blue = Red"

lemma other_other [simp]: "other (other c) = c"
  by (cases c) simp_all

definition mirror_exchange :: "exchange \<Rightarrow> exchange" where
  "mirror_exchange ex = ex\<lparr>firstStrikerColor := map_option other (firstStrikerColor ex)\<rparr>"

definition mirror_score :: "match_score \<Rightarrow> match_score" where
  "mirror_score s =
     \<lparr>redScore = blueScore s, blueScore = redScore s, redWins = blueWins s, blueWins = redWins s,
      redTargetPoints = blueTargetPoints s, blueTargetPoints = redTargetPoints s,
      redTimesHit = blueTimesHit s, blueTimesHit = redTimesHit s, doubles = doubles s,
      redBelowZero = blueBelowZero s, blueBelowZero = redBelowZero s\<rparr>"

lemma mirror_exchange_fields [simp]:
  "ex_type (mirror_exchange ex) = ex_type ex"
  "voided (mirror_exchange ex) = voided ex"
  "firstStrikeValue (mirror_exchange ex) = firstStrikeValue ex"
  "afterblowValue (mirror_exchange ex) = afterblowValue ex"
  "firstStrikerColor (mirror_exchange ex) = map_option other (firstStrikerColor ex)"
  by (simp_all add: mirror_exchange_def)

lemma mirror_score_mirror_score [simp]: "mirror_score (mirror_score s) = s"
  by (simp add: mirror_score_def)

subsection \<open>Afterblow netting\<close>

datatype afterblow_mode = Full | Deductive

text \<open>\<open>computeAfterblowDeltas\<close>: what the attacker and the defender score, in that order.\<close>

definition computeAfterblowDeltas :: "afterblow_mode \<Rightarrow> int \<Rightarrow> int \<Rightarrow> int \<times> int" where
  "computeAfterblowDeltas mode attackerPts defenderPts =
     (if mode = Deductive then (max 0 (attackerPts - defenderPts), 0)
      else (attackerPts, defenderPts))"

lemma computeAfterblowDeltas_simps [simp]:
  "computeAfterblowDeltas Full a d = (a, d)"
  "computeAfterblowDeltas Deductive a d = (max 0 (a - d), 0)"
  by (simp_all add: computeAfterblowDeltas_def)

lemma computeAfterblowDeltas_nonneg:
  "0 \<le> a \<Longrightarrow> 0 \<le> d \<Longrightarrow> computeAfterblowDeltas mode a d = (x, y) \<Longrightarrow> 0 \<le> x \<and> x \<le> a \<and> 0 \<le> y \<and> y \<le> d"
  by (cases mode) auto

end
