(* ===== verification/Match_Format.thy ===== *)
theory Match_Format
  imports Domain
begin

section \<open>The match format: the arithmetic of a bout\<close>

text \<open>
  \<open>packages/rules/src/match-format.ts\<close>, function by function and in its order: the
  per-phase settings, the chain of remedies for a level bout, the score of a list of
  exchanges, the point cap, the doubles ceiling, the outcome of a round and of a series.
\<close>

subsection \<open>The configuration\<close>

datatype scoring_direction = Normal | ReverseZeroLoses
datatype timer_mode = Countdown | Countup
datatype max_double_hit_outcome = DoubleLossZeroScores | DrawZeroScores | ResultStands

datatype level_step = Draw | SuddenDeath | ExtraTime int

record 'a by_phase =
  bp_pool :: 'a
  bp_swiss :: "'a option"
  bp_bracket :: 'a
  bp_finals :: 'a

datatype format_phase = FPool | FSwiss | FBracket | FFinals

record match_format_config =
  pointCap :: int
  scoringDirection :: scoring_direction
  timerMode :: timer_mode
  timeLimitsSeconds :: "int option by_phase"
  softClockLimitSeconds :: int
  maxDoubleHits :: "int option"
  maxDoubleHitOutcome :: max_double_hit_outcome
  bestOf :: "int by_phase option"
  levelAtTime :: "level_step list by_phase"

subsection \<open>The phase of a bout\<close>

definition isMedalMatchLabel :: "string option \<Rightarrow> bool" where
  "isMedalMatchLabel label =
     (let normalized = js_upper (js_trim (or_else label ''''))
      in normalized \<in> set [''F'', ''FINAL'', ''GOLD'', ''GOLD MEDAL MATCH'', ''3RD'', ''BRONZE'',
                          ''BRONZE MEDAL MATCH''])"

definition formatPhaseOf :: "phase_type option \<Rightarrow> string option \<Rightarrow> format_phase" where
  "formatPhaseOf ph label =
     (if ph = Some PoolPhase then FPool
      else if ph = Some SwissPhase then FSwiss
      else if isMedalMatchLabel label then FFinals
      else FBracket)"

text \<open>
  \<open>forPhase\<close>. The Swiss value is read with \<open>??\<close>, which also skips a value that is
  itself null: the first argument says which values of the type are.
\<close>

definition forPhase :: "('a \<Rightarrow> bool) \<Rightarrow> 'a by_phase \<Rightarrow> phase_type option \<Rightarrow> string option \<Rightarrow> 'a" where
  "forPhase nullish b ph label =
     (case formatPhaseOf ph label of
        FSwiss \<Rightarrow> (case bp_swiss b of None \<Rightarrow> bp_pool b
                   | Some v \<Rightarrow> if nullish v then bp_pool b else v)
      | FPool \<Rightarrow> bp_pool b
      | FBracket \<Rightarrow> bp_bracket b
      | FFinals \<Rightarrow> bp_finals b)"

definition effectiveTimeLimitSeconds ::
    "match_format_config \<Rightarrow> phase_type option \<Rightarrow> string option \<Rightarrow> int option" where
  "effectiveTimeLimitSeconds config ph label =
     forPhase (\<lambda>v. v = None) (timeLimitsSeconds config) ph label"

definition getEffectiveMatchTimeLimitSeconds :: "match \<Rightarrow> match_format_config \<Rightarrow> int option" where
  "getEffectiveMatchTimeLimitSeconds m config =
     effectiveTimeLimitSeconds config (m_phaseType m) (matchNumberLabel m)"

definition getEffectiveBestOf :: "match \<Rightarrow> match_format_config \<Rightarrow> int" where
  "getEffectiveBestOf m config =
     (let b = or_else (bestOf config) \<lparr>bp_pool = 1, bp_swiss = None, bp_bracket = 1, bp_finals = 1\<rparr>
      in forPhase (\<lambda>_. False) b (m_phaseType m) (matchNumberLabel m))"

subsection \<open>The chain of remedies for a level bout\<close>

definition levelChain ::
    "match_format_config \<Rightarrow> phase_type option \<Rightarrow> string option \<Rightarrow> level_step list" where
  "levelChain config ph label = forPhase (\<lambda>_. False) (levelAtTime config) ph label"

definition pendingLevelStep ::
    "match_format_config \<Rightarrow> phase_type option \<Rightarrow> string option \<Rightarrow> nat \<Rightarrow> level_step option" where
  "pendingLevelStep config ph label stepsTaken =
     (let chain = levelChain config ph label
      in if stepsTaken < length chain then Some (chain ! stepsTaken) else None)"

definition chainAllowsLevelEnd ::
    "match_format_config \<Rightarrow> phase_type option \<Rightarrow> string option \<Rightarrow> bool" where
  "chainAllowsLevelEnd config ph label = list_ex (\<lambda>s. s = Draw) (levelChain config ph label)"

subsection \<open>A series of rounds\<close>

text \<open>\<open>Math.ceil(Math.max(1, bestOf) / 2)\<close>.\<close>

definition roundWinTarget :: "int \<Rightarrow> int" where
  "roundWinTarget n = (max 1 n + 1) div 2"

definition leadingColor :: "int \<Rightarrow> int \<Rightarrow> color option" where
  "leadingColor red blue = (if red > blue then Some Red else if blue > red then Some Blue else None)"

record series_result =
  sr_over :: bool
  sr_winnerColor :: "color option"
  sr_roundsSpent :: bool

text \<open>A closed round is given by its winner: a colour, or none for a drawn round.\<close>

definition roundWins :: "color \<Rightarrow> color option list \<Rightarrow> int" where
  "roundWins c closedRounds = int (length (filter (\<lambda>r. r = Some c) closedRounds))"

definition seriesResult :: "color option list \<Rightarrow> int \<Rightarrow> series_result" where
  "seriesResult closedRounds n =
     (let red = roundWins Red closedRounds; blue = roundWins Blue closedRounds;
          target = roundWinTarget n;
          clinched = (red \<ge> target \<or> blue \<ge> target);
          roundsSpent = (\<not> clinched \<and> int (length closedRounds) \<ge> max 1 n)
      in \<lparr>sr_over = (clinched \<or> roundsSpent), sr_winnerColor = leadingColor red blue,
          sr_roundsSpent = roundsSpent\<rparr>)"

subsection \<open>The doubles ceiling and the result of a bout\<close>

definition getEffectiveMaxDoubles :: "phase_type option \<Rightarrow> match_format_config \<Rightarrow> int option" where
  "getEffectiveMaxDoubles ph config =
     (if ph = Some PoolPhase \<or> ph = Some SwissPhase then maxDoubleHits config else None)"

text \<open>The test both the scorer and the round make: is there a ceiling, and is it reached?\<close>

definition atDoublesCeiling :: "phase_type option \<Rightarrow> match_format_config \<Rightarrow> int \<Rightarrow> bool" where
  "atDoublesCeiling ph config n =
     (case getEffectiveMaxDoubles ph config of None \<Rightarrow> False | Some most \<Rightarrow> n \<ge> most)"

definition isDoubleLossBout :: "string option \<Rightarrow> bool" where
  "isDoubleLossBout endReason = (endReason = Some ''max_doubles'')"

text \<open>The columns of a bout that the winner ladder reads.\<close>

record bout_columns =
  bc_winner :: "reg_id option"
  bc_red :: "reg_id option"
  bc_blue :: "reg_id option"
  bc_redScore :: "int option"
  bc_blueScore :: "int option"
  bc_endReason :: "string option"

definition winnerColorFrom :: "bout_columns \<Rightarrow> color option" where
  "winnerColorFrom bout =
     (case bc_winner bout of
        Some winner \<Rightarrow>
          if Some winner = bc_red bout then Some Red
          else if Some winner = bc_blue bout then Some Blue
          else None
      | None \<Rightarrow> leadingColor (or_else (bc_redScore bout) 0) (or_else (bc_blueScore bout) 0))"

datatype bout_outcome = Win | Loss | DrawnBout

text \<open>\<open>boutOutcomes\<close>: what the bout was worth to red and to blue, in that order.\<close>

definition boutOutcomes :: "bout_columns \<Rightarrow> bout_outcome \<times> bout_outcome" where
  "boutOutcomes bout =
     (if isDoubleLossBout (bc_endReason bout) then (Loss, Loss)
      else (case winnerColorFrom bout of
              Some Red \<Rightarrow> (Win, Loss)
            | Some Blue \<Rightarrow> (Loss, Win)
            | None \<Rightarrow> (DrawnBout, DrawnBout)))"

definition maxDoubleHitZeroesScores :: "match_format_config \<Rightarrow> bool" where
  "maxDoubleHitZeroesScores config = (maxDoubleHitOutcome config \<noteq> ResultStands)"

definition maxDoubleHitEndReason :: "match_format_config \<Rightarrow> string" where
  "maxDoubleHitEndReason config =
     (case maxDoubleHitOutcome config of
        DrawZeroScores \<Rightarrow> ''max_doubles_draw''
      | ResultStands \<Rightarrow> ''max_doubles_result_stands''
      | DoubleLossZeroScores \<Rightarrow> ''max_doubles'')"

subsection \<open>The editions of the end decision\<close>

datatype decision_edition = Edition_2026_04 | Edition_2026_10

definition decision_editions :: "(string \<times> decision_edition) list" where
  "decision_editions = [(''2026-04'', Edition_2026_04), (''2026-10'', Edition_2026_10)]"

definition isDecisionEdition :: "string \<Rightarrow> bool" where
  "isDecisionEdition value = list_ex (\<lambda>edition. fst edition = value) decision_editions"

text \<open>\<open>COUNTDOWN_RULES\<close>: both rules came with the edition of 2026-10.\<close>

fun lessFarBelowLeads :: "decision_edition \<Rightarrow> bool" where
  "lessFarBelowLeads Edition_2026_04 = False"
| "lessFarBelowLeads Edition_2026_10 = True"

fun doublesBeforeCap :: "decision_edition \<Rightarrow> bool" where
  "doublesBeforeCap Edition_2026_04 = False"
| "doublesBeforeCap Edition_2026_10 = True"

subsection \<open>The point cap\<close>

definition capLeader :: "match_score \<Rightarrow> match_format_config \<Rightarrow> decision_edition \<Rightarrow> color option" where
  "capLeader score config edition =
     (if scoringDirection config \<noteq> ReverseZeroLoses then leadingColor (redScore score) (blueScore score)
      else if \<not> lessFarBelowLeads edition then leadingColor (redScore score) (blueScore score)
      else leadingColor (redScore score - or_else (redBelowZero score) 0)
                        (blueScore score - or_else (blueBelowZero score) 0))"

definition pointCapWinnerColor ::
    "match_score \<Rightarrow> match_format_config \<Rightarrow> decision_edition \<Rightarrow> color option" where
  "pointCapWinnerColor score config edition =
     (if scoringDirection config = ReverseZeroLoses then
        (if redScore score \<le> 0 \<and> blueScore score \<le> 0 then capLeader score config edition
         else if redScore score \<le> 0 then Some Blue
         else if blueScore score \<le> 0 then Some Red
         else None)
      else if redScore score \<ge> pointCap config \<and> blueScore score \<ge> pointCap config
        then leadingColor (redScore score) (blueScore score)
      else if redScore score \<ge> pointCap config then Some Red
      else if blueScore score \<ge> pointCap config then Some Blue
      else None)"

definition isPointCapReached :: "match_score \<Rightarrow> match_format_config \<Rightarrow> bool" where
  "isPointCapReached score config =
     (if scoringDirection config = ReverseZeroLoses then redScore score \<le> 0 \<or> blueScore score \<le> 0
      else redScore score \<ge> pointCap config \<or> blueScore score \<ge> pointCap config)"

definition pointCapEndsBout ::
    "phase_type option \<Rightarrow> string option \<Rightarrow> match_score \<Rightarrow> match_format_config \<Rightarrow> decision_edition \<Rightarrow> bool" where
  "pointCapEndsBout ph label score config edition =
     (if \<not> isPointCapReached score config then False
      else if capLeader score config edition \<noteq> None then True
      else chainAllowsLevelEnd config ph label)"

definition getPointCapWinnerRegistrationId ::
    "match \<Rightarrow> match_score \<Rightarrow> match_format_config \<Rightarrow> decision_edition \<Rightarrow> reg_id option" where
  "getPointCapWinnerRegistrationId m score config edition =
     (case pointCapWinnerColor score config edition of
        None \<Rightarrow> None
      | Some c \<Rightarrow> Some (if c = Red then redRegistrationId m else blueRegistrationId m))"

subsection \<open>The clock's numbers\<close>

definition displayClockMs ::
    "int \<Rightarrow> match_format_config \<Rightarrow> phase_type option \<Rightarrow> string option \<Rightarrow> int" where
  "displayClockMs elapsedMs config ph label =
     (if timerMode config = Countup then max 0 elapsedMs
      else (case effectiveTimeLimitSeconds config ph label of
              None \<Rightarrow> max 0 elapsedMs
            | Some limitSeconds \<Rightarrow> max 0 (limitSeconds * 1000 - elapsedMs)))"

definition timeIsFinished ::
    "int \<Rightarrow> match_format_config \<Rightarrow> phase_type option \<Rightarrow> string option \<Rightarrow> bool" where
  "timeIsFinished elapsedMs config ph label =
     (case effectiveTimeLimitSeconds config ph label of
        None \<Rightarrow> True
      | Some limitSeconds \<Rightarrow> elapsedMs \<ge> limitSeconds * 1000)"

definition isSoftClockLocked :: "match \<Rightarrow> int \<Rightarrow> bool \<Rightarrow> match_format_config \<Rightarrow> bool" where
  "isSoftClockLocked m elapsedMs clockRunning config =
     (if clockRunning \<or> timerMode config \<noteq> Countdown \<or> softClockLimitSeconds config \<le> 0 then False
      else (case getEffectiveMatchTimeLimitSeconds m config of
              None \<Rightarrow> False
            | Some limitSeconds \<Rightarrow>
                (let remainingMs = max 0 (limitSeconds * 1000 - elapsedMs)
                 in remainingMs < softClockLimitSeconds config * 1000)))"

subsection \<open>The score of a list of exchanges\<close>

text \<open>\<open>applyScoringDirection\<close> and \<open>belowZero\<close>: red's number, then blue's.\<close>

definition applyScoringDirection :: "match_format_config \<Rightarrow> int \<Rightarrow> int \<Rightarrow> int \<times> int" where
  "applyScoringDirection config redEarned blueEarned =
     (if scoringDirection config \<noteq> ReverseZeroLoses then (redEarned, blueEarned)
      else (max 0 (pointCap config - blueEarned), max 0 (pointCap config - redEarned)))"

definition belowZero :: "match_format_config \<Rightarrow> int \<Rightarrow> int \<Rightarrow> int option \<times> int option" where
  "belowZero config redEarned blueEarned =
     (if scoringDirection config \<noteq> ReverseZeroLoses then (None, None)
      else (Some (max 0 (blueEarned - pointCap config)), Some (max 0 (redEarned - pointCap config))))"

text \<open>The running totals of the loop in \<open>computeMatchFormatScore\<close>.\<close>

record tally =
  redEarned :: int
  blueEarned :: int
  t_redTargetPoints :: int
  t_blueTargetPoints :: int
  t_redTimesHit :: int
  t_blueTimesHit :: int
  t_doubles :: int

definition zero_tally :: tally where
  "zero_tally = \<lparr>redEarned = 0, blueEarned = 0, t_redTargetPoints = 0, t_blueTargetPoints = 0,
     t_redTimesHit = 0, t_blueTimesHit = 0, t_doubles = 0\<rparr>"

text \<open>One turn of the loop: the switch on the type of the exchange.\<close>

definition tallyStep :: "afterblow_mode \<Rightarrow> exchange \<Rightarrow> tally \<Rightarrow> tally" where
  "tallyStep mode ex t =
     (let v = or_else (firstStrikeValue ex) 0 in
      case ex_type ex of
        Clean \<Rightarrow>
          (case firstStrikerColor ex of
             Some Red \<Rightarrow> t\<lparr>redEarned := redEarned t + v, t_redTargetPoints := t_redTargetPoints t + v,
                          t_blueTimesHit := t_blueTimesHit t + 1\<rparr>
           | Some Blue \<Rightarrow> t\<lparr>blueEarned := blueEarned t + v, t_blueTargetPoints := t_blueTargetPoints t + v,
                           t_redTimesHit := t_redTimesHit t + 1\<rparr>
           | None \<Rightarrow> t)
      | Afterblow \<Rightarrow>
          (let (attackerDelta, defenderDelta) =
             computeAfterblowDeltas mode v (or_else (afterblowValue ex) 0) in
           case firstStrikerColor ex of
             Some Red \<Rightarrow>
               t\<lparr>redEarned := redEarned t + attackerDelta,
                 t_redTargetPoints := t_redTargetPoints t + attackerDelta,
                 blueEarned := blueEarned t + defenderDelta,
                 t_blueTargetPoints := t_blueTargetPoints t + defenderDelta,
                 t_redTimesHit := t_redTimesHit t + 1\<rparr>
           | Some Blue \<Rightarrow>
               t\<lparr>blueEarned := blueEarned t + attackerDelta,
                 t_blueTargetPoints := t_blueTargetPoints t + attackerDelta,
                 redEarned := redEarned t + defenderDelta,
                 t_redTargetPoints := t_redTargetPoints t + defenderDelta,
                 t_blueTimesHit := t_blueTimesHit t + 1\<rparr>
           | None \<Rightarrow> t)
      | DoubleHit \<Rightarrow> t\<lparr>t_doubles := t_doubles t + 1\<rparr>
      | NoExchange \<Rightarrow> t)"

definition tallyOf :: "afterblow_mode \<Rightarrow> exchange list \<Rightarrow> tally" where
  "tallyOf mode exchanges = fold (tallyStep mode) (filter (\<lambda>e. \<not> voided e) exchanges) zero_tally"

definition computeMatchFormatScore ::
    "phase_type option \<Rightarrow> exchange list \<Rightarrow> match_format_config \<Rightarrow> afterblow_mode \<Rightarrow> match_score" where
  "computeMatchFormatScore ph exchanges config mode =
     (let t = tallyOf mode exchanges;
          atCeiling = (atDoublesCeiling ph config (t_doubles t) \<and> maxDoubleHitZeroesScores config);
          (red, blue) = applyScoringDirection config (redEarned t) (blueEarned t);
          (redBelow, blueBelow) = belowZero config (redEarned t) (blueEarned t)
      in \<lparr>redScore = (if atCeiling then 0 else red), blueScore = (if atCeiling then 0 else blue),
          redWins = 0, blueWins = 0,
          redTargetPoints = t_redTargetPoints t, blueTargetPoints = t_blueTargetPoints t,
          redTimesHit = t_redTimesHit t, blueTimesHit = t_blueTimesHit t, doubles = t_doubles t,
          redBelowZero = (if atCeiling then None else redBelow),
          blueBelowZero = (if atCeiling then None else blueBelow)\<rparr>)"

subsection \<open>The outcome of a round\<close>

record round_outcome =
  autoOver :: bool
  ro_winnerColor :: "color option"
  ro_endReason :: "string option"

definition roundOutcome ::
    "phase_type option \<Rightarrow> string option \<Rightarrow> match_score \<Rightarrow> match_format_config \<Rightarrow> decision_edition \<Rightarrow> round_outcome" where
  "roundOutcome ph label score config edition =
     (let atTheCeiling = atDoublesCeiling ph config (doubles score);
          ceilingOutcome = \<lparr>autoOver = True,
                     ro_winnerColor = (if maxDoubleHitZeroesScores config then None
                                       else leadingColor (redScore score) (blueScore score)),
                     ro_endReason = Some (maxDoubleHitEndReason config)\<rparr>;
          countdown = (scoringDirection config = ReverseZeroLoses)
      in if atTheCeiling \<and> countdown \<and> doublesBeforeCap edition then ceilingOutcome
         else if pointCapEndsBout ph label score config edition then
           \<lparr>autoOver = True, ro_winnerColor = pointCapWinnerColor score config edition,
            ro_endReason = Some ''first_to_points''\<rparr>
         else if atTheCeiling then ceilingOutcome
         else \<lparr>autoOver = False, ro_winnerColor = None, ro_endReason = None\<rparr>)"

text \<open>
  \<open>evaluateRound\<close>: the score of the round, by the scorer the caller hands over, and the
  outcome on that score. \<open>defaultScoreRound\<close> is the scorer of a caller that has none.
\<close>

definition evaluateRound ::
    "match \<Rightarrow> exchange list \<Rightarrow> match_format_config \<Rightarrow> decision_edition \<Rightarrow>
     (match \<Rightarrow> exchange list \<Rightarrow> match_score) \<Rightarrow> match_score \<times> round_outcome" where
  "evaluateRound m roundExchanges config edition scoreRound =
     (let score = scoreRound m roundExchanges
      in (score, roundOutcome (m_phaseType m) (matchNumberLabel m) score config edition))"

definition defaultScoreRound :: "match_format_config \<Rightarrow> match \<Rightarrow> exchange list \<Rightarrow> match_score" where
  "defaultScoreRound config m exchanges = computeMatchFormatScore (m_phaseType m) exchanges config Full"

subsection \<open>The federal default, and a bout to try the theorems on\<close>

text \<open>\<open>DEFAULT_MATCH_FORMAT_CONFIG\<close> of \<open>packages/types/src/scoring-config.ts\<close>.\<close>

definition default_match_format_config :: match_format_config where
  "default_match_format_config =
     \<lparr>pointCap = 10, scoringDirection = Normal, timerMode = Countdown,
      timeLimitsSeconds = \<lparr>bp_pool = Some 90, bp_swiss = None, bp_bracket = Some 90, bp_finals = Some 90\<rparr>,
      softClockLimitSeconds = 5, maxDoubleHits = Some 4, maxDoubleHitOutcome = DoubleLossZeroScores,
      bestOf = Some \<lparr>bp_pool = 1, bp_swiss = None, bp_bracket = 1, bp_finals = 1\<rparr>,
      levelAtTime = \<lparr>bp_pool = [Draw], bp_swiss = None, bp_bracket = [ExtraTime 60, SuddenDeath],
                     bp_finals = [ExtraTime 60, SuddenDeath]\<rparr>\<rparr>"

text \<open>A clean hit and a double, for the examples.\<close>

definition hit :: "color \<Rightarrow> int \<Rightarrow> exchange" where
  "hit c v = \<lparr>ex_id = [], clientUuid = [], ex_matchId = [], ex_sequence = 0, ex_type = Clean,
     ex_occurredAt = 0, firstStrikerColor = Some c, firstStrikeValue = Some v, afterblowValue = None,
     noExchangeReason = None, voided = False\<rparr>"

definition double_hit :: exchange where
  "double_hit = (hit Red 0)\<lparr>ex_type := DoubleHit, firstStrikerColor := None, firstStrikeValue := None\<rparr>"

lemma hit_simps [simp]:
  "ex_type (hit c v) = Clean" "firstStrikerColor (hit c v) = Some c"
  "firstStrikeValue (hit c v) = Some v" "afterblowValue (hit c v) = None" "\<not> voided (hit c v)"
  "ex_type double_hit = DoubleHit" "\<not> voided double_hit" "firstStrikerColor double_hit = None"
  "firstStrikeValue double_hit = None" "afterblowValue double_hit = None"
  by (simp_all add: hit_def double_hit_def)

lemma tallyStep_hit [simp]:
  "tallyStep mode (hit Red v) t = t\<lparr>redEarned := redEarned t + v,
     t_redTargetPoints := t_redTargetPoints t + v, t_blueTimesHit := t_blueTimesHit t + 1\<rparr>"
  "tallyStep mode (hit Blue v) t = t\<lparr>blueEarned := blueEarned t + v,
     t_blueTargetPoints := t_blueTargetPoints t + v, t_redTimesHit := t_redTimesHit t + 1\<rparr>"
  "tallyStep mode double_hit t = t\<lparr>t_doubles := t_doubles t + 1\<rparr>"
  by (simp_all add: tallyStep_def)

lemma default_match_format_config_simps [simp]:
  "pointCap default_match_format_config = 10" "scoringDirection default_match_format_config = Normal"
  "maxDoubleHits default_match_format_config = Some 4"
  "maxDoubleHitOutcome default_match_format_config = DoubleLossZeroScores"
  "levelAtTime default_match_format_config = \<lparr>bp_pool = [Draw], bp_swiss = None,
     bp_bracket = [ExtraTime 60, SuddenDeath], bp_finals = [ExtraTime 60, SuddenDeath]\<rparr>"
  "timeLimitsSeconds default_match_format_config =
     \<lparr>bp_pool = Some 90, bp_swiss = None, bp_bracket = Some 90, bp_finals = Some 90\<rparr>"
  "timerMode default_match_format_config = Countdown"
  by (simp_all add: default_match_format_config_def)

declare formatPhaseOf_def [match_format_defs] forPhase_def [match_format_defs]
  effectiveTimeLimitSeconds_def [match_format_defs] levelChain_def [match_format_defs]
  pendingLevelStep_def [match_format_defs] chainAllowsLevelEnd_def [match_format_defs]
  roundWinTarget_def [match_format_defs] leadingColor_def [match_format_defs]
  roundWins_def [match_format_defs] seriesResult_def [match_format_defs]
  getEffectiveMaxDoubles_def [match_format_defs] capLeader_def [match_format_defs]
  pointCapWinnerColor_def [match_format_defs] isPointCapReached_def [match_format_defs]
  pointCapEndsBout_def [match_format_defs] displayClockMs_def [match_format_defs]
  timeIsFinished_def [match_format_defs] applyScoringDirection_def [match_format_defs]
  belowZero_def [match_format_defs] roundOutcome_def [match_format_defs]

subsection \<open>Leaders and winners\<close>

lemma leadingColor_other: "leadingColor b a = map_option other (leadingColor a b)"
  by (simp add: leadingColor_def)

lemma leadingColor_None [simp]: "leadingColor a b = None \<longleftrightarrow> a = b"
  by (simp add: leadingColor_def)

lemma capLeader_winner:
  "isPointCapReached score config \<Longrightarrow> capLeader score config edition \<noteq> None \<Longrightarrow>
   pointCapWinnerColor score config edition \<noteq> None"
  by (auto simp: isPointCapReached_def capLeader_def pointCapWinnerColor_def split: if_splits)

lemma roundOutcome_bracket:
  assumes "ph \<noteq> Some PoolPhase" "ph \<noteq> Some SwissPhase"
  shows "roundOutcome ph label score config edition =
    (if pointCapEndsBout ph label score config edition then
           \<lparr>autoOver = True, ro_winnerColor = pointCapWinnerColor score config edition,
            ro_endReason = Some ''first_to_points''\<rparr>
     else \<lparr>autoOver = False, ro_winnerColor = None, ro_endReason = None\<rparr>)"
  using assms by (simp add: roundOutcome_def atDoublesCeiling_def getEffectiveMaxDoubles_def)

text \<open>
  C23. A round that ends by itself outside the group stages, in a phase whose chain of
  remedies has no draw, has a winner, and it ended on the point cap: a bracket round can
  never close level and stall the bracket, whatever the score, the scoring direction and
  the edition.
\<close>

theorem bracket_round_has_winner:
  assumes "ph \<noteq> Some PoolPhase" and "ph \<noteq> Some SwissPhase"
    and "\<not> chainAllowsLevelEnd config ph label"
    and "autoOver (roundOutcome ph label score config edition)"
  shows "(\<exists>c. ro_winnerColor (roundOutcome ph label score config edition) = Some c) \<and>
     ro_endReason (roundOutcome ph label score config edition) = Some ''first_to_points''"
  using assms capLeader_winner [of score config edition]
  by (auto simp: roundOutcome_bracket pointCapEndsBout_def split: if_splits)

theorem bracket_round_has_winner_witness:
  "\<exists>c. ro_winnerColor (roundOutcome (Some SingleElimPhase) None
     (computeMatchFormatScore (Some SingleElimPhase) [hit Red 10] default_match_format_config Full)
     default_match_format_config Edition_2026_10) = Some c"
proof -
  have "autoOver (roundOutcome (Some SingleElimPhase) None
     (computeMatchFormatScore (Some SingleElimPhase) [hit Red 10] default_match_format_config Full)
     default_match_format_config Edition_2026_10)"
    by (simp add: roundOutcome_def pointCapEndsBout_def isPointCapReached_def capLeader_def leadingColor_def
        computeMatchFormatScore_def tallyOf_def zero_tally_def applyScoringDirection_def belowZero_def
        atDoublesCeiling_def getEffectiveMaxDoubles_def)
  moreover have "\<not> chainAllowsLevelEnd default_match_format_config (Some SingleElimPhase) None"
    by (simp add: chainAllowsLevelEnd_def levelChain_def forPhase_def formatPhaseOf_def isMedalMatchLabel_def
        js_trim_def js_upper_def)
  ultimately show ?thesis
    using bracket_round_has_winner [of "Some SingleElimPhase" default_match_format_config None] by simp
qed

subsection \<open>The score depends on which exchanges count, not on their order\<close>

lemma tallyStep_commute: "tallyStep mode x \<circ> tallyStep mode y = tallyStep mode y \<circ> tallyStep mode x"
  by (rule ext, cases mode; cases "ex_type x"; cases "ex_type y")
     (auto simp: tallyStep_def Let_def split: option.splits color.splits)

lemma tallyOf_mset:
  "mset (filter (\<lambda>e. \<not> voided e) xs) = mset (filter (\<lambda>e. \<not> voided e) ys) \<Longrightarrow>
   tallyOf mode xs = tallyOf mode ys"
  unfolding tallyOf_def by (rule fun_cong [OF fold_multiset_equiv]) (auto intro: tallyStep_commute)

subsection \<open>Exchanging the corners\<close>

definition mirror_tally :: "tally \<Rightarrow> tally" where
  "mirror_tally t = \<lparr>redEarned = blueEarned t, blueEarned = redEarned t,
     t_redTargetPoints = t_blueTargetPoints t, t_blueTargetPoints = t_redTargetPoints t,
     t_redTimesHit = t_blueTimesHit t, t_blueTimesHit = t_redTimesHit t, t_doubles = t_doubles t\<rparr>"

lemma tallyStep_mirror:
  "tallyStep mode (mirror_exchange ex) (mirror_tally t) = mirror_tally (tallyStep mode ex t)"
  by (cases mode; cases "ex_type ex")
     (auto simp: tallyStep_def mirror_tally_def Let_def split: option.splits color.splits)

lemma fold_tallyStep_mirror:
  "fold (tallyStep mode) (map mirror_exchange xs) (mirror_tally t) = mirror_tally (fold (tallyStep mode) xs t)"
  by (induction xs arbitrary: t) (simp_all add: tallyStep_mirror)

lemma tallyOf_mirror: "tallyOf mode (map mirror_exchange xs) = mirror_tally (tallyOf mode xs)"
proof -
  have "filter (\<lambda>e. \<not> voided e) (map mirror_exchange xs) = map mirror_exchange (filter (\<lambda>e. \<not> voided e) xs)"
    by (induction xs) simp_all
  moreover have "zero_tally = mirror_tally zero_tally" by (simp add: zero_tally_def mirror_tally_def)
  ultimately show ?thesis using fold_tallyStep_mirror [of mode _ zero_tally] by (simp add: tallyOf_def)
qed

lemma computeMatchFormatScore_mirror:
  "computeMatchFormatScore ph (map mirror_exchange xs) config mode =
   mirror_score (computeMatchFormatScore ph xs config mode)"
  by (simp add: computeMatchFormatScore_def tallyOf_mirror mirror_tally_def mirror_score_def
      applyScoringDirection_def belowZero_def Let_def)

lemma mirror_score_fields [simp]:
  "redScore (mirror_score s) = blueScore s" "blueScore (mirror_score s) = redScore s"
  "redBelowZero (mirror_score s) = blueBelowZero s" "blueBelowZero (mirror_score s) = redBelowZero s"
  "doubles (mirror_score s) = doubles s"
  by (simp_all add: mirror_score_def)

lemma capLeader_mirror: "capLeader (mirror_score s) config edition = map_option other (capLeader s config edition)"
  by (simp add: capLeader_def leadingColor_other [symmetric])

lemma pointCapEndsBout_mirror:
  "pointCapEndsBout ph label (mirror_score s) config edition = pointCapEndsBout ph label s config edition"
  by (auto simp: pointCapEndsBout_def capLeader_mirror isPointCapReached_def)

lemma pointCapWinnerColor_mirror:
  "pointCapWinnerColor (mirror_score s) config edition = map_option other (pointCapWinnerColor s config edition)"
  by (auto simp: pointCapWinnerColor_def capLeader_mirror leadingColor_other [symmetric])

definition mirror_outcome :: "round_outcome \<Rightarrow> round_outcome" where
  "mirror_outcome r = r\<lparr>ro_winnerColor := map_option other (ro_winnerColor r)\<rparr>"

lemma roundOutcome_mirror:
  "roundOutcome ph label (mirror_score s) config edition =
   mirror_outcome (roundOutcome ph label s config edition)"
  by (simp add: roundOutcome_def mirror_outcome_def pointCapEndsBout_mirror pointCapWinnerColor_mirror
     leadingColor_other [symmetric] Let_def)

subsection \<open>Bounds of the score\<close>

lemma tally_fold_nonneg:
  "(\<And>ex. ex \<in> set xs \<Longrightarrow> 0 \<le> or_else (firstStrikeValue ex) 0 \<and> 0 \<le> or_else (afterblowValue ex) 0) \<Longrightarrow>
   0 \<le> redEarned t \<and> 0 \<le> blueEarned t \<Longrightarrow>
   0 \<le> redEarned (fold (tallyStep mode) xs t) \<and> 0 \<le> blueEarned (fold (tallyStep mode) xs t)"
proof (induction xs arbitrary: t)
  case Nil
  then show ?case by simp
next
  case (Cons x xs)
  have "0 \<le> or_else (firstStrikeValue x) 0" "0 \<le> or_else (afterblowValue x) 0"
    using Cons.prems(1) [of x] by simp_all
  with Cons.prems(2) have "0 \<le> redEarned (tallyStep mode x t) \<and> 0 \<le> blueEarned (tallyStep mode x t)"
    by (cases mode; cases "ex_type x")
       (auto simp: tallyStep_def Let_def split: option.splits color.splits)
  with Cons show ?case by simp
qed

definition values_nonneg :: "exchange list \<Rightarrow> bool" where
  "values_nonneg xs =
     (\<forall>ex \<in> set xs. 0 \<le> or_else (firstStrikeValue ex) 0 \<and> 0 \<le> or_else (afterblowValue ex) 0)"

lemma tallyOf_nonneg:
  "values_nonneg xs \<Longrightarrow> 0 \<le> redEarned (tallyOf mode xs) \<and> 0 \<le> blueEarned (tallyOf mode xs)"
  unfolding tallyOf_def values_nonneg_def
  by (rule tally_fold_nonneg) (auto simp: zero_tally_def)

lemma score_fields:
  assumes "\<not> (atDoublesCeiling ph config (t_doubles (tallyOf mode xs)) \<and> maxDoubleHitZeroesScores config)"
  shows "redScore (computeMatchFormatScore ph xs config mode) =
      fst (applyScoringDirection config (redEarned (tallyOf mode xs)) (blueEarned (tallyOf mode xs)))"
    and "blueScore (computeMatchFormatScore ph xs config mode) =
      snd (applyScoringDirection config (redEarned (tallyOf mode xs)) (blueEarned (tallyOf mode xs)))"
    and "redBelowZero (computeMatchFormatScore ph xs config mode) =
      fst (belowZero config (redEarned (tallyOf mode xs)) (blueEarned (tallyOf mode xs)))"
    and "blueBelowZero (computeMatchFormatScore ph xs config mode) =
      snd (belowZero config (redEarned (tallyOf mode xs)) (blueEarned (tallyOf mode xs)))"
  using assms by (auto simp: computeMatchFormatScore_def Let_def case_prod_beta)

lemma score_doubles [simp]:
  "doubles (computeMatchFormatScore ph xs config mode) = t_doubles (tallyOf mode xs)"
  by (simp add: computeMatchFormatScore_def Let_def case_prod_beta)

lemma score_at_ceiling:
  assumes "atDoublesCeiling ph config (t_doubles (tallyOf mode xs))" and "maxDoubleHitZeroesScores config"
  shows "redScore (computeMatchFormatScore ph xs config mode) = 0"
    and "blueScore (computeMatchFormatScore ph xs config mode) = 0"
    and "redBelowZero (computeMatchFormatScore ph xs config mode) = None"
    and "blueBelowZero (computeMatchFormatScore ph xs config mode) = None"
  using assms by (simp_all add: computeMatchFormatScore_def Let_def case_prod_beta)

lemma score_in_range:
  assumes "values_nonneg xs"
  shows "0 \<le> redScore (computeMatchFormatScore ph xs config mode) \<and>
     0 \<le> blueScore (computeMatchFormatScore ph xs config mode) \<and>
     (scoringDirection config = ReverseZeroLoses \<and> 0 \<le> pointCap config \<longrightarrow>
        redScore (computeMatchFormatScore ph xs config mode) \<le> pointCap config \<and>
        blueScore (computeMatchFormatScore ph xs config mode) \<le> pointCap config)"
  using tallyOf_nonneg [OF assms, of mode]
  by (cases "atDoublesCeiling ph config (t_doubles (tallyOf mode xs)) \<and> maxDoubleHitZeroesScores config")
     (auto simp: score_at_ceiling score_fields applyScoringDirection_def)

subsection \<open>Counting down is counting up, read from the other side\<close>

lemma capLeader_earned:
  assumes "\<not> (atDoublesCeiling ph config (t_doubles (tallyOf mode xs)) \<and> maxDoubleHitZeroesScores config)"
    and "scoringDirection config = Normal \<or> edition = Edition_2026_10"
  shows "capLeader (computeMatchFormatScore ph xs config mode) config edition =
     leadingColor (redEarned (tallyOf mode xs)) (blueEarned (tallyOf mode xs))"
  using assms
  by (cases "scoringDirection config")
     (auto simp: capLeader_def score_fields applyScoringDirection_def belowZero_def leadingColor_def)

lemma isPointCapReached_earned:
  assumes "\<not> (atDoublesCeiling ph config (t_doubles (tallyOf mode xs)) \<and> maxDoubleHitZeroesScores config)"
  shows "isPointCapReached (computeMatchFormatScore ph xs config mode) config \<longleftrightarrow>
     pointCap config \<le> redEarned (tallyOf mode xs) \<or> pointCap config \<le> blueEarned (tallyOf mode xs)"
  using assms
  by (cases "scoringDirection config")
     (auto simp: isPointCapReached_def score_fields applyScoringDirection_def)

lemma pointCapWinnerColor_earned:
  assumes "\<not> (atDoublesCeiling ph config (t_doubles (tallyOf mode xs)) \<and> maxDoubleHitZeroesScores config)"
    and "scoringDirection config = Normal \<or> edition = Edition_2026_10"
  shows "pointCapWinnerColor (computeMatchFormatScore ph xs config mode) config edition =
    (if pointCap config \<le> redEarned (tallyOf mode xs) \<or> pointCap config \<le> blueEarned (tallyOf mode xs)
     then leadingColor (redEarned (tallyOf mode xs)) (blueEarned (tallyOf mode xs)) else None)"
  using assms capLeader_earned [OF assms]
  by (cases "scoringDirection config")
     (auto simp: pointCapWinnerColor_def score_fields applyScoringDirection_def leadingColor_def)

definition direction_free :: "match_format_config \<Rightarrow> match_format_config" where
  "direction_free config = config\<lparr>scoringDirection := Normal\<rparr>"

lemma direction_free_simps [simp]:
  "atDoublesCeiling ph (direction_free config) n = atDoublesCeiling ph config n"
  "maxDoubleHitZeroesScores (direction_free config) = maxDoubleHitZeroesScores config"
  "chainAllowsLevelEnd (direction_free config) ph label = chainAllowsLevelEnd config ph label"
  "pointCap (direction_free config) = pointCap config"
  "scoringDirection (direction_free config) = Normal"
  "maxDoubleHitEndReason (direction_free config) = maxDoubleHitEndReason config"
  by (simp_all add: direction_free_def atDoublesCeiling_def getEffectiveMaxDoubles_def
      maxDoubleHitZeroesScores_def chainAllowsLevelEnd_def levelChain_def maxDoubleHitEndReason_def)

lemma pointCapEndsBout_earned:
  assumes "\<not> (atDoublesCeiling ph config (t_doubles (tallyOf mode xs)) \<and> maxDoubleHitZeroesScores config)"
    and "scoringDirection config = Normal \<or> edition = Edition_2026_10"
  shows "pointCapEndsBout ph label (computeMatchFormatScore ph xs config mode) config edition \<longleftrightarrow>
     (pointCap config \<le> redEarned (tallyOf mode xs) \<or> pointCap config \<le> blueEarned (tallyOf mode xs)) \<and>
     (redEarned (tallyOf mode xs) \<noteq> blueEarned (tallyOf mode xs) \<or> chainAllowsLevelEnd config ph label)"
  using assms by (simp add: pointCapEndsBout_def isPointCapReached_earned capLeader_earned)

lemma countdown_agrees_below_ceiling:
  assumes "\<not> atDoublesCeiling ph config (t_doubles (tallyOf mode xs))"
  shows "roundOutcome ph label (computeMatchFormatScore ph xs config mode) config Edition_2026_10 =
     roundOutcome ph label (computeMatchFormatScore ph xs (direction_free config) mode)
       (direction_free config) Edition_2026_10"
  using assms
  by (simp add: roundOutcome_def pointCapEndsBout_earned pointCapWinnerColor_earned)

lemma countdown_agrees_at_ceiling:
  assumes "atDoublesCeiling ph config (t_doubles (tallyOf mode xs))"
    and "maxDoubleHitZeroesScores config" and "0 < pointCap config"
  shows "roundOutcome ph label (computeMatchFormatScore ph xs config mode) config Edition_2026_10 =
     \<lparr>autoOver = True, ro_winnerColor = None, ro_endReason = Some (maxDoubleHitEndReason config)\<rparr>"
  using assms
  by (cases "scoringDirection config")
     (auto simp: roundOutcome_def pointCapEndsBout_def isPointCapReached_def score_at_ceiling)



text \<open>
  The doubles ceiling ends a group-stage round with nobody ahead, and the reason the
  organiser chose travels as the end reason, for both scoring directions, from the
  edition of 2026-10 on; the edition before it ends the same countdown bout on the
  point cap, as a draw, in a phase that may end level.
\<close>

lemma doubles_ceiling_by_edition:
  assumes "0 < pointCap config" and "maxDoubleHitZeroesScores config"
    and "atDoublesCeiling ph config (t_doubles (tallyOf mode xs))"
  shows "roundOutcome ph label (computeMatchFormatScore ph xs config mode) config Edition_2026_10 =
       \<lparr>autoOver = True, ro_winnerColor = None, ro_endReason = Some (maxDoubleHitEndReason config)\<rparr> \<and>
     (scoringDirection config = ReverseZeroLoses \<and> chainAllowsLevelEnd config ph label \<longrightarrow>
      roundOutcome ph label (computeMatchFormatScore ph xs config mode) config Edition_2026_04 =
       \<lparr>autoOver = True, ro_winnerColor = None, ro_endReason = Some ''first_to_points''\<rparr>)"
proof (rule conjI)
  show "roundOutcome ph label (computeMatchFormatScore ph xs config mode) config Edition_2026_10 =
       \<lparr>autoOver = True, ro_winnerColor = None, ro_endReason = Some (maxDoubleHitEndReason config)\<rparr>"
    using assms by (simp add: countdown_agrees_at_ceiling)
qed (use assms in \<open>auto simp: roundOutcome_def pointCapEndsBout_def isPointCapReached_def
      score_at_ceiling pointCapWinnerColor_def capLeader_def\<close>)

text \<open>
  C31. Exchanging the two corners of every exchange exchanges the outcome of the round and
  nothing else: no rule of the score, the cap, the ceiling or the editions favours a side.
\<close>

theorem round_outcome_is_fair:
  "roundOutcome ph label (computeMatchFormatScore ph (map mirror_exchange xs) config mode) config edition =
   mirror_outcome (roundOutcome ph label (computeMatchFormatScore ph xs config mode) config edition)"
  by (simp add: computeMatchFormatScore_mirror roundOutcome_mirror)

text \<open>
  The score of a bout depends only on the multiset of its exchanges that are not
  voided: replaying them in any order, or dropping the voided rows, gives the same score.
\<close>

lemma score_ignores_order_and_voided:
  assumes "mset (filter (\<lambda>e. \<not> voided e) xs) = mset (filter (\<lambda>e. \<not> voided e) ys)"
  shows "computeMatchFormatScore ph xs config mode = computeMatchFormatScore ph ys config mode"
  using tallyOf_mset [OF assms, of mode] by (simp add: computeMatchFormatScore_def)

text \<open>
  With target values that are not negative, both scores are at least zero, and in a
  bout that counts down neither exceeds the point cap the fighters start from.
\<close>

lemma score_bounds:
  assumes "values_nonneg xs"
  shows "0 \<le> redScore (computeMatchFormatScore ph xs config mode) \<and>
     0 \<le> blueScore (computeMatchFormatScore ph xs config mode) \<and>
     (scoringDirection config = ReverseZeroLoses \<and> 0 \<le> pointCap config \<longrightarrow>
        redScore (computeMatchFormatScore ph xs config mode) \<le> pointCap config \<and>
        blueScore (computeMatchFormatScore ph xs config mode) \<le> pointCap config)"
  using assms by (rule score_in_range)

subsection \<open>A series of rounds ends in time\<close>

lemma roundWinTarget_bounds: "1 \<le> roundWinTarget n" "roundWinTarget n \<le> max 1 n"
  by (auto simp: roundWinTarget_def max_def)

lemma roundWins_total: "roundWins Red rs + roundWins Blue rs + int (count (mset rs) None) = int (length rs)"
proof (induction rs)
  case Nil
  then show ?case by (simp add: roundWins_def)
next
  case (Cons r rs)
  then show ?case
    by (cases r; cases "the r") (auto simp: roundWins_def)
qed

lemma roundWins_nonneg [simp]: "0 \<le> roundWins c rs"
  by (simp add: roundWins_def)

lemma roundWins_snoc [simp]: "roundWins c (rs @ [r]) = roundWins c rs + (if r = Some c then 1 else 0)"
  by (simp add: roundWins_def)

lemma series_over_at_bestOf:
  "max 1 n \<le> int (length rs) \<Longrightarrow> sr_over (seriesResult rs n)"
  by (simp add: seriesResult_def Let_def)

text \<open>
  A run of the series: a round is only opened while the series is not over. In such a run
  at most one side can have reached the target.
\<close>

definition series_run :: "color option list \<Rightarrow> int \<Rightarrow> bool" where
  "series_run rs n = (\<forall>k < length rs. \<not> sr_over (seriesResult (take k rs) n))"

lemma series_run_one_clinch:
  assumes "series_run rs n" and "roundWinTarget n \<le> roundWins c rs"
  shows "roundWins (other c) rs < roundWinTarget n"
proof (cases rs rule: rev_cases)
  case Nil
  with assms(2) roundWinTarget_bounds(1) [of n] show ?thesis by (simp add: roundWins_def)
next
  case (snoc ps r)
  with assms(1) have "\<not> sr_over (seriesResult ps n)"
    by (auto simp: series_run_def dest: spec [of _ "length ps"])
  then have "roundWins Red ps < roundWinTarget n" "roundWins Blue ps < roundWinTarget n"
    by (simp_all add: seriesResult_def Let_def not_le)
  with assms(2) snoc show ?thesis by (cases c; cases r) (auto split: if_splits)
qed

lemma series_run_clinch_wins:
  assumes "series_run rs n" and "roundWinTarget n \<le> roundWins c rs"
  shows "sr_over (seriesResult rs n) \<and> sr_winnerColor (seriesResult rs n) = Some c \<and>
     \<not> sr_roundsSpent (seriesResult rs n)"
  using series_run_one_clinch [OF assms] assms(2)
  by (cases c) (auto simp: seriesResult_def Let_def leadingColor_def)

lemma series_run_length:
  assumes "series_run rs n"
  shows "int (length rs) \<le> max 1 n"
proof (rule ccontr)
  assume "\<not> int (length rs) \<le> max 1 n"
  then have k: "nat (max 1 n) < length rs" by linarith
  then have "max 1 n \<le> int (length (take (nat (max 1 n)) rs))" by simp
  then have "sr_over (seriesResult (take (nat (max 1 n)) rs) n)" by (rule series_over_at_bestOf)
  with assms k show False by (simp add: series_run_def)
qed

lemma full_series_has_clinch:
  assumes "max 1 n \<le> int (length rs)" and "odd n" and "None \<notin> set rs"
  shows "\<exists>c. roundWinTarget n \<le> roundWins c rs"
proof -
  have "count (mset rs) None = 0" using assms(3) by (simp add: count_mset_0_iff)
  with roundWins_total [of rs] have "roundWins Red rs + roundWins Blue rs = int (length rs)" by simp
  then have "max 1 n \<le> roundWins Red rs + roundWins Blue rs" using assms(1) by simp
  then have "roundWinTarget n \<le> roundWins Red rs \<or> roundWinTarget n \<le> roundWins Blue rs"
    using assms(2) unfolding roundWinTarget_def by presburger
  then show ?thesis by blast
qed

text \<open>
  C24. A best-of-N series ends in at most max(1, N) rounds; the first side to reach the
  target is its winner and no side can then be level with it; and when N is odd and no
  round was drawn it ends with a winner who reached the target, never because the rounds
  ran out.
\<close>

theorem series_ends_with_its_winner:
  assumes "series_run rs n"
  shows "int (length rs) \<le> max 1 n \<and>
     (\<forall>c. roundWinTarget n \<le> roundWins c rs \<longrightarrow> sr_winnerColor (seriesResult rs n) = Some c) \<and>
     (int (length rs) = max 1 n \<longrightarrow> sr_over (seriesResult rs n)) \<and>
     (odd n \<and> None \<notin> set rs \<and> sr_over (seriesResult rs n) \<longrightarrow>
        sr_winnerColor (seriesResult rs n) \<noteq> None \<and> \<not> sr_roundsSpent (seriesResult rs n))"
proof -
  have "sr_winnerColor (seriesResult rs n) \<noteq> None \<and> \<not> sr_roundsSpent (seriesResult rs n)"
    if "odd n" "None \<notin> set rs" "sr_over (seriesResult rs n)"
  proof -
    have "\<exists>c. roundWinTarget n \<le> roundWins c rs"
    proof (cases "max 1 n \<le> int (length rs)")
      case True
      with that show ?thesis by (intro full_series_has_clinch)
    next
      case False
      with that(3) show ?thesis by (auto simp: seriesResult_def Let_def)
    qed
    with series_run_clinch_wins [OF assms] show ?thesis by auto
  qed
  with series_run_length [OF assms] series_run_clinch_wins [OF assms] show ?thesis
    by (auto simp: series_over_at_bestOf)
qed

theorem series_ends_with_its_winner_witness:
  "series_run [Some Red, Some Blue, Some Red] 3 \<and>
   sr_winnerColor (seriesResult [Some Red, Some Blue, Some Red] 3) = Some Red"
proof -
  have run: "series_run [Some Red, Some Blue, Some Red] 3"
    by (auto simp: series_run_def seriesResult_def roundWins_def roundWinTarget_def Let_def
        less_Suc_eq eval_nat_numeral)
  then show ?thesis
    using series_ends_with_its_winner [OF run] by (simp add: roundWinTarget_def roundWins_def)
qed

subsection \<open>The numeral a referee reads\<close>

lemma time_finished_iff_display_zero:
  assumes "timerMode config = Countdown" and "effectiveTimeLimitSeconds config ph label = Some limit"
  shows "timeIsFinished elapsedMs config ph label \<longleftrightarrow> displayClockMs elapsedMs config ph label = 0"
  using assms by (auto simp: timeIsFinished_def displayClockMs_def)

subsection \<open>What a finished bout was worth\<close>

definition mirror_columns :: "bout_columns \<Rightarrow> bout_columns" where
  "mirror_columns b = b\<lparr>bc_red := bc_blue b, bc_blue := bc_red b,
     bc_redScore := bc_blueScore b, bc_blueScore := bc_redScore b\<rparr>"

lemma winnerColorFrom_mirror:
  assumes "bc_red b \<noteq> bc_blue b"
  shows "winnerColorFrom (mirror_columns b) = map_option other (winnerColorFrom b)"
  using assms by (auto simp: winnerColorFrom_def mirror_columns_def leadingColor_def split: option.splits)

text \<open>
  What a bout is worth to its two fighters is consistent: both lose exactly when it
  ended on the doubles ceiling as a double loss, otherwise one wins what the other loses
  or both draw; a recorded winner decides whatever the scores; and exchanging the corners
  exchanges the two answers.
\<close>

lemma bout_outcomes_consistent:
  assumes "bc_red b \<noteq> bc_blue b"
  shows "(boutOutcomes b = (Loss, Loss) \<longleftrightarrow> bc_endReason b = Some ''max_doubles'') \<and>
     (bc_endReason b \<noteq> Some ''max_doubles'' \<longrightarrow>
        boutOutcomes b \<in> {(Win, Loss), (Loss, Win), (DrawnBout, DrawnBout)} \<and>
        (bc_winner b \<noteq> None \<and> bc_winner b = bc_red b \<longrightarrow> boutOutcomes b = (Win, Loss)) \<and>
        (bc_winner b \<noteq> None \<and> bc_winner b = bc_blue b \<longrightarrow> boutOutcomes b = (Loss, Win))) \<and>
     boutOutcomes (mirror_columns b) = prod.swap (boutOutcomes b)"
proof -
  have reason: "bc_endReason (mirror_columns b) = bc_endReason b" by (simp add: mirror_columns_def)
  show ?thesis
    using assms winnerColorFrom_mirror [OF assms] reason
    by (auto simp: boutOutcomes_def isDoubleLossBout_def winnerColorFrom_def
        split: option.splits color.splits if_splits)
qed

text \<open>
  A Swiss phase cannot be given "no time limit": the setting null, which means no limit
  in every other phase, is read as absent, and the bout counts against the pool's limit.
\<close>

lemma swiss_null_limit_reads_pool:
  "effectiveTimeLimitSeconds
     (config\<lparr>timeLimitsSeconds := (timeLimitsSeconds config)\<lparr>bp_swiss := Some None\<rparr>\<rparr>) (Some SwissPhase) label =
   bp_pool (timeLimitsSeconds config)"
  by (simp add: effectiveTimeLimitSeconds_def forPhase_def formatPhaseOf_def)

subsection \<open>The scorer of a round, as an interface\<close>

text \<open>
  \<open>evaluateRound\<close> takes the scorer of the resolved ruleset as a parameter. What the
  lifecycle of a round relies on: the scorer reads the exchanges that count, in any order,
  and treats the two corners alike.
\<close>

locale round_scorer =
  fixes scoreRound :: "match \<Rightarrow> exchange list \<Rightarrow> match_score"
  assumes order_free: "mset (filter (\<lambda>e. \<not> voided e) xs) = mset (filter (\<lambda>e. \<not> voided e) ys) \<Longrightarrow>
      scoreRound m xs = scoreRound m ys"
    and corner_free: "scoreRound m (map mirror_exchange xs) = mirror_score (scoreRound m xs)"
begin

lemma evaluateRound_order_free:
  "mset (filter (\<lambda>e. \<not> voided e) xs) = mset (filter (\<lambda>e. \<not> voided e) ys) \<Longrightarrow>
   evaluateRound m xs config edition scoreRound = evaluateRound m ys config edition scoreRound"
  by (simp add: evaluateRound_def order_free [of xs ys])

lemma evaluateRound_corner_free:
  "evaluateRound m (map mirror_exchange xs) config edition scoreRound =
   map_prod mirror_score mirror_outcome (evaluateRound m xs config edition scoreRound)"
  by (simp add: evaluateRound_def corner_free roundOutcome_mirror Let_def)

lemma evaluateRound_void:
  "evaluateRound m (ex\<lparr>voided := True\<rparr> # xs) config edition scoreRound =
   evaluateRound m xs config edition scoreRound"
  by (rule evaluateRound_order_free) simp

end

interpretation default_scorer: round_scorer "defaultScoreRound config"
proof unfold_locales
  show "defaultScoreRound config m xs = defaultScoreRound config m ys"
    if "mset (filter (\<lambda>e. \<not> voided e) xs) = mset (filter (\<lambda>e. \<not> voided e) ys)" for m xs ys
    using tallyOf_mset [OF that, of Full] by (simp add: defaultScoreRound_def computeMatchFormatScore_def)
  show "defaultScoreRound config m (map mirror_exchange xs) = mirror_score (defaultScoreRound config m xs)" for m xs
    by (simp add: defaultScoreRound_def computeMatchFormatScore_mirror)
qed

text \<open>
  Evaluating a round with the default scorer treats the corners alike and ignores a
  voided exchange: the score and the outcome of the mirrored round are the mirror of the
  score and the outcome.
\<close>

lemma evaluate_round_is_fair:
  "evaluateRound m (ex\<lparr>voided := True\<rparr> # map mirror_exchange xs) config edition (defaultScoreRound config) =
   map_prod mirror_score mirror_outcome (evaluateRound m xs config edition (defaultScoreRound config))"
  by (simp only: default_scorer.evaluateRound_void default_scorer.evaluateRound_corner_free)

end
