(* ===== verification/Clock.thy ===== *)
theory Clock
  imports Match_Format
begin

section \<open>The match clock: a list of presses and the state they add up to\<close>

text \<open>
  \<open>packages/rules/src/clock.ts\<close>: the fold the server runs over the rows of a bout and the
  tablet over the presses its queue still holds. A row or a press whose name the code does
  not know is the constructor with the unknown name.
\<close>

subsection \<open>States, presses and moves\<close>

datatype clock_status = Idle | Running | Halted | Ended

datatype clock_action = Start | Halt | Resume | End | Reopen | ResetClock

datatype clock_press = PStart | PHalt | PResume | PEnd | PUnknown string

datatype clock_move_type = Action clock_action | AdjustTime | ResetMatch | LevelResolution | MUnknown string

record clock_move =
  move_type :: clock_move_type
  occurredAt :: timestamp
  adjustmentMs :: "int option"

record clock_fold =
  status :: clock_status
  activeMs :: int
  runningFrom :: "timestamp option"
  startedAt :: "timestamp option"

definition idle_clock :: clock_fold where
  "idle_clock = \<lparr>status = Idle, activeMs = 0, runningFrom = None, startedAt = None\<rparr>"

subsection \<open>One row\<close>

text \<open>\<open>closed\<close>: the active time with the interval that runs closed at \<open>at\<close>.\<close>

definition closedMs :: "clock_fold \<Rightarrow> timestamp \<Rightarrow> int" where
  "closedMs clock at' =
     (case runningFrom clock of None \<Rightarrow> activeMs clock | Some f \<Rightarrow> activeMs clock + (at' - f))"

definition clockStep :: "clock_fold \<Rightarrow> clock_move \<Rightarrow> clock_fold" where
  "clockStep clock move =
     (case move_type move of
        Action Start \<Rightarrow>
          clock\<lparr>status := Running, runningFrom := Some (occurredAt move),
                startedAt := Some (or_else (startedAt clock) (occurredAt move))\<rparr>
      | Action Halt \<Rightarrow>
          clock\<lparr>activeMs := closedMs clock (occurredAt move), runningFrom := None, status := Halted\<rparr>
      | Action Resume \<Rightarrow> clock\<lparr>status := Running, runningFrom := Some (occurredAt move)\<rparr>
      | Action End \<Rightarrow>
          clock\<lparr>activeMs := closedMs clock (occurredAt move), runningFrom := None, status := Ended\<rparr>
      | Action Reopen \<Rightarrow> clock\<lparr>runningFrom := None, status := Halted\<rparr>
      | Action ResetClock \<Rightarrow> clock\<lparr>activeMs := 0, runningFrom := None, status := Halted\<rparr>
      | AdjustTime \<Rightarrow> clock\<lparr>activeMs := max 0 (activeMs clock + or_else (adjustmentMs move) 0)\<rparr>
      | LevelResolution \<Rightarrow> clock\<lparr>activeMs := max 0 (activeMs clock + or_else (adjustmentMs move) 0)\<rparr>
      | ResetMatch \<Rightarrow> idle_clock
      | MUnknown _ \<Rightarrow> clock)"

definition foldClock :: "clock_move list \<Rightarrow> clock_fold" where
  "foldClock moves = foldl clockStep idle_clock moves"

subsection \<open>What may be pressed\<close>

fun clock_actions_from :: "clock_status \<Rightarrow> clock_action list" where
  "clock_actions_from Idle = [Start]"
| "clock_actions_from Running = [Halt, End]"
| "clock_actions_from Halted = [Resume, End, ResetClock]"
| "clock_actions_from Ended = [Reopen]"

fun press_already_true :: "clock_press \<Rightarrow> clock_status list" where
  "press_already_true PStart = [Running, Halted]"
| "press_already_true PHalt = [Halted, Ended]"
| "press_already_true PResume = [Running]"
| "press_already_true PEnd = [Ended]"
| "press_already_true (PUnknown _) = []"

definition pressAlreadyTrue :: "clock_press \<Rightarrow> clock_status \<Rightarrow> bool" where
  "pressAlreadyTrue press st = List.member (press_already_true press) st"

text \<open>The action a press asks for; an unknown press names none.\<close>

fun press_action :: "clock_press \<Rightarrow> clock_action option" where
  "press_action PStart = Some Start"
| "press_action PHalt = Some Halt"
| "press_action PResume = Some Resume"
| "press_action PEnd = Some End"
| "press_action (PUnknown _) = None"

definition press_move :: "clock_action \<Rightarrow> timestamp \<Rightarrow> clock_move" where
  "press_move a at' = \<lparr>move_type = Action a, occurredAt = at', adjustmentMs = None\<rparr>"

definition clockAfterPress :: "clock_fold \<Rightarrow> clock_press \<Rightarrow> timestamp \<Rightarrow> clock_fold" where
  "clockAfterPress clock press at' =
     (if pressAlreadyTrue press (status clock) then clock
      else (case press_action press of
              None \<Rightarrow> clock
            | Some a \<Rightarrow> if \<not> List.member (clock_actions_from (status clock)) a then clock
                        else clockStep clock (press_move a at')))"

definition extraTimeAdjustmentMs :: "int \<Rightarrow> int \<Rightarrow> int option \<Rightarrow> int" where
  "extraTimeAdjustmentMs seconds elapsedMs limitMs =
     (case limitMs of None \<Rightarrow> 0 | Some limit \<Rightarrow> limit - seconds * 1000 - elapsedMs)"

declare clockStep_def [clock_defs] closedMs_def [clock_defs] clockAfterPress_def [clock_defs]
  pressAlreadyTrue_def [clock_defs] press_move_def [clock_defs] extraTimeAdjustmentMs_def [clock_defs]

lemma idle_clock_simps [simp]:
  "status idle_clock = Idle" "activeMs idle_clock = 0" "runningFrom idle_clock = None" "startedAt idle_clock = None"
  by (simp_all add: idle_clock_def)

lemma press_move_simps [simp]:
  "move_type (press_move a t) = Action a" "occurredAt (press_move a t) = t" "adjustmentMs (press_move a t) = None"
  by (simp_all add: press_move_def)

lemma foldClock_Nil [simp]: "foldClock [] = idle_clock"
  by (simp add: foldClock_def)

lemma foldClock_snoc [simp]: "foldClock (moves @ [m]) = clockStep (foldClock moves) m"
  by (simp add: foldClock_def)

subsection \<open>The invariant of every fold\<close>

text \<open>The clock runs exactly when an interval is open.\<close>

definition clock_inv :: "clock_fold \<Rightarrow> bool" where
  "clock_inv c \<longleftrightarrow> (status c = Running \<longleftrightarrow> runningFrom c \<noteq> None)"

lemma clock_inv_idle [simp]: "clock_inv idle_clock"
  by (simp add: clock_inv_def)

lemma clockStep_inv: "clock_inv c \<Longrightarrow> clock_inv (clockStep c m)"
  by (auto simp: clock_inv_def clockStep_def split: clock_move_type.splits clock_action.splits)

lemma foldClock_inv: "clock_inv (foldClock moves)"
  by (induction moves rule: rev_induct) (simp_all add: clockStep_inv)

text \<open>
  The time shown at an instant: the active time and the open interval. No move that is not
  later than another one makes it negative.
\<close>

definition activeAt :: "clock_fold \<Rightarrow> timestamp \<Rightarrow> int" where
  "activeAt c t = closedMs c t"

definition clock_sane :: "clock_fold \<Rightarrow> timestamp \<Rightarrow> bool" where
  "clock_sane c t \<longleftrightarrow> clock_inv c \<and> 0 \<le> activeMs c \<and> (\<forall>f. runningFrom c = Some f \<longrightarrow> f \<le> t)"

lemma clockStep_sane:
  "clock_sane c t \<Longrightarrow> t \<le> occurredAt m \<Longrightarrow> clock_sane (clockStep c m) (occurredAt m)"
  using clockStep_inv [of c m]
  by (auto simp: clock_sane_def clockStep_def closedMs_def
      split: clock_move_type.splits clock_action.splits option.splits)

lemma foldl_clock_sane:
  "clock_sane c t \<Longrightarrow> sorted_wrt (\<lambda>a b. occurredAt a \<le> occurredAt b) moves \<Longrightarrow>
   (\<And>m. m \<in> set moves \<Longrightarrow> t \<le> occurredAt m) \<Longrightarrow>
   clock_sane (foldl clockStep c moves) (if moves = [] then t else occurredAt (last moves))"
proof (induction moves arbitrary: c t)
  case Nil
  then show ?case by simp
next
  case (Cons m ms)
  have "clock_sane (clockStep c m) (occurredAt m)"
    using Cons.prems(1,3) by (intro clockStep_sane) auto
  then have "clock_sane (foldl clockStep (clockStep c m) ms)
      (if ms = [] then occurredAt m else occurredAt (last ms))"
    using Cons.prems(2) by (intro Cons.IH) auto
  then show ?case by (cases "ms = []") simp_all
qed

text \<open>
  Whatever rows a bout has, its clock runs exactly when an interval is open; and when
  the rows are in the order of their times the active time is never negative, nor is the
  time shown at any later instant.
\<close>

lemma clock_fold_invariant:
  "(status (foldClock moves) = Running \<longleftrightarrow> runningFrom (foldClock moves) \<noteq> None) \<and>
   (sorted_wrt (\<lambda>a b. occurredAt a \<le> occurredAt b) moves \<and> (\<forall>m \<in> set moves. occurredAt m \<le> t) \<longrightarrow>
      0 \<le> activeMs (foldClock moves) \<and> 0 \<le> activeAt (foldClock moves) t)"
proof (cases moves)
  case Nil
  then show ?thesis by (simp add: activeAt_def closedMs_def)
next
  case (Cons m ms)
  have "clock_sane (foldClock moves) (occurredAt (last moves))"
    if ordered: "sorted_wrt (\<lambda>a b. occurredAt a \<le> occurredAt b) moves"
  proof -
    have "clock_sane (foldl clockStep idle_clock moves)
        (if moves = [] then occurredAt m else occurredAt (last moves))"
      by (rule foldl_clock_sane) (use ordered Cons in \<open>auto simp: clock_sane_def\<close>)
    then show ?thesis using Cons by (simp add: foldClock_def)
  qed
  moreover have "last moves \<in> set moves" using Cons by simp
  ultimately show ?thesis
    using foldClock_inv [of moves]
    by (fastforce simp: clock_inv_def clock_sane_def activeAt_def closedMs_def split: option.splits)
qed

subsection \<open>Presses of the tablet's queue\<close>

lemma clockAfterPress_inv: "clock_inv c \<Longrightarrow> clock_inv (clockAfterPress c p t)"
  by (simp add: clockAfterPress_def clockStep_inv split: option.split)

lemma clockAfterPress_status:
  "status (clockAfterPress c p t) =
     (case p of
        PStart \<Rightarrow> if status c = Idle then Running else status c
      | PHalt \<Rightarrow> if status c = Running then Halted else status c
      | PResume \<Rightarrow> if status c = Halted then Running else status c
      | PEnd \<Rightarrow> if status c = Running \<or> status c = Halted then Ended else status c
      | PUnknown _ \<Rightarrow> status c)"
  by (cases p; cases "status c")
     (simp_all add: clockAfterPress_def pressAlreadyTrue_def clockStep_def)

lemma clockAfterPress_settled:
  "clockAfterPress (clockAfterPress c p t) p t' = clockAfterPress c p t"
  by (cases p; cases "status c")
     (simp_all add: clockAfterPress_def pressAlreadyTrue_def clockStep_def)

text \<open>
  The contract of a queue that may send a press twice: a press that has been taken is
  taken as done when it comes again. Then a queue and the same queue with its immediate
  repeats dropped lead to the same state.
\<close>

locale repeatable_press =
  fixes after :: "'c \<Rightarrow> 'p \<Rightarrow> 't \<Rightarrow> 'c"
  assumes settled: "after (after c p t) p t' = after c p t"
begin

lemma repeat_once: "foldl (\<lambda>c (p, t). after c p t) c ((p, t) # (p, t') # qs) =
    foldl (\<lambda>c (p, t). after c p t) c ((p, t) # qs)"
  by (simp add: settled)

lemma repeats_harmless:
  "foldl (\<lambda>c (p, t). after c p t) c (concat (map (\<lambda>(p, t, ts). (p, t) # map (Pair p) ts) qs)) =
   foldl (\<lambda>c (p, t). after c p t) c (map (\<lambda>(p, t, ts). (p, t)) qs)"
proof (induction qs arbitrary: c)
  case Nil
  then show ?case by simp
next
  case (Cons q qs)
  obtain p t ts where q: "q = (p, t, ts)" by (cases q)
  have "foldl (\<lambda>c (p, t). after c p t) (after c p t) (map (Pair p) ts) = after c p t"
    by (induction ts) (simp_all add: settled)
  with q Cons show ?case by simp
qed

end

interpretation pad_queue: repeatable_press clockAfterPress
  by unfold_locales (rule clockAfterPress_settled)

text \<open>The clock the tablet shows after the presses its queue holds.\<close>

definition pad_clock :: "clock_fold \<Rightarrow> (clock_press \<times> timestamp) list \<Rightarrow> clock_fold" where
  "pad_clock c queue = foldl (\<lambda>c (p, t). clockAfterPress c p t) c queue"

text \<open>
  A press sent again, any number of times and whatever the later times, leaves the
  clock as the first one left it: retries from a tablet with a bad connection are harmless.
\<close>

lemma resent_presses_are_harmless:
  "pad_clock c (concat (map (\<lambda>(p, t, ts). (p, t) # map (Pair p) ts) queue)) =
   pad_clock c (map (\<lambda>(p, t, ts). (p, t)) queue)"
  unfolding pad_clock_def by (rule pad_queue.repeats_harmless)

text \<open>
  The moves the server writes for a queue: a press that is already true or fits nothing
  writes none.
\<close>

fun accepted_moves :: "clock_fold \<Rightarrow> (clock_press \<times> timestamp) list \<Rightarrow> clock_move list" where
  "accepted_moves c [] = []"
| "accepted_moves c ((p, t) # queue) =
     (case press_action p of
        None \<Rightarrow> accepted_moves c queue
      | Some a \<Rightarrow>
          if pressAlreadyTrue p (status c) \<or> a \<notin> set (clock_actions_from (status c))
          then accepted_moves c queue
          else press_move a t # accepted_moves (clockStep c (press_move a t)) queue)"

lemma pad_clock_accepted: "pad_clock c queue = foldl clockStep c (accepted_moves c queue)"
proof (induction queue arbitrary: c)
  case Nil
  then show ?case by (simp add: pad_clock_def)
next
  case (Cons q queue)
  obtain p t where q: "q = (p, t)" by (cases q)
  have "pad_clock c (q # queue) = pad_clock (clockAfterPress c p t) queue"
    by (simp add: pad_clock_def q)
  with Cons q show ?case by (simp add: clockAfterPress_def split: option.split)
qed

text \<open>A list of moves in which every move is one the state of the clock offers.\<close>

inductive legal_moves :: "clock_fold \<Rightarrow> clock_move list \<Rightarrow> bool" where
  no_move: "legal_moves c []"
| a_move: "a \<in> set (clock_actions_from (status c)) \<Longrightarrow> move_type m = Action a \<Longrightarrow>
     legal_moves (clockStep c m) ms \<Longrightarrow> legal_moves c (m # ms)"

inductive_cases legal_moves_ConsE: "legal_moves c (m # ms)"
inductive_simps legal_moves_Cons [simp]: "legal_moves c (m # ms)"

lemma legal_accepted_moves: "legal_moves c (accepted_moves c queue)"
proof (induction c queue rule: accepted_moves.induct)
  case (1 c)
  then show ?case by (simp add: no_move)
next
  case (2 c p t queue)
  then show ?case by (simp split: option.split)
qed


subsection \<open>The clock counts the running time, and nothing else\<close>

lemma clockStep_time:
  assumes "clock_inv c" and "move_type m = Action a" and "a \<in> set (clock_actions_from (status c))"
    and "a \<noteq> ResetClock"
  shows "activeAt (clockStep c m) t =
     activeAt c (occurredAt m) + (if status (clockStep c m) = Running then t - occurredAt m else 0)"
  using assms
  by (cases a; cases "status c")
     (auto simp: clockStep_def activeAt_def closedMs_def clock_inv_def split: option.splits)

text \<open>The time spent running between the moves, from the state before them to an instant.\<close>

fun running_time :: "clock_fold \<Rightarrow> timestamp \<Rightarrow> clock_move list \<Rightarrow> timestamp \<Rightarrow> int" where
  "running_time c from [] until = (if status c = Running then until - from else 0)"
| "running_time c from (m # ms) until =
     (if status c = Running then occurredAt m - from else 0) +
     running_time (clockStep c m) (occurredAt m) ms until"

lemma activeAt_later:
  "clock_inv c \<Longrightarrow> activeAt c t' = activeAt c t + (if status c = Running then t' - t else 0)"
  by (auto simp: activeAt_def closedMs_def clock_inv_def split: option.splits)

lemma activeAt_running_time:
  "clock_inv c \<Longrightarrow> legal_moves c ms \<Longrightarrow> \<forall>m \<in> set ms. move_type m \<noteq> Action ResetClock \<Longrightarrow>
   activeAt (foldl clockStep c ms) until = activeAt c from + running_time c from ms until"
proof (induction ms arbitrary: c "from")
  case Nil
  then show ?case by (simp add: activeAt_later [of c until "from"])
next
  case (Cons m ms)
  from Cons.prems(2) obtain a where a: "a \<in> set (clock_actions_from (status c))" "move_type m = Action a"
    and legal: "legal_moves (clockStep c m) ms" by (blast elim: legal_moves_ConsE)
  with Cons.prems(3) have "a \<noteq> ResetClock" by auto
  with a Cons.prems(1) have "activeAt (clockStep c m) (occurredAt m) = activeAt c (occurredAt m)"
    by (simp add: clockStep_time)
  moreover have "activeAt c (occurredAt m) =
      activeAt c from + (if status c = Running then occurredAt m - from else 0)"
    using Cons.prems(1) by (rule activeAt_later)
  moreover have "activeAt (foldl clockStep (clockStep c m) ms) until =
      activeAt (clockStep c m) (occurredAt m) + running_time (clockStep c m) (occurredAt m) ms until"
    using Cons.prems legal by (intro Cons.IH) (auto simp: clockStep_inv)
  ultimately show ?case by simp
qed

text \<open>
  The time a legal list of presses adds to the clock is the time it spent running:
  the sum, over the moves, of the interval up to the next one while the state is Running.
  No press by itself adds or removes time, except the reset of the clock.
\<close>

lemma clock_counts_running_time:
  assumes "legal_moves (foldClock rows) ms" and "\<forall>m \<in> set ms. move_type m \<noteq> Action ResetClock"
  shows "activeAt (foldClock (rows @ ms)) until =
     activeAt (foldClock rows) from + running_time (foldClock rows) from ms until"
  using activeAt_running_time [OF foldClock_inv assms] by (simp add: foldClock_def)

subsection \<open>Extra time\<close>

lemma extra_time_active:
  "activeMs (clockStep c \<lparr>move_type = LevelResolution, occurredAt = t,
      adjustmentMs = Some (extraTimeAdjustmentMs seconds (activeMs c) (Some limit))\<rparr>) =
   max 0 (limit - seconds * 1000)"
  by (simp add: clockStep_def extraTimeAdjustmentMs_def)

text \<open>
  A step of extra time on a clock that does not run puts its seconds back on a
  countdown, however far the bout had run past zero, and the bout is open again; but the
  clock cannot hold more than the phase's limit, so a step longer than the limit gives the
  limit and no more.
\<close>

lemma extra_time_puts_seconds_back:
  assumes "timerMode config = Countdown" and "effectiveTimeLimitSeconds config ph label = Some limit"
    and "0 < seconds" and "0 < limit"
  shows "displayClockMs
      (activeMs (clockStep c \<lparr>move_type = LevelResolution, occurredAt = t,
         adjustmentMs = Some (extraTimeAdjustmentMs seconds (activeMs c) (Some (limit * 1000)))\<rparr>))
      config ph label = min seconds limit * 1000 \<and>
    \<not> timeIsFinished
      (activeMs (clockStep c \<lparr>move_type = LevelResolution, occurredAt = t,
         adjustmentMs = Some (extraTimeAdjustmentMs seconds (activeMs c) (Some (limit * 1000)))\<rparr>))
      config ph label"
  using assms by (auto simp: extra_time_active displayClockMs_def timeIsFinished_def)

text \<open>
  On a countdown with a limit, the numeral reads zero exactly when the time of the bout
  is finished, so the tablet offers the remedy for a level bout exactly when the clock
  shows 00:00.
\<close>

lemma display_zero_iff_time_finished:
  assumes "timerMode config = Countdown" and "effectiveTimeLimitSeconds config ph label = Some limit"
  shows "timeIsFinished (activeAt c t) config ph label \<longleftrightarrow> displayClockMs (activeAt c t) config ph label = 0"
  using assms by (rule time_finished_iff_display_zero)

lemma display_zero_iff_time_finished_witness:
  "timeIsFinished (activeAt idle_clock 7) default_match_format_config (Some PoolPhase) None \<longleftrightarrow>
   displayClockMs (activeAt idle_clock 7) default_match_format_config (Some PoolPhase) None = 0"
  by (rule display_zero_iff_time_finished [where limit = 90])
     (simp_all add: effectiveTimeLimitSeconds_def forPhase_def formatPhaseOf_def)

end
