(* ===== verification/Berger.thy ===== *)
theory Berger
  imports Prelude
begin

section \<open>Round-robin pools by the circle method\<close>

text \<open>
  \<open>packages/rules/src/scheduling/berger.ts\<close>. The array \<open>rotation\<close> is a list; one turn of
  the outer loop takes the round's matches off it and rotates every position but the
  first. A pool of an odd number of fighters plays with a bye at index \<open>n\<close>.
\<close>

record berger_match =
  bm_round :: nat
  matchInRound :: nat
  sequence :: nat
  homeIndex :: nat
  awayIndex :: nat
  bm_label :: string

record berger_schedule_options =
  liceLabel :: "string option"
  poolLabel :: "string option"

datatype berger_error = NeedAtLeastTwoPlayers

definition totalMatches :: "nat \<Rightarrow> nat" where
  "totalMatches n = (n * (n - 1)) div 2"

definition totalRounds :: "nat \<Rightarrow> nat" where
  "totalRounds n = (if n mod 2 = 0 then n - 1 else n)"

definition labelWidth :: "nat \<Rightarrow> nat" where
  "labelWidth n = length (show_nat (totalMatches n))"

definition match_label :: "string \<Rightarrow> string \<Rightarrow> nat \<Rightarrow> nat \<Rightarrow> string" where
  "match_label lice pool width sq = ''L'' @ lice @ ''-P'' @ pool @ ''-M'' @ pad_start width (show_nat sq)"

text \<open>The inner loop of one round, from position \<open>i\<close> on, with the next sequence number.\<close>

function round_matches ::
    "(nat \<Rightarrow> string) \<Rightarrow> nat \<Rightarrow> nat list \<Rightarrow> nat \<Rightarrow> nat \<Rightarrow> nat \<Rightarrow> berger_match list" where
  "round_matches label n rotation rnd i sq =
     (let size = length rotation in
      if i < size div 2 then
        (let home = rotation ! i; away = rotation ! (size - 1 - i) in
         if odd n \<and> (home = n \<or> away = n) then round_matches label n rotation rnd (Suc i) sq
         else \<lparr>bm_round = rnd + 1, matchInRound = i, sequence = sq, homeIndex = home,
               awayIndex = away, bm_label = label sq\<rparr>
              # round_matches label n rotation rnd (Suc i) (Suc sq))
      else [])"
  by pat_completeness auto
termination
  by (relation "measure (\<lambda>(label, n, rotation, rnd, i, sq). length rotation div 2 - i)") auto

declare round_matches.simps [simp del]

text \<open>
  The in-place rotation at the end of a round: positions 1 to size - 1 move one up and the
  last one comes to position 1.
\<close>

fun rotate_circle :: "nat list \<Rightarrow> nat list" where
  "rotate_circle (pivot # x # xs) = pivot # last (x # xs) # butlast (x # xs)"
| "rotate_circle xs = xs"

fun berger_rounds ::
    "(nat \<Rightarrow> string) \<Rightarrow> nat \<Rightarrow> nat list \<Rightarrow> nat \<Rightarrow> nat \<Rightarrow> nat \<Rightarrow> berger_match list" where
  "berger_rounds label n rotation rnd 0 sq = []"
| "berger_rounds label n rotation rnd (Suc left) sq =
     (let ms = round_matches label n rotation rnd 0 sq
      in ms @ berger_rounds label n (rotate_circle rotation) (Suc rnd) left (sq + length ms))"

definition bergerSchedule ::
    "nat \<Rightarrow> berger_schedule_options \<Rightarrow> berger_error + berger_match list" where
  "bergerSchedule n options =
     (if n < 2 then Inl NeedAtLeastTwoPlayers
      else (let lice = or_else (liceLabel options) ''1''; pool = or_else (poolLabel options) ''A'';
                size = (if odd n then n + 1 else n); rounds = size - 1;
                width = labelWidth n
            in Inr (berger_rounds (match_label lice pool width) n [0..<size] 0 rounds 1)))"

text \<open>The only error: fewer than two fighters.\<close>

lemma schedule_error: "bergerSchedule n opts = Inl e \<longleftrightarrow> n < 2"
  by (cases e) (simp add: bergerSchedule_def Let_def)

definition plain_pool :: berger_schedule_options where
  "plain_pool = \<lparr>liceLabel = None, poolLabel = None\<rparr>"

lemma five_play: "bergerSchedule 5 plain_pool = Inr (projr (bergerSchedule 5 plain_pool))"
  by (simp add: bergerSchedule_def Let_def)

subsection \<open>A round as a list of pairs\<close>

text \<open>The two halves of the circle, folded onto each other.\<close>

definition fold_pairs :: "nat list \<Rightarrow> (nat \<times> nat) list" where
  "fold_pairs rotation = map (\<lambda>i. (rotation ! i, rotation ! (length rotation - 1 - i))) [0..<length rotation div 2]"

definition no_bye :: "nat \<Rightarrow> nat \<times> nat \<Rightarrow> bool" where
  "no_bye n p \<longleftrightarrow> \<not> (odd n \<and> (fst p = n \<or> snd p = n))"

definition match_pair :: "berger_match \<Rightarrow> nat \<times> nat" where
  "match_pair m = (homeIndex m, awayIndex m)"

lemma round_matches_from:
  "map match_pair (round_matches label n rotation rnd i sq) =
   filter (no_bye n) (map (\<lambda>i. (rotation ! i, rotation ! (length rotation - 1 - i))) [i..<length rotation div 2])"
proof (induction label n rotation rnd i sq rule: round_matches.induct)
  case (1 label n rotation rnd i sq)
  show ?case
  proof (cases "i < length rotation div 2")
    case True
    then have "[i..<length rotation div 2] = i # [Suc i..<length rotation div 2]"
      by (rule upt_conv_Cons)
    with 1 True show ?thesis
      by (simp add: round_matches.simps [of label n rotation rnd i sq] Let_def no_bye_def match_pair_def)
  next
    case False
    then show ?thesis by (simp add: round_matches.simps [of label n rotation rnd i sq] Let_def)
  qed
qed

lemma round_matches_pairs:
  "map match_pair (round_matches label n rotation rnd 0 sq) = filter (no_bye n) (fold_pairs rotation)"
  by (simp add: round_matches_from fold_pairs_def)

lemma round_matches_sequence:
  "map sequence (round_matches label n rotation rnd i sq) =
   [sq..<sq + length (round_matches label n rotation rnd i sq)]"
proof (induction label n rotation rnd i sq rule: round_matches.induct)
  case (1 label n rotation rnd i sq)
  let ?bye = "odd n \<and> (rotation ! i = n \<or> rotation ! (length rotation - 1 - i) = n)"
  consider "\<not> i < length rotation div 2" | "i < length rotation div 2" ?bye
    | "i < length rotation div 2" "\<not> ?bye" by blast
  then show ?case
  proof cases
    case 1
    then show ?thesis by (simp add: round_matches.simps [of label n rotation rnd i sq] Let_def)
  next
    case 2
    then show ?thesis using "1.IH"(1) by (simp add: round_matches.simps [of label n rotation rnd i sq] Let_def)
  next
    case 3
    then show ?thesis
      using "1.IH"(2) [OF refl 3(1) refl refl 3(2)]
      by (auto simp: round_matches.simps [of label n rotation rnd i sq] Let_def upt_conv_Cons simp del: upt_Suc)
  qed
qed

lemma round_matches_fields:
  "m \<in> set (round_matches label n rotation rnd i sq) \<Longrightarrow> bm_round m = rnd + 1 \<and> bm_label m = label (sequence m)"
proof (induction label n rotation rnd i sq rule: round_matches.induct)
  case (1 label n rotation rnd i sq)
  then show ?case
    by (auto simp: round_matches.simps [of label n rotation rnd i sq] Let_def split: if_splits)
qed

subsection \<open>The circle after r rounds\<close>

definition circle_at :: "nat \<Rightarrow> nat \<Rightarrow> nat \<Rightarrow> nat" where
  "circle_at m r j = Suc (nat ((int j - int r) mod int m))"

definition circle :: "nat \<Rightarrow> nat \<Rightarrow> nat list" where
  "circle m r = 0 # map (circle_at m r) [0..<m]"

lemma length_circle [simp]: "length (circle m r) = Suc m"
  by (simp add: circle_def)

lemma circle_0: "0 < m \<Longrightarrow> circle m 0 = [0..<Suc m]"
proof -
  assume "0 < m"
  have "map (circle_at m 0) [0..<m] = map Suc [0..<m]"
    by (rule map_cong) (simp_all add: circle_at_def)
  then show ?thesis by (simp only: circle_def map_Suc_upt upt_conv_Cons [of 0 "Suc m"] zero_less_Suc)
qed

lemma circle_at_Suc: "0 < m \<Longrightarrow> circle_at m (Suc r) (Suc j) = circle_at m r j"
  by (simp add: circle_at_def)

lemma circle_at_last: "0 < m \<Longrightarrow> circle_at m r (m - 1) = circle_at m (Suc r) 0"
proof -
  assume "0 < m"
  then have "int (m - 1) - int r = (- 1 - int r) + int m" by simp
  then have "(int (m - 1) - int r) mod int m = (- 1 - int r) mod int m" by (metis mod_add_self2)
  then show ?thesis by (simp add: circle_at_def)
qed

lemma rotate_circle_circle: "0 < m \<Longrightarrow> rotate_circle (circle m r) = circle m (Suc r)"
proof -
  assume m: "0 < m"
  then obtain k where k: "m = Suc k" by (cases m) auto
  let ?xs = "map (circle_at m r) [0..<m]"
  have "?xs \<noteq> []" using m by simp
  then have "rotate_circle (circle m r) = 0 # last ?xs # butlast ?xs"
    unfolding circle_def by (cases ?xs) simp_all
  also have "last ?xs = circle_at m (Suc r) 0"
    using circle_at_last [OF m, of r] by (simp add: last_map k)
  also have "butlast ?xs = map (circle_at m r) [0..<k]"
    by (simp add: k map_butlast [symmetric])
  also have "\<dots> = map (circle_at m (Suc r)) (map Suc [0..<k])"
    by (simp only: map_map comp_def circle_at_Suc [OF m])
  also have "\<dots> = map (circle_at m (Suc r)) [Suc 0..<m]" by (simp only: map_Suc_upt k)
  finally show ?thesis by (simp add: circle_def k upt_conv_Cons [of 0 "Suc k"] del: upt_Suc)
qed

lemma berger_rounds_pairs:
  assumes "0 < m"
  shows "map match_pair (berger_rounds label n (circle m r) rd left sq) =
   concat (map (\<lambda>r. filter (no_bye n) (fold_pairs (circle m r))) [r..<r + left])"
proof (induction left arbitrary: r rd sq)
  case 0
  then show ?case by simp
next
  case (Suc left)
  then show ?case
    using assms by (simp add: Let_def round_matches_pairs rotate_circle_circle upt_conv_Cons del: upt_Suc)
qed

subsection \<open>Every pair meets: 2 is invertible modulo an odd number\<close>

lemma int_circle_at: "0 < m \<Longrightarrow> int (circle_at m r j) = 1 + (int j - int r) mod int m"
  by (simp add: circle_at_def)

lemma circle_nth: "j < m \<Longrightarrow> circle m r ! Suc j = circle_at m r j"
  by (simp add: circle_def)

lemma circle_at_eq:
  assumes "0 < m" and "(int j - int r - int x) mod int m = 0" and "x < m"
  shows "circle_at m r j = Suc x"
proof -
  have "(int j - int r) mod int m = int x mod int m"
    using assms(2) by (simp add: mod_eq_dvd_iff mod_eq_0_iff_dvd)
  also have "\<dots> = int x" using assms(3) by simp
  finally show ?thesis by (simp add: circle_at_def)
qed

lemma fold_pairs_circle:
  assumes "i < Suc m div 2"
  shows "(circle m r ! i, circle m r ! (m - i)) \<in> set (fold_pairs (circle m r))"
  using assms by (auto simp: fold_pairs_def image_iff intro!: bexI [of _ i])

lemma pivot_meets:
  assumes "odd m" and "b < m"
  shows "\<exists>r < m. (0, Suc b) \<in> set (fold_pairs (circle m r))"
proof (intro exI conjI)
  let ?r = "m - 1 - b"
  have m: "0 < m" using assms(2) by simp
  show "?r < m" using assms(2) by simp
  have "circle_at m ?r (m - 1) = Suc b"
    using assms(2) by (intro circle_at_eq [OF m]) (simp_all add: of_nat_diff)
  moreover have "circle m ?r ! m = circle_at m ?r (m - 1)"
    using circle_nth [of "m - 1" m ?r] m by simp
  moreover have "circle m ?r ! 0 = 0" by (simp add: circle_def)
  moreover have "0 < Suc m div 2" using m by (simp add: div_greater_zero_iff)
  ultimately show "(0, Suc b) \<in> set (fold_pairs (circle m ?r))"
    using fold_pairs_circle [of 0 m ?r] by simp
qed

lemma circle_positions_meet:
  assumes m: "0 < m" and i: "0 < i" "2 * i < m" and xy: "x < m" "y < m"
    and dvd: "int m dvd 2 * int i - (int x - int y)"
  shows "\<exists>r < m. (Suc x, Suc y) \<in> set (fold_pairs (circle m r))"
proof (intro exI conjI)
  let ?c = "int i - 1 - int x"
  let ?r = "nat (?c mod int m)"
  show "?r < m" using m by (simp add: nat_less_iff)
  have r: "int ?r = ?c - int m * (?c div int m)"
    using m by (simp add: minus_mult_div_eq_mod)
  have "int (i - 1) - int ?r - int x = int m * (?c div int m)"
    unfolding r using i by (simp add: of_nat_diff)
  then have "circle_at m ?r (i - 1) = Suc x"
    by (intro circle_at_eq [OF m _ xy(1)]) simp
  moreover have "int (m - i - 1) - int ?r - int y
      = int m * (1 + ?c div int m) - (2 * int i - (int x - int y))"
    unfolding r using i by (simp add: of_nat_diff algebra_simps)
  then have "int m dvd int (m - i - 1) - int ?r - int y"
    using dvd by (metis dvd_diff dvd_triv_left)
  then have "circle_at m ?r (m - i - 1) = Suc y"
    by (intro circle_at_eq [OF m _ xy(2)]) simp
  moreover have "circle m ?r ! i = circle_at m ?r (i - 1)"
    using circle_nth [of "i - 1" m ?r] i by simp
  moreover have "circle m ?r ! (m - i) = circle_at m ?r (m - i - 1)"
    using circle_nth [of "m - i - 1" m ?r] i by (simp add: Suc_diff_Suc)
  moreover have "i < Suc m div 2" using i by simp
  ultimately show "(Suc x, Suc y) \<in> set (fold_pairs (circle m ?r))"
    using fold_pairs_circle [of i m ?r] by simp
qed

text \<open>The difference of two positions, or its complement, is even: that is where they meet.\<close>

lemma any_two_meet:
  assumes "odd m" and "a < b" and "b < m"
  shows "\<exists>r < m. (Suc b, Suc a) \<in> set (fold_pairs (circle m r)) \<or> (Suc a, Suc b) \<in> set (fold_pairs (circle m r))"
proof (cases "even (b - a)")
  case True
  then obtain i where i: "b - a = 2 * i" by (elim evenE)
  with assms have "int b - int a = 2 * int i" by linarith
  then show ?thesis
    using circle_positions_meet [of m i b a] assms i by (auto simp: algebra_simps)
next
  case False
  then have "even (m - (b - a))" using assms by simp
  then obtain i where i: "m - (b - a) = 2 * i" by (elim evenE)
  with assms have "int m - (int b - int a) = 2 * int i" by linarith
  then have "2 * int i - (int a - int b) = int m" by simp
  then show ?thesis
    using circle_positions_meet [of m i a b] assms i by auto
qed


subsection \<open>Every pair exactly once\<close>

definition edge :: "nat \<times> nat \<Rightarrow> nat set" where
  "edge p = {fst p, snd p}"

definition all_edges :: "nat \<Rightarrow> nat set set" where
  "all_edges n = {e. e \<subseteq> {..<n} \<and> card e = 2}"

lemma finite_all_edges [simp]: "finite (all_edges n)"
  by (simp add: all_edges_def)

lemma card_all_edges: "card (all_edges n) = totalMatches n"
proof -
  have "card (all_edges n) = n choose 2"
    using n_subsets [of "{..<n}" 2] by (simp add: all_edges_def)
  then show ?thesis by (simp add: choose_two totalMatches_def)
qed

lemma all_edges_iff: "e \<in> all_edges n \<longleftrightarrow> (\<exists>a b. a < b \<and> b < n \<and> e = {a, b})"
proof
  assume "e \<in> all_edges n"
  then obtain a b where "e = {a, b}" "a \<noteq> b" "a < n" "b < n"
    by (auto simp: all_edges_def card_2_iff)
  then show "\<exists>a b. a < b \<and> b < n \<and> e = {a, b}"
    by (metis insert_commute nat_neq_iff)
qed (auto simp: all_edges_def)

definition circle_pairs :: "nat \<Rightarrow> (nat \<times> nat) list" where
  "circle_pairs m = concat (map (\<lambda>r. fold_pairs (circle m r)) [0..<m])"

lemma length_circle_pairs: "odd m \<Longrightarrow> length (circle_pairs m) = totalMatches (Suc m)"
  by (auto simp: circle_pairs_def length_concat comp_def fold_pairs_def totalMatches_def
      sum_list_triv elim!: oddE)

lemma circle_pairs_cover:
  assumes "odd m"
  shows "all_edges (Suc m) \<subseteq> set (map edge (circle_pairs m))"
proof
  fix e assume "e \<in> all_edges (Suc m)"
  then obtain a b where ab: "a < b" "b < Suc m" and e: "e = {a, b}" by (auto simp: all_edges_iff)
  obtain d where b: "b = Suc d" using ab by (cases b) auto
  have meet: "\<exists>r < m. (a, b) \<in> set (fold_pairs (circle m r)) \<or> (b, a) \<in> set (fold_pairs (circle m r))"
  proof (cases a)
    case 0
    then show ?thesis using pivot_meets [OF assms, of d] ab b by auto
  next
    case (Suc c)
    then show ?thesis using any_two_meet [OF assms, of c d] ab b by auto
  qed
  have both: "e = edge (a, b)" "e = edge (b, a)" by (auto simp: e edge_def)
  from meet have "(a, b) \<in> set (circle_pairs m) \<or> (b, a) \<in> set (circle_pairs m)"
    by (fastforce simp: circle_pairs_def)
  then show "e \<in> set (map edge (circle_pairs m))"
    using both by (metis image_eqI set_map)
qed

lemma circle_pairs_exact:
  assumes "odd m"
  shows "set (map edge (circle_pairs m)) = all_edges (Suc m) \<and> distinct (map edge (circle_pairs m))"
proof -
  let ?es = "map edge (circle_pairs m)"
  have "card (set ?es) \<le> length ?es" by (rule card_length)
  then have le: "card (set ?es) \<le> card (all_edges (Suc m))"
    by (simp only: length_map length_circle_pairs [OF assms] card_all_edges)
  then have "all_edges (Suc m) = set ?es"
    by (intro card_seteq circle_pairs_cover assms) simp
  moreover from this have "card (set ?es) = length ?es"
    by (simp only: card_all_edges length_map length_circle_pairs [OF assms] flip: calculation)
  ultimately show ?thesis by (simp add: card_distinct)
qed

lemma edges_without_bye:
  assumes "2 \<le> n" and "m = (if odd n then n else n - 1)"
  shows "set (map edge (filter (no_bye n) (circle_pairs m))) = all_edges n \<and>
    distinct (map edge (filter (no_bye n) (circle_pairs m)))"
proof -
  have m: "odd m" using assms by auto
  have eq: "map edge (filter (no_bye n) ps) = filter (\<lambda>e. odd n \<longrightarrow> n \<notin> e) (map edge ps)" for ps
    by (induction ps) (auto simp: edge_def no_bye_def)
  have "{e \<in> all_edges (Suc m). odd n \<longrightarrow> n \<notin> e} = all_edges n"
  proof (cases "odd n")
    case True
    then show ?thesis
      using assms by (auto simp: all_edges_def lessThan_Suc subset_insert)
  next
    case False
    then have "Suc m = n" using assms by simp
    then show ?thesis using False by simp
  qed
  then show ?thesis
    using circle_pairs_exact [OF m] by (simp add: eq)
qed

lemma schedule_matches:
  assumes "bergerSchedule n opts = Inr ms"
  shows "2 \<le> n \<and> map match_pair ms = filter (no_bye n) (circle_pairs (if odd n then n else n - 1))"
proof -
  have n: "2 \<le> n" using assms by (simp add: bergerSchedule_def Let_def split: if_splits)
  define m where "m = (if odd n then n else n - 1)"
  have m: "0 < m" "(if odd n then n + 1 else n) = Suc m" using n by (auto simp: m_def)
  have "[0..<Suc m] = circle m 0" using circle_0 [OF m(1)] by simp
  then obtain lab where "ms = berger_rounds lab n (circle m 0) 0 m 1"
    using assms n m by (auto simp: bergerSchedule_def Let_def split: if_splits simp del: upt_Suc)
  then show ?thesis
    using berger_rounds_pairs [OF m(1), of lab n 0 0 m 1] n
    by (simp add: circle_pairs_def filter_concat comp_def flip: m_def)
qed

lemma schedule_edges:
  assumes "bergerSchedule n opts = Inr ms"
  shows "set (map (edge \<circ> match_pair) ms) = all_edges n \<and> distinct (map (edge \<circ> match_pair) ms)"
proof -
  have "map (edge \<circ> match_pair) ms = map edge (map match_pair ms)" by simp
  then show ?thesis
    using schedule_matches [OF assms] edges_without_bye [OF _ refl, of n] by (simp only:)
qed

lemma edge_match_pair: "(edge \<circ> match_pair) m = {homeIndex m, awayIndex m}"
  by (simp add: edge_def match_pair_def)

lemma count_one: "distinct (map f xs) \<Longrightarrow> x \<in> set (map f xs) \<Longrightarrow> length (filter (\<lambda>y. f y = x) xs) = 1"
  by (induction xs) (auto simp: filter_empty_conv, metis image_eqI)

text \<open>
  C33. A pool meets completely: in the schedule of \<open>n\<close> fighters (odd or even) there are
  \<open>n (n - 1) / 2\<close> matches, every two fighters meet in exactly one of them, and no
  fighter meets himself or the bye.
\<close>

theorem every_pair_meets_once:
  assumes "bergerSchedule n opts = Inr ms"
  shows "length ms = totalMatches n \<and>
    (\<forall>m \<in> set ms. homeIndex m < n \<and> awayIndex m < n \<and> homeIndex m \<noteq> awayIndex m) \<and>
    (\<forall>a b. a < b \<and> b < n \<longrightarrow> length (filter (\<lambda>m. {homeIndex m, awayIndex m} = {a, b}) ms) = 1)"
proof (intro conjI ballI allI impI)
  note edges = schedule_edges [OF assms]
  have "length ms = card (set (map (edge \<circ> match_pair) ms))"
    using edges by (metis distinct_card length_map)
  then show "length ms = totalMatches n" by (simp only: edges card_all_edges)
next
  fix a b assume "a < b \<and> b < n"
  then have "{a, b} \<in> set (map (edge \<circ> match_pair) ms)"
    by (simp only: schedule_edges [OF assms]) (auto simp: all_edges_iff)
  from count_one [OF _ this] schedule_edges [OF assms]
  show "length (filter (\<lambda>m. {homeIndex m, awayIndex m} = {a, b}) ms) = 1"
    by (simp only: edge_match_pair)
next
  fix m assume "m \<in> set ms"
  then have "(edge \<circ> match_pair) m \<in> set (map (edge \<circ> match_pair) ms)" by simp
  then have "{homeIndex m, awayIndex m} \<in> all_edges n"
    by (simp only: schedule_edges [OF assms] edge_match_pair)
  then show "homeIndex m < n" and "awayIndex m < n" and "homeIndex m \<noteq> awayIndex m"
    by (auto simp: all_edges_def card_2_iff)
qed

theorem every_pair_meets_once_witness:
  "length (projr (bergerSchedule 5 plain_pool)) = 10 \<and>
   length (filter (\<lambda>m. {homeIndex m, awayIndex m} = {0, 4}) (projr (bergerSchedule 5 plain_pool))) = 1"
  using every_pair_meets_once [OF five_play] by (simp add: totalMatches_def)

subsection \<open>The rounds\<close>

lemma mset_rotate_circle: "mset (rotate_circle xs) = mset xs"
proof (induction xs rule: rotate_circle.induct)
  case (1 pivot x xs)
  have "mset (x # xs) = add_mset (last (x # xs)) (mset (butlast (x # xs)))"
    by (metis append_butlast_last_id list.distinct(1) mset.simps(2) mset_append union_mset_add_mset_right
        add.right_neutral mset.simps(1))
  then show ?case by simp
qed simp_all

lemma fold_pairs_halves:
  assumes "even (length rot)"
  shows "map fst (fold_pairs rot) @ rev (map snd (fold_pairs rot)) = rot"
proof (rule nth_equalityI)
  let ?h = "length rot div 2"
  have h: "length rot = 2 * ?h" using assms by simp
  show "length (map fst (fold_pairs rot) @ rev (map snd (fold_pairs rot))) = length rot"
    using h by (simp add: fold_pairs_def)
  fix i assume "i < length (map fst (fold_pairs rot) @ rev (map snd (fold_pairs rot)))"
  then have i: "i < 2 * ?h" using h by (simp add: fold_pairs_def)
  show "(map fst (fold_pairs rot) @ rev (map snd (fold_pairs rot))) ! i = rot ! i"
  proof (cases "i < ?h")
    case True
    then show ?thesis by (simp add: fold_pairs_def nth_append)
  next
    case False
    then have "length rot - 1 - (?h - Suc (i - ?h)) = i" using i h by linarith
    then show ?thesis using False i by (simp add: fold_pairs_def nth_append rev_nth)
  qed
qed

lemma distinct_fold_pairs:
  assumes "even (length rot)" and "distinct rot"
  shows "distinct (map fst (filter P (fold_pairs rot)) @ map snd (filter P (fold_pairs rot)))"
proof -
  have "distinct (map fst (fold_pairs rot) @ rev (map snd (fold_pairs rot)))"
    using assms by (simp only: fold_pairs_halves)
  then show ?thesis by (auto simp: distinct_map_filter)
qed

lemma no_earlier_round: "m \<in> set (berger_rounds lab n rot k left sq) \<Longrightarrow> k < bm_round m"
proof (induction left arbitrary: rot k sq)
  case (Suc left)
  then show ?case by (fastforce simp: Let_def dest: round_matches_fields)
qed simp

lemma round_of_schedule:
  "\<exists>rot k sq'. mset rot = mset rotation \<and>
     (filter (\<lambda>m. bm_round m = r) (berger_rounds lab n rotation rd left sq) = [] \<or>
      filter (\<lambda>m. bm_round m = r) (berger_rounds lab n rotation rd left sq) = round_matches lab n rot k 0 sq')"
proof (induction left arbitrary: rotation rd sq)
  case 0
  then show ?case by auto
next
  case (Suc left)
  let ?ms = "round_matches lab n rotation rd 0 sq"
  let ?rest = "berger_rounds lab n (rotate_circle rotation) (Suc rd) left (sq + length ?ms)"
  show ?case
  proof (cases "r = Suc rd")
    case True
    then have "filter (\<lambda>m. bm_round m = r) ?ms = ?ms"
      by (intro filter_True ballI) (auto dest: round_matches_fields)
    moreover have "filter (\<lambda>m. bm_round m = r) ?rest = []"
      using no_earlier_round True by (fastforce simp: filter_empty_conv)
    ultimately have "filter (\<lambda>m. bm_round m = r) (berger_rounds lab n rotation rd (Suc left) sq) = ?ms"
      by (simp add: Let_def)
    then show ?thesis by blast
  next
    case False
    then have "filter (\<lambda>m. bm_round m = r) ?ms = []"
      by (auto simp: filter_empty_conv dest: round_matches_fields)
    then show ?thesis
      using Suc.IH [of "rotate_circle rotation" "Suc rd" "sq + length ?ms"]
      by (simp add: Let_def mset_rotate_circle)
  qed
qed


lemma schedule_form:
  assumes "bergerSchedule n opts = Inr ms"
  shows "\<exists>lice pool size. even size \<and>
    ms = berger_rounds (match_label lice pool (labelWidth n)) n [0..<size] 0 (size - 1) 1"
proof (intro exI conjI)
  let ?size = "if odd n then n + 1 else n"
  show "even ?size" by simp
  show "ms = berger_rounds (match_label (or_else (liceLabel opts) ''1'') (or_else (poolLabel opts) ''A'')
      (labelWidth n)) n [0..<?size] 0 (?size - 1) 1"
    using assms by (simp add: bergerSchedule_def Let_def split: if_splits del: upt_Suc)
qed

text \<open>
  Nobody plays twice in a round: the fighters of a round's matches are pairwise
  different, at home and away taken together.
\<close>

lemma once_a_round:
  assumes "bergerSchedule n opts = Inr ms"
  shows "distinct (map homeIndex (filter (\<lambda>m. bm_round m = r) ms) @ map awayIndex (filter (\<lambda>m. bm_round m = r) ms))"
proof -
  obtain lab size where size: "even size" and "ms = berger_rounds lab n [0..<size] 0 (size - 1) 1"
    using schedule_form [OF assms] by blast
  with round_of_schedule [where lab = lab and n = n and rotation = "[0..<size]" and r = r
      and rd = 0 and left = "size - 1" and sq = 1]
  obtain rot k sq' where rot: "mset rot = mset [0..<size]"
    and ms: "filter (\<lambda>m. bm_round m = r) ms = [] \<or> filter (\<lambda>m. bm_round m = r) ms = round_matches lab n rot k 0 sq'"
    by blast
  have "even (length rot)" using mset_eq_length [OF rot] size by simp
  moreover have "distinct rot" using mset_eq_imp_distinct_iff [OF rot] by simp
  ultimately have ok: "distinct (map fst ps @ map snd ps)" if "ps = filter (no_bye n) (fold_pairs rot)" for ps
    using that distinct_fold_pairs by blast
  from ms show ?thesis
  proof
    assume "filter (\<lambda>m. bm_round m = r) ms = round_matches lab n rot k 0 sq'"
    then have "map match_pair (filter (\<lambda>m. bm_round m = r) ms) = filter (no_bye n) (fold_pairs rot)"
      by (simp only: round_matches_pairs)
    from ok [OF this] show ?thesis by (simp add: match_pair_def comp_def)
  qed simp
qed

subsection \<open>Sequence numbers and labels\<close>

lemma berger_rounds_sequence:
  "map sequence (berger_rounds lab n rot rd left sq) = [sq..<sq + length (berger_rounds lab n rot rd left sq)]"
proof (induction left arbitrary: rot rd sq)
  case (Suc left)
  then show ?case
    using upt_add_eq_append [of sq "sq + length (round_matches lab n rot rd 0 sq)"]
    by (simp only: berger_rounds.simps Let_def map_append round_matches_sequence length_append add.assoc [symmetric] le_add1)
qed simp

lemma berger_rounds_label:
  "m \<in> set (berger_rounds lab n rot rd left sq) \<Longrightarrow> bm_label m = lab (sequence m)"
proof (induction left arbitrary: rot rd sq)
  case (Suc left)
  then show ?case by (auto simp: Let_def dest: round_matches_fields)
qed simp

lemma length_show_nat_mono: "a \<le> b \<Longrightarrow> length (show_nat a) \<le> length (show_nat b)"
proof (induction b arbitrary: a rule: show_nat.induct)
  case (1 b)
  show ?case
  proof (cases "b < 10 \<or> a < 10")
    case True
    then show ?thesis
      using "1.prems" show_nat_nonempty [of b] show_nat.simps [of a] show_nat.simps [of b]
      by (cases "show_nat b") (auto simp: Suc_le_eq)
  next
    case False
    then have "length (show_nat (a div 10)) \<le> length (show_nat (b div 10))"
      using "1.IH" [of "a div 10"] "1.prems" div_le_mono by auto
    then show ?thesis using False show_nat.simps [of a] show_nat.simps [of b] by simp
  qed
qed

lemma digit_value_mono: "digit_value c = Some d \<Longrightarrow> digit_value c' = Some d' \<Longrightarrow> c < c' \<longleftrightarrow> d < d'"
  by (auto simp: digit_value_def Let_def less_char_def split: if_splits)

lemma digit_value_bound: "digit_value c = Some d \<Longrightarrow> d < 10"
  by (auto simp: digit_value_def Let_def split: if_splits)

lemma read_digits_lt:
  "acc < acc' \<Longrightarrow> length xs = length ys \<Longrightarrow> read_digits acc xs = Some a \<Longrightarrow> read_digits acc' ys = Some b \<Longrightarrow> a < b"
proof (induction xs arbitrary: acc acc' ys)
  case (Cons x xs)
  then obtain y ys' d d' where "ys = y # ys'" "digit_value x = Some d" "digit_value y = Some d'"
    by (cases ys) (auto split: option.splits)
  then show ?case
    using Cons digit_value_bound [of x d] Cons.IH [of "10 * acc + d" "10 * acc' + d'" ys'] by simp
qed simp

lemma read_digits_lexord:
  "length xs = length ys \<Longrightarrow> read_digits acc xs = Some a \<Longrightarrow> read_digits acc ys = Some b \<Longrightarrow> a < b \<Longrightarrow> xs < ys"
proof (induction xs arbitrary: acc ys)
  case (Cons x xs)
  then obtain y ys' d d' where y: "ys = y # ys'" and d: "digit_value x = Some d" "digit_value y = Some d'"
    by (cases ys) (auto split: option.splits)
  show ?case
  proof (cases d d' rule: linorder_cases)
    case less
    then show ?thesis using digit_value_mono [OF d] y by simp
  next
    case equal
    then have "x = y" using digit_value_mono [OF d] digit_value_mono [OF d(2) d(1)] by (metis less_irrefl not_less_iff_gr_or_eq)
    then show ?thesis using Cons y d equal by simp
  next
    case greater
    then have "b < a"
      using read_digits_lt [of "10 * acc + d'" "10 * acc + d" ys' xs b a] Cons.prems y d by simp
    then show ?thesis using Cons.prems by simp
  qed
qed simp

lemma lexord_prefix: "(xs :: string) < ys \<Longrightarrow> p @ xs < p @ ys"
  by (induction p) simp_all

text \<open>
  The running numbers count the matches from 1 without a gap, and the labels, padded
  to one width, sort as strings in the order of play.
\<close>

lemma labels_sort_in_order_of_play:
  assumes "bergerSchedule n opts = Inr ms"
  shows "map sequence ms = [1..<Suc (length ms)] \<and> sorted_wrt (<) (map bm_label ms) \<and>
    (\<forall>m \<in> set ms. \<forall>m' \<in> set ms. length (bm_label m) = length (bm_label m'))"
proof -
  obtain l p size where ms: "ms = berger_rounds (match_label l p (labelWidth n)) n [0..<size] 0 (size - 1) 1"
    using schedule_form [OF assms] by blast
  have seq: "map sequence ms = [1..<Suc (length ms)]"
    unfolding ms by (subst berger_rounds_sequence) simp
  have len: "length ms = totalMatches n"
    using schedule_edges [OF assms] by (metis card_all_edges distinct_card length_map)
  have "sequence m \<le> totalMatches n" if "m \<in> set ms" for m
  proof -
    have "sequence m \<in> set (map sequence ms)" using that by simp
    then show ?thesis unfolding seq len by auto
  qed
  then have width: "length (show_nat (sequence m)) \<le> labelWidth n" if "m \<in> set ms" for m
    using that by (simp add: labelWidth_def length_show_nat_mono)
  have label: "bm_label m = match_label l p (labelWidth n) (sequence m)" if "m \<in> set ms" for m
    using that unfolding ms by (rule berger_rounds_label)
  have "sorted_wrt (<) (map sequence ms)" unfolding seq by (rule sorted_wrt_upt)
  then have "sorted_wrt (\<lambda>m m'. sequence m < sequence m') ms" by (simp add: sorted_wrt_map)
  then have "sorted_wrt (\<lambda>m m'. bm_label m < bm_label m') ms"
  proof (rule sorted_wrt_mono_rel [rotated])
    fix m m' assume m: "m \<in> set ms" "m' \<in> set ms" and lt: "sequence m < sequence m'"
    have "pad_start (labelWidth n) (show_nat (sequence m)) < pad_start (labelWidth n) (show_nat (sequence m'))"
      using lt width [OF m(1)] width [OF m(2)]
      by (intro read_digits_lexord [where acc = 0 and a = "sequence m" and b = "sequence m'"])
        (simp_all add: pad_start_def read_digits_zeros read_digits_show_nat)
    then show "bm_label m < bm_label m'"
      by (simp add: label m match_label_def lexord_prefix)
  qed
  then show ?thesis
    using seq by (simp add: sorted_wrt_map label match_label_def max_absorb1 width del: upt_Suc)
qed

end
