(* ===== verification/Snake_Seeding.thy ===== *)
theory Snake_Seeding
  imports Prelude
begin

section \<open>Snake seeding of pools\<close>

text \<open>
  \<open>packages/rules/src/scheduling/snake-seeding.ts\<close>. Ratings are rationals (the code's
  doubles, without rounding: they are only compared here), seeds are integers. A pool
  index is an \<open>int\<close>, because the loop steps it to \<open>-1\<close> before it clamps it.
\<close>

record fighter =
  registrationId :: string
  clubId :: "string option"
  skillRating :: "rat option"
  seed :: "int option"

record pool_assignment =
  poolIndex :: int
  pa_registrationId :: string

datatype pool_error = PoolCountMustBePositive

text \<open>
  The difference of the seeds, \<open>Infinity\<close> standing for none. Two infinities give
  \<open>NaN\<close>, which \<open>sort\<close> reads as zero; one infinity decides, whatever the other seed is.
\<close>

definition seed_difference :: "int option \<Rightarrow> int option \<Rightarrow> rat" where
  "seed_difference x y =
     (case (x, y) of
        (None, None) \<Rightarrow> 0
      | (None, Some _) \<Rightarrow> 1
      | (Some _, None) \<Rightarrow> -1
      | (Some s, Some t) \<Rightarrow> of_int (s - t))"

definition compareBySkill :: "fighter \<Rightarrow> fighter \<Rightarrow> rat" where
  "compareBySkill a b =
     (case (skillRating a, skillRating b) of
        (None, Some _) \<Rightarrow> 1
      | (Some _, None) \<Rightarrow> -1
      | (Some ra, Some rb) \<Rightarrow> if rb \<noteq> ra then rb - ra else seed_difference (seed a) (seed b)
      | (None, None) \<Rightarrow> seed_difference (seed a) (seed b))"

definition sortBySkill :: "fighter list \<Rightarrow> fighter list" where
  "sortBySkill fighters = sort_by compareBySkill fighters"

text \<open>The loop of \<open>snakeSeed\<close> with its two variables.\<close>

fun snake_loop :: "int \<Rightarrow> int \<Rightarrow> int \<Rightarrow> fighter list \<Rightarrow> pool_assignment list" where
  "snake_loop poolCount direction index [] = []"
| "snake_loop poolCount direction index (f # fs) =
     \<lparr>poolIndex = index, pa_registrationId = registrationId f\<rparr>
     # (let index' = index + direction in
        if index' \<ge> poolCount then snake_loop poolCount (-1) (poolCount - 1) fs
        else if index' < 0 then snake_loop poolCount 1 0 fs
        else snake_loop poolCount direction index' fs)"

definition snakeSeed :: "fighter list \<Rightarrow> int \<Rightarrow> pool_error + pool_assignment list" where
  "snakeSeed fighters poolCount =
     (if poolCount \<le> 0 then Inl PoolCountMustBePositive
      else if fighters = [] then Inr []
      else Inr (snake_loop poolCount 1 0 (sortBySkill fighters)))"

definition computePoolSizes :: "nat \<Rightarrow> nat \<Rightarrow> nat list" where
  "computePoolSizes fighterCount poolCount =
     (let base = fighterCount div poolCount; remainder = fighterCount mod poolCount
      in map (\<lambda>i. base + (if i < remainder then 1 else 0)) [0..<poolCount])"

subsection \<open>The order by skill\<close>

text \<open>The key the comparator orders by: rated before unrated, then the better, then the seed.\<close>

interpretation by_skill: comparator compareBySkill
proof
  show "compareBySkill a b \<le> 0 \<longleftrightarrow> 0 \<le> compareBySkill b a" for a b
    by (auto simp: compareBySkill_def seed_difference_def split: option.splits)
  show "compareBySkill a b \<le> 0 \<Longrightarrow> compareBySkill b c \<le> 0 \<Longrightarrow> compareBySkill a c \<le> 0" for a b c
    by (cases "skillRating a"; cases "skillRating b"; cases "skillRating c";
        cases "seed a"; cases "seed b"; cases "seed c")
       (auto simp: compareBySkill_def seed_difference_def split: if_splits)
qed

subsection \<open>The snake in closed form\<close>

definition snake_pool :: "nat \<Rightarrow> nat \<Rightarrow> nat" where
  "snake_pool p k = (if even (k div p) then k mod p else p - 1 - k mod p)"

lemma snake_pool_less: "0 < p \<Longrightarrow> snake_pool p k < p"
  by (auto simp: snake_pool_def)

definition snake_direction :: "nat \<Rightarrow> nat \<Rightarrow> int" where
  "snake_direction p k = (if even (k div p) then 1 else -1)"

lemma snake_loop_from:
  assumes "0 < p"
  shows "snake_loop (int p) (snake_direction p k) (int (snake_pool p k)) fs =
    map (\<lambda>(i, f). \<lparr>poolIndex = int (snake_pool p i), pa_registrationId = registrationId f\<rparr>) (zip [k..<k + length fs] fs)"
proof (induction fs arbitrary: k)
  case Nil
  then show ?case by simp
next
  case (Cons f fs)
  let ?q = "k div p" and ?r = "k mod p"
  have r: "?r < p" using assms by simp
  have next_r: "Suc k div p = (if Suc ?r = p then Suc ?q else ?q)" "Suc k mod p = (if Suc ?r = p then 0 else Suc ?r)"
    by (simp_all add: div_Suc mod_Suc)
  have step: "snake_loop (int p) (snake_direction p k) (int (snake_pool p k)) (f # fs) =
    \<lparr>poolIndex = int (snake_pool p k), pa_registrationId = registrationId f\<rparr>
    # snake_loop (int p) (snake_direction p (Suc k)) (int (snake_pool p (Suc k))) fs"
  proof (cases "even ?q"; cases "Suc ?r = p")
  qed (use r in \<open>auto simp: snake_direction_def snake_pool_def next_r Let_def of_nat_diff algebra_simps\<close>)
  show ?case
    unfolding step Cons.IH [of "Suc k"] by (simp add: upt_conv_Cons del: upt_Suc)
qed

lemma snakeSeed_closed:
  assumes "0 < p"
  shows "snakeSeed fighters (int p) =
    Inr (map (\<lambda>(i, f). \<lparr>poolIndex = int (snake_pool p i), pa_registrationId = registrationId f\<rparr>)
      (zip [0..<length fighters] (sortBySkill fighters)))"
  using snake_loop_from [OF assms, of 0 "sortBySkill fighters"] assms
  by (simp add: snakeSeed_def snake_direction_def snake_pool_def sortBySkill_def)

subsection \<open>Balance\<close>

text \<open>How many of the first \<open>n\<close> fighters go to pool \<open>j\<close>.\<close>

definition snake_count :: "nat \<Rightarrow> nat \<Rightarrow> nat \<Rightarrow> nat" where
  "snake_count p n j = length (filter (\<lambda>k. snake_pool p k = j) [0..<n])"

lemma snake_count_Suc: "snake_count p (Suc n) j = snake_count p n j + (if snake_pool p n = j then 1 else 0)"
  by (simp add: snake_count_def)

text \<open>The position of pool \<open>j\<close> in a pass of the snake.\<close>

definition snake_turn :: "nat \<Rightarrow> nat \<Rightarrow> nat \<Rightarrow> nat" where
  "snake_turn p q j = (if even q then j else p - 1 - j)"

lemma snake_count: 
  assumes "0 < p" and "j < p"
  shows "snake_count p n j = n div p + (if snake_turn p (n div p) j < n mod p then 1 else 0)"
proof (induction n)
  case 0
  then show ?case by (simp add: snake_count_def)
next
  case (Suc n)
  have r: "n mod p < p" using assms by simp
  then have "p - Suc (p - Suc (n mod p)) = n mod p" by linarith
  with r show ?case
    using assms by (auto simp: snake_count_Suc Suc div_Suc mod_Suc snake_pool_def snake_turn_def)
qed

lemma pool_size_count:
  assumes "0 < p" and "snakeSeed fighters (int p) = Inr as"
  shows "length (filter (\<lambda>a. poolIndex a = int j) as) = snake_count p (length fighters) j"
proof -
  let ?n = "length fighters"
  have "map poolIndex as = map (\<lambda>k. int (snake_pool p k)) [0..<?n]"
    using assms(2) by (auto simp: snakeSeed_closed [OF assms(1)] sortBySkill_def intro: nth_equalityI)
  then have "length (filter (\<lambda>i. i = int j) (map poolIndex as)) =
      length (filter (\<lambda>i. i = int j) (map (\<lambda>k. int (snake_pool p k)) [0..<?n]))" by simp
  then show ?thesis by (simp add: filter_map comp_def snake_count_def)
qed

lemma balanced_mset:
  fixes xs :: "nat list"
  assumes "\<forall>x \<in> set xs. x = q \<or> x = Suc q" and "sum_list xs = q * length xs + r"
  shows "mset xs = replicate_mset (length xs - r) q + replicate_mset r (Suc q) \<and> r \<le> length xs"
  using assms
proof (induction xs arbitrary: r)
  case Nil
  then show ?case by simp
next
  case (Cons x xs)
  show ?case
  proof (cases "x = q")
    case True
    then show ?thesis using Cons.IH [of r] Cons.prems by (auto simp: Suc_diff_le)
  next
    case False
    then have "x = Suc q" using Cons.prems by simp
    moreover from this have "0 < r"
    proof -
      have "q * length xs \<le> sum_list xs"
        using sum_list_mono [of xs "\<lambda>_. q" "\<lambda>x. x"] Cons.prems(1) by (fastforce simp: sum_list_triv mult.commute)
      then show ?thesis using Cons.prems(2) \<open>x = Suc q\<close> by simp
    qed
    ultimately show ?thesis using Cons.IH [of "r - 1"] Cons.prems by (cases r) auto
  qed
qed

lemma sum_computePoolSizes: "0 < p \<Longrightarrow> sum_list (computePoolSizes n p) = n"
proof -
  have *: "(\<Sum>i\<leftarrow>[0..<p]. (if i < r then 1 else 0)) = min r p" for r p :: nat
    by (induction p) (auto simp: min_def)
  assume "0 < p"
  then have "n mod p < p" by simp
  then show ?thesis
    by (simp add: computePoolSizes_def Let_def sum_list_addf sum_list_triv * min_def)
qed

lemma sum_snake_count: "0 < p \<Longrightarrow> (\<Sum>j\<leftarrow>[0..<p]. snake_count p n j) = n"
proof (induction n)
  case 0
  then show ?case by (simp add: snake_count_def sum_list_triv)
next
  case (Suc n)
  have "(\<Sum>j\<leftarrow>[0..<p]. (if j0 = j then 1 else 0)) = (if j0 < p then 1 else (0::nat))" for j0 p
    by (induction p) auto
  with Suc show ?case by (simp add: snake_count_Suc sum_list_addf snake_pool_less)
qed

text \<open>
  C34. The snake fills the pools as \<open>computePoolSizes\<close> announces them: every fighter is
  assigned once, each to one of the pools, and the sizes of the pools are a permutation of
  the announced sizes, which add up to the field and differ by at most one.
\<close>

theorem snake_fills_the_announced_sizes:
  assumes "0 < p" and "snakeSeed fighters (int p) = Inr as"
  shows "mset (map pa_registrationId as) = mset (map registrationId fighters) \<and>
    (\<forall>a \<in> set as. 0 \<le> poolIndex a \<and> poolIndex a < int p) \<and>
    mset (map (\<lambda>j. length (filter (\<lambda>a. poolIndex a = int j) as)) [0..<p]) = mset (computePoolSizes (length fighters) p) \<and>
    sum_list (computePoolSizes (length fighters) p) = length fighters \<and>
    (\<forall>s \<in> set (computePoolSizes (length fighters) p). \<forall>t \<in> set (computePoolSizes (length fighters) p). s \<le> t + 1)"
proof (intro conjI)
  let ?n = "length fighters" and ?q = "length fighters div p" and ?r = "length fighters mod p"
  have as: "as = map (\<lambda>(i, f). \<lparr>poolIndex = int (snake_pool p i), pa_registrationId = registrationId f\<rparr>)
      (zip [0..<?n] (sortBySkill fighters))"
    using assms by (simp add: snakeSeed_closed)
  have "map pa_registrationId as = map registrationId (sortBySkill fighters)"
    by (auto simp: as sortBySkill_def intro: nth_equalityI)
  then show "mset (map pa_registrationId as) = mset (map registrationId fighters)"
    by (simp only: sortBySkill_def mset_map mset_sort_by)
  show "\<forall>a \<in> set as. 0 \<le> poolIndex a \<and> poolIndex a < int p"
    using assms(1) by (auto simp: as snake_pool_less)
  have n: "?n = ?q * p + ?r" by simp
  have "mset (map (snake_count p ?n) [0..<p]) = replicate_mset (p - ?r) ?q + replicate_mset ?r (Suc ?q)"
    using balanced_mset [of "map (snake_count p ?n) [0..<p]" ?q ?r] n
    by (simp add: snake_count [OF assms(1)] sum_snake_count [OF assms(1)])
  moreover have "mset (computePoolSizes ?n p) = replicate_mset (p - ?r) ?q + replicate_mset ?r (Suc ?q)"
    using balanced_mset [of "computePoolSizes ?n p" ?q ?r] n sum_computePoolSizes [OF assms(1), of ?n]
    by (simp add: computePoolSizes_def Let_def)
  ultimately show "mset (map (\<lambda>j. length (filter (\<lambda>a. poolIndex a = int j) as)) [0..<p]) = mset (computePoolSizes ?n p)"
    by (simp add: pool_size_count [OF assms])
  show "sum_list (computePoolSizes ?n p) = ?n" by (rule sum_computePoolSizes [OF assms(1)])
qed (auto simp: computePoolSizes_def Let_def)

definition three_rated :: "fighter list" where
  "three_rated =
     [\<lparr>registrationId = ''a'', clubId = None, skillRating = None, seed = Some 1\<rparr>,
      \<lparr>registrationId = ''b'', clubId = Some ''x'', skillRating = Some 5, seed = None\<rparr>,
      \<lparr>registrationId = ''c'', clubId = Some ''x'', skillRating = Some 7, seed = None\<rparr>]"

lemma three_rated_snake:
  "snakeSeed three_rated 2 =
     Inr [\<lparr>poolIndex = 0, pa_registrationId = ''c''\<rparr>, \<lparr>poolIndex = 1, pa_registrationId = ''b''\<rparr>,
          \<lparr>poolIndex = 1, pa_registrationId = ''a''\<rparr>]"
  by (simp add: snakeSeed_def sortBySkill_def three_rated_def compareBySkill_def Let_def)

theorem snake_fills_the_announced_sizes_witness:
  "mset (map (\<lambda>j. length (filter (\<lambda>a. poolIndex a = int j) (projr (snakeSeed three_rated 2)))) [0..<2])
     = mset (computePoolSizes 3 2)"
proof -
  have "snakeSeed three_rated (int 2) = Inr (projr (snakeSeed three_rated 2))"
    by (simp add: three_rated_snake)
  moreover have "length three_rated = 3" by (simp add: three_rated_def)
  moreover note snake_fills_the_announced_sizes [OF _ calculation(1)]
  ultimately show ?thesis by simp
qed

end
