(* ===== verification/Local_Search.thy ===== *)
theory Local_Search
  imports Snake_Seeding "HOL-Library.Word"
begin

section \<open>Pool assignment by local search\<close>

text \<open>
  \<open>packages/rules/src/scheduling/local-search.ts\<close>. Costs and ratings are rationals: the
  code's doubles without their rounding. The generator works on 32-bit words as the code
  does; \<open>Math.floor(rng() * len)\<close> is the division of the 32-bit output times the length
  by \<open>2^32\<close>, exact in doubles for a list shorter than \<open>2^21\<close>. The mean of no pool
  is 0 here and \<open>NaN\<close> in the code; \<open>snakeSeed\<close> refuses such a pool count before.
\<close>

unbundle bit_operations_syntax

record pool_assignment_settings =
  enforceSchoolSeparation :: bool
  enforceSkillBalance :: bool

record pool_club_pairs =
  pcp_poolIndex :: nat
  pcp_count :: nat
  pcp_pairs :: "(string \<times> string) list"

record cost_report =
  totalCost :: rat
  sameClubPairsPerPool :: "pool_club_pairs list"
  skillVariance :: rat
  schoolSeparationSatisfied :: bool
  skillBalanceSatisfied :: bool

text \<open>
  \<open>new Map(fighters.map(...))\<close>: the last fighter under an id wins. A fighter whose id is
  unknown and an assignment to a pool that does not exist are skipped.
\<close>

definition fighterMap :: "fighter list \<Rightarrow> string \<Rightarrow> fighter option" where
  "fighterMap fighters i = map_of (rev (map (\<lambda>f. (registrationId f, f)) fighters)) i"

definition poolsOf :: "pool_assignment list \<Rightarrow> fighter list \<Rightarrow> nat \<Rightarrow> fighter list list" where
  "poolsOf assignments fighters poolCount =
     map (\<lambda>p. List.map_filter (\<lambda>a. if poolIndex a = int p then fighterMap fighters (pa_registrationId a) else None)
                assignments) [0..<poolCount]"

text \<open>\<open>if (f.clubId)\<close>: neither null nor the empty string.\<close>

definition clubOf :: "fighter \<Rightarrow> string option" where
  "clubOf f = (case clubId f of None \<Rightarrow> None | Some c \<Rightarrow> if c = [] then None else Some c)"

text \<open>The keys of a \<open>Map\<close> filled from a list, in the order of their first insertion.\<close>

definition clubKeys :: "fighter list \<Rightarrow> string list" where
  "clubKeys pool = rev (remdups (rev (List.map_filter clubOf pool)))"

definition clubCount :: "fighter list \<Rightarrow> string \<Rightarrow> nat" where
  "clubCount pool c = length (filter (\<lambda>f. clubOf f = Some c) pool)"

definition schoolCost :: "fighter list \<Rightarrow> nat" where
  "schoolCost pool =
     sum_list (map (\<lambda>c. let count = clubCount pool c in if count > 1 then ((count * (count - 1)) div 2) * 100 else 0)
       (clubKeys pool))"

definition poolMean :: "fighter list \<Rightarrow> rat" where
  "poolMean pool =
     (let rated = filter (\<lambda>f. skillRating f \<noteq> None) pool in
      if rated = [] then 0
      else sum_list (map (\<lambda>f. or_else (skillRating f) 0) rated) / of_nat (length rated))"

definition varianceOf :: "rat list \<Rightarrow> rat" where
  "varianceOf poolMeans =
     (let overallMean = sum_list poolMeans / of_nat (length poolMeans)
      in sum_list (map (\<lambda>m. (m - overallMean) ^ 2) poolMeans) / of_nat (length poolMeans))"

definition computeCost ::
    "pool_assignment list \<Rightarrow> fighter list \<Rightarrow> nat \<Rightarrow> pool_assignment_settings \<Rightarrow> rat" where
  "computeCost assignments fighters poolCount settings =
     (let pools = poolsOf assignments fighters poolCount;
          school = (if enforceSchoolSeparation settings then of_nat (sum_list (map schoolCost pools)) else 0)
      in if enforceSkillBalance settings then school + varianceOf (map poolMean pools) else school)"

subsection \<open>The seeded generator\<close>

text \<open>One call of the closure: the 32-bit output and the new value of \<open>seed\<close>.\<close>

definition mulberry32 :: "32 word \<Rightarrow> 32 word \<times> 32 word" where
  "mulberry32 sd =
     (let sd' = sd + 0x6d2b79f5;
          t = (sd' XOR drop_bit 15 sd') * (1 OR sd');
          t' = (t + (t XOR drop_bit 7 t) * (61 OR t)) XOR t
      in (t' XOR drop_bit 14 t', sd'))"

definition draw_index :: "32 word \<Rightarrow> nat \<Rightarrow> nat \<times> 32 word" where
  "draw_index sd len = (let (out, sd') = mulberry32 sd in ((unat out * len) div 2 ^ 32, sd'))"

subsection \<open>The search\<close>

text \<open>\<open>current[idx]?.poolIndex\<close>, undefined past the end.\<close>

definition pool_at :: "pool_assignment list \<Rightarrow> nat \<Rightarrow> int option" where
  "pool_at current i = (if i < length current then Some (poolIndex (current ! i)) else None)"

text \<open>The \<open>while\<close> loop that redraws the second index, with the attempts left.\<close>

fun redraw :: "pool_assignment list \<Rightarrow> nat \<Rightarrow> nat \<Rightarrow> 32 word \<Rightarrow> nat \<Rightarrow> nat \<times> 32 word" where
  "redraw current idxA idxB sd 0 = (idxB, sd)"
| "redraw current idxA idxB sd (Suc left) =
     (if pool_at current idxA = pool_at current idxB
      then (let (idxB', sd') = draw_index sd (length current) in redraw current idxA idxB' sd' left)
      else (idxB, sd))"

definition swapPools :: "pool_assignment list \<Rightarrow> nat \<Rightarrow> nat \<Rightarrow> pool_assignment list" where
  "swapPools current idxA idxB =
     (let a = current ! idxA; b = current ! idxB
      in current[idxA := a\<lparr>poolIndex := poolIndex b\<rparr>, idxB := b\<lparr>poolIndex := poolIndex a\<rparr>])"

fun search_loop ::
    "(pool_assignment list \<Rightarrow> rat) \<Rightarrow> nat \<Rightarrow> 32 word \<Rightarrow> pool_assignment list \<Rightarrow> rat \<Rightarrow> pool_assignment list" where
  "search_loop cost 0 sd current currentCost = current"
| "search_loop cost (Suc left) sd current currentCost =
     (let (idxA, sd1) = draw_index sd (length current);
          (firstB, sd2) = draw_index sd1 (length current);
          (idxB, sd3) = redraw current idxA firstB sd2 10
      in if pool_at current idxA = pool_at current idxB then search_loop cost left sd3 current currentCost
         else (let candidate = swapPools current idxA idxB; candidateCost = cost candidate
               in if candidateCost < currentCost then search_loop cost left sd3 candidate candidateCost
                  else search_loop cost left sd3 current currentCost))"

definition localSearch ::
    "pool_assignment list \<Rightarrow> fighter list \<Rightarrow> nat \<Rightarrow> pool_assignment_settings \<Rightarrow> nat option \<Rightarrow> int option
     \<Rightarrow> pool_assignment list" where
  "localSearch assignments fighters poolCount settings iterations seed0 =
     (let K = or_else iterations (max 50 (length fighters * 2));
          cost = (\<lambda>as. computeCost as fighters poolCount settings)
      in search_loop cost K (word_of_int (or_else seed0 42)) assignments (cost assignments))"

subsection \<open>The cost report\<close>

fun pairs_of :: "fighter list \<Rightarrow> (string \<times> string) list" where
  "pairs_of [] = []"
| "pairs_of (f # fs) = map (\<lambda>g. (registrationId f, registrationId g)) fs @ pairs_of fs"

definition clubPairs :: "fighter list \<Rightarrow> (string \<times> string) list" where
  "clubPairs pool = concat (map (\<lambda>c. pairs_of (filter (\<lambda>f. clubOf f = Some c) pool)) (clubKeys pool))"

definition buildCostReport ::
    "pool_assignment list \<Rightarrow> fighter list \<Rightarrow> nat \<Rightarrow> pool_assignment_settings \<Rightarrow> cost_report" where
  "buildCostReport assignments fighters poolCount settings =
     (let pools = poolsOf assignments fighters poolCount;
          perPool = map (\<lambda>(p, pool). \<lparr>pcp_poolIndex = p, pcp_count = length (clubPairs pool), pcp_pairs = clubPairs pool\<rparr>)
                        (zip [0..<poolCount] pools);
          variance = varianceOf (map poolMean pools);
          totalSameClubPairs = sum_list (map pcp_count perPool)
      in \<lparr>totalCost = computeCost assignments fighters poolCount settings,
          sameClubPairsPerPool = perPool, skillVariance = variance,
          schoolSeparationSatisfied = (totalSameClubPairs = 0),
          skillBalanceSatisfied = (variance < 1)\<rparr>)"

subsection \<open>The search only improves\<close>

lemma draw_index_less: "0 < n \<Longrightarrow> fst (draw_index sd n) < n"
proof -
  assume "0 < n"
  have "unat out * n < 2 ^ 32 * n" if "0 < n" for out :: "32 word"
    using unsigned_less [of out] that by simp
  then show ?thesis
    using \<open>0 < n\<close> by (simp add: draw_index_def less_mult_imp_div_less mult.commute split: prod.split)
qed

text \<open>An exchange of two pools keeps the fighters in their order and every pool's size.\<close>

definition same_shape :: "pool_assignment list \<Rightarrow> pool_assignment list \<Rightarrow> bool" where
  "same_shape xs ys \<longleftrightarrow> map pa_registrationId xs = map pa_registrationId ys \<and> mset (map poolIndex xs) = mset (map poolIndex ys)"

lemma swapPools_shape:
  assumes "i < length xs" and "j < length xs" and "poolIndex (xs ! i) \<noteq> poolIndex (xs ! j)"
  shows "same_shape (swapPools xs i j) xs"
proof -
  have ij: "i \<noteq> j" using assms by auto
  have "map pa_registrationId (swapPools xs i j) = map pa_registrationId xs"
    using assms ij by (intro nth_equalityI) (auto simp: swapPools_def Let_def nth_list_update)
  moreover have "map poolIndex (swapPools xs i j) = (map poolIndex xs)[i := map poolIndex xs ! j, j := map poolIndex xs ! i]"
    using assms by (simp add: swapPools_def Let_def map_update)
  then have "mset (map poolIndex (swapPools xs i j)) = mset (map poolIndex xs)"
    using assms by (simp only: mset_swap length_map)
  ultimately show ?thesis by (simp add: same_shape_def)
qed

lemma pool_at_differ:
  assumes "pool_at xs i \<noteq> pool_at xs j" and "i < length xs \<longleftrightarrow> j < length xs"
  shows "i < length xs \<and> j < length xs \<and> poolIndex (xs ! i) \<noteq> poolIndex (xs ! j)"
  using assms by (auto simp: pool_at_def split: if_splits)

lemma redraw_less: "0 < length xs \<Longrightarrow> b < length xs \<Longrightarrow> fst (redraw xs a b sd k) < length xs"
proof (induction k arbitrary: b sd)
  case (Suc k)
  then show ?case
    using draw_index_less [OF Suc.prems(1), of sd] by (auto split: prod.split)
qed simp

lemma search_loop_improves:
  "cost xs = c \<Longrightarrow> same_shape (search_loop cost k sd xs c) xs \<and> cost (search_loop cost k sd xs c) \<le> c"
proof (induction k arbitrary: sd xs c)
  case 0
  then show ?case by (simp add: same_shape_def)
next
  case (Suc k)
  obtain a sd1 where a: "draw_index sd (length xs) = (a, sd1)" by force
  obtain b0 sd2 where b0: "draw_index sd1 (length xs) = (b0, sd2)" by force
  obtain b sd3 where b: "redraw xs a b0 sd2 10 = (b, sd3)" by force
  show ?case
  proof (cases "pool_at xs a = pool_at xs b \<or> \<not> cost (swapPools xs a b) < c")
    case True
    then have "search_loop cost (Suc k) sd xs c = search_loop cost k sd3 xs c"
      by (auto simp: a b0 b)
    then show ?thesis using Suc by metis
  next
    case False
    then have "0 < length xs" by (auto simp: pool_at_def split: if_splits)
    then have "a < length xs" and "b < length xs"
      using draw_index_less a b0 b redraw_less by (metis fst_conv)+
    then have shape: "same_shape (swapPools xs a b) xs"
      using False pool_at_differ [of xs a b] by (intro swapPools_shape) auto
    let ?ys = "swapPools xs a b"
    have "search_loop cost (Suc k) sd xs c = search_loop cost k sd3 ?ys (cost ?ys)"
      using False by (simp add: a b0 b Let_def)
    then show ?thesis
      using Suc.IH [of ?ys "cost ?ys" sd3] shape False by (auto simp: same_shape_def)
  qed
qed

lemma length_filter_mset: "length (filter P (map f xs)) = size (filter_mset P (mset (map f xs)))"
  by (metis mset_filter size_mset)

text \<open>
  The search never makes an assignment worse and never moves a fighter in or out:
  the cost does not rise, every fighter keeps an assignment, in the same order of the
  list, and every pool keeps its size, whatever the seed and the number of iterations.
\<close>

lemma local_search_only_improves:
  "computeCost (localSearch as fighters p settings iterations sd) fighters p settings \<le> computeCost as fighters p settings \<and>
   map pa_registrationId (localSearch as fighters p settings iterations sd) = map pa_registrationId as \<and>
   length (filter (\<lambda>a. poolIndex a = j) (localSearch as fighters p settings iterations sd)) =
     length (filter (\<lambda>a. poolIndex a = j) as)"
proof -
  let ?ys = "localSearch as fighters p settings iterations sd"
  have *: "same_shape ?ys as \<and> computeCost ?ys fighters p settings \<le> computeCost as fighters p settings"
    unfolding localSearch_def Let_def by (rule search_loop_improves) simp
  have "length (filter (\<lambda>a. poolIndex a = j) xs) = length (filter (\<lambda>i. i = j) (map poolIndex xs))" for xs
    by (simp add: filter_map comp_def)
  also have "length (filter (\<lambda>i. i = j) (map poolIndex xs)) = size (filter_mset (\<lambda>i. i = j) (mset (map poolIndex xs)))" for xs
    by (rule length_filter_mset)
  finally show ?thesis using * unfolding same_shape_def by metis
qed

subsection \<open>The report and the cost\<close>

lemma length_pairs_of: "length (pairs_of fs) = (length fs * (length fs - 1)) div 2"
proof (induction fs)
  case Nil
  then show ?case by simp
next
  case (Cons f fs)
  have "length fs + (length fs * (length fs - 1)) div 2 = (length fs * 2 + length fs * (length fs - 1)) div 2"
    by simp
  also have "length fs * 2 + length fs * (length fs - 1) = length (f # fs) * (length (f # fs) - 1)"
    by (cases fs) simp_all
  finally show ?case using Cons.IH by simp
qed

lemma schoolCost_pairs: "schoolCost pool = 100 * length (clubPairs pool)"
proof -
  have one: "(let count = clubCount pool c in if count > 1 then ((count * (count - 1)) div 2) * 100 else 0)
      = 100 * length (pairs_of (filter (\<lambda>f. clubOf f = Some c) pool))" for c
    by (auto simp: Let_def clubCount_def length_pairs_of not_less le_Suc_eq)
  show ?thesis
    unfolding schoolCost_def one
    by (simp add: clubPairs_def length_concat comp_def sum_list_const_mult)
qed

lemma varianceOf_nonneg: "0 \<le> varianceOf ms"
  by (auto simp: varianceOf_def Let_def intro!: divide_nonneg_nonneg sum_list_nonneg)

lemma clubCount_filter: "clubCount pool c = count (mset (List.map_filter clubOf pool)) c"
  by (induction pool) (auto simp: clubCount_def List.map_filter_def)

lemma set_clubKeys [simp]: "set (clubKeys pool) = set (List.map_filter clubOf pool)"
  by (simp add: clubKeys_def)

lemma at_most_once: "(\<forall>c \<in> set xs. count (mset xs) c \<le> 1) \<longleftrightarrow> distinct xs"
proof (induction xs)
  case (Cons x xs)
  have "(\<forall>c \<in> set (x # xs). count (mset (x # xs)) c \<le> 1) \<longleftrightarrow> x \<notin> set xs \<and> (\<forall>c \<in> set xs. count (mset xs) c \<le> 1)"
    by (auto simp: count_eq_zero_iff not_in_iff)
  then show ?case using Cons by simp
qed simp

lemma no_pair_iff: "clubPairs pool = [] \<longleftrightarrow> distinct (List.map_filter clubOf pool)"
proof -
  have "pairs_of fs = [] \<longleftrightarrow> length fs \<le> 1" for fs
    by (cases fs; cases "tl fs") auto
  then have "clubPairs pool = [] \<longleftrightarrow> (\<forall>c \<in> set (List.map_filter clubOf pool). count (mset (List.map_filter clubOf pool)) c \<le> 1)"
    by (simp add: clubPairs_def clubCount_def flip: clubCount_filter)
  also have "\<dots> \<longleftrightarrow> distinct (List.map_filter clubOf pool)"
    by (rule at_most_once)
  finally show ?thesis .
qed

lemma report_counts:
  "map pcp_count (sameClubPairsPerPool (buildCostReport as fighters p settings)) =
   map (length \<circ> clubPairs) (poolsOf as fighters p)"
  by (auto simp: buildCostReport_def Let_def poolsOf_def intro: nth_equalityI)

text \<open>
  The report agrees with the cost, which counts the pairs in another way: the total is
  a hundred for every listed pair of club mates plus the listed variance, each where the
  settings ask for it; the separation is reported as satisfied exactly when in no pool two
  fighters are of one club; and the variance is not negative.
\<close>

lemma report_agrees_with_cost:
  "totalCost (buildCostReport as fighters p settings) =
     (if enforceSchoolSeparation settings
      then of_nat (100 * sum_list (map pcp_count (sameClubPairsPerPool (buildCostReport as fighters p settings)))) else 0) +
     (if enforceSkillBalance settings then skillVariance (buildCostReport as fighters p settings) else 0) \<and>
   (schoolSeparationSatisfied (buildCostReport as fighters p settings) \<longleftrightarrow>
     list_all (\<lambda>pool. distinct (List.map_filter clubOf pool)) (poolsOf as fighters p)) \<and>
   0 \<le> skillVariance (buildCostReport as fighters p settings)"
proof (intro conjI)
  let ?r = "buildCostReport as fighters p settings" and ?pools = "poolsOf as fighters p"
  have "sum_list (map schoolCost ?pools) = 100 * sum_list (map pcp_count (sameClubPairsPerPool ?r))"
    by (simp add: report_counts schoolCost_pairs [abs_def] sum_list_const_mult comp_def)
  then show "totalCost ?r = (if enforceSchoolSeparation settings
      then of_nat (100 * sum_list (map pcp_count (sameClubPairsPerPool ?r))) else 0) +
     (if enforceSkillBalance settings then skillVariance ?r else 0)"
    by (simp add: buildCostReport_def computeCost_def Let_def)
  have "schoolSeparationSatisfied ?r \<longleftrightarrow> sum_list (map pcp_count (sameClubPairsPerPool ?r)) = 0"
    by (simp add: buildCostReport_def Let_def)
  then show "schoolSeparationSatisfied ?r \<longleftrightarrow> list_all (\<lambda>pool. distinct (List.map_filter clubOf pool)) ?pools"
    unfolding report_counts by (simp add: no_pair_iff list_all_iff)
  show "0 \<le> skillVariance ?r" by (simp add: buildCostReport_def Let_def varianceOf_nonneg)
qed

end
