(* ===== verification/Bracket.thy ===== *)
theory Bracket
  imports Prelude "HOL-Library.Word"
begin

section \<open>What the bracket generators share\<close>

text \<open>
  The slot shape, the powers of two and the seeding order of
  \<open>packages/rules/src/scheduling/single-elim.ts\<close>; \<open>double-elim-slots.ts\<close> and
  \<open>double-elim-shape.ts\<close> carry the same helpers. The names of sources are the strings the
  code builds, so a reference resolves by comparing strings as the advance service does.
\<close>

unbundle bit_operations_syntax

datatype source_type = SeedSource | WinnerOf | LoserOf | ByeSource

record bracket_slot =
  round :: nat
  position :: nat
  homeSeed :: "nat option"
  awaySeed :: "nat option"
  isBye :: bool
  homeSource :: string
  awaySource :: string
  sourceAType :: source_type
  sourceBType :: source_type

subsection \<open>Powers of two\<close>

definition isPowerOf2 :: "nat \<Rightarrow> bool" where
  "isPowerOf2 n \<longleftrightarrow> n \<ge> 1 \<and> n AND (n - 1) = 0"

text \<open>
  The loop of \<open>highestPowerOf2Below\<close>. The variable starts at 1, so the test that it is
  positive, which termination needs, does not change it.
\<close>

function doubleBelow :: "nat \<Rightarrow> nat \<Rightarrow> nat" where
  "doubleBelow n p = (if 0 < p \<and> p * 2 < n then doubleBelow n (p * 2) else p)"
  by pat_completeness auto
termination
  by (relation "measure (\<lambda>(n, p). n - p)") auto

declare doubleBelow.simps [simp del]

definition highestPowerOf2Below :: "nat \<Rightarrow> nat" where
  "highestPowerOf2Below n = doubleBelow n 1"

text \<open>\<open>Math.log2\<close>, which the code takes of powers of two only.\<close>

fun log2 :: "nat \<Rightarrow> nat" where
  "log2 n = (if n < 2 then 0 else Suc (log2 (n div 2)))"

declare log2.simps [simp del]

lemma log2_power [simp]: "log2 (2 ^ k) = k"
proof (induction k)
  case 0
  then show ?case by (subst log2.simps) simp
next
  case (Suc k)
  have "log2 (2 ^ Suc k) = Suc (log2 (2 ^ Suc k div 2))"
    by (subst log2.simps) (simp add: Suc_le_eq not_less)
  with Suc show ?case by simp
qed

lemma isPowerOf2_iff: "isPowerOf2 n \<longleftrightarrow> (\<exists>k. n = 2 ^ k)"
proof (induction n rule: log2.induct)
  case (1 n)
  consider "n = 0" | "n = 1" | "2 \<le> n" "odd n" | "2 \<le> n" "even n" by fastforce
  then show ?case
  proof cases
    case 1
    then show ?thesis by (simp add: isPowerOf2_def)
  next
    case 2
    then show ?thesis by (auto simp: isPowerOf2_def intro: exI [of _ 0])
  next
    case 3
    then obtain m where m: "n = 2 * m + 1" "m \<noteq> 0" by (auto elim: oddE)
    then have "n AND (n - 1) = 2 * m"
      by (simp add: and_nat_rec [of "Suc (2 * m)"])
    moreover have "n \<noteq> 2 ^ k" for k using 3 by (cases k) auto
    ultimately show ?thesis using m by (simp add: isPowerOf2_def)
  next
    case 4
    then obtain m where m: "n = 2 * m" "m \<noteq> 0" by (auto elim: evenE)
    have "(2 * m) AND (2 * m - 1) = 2 * (m AND (m - 1))"
    proof (cases m)
      case (Suc l)
      have "(2 * m) AND (2 * l + 1) = 2 * (m AND l)"
        by (subst and_nat_rec) simp
      then show ?thesis using Suc by simp
    qed (use m in simp)
    moreover have "(\<exists>k. 2 * m = 2 ^ k) \<longleftrightarrow> (\<exists>k. m = 2 ^ k)"
    proof
      assume "\<exists>k. 2 * m = 2 ^ k"
      then obtain k where "2 * m = 2 ^ k" ..
      then show "\<exists>k. m = 2 ^ k" by (cases k) auto
    qed (metis power_Suc)
    ultimately show ?thesis using 1 [unfolded m] m by (auto simp: isPowerOf2_def)
  qed
qed

lemma doubleBelow_spec:
  "p = 2 ^ j \<Longrightarrow> p < n \<Longrightarrow> \<exists>k. doubleBelow n p = 2 ^ k \<and> 2 ^ k < n \<and> n \<le> 2 * 2 ^ k"
proof (induction n p arbitrary: j rule: doubleBelow.induct)
  case (1 n p)
  show ?case
  proof (cases "p * 2 < n")
    case True
    then show ?thesis
      using "1.IH" [of "Suc j"] "1.prems"
      by (simp add: doubleBelow.simps [of n p] doubleBelow.simps [of n "2 ^ j"])
  next
    case False
    then have "doubleBelow n p = p" by (simp add: doubleBelow.simps [of n p])
    then show ?thesis using False "1.prems" by (auto intro!: exI [of _ j])
  qed
qed

lemma highestPowerOf2Below_spec:
  "2 \<le> n \<Longrightarrow> \<exists>k. highestPowerOf2Below n = 2 ^ k \<and> 2 ^ k < n \<and> n \<le> 2 * 2 ^ k"
  using doubleBelow_spec [of 1 0 n] by (simp add: highestPowerOf2Below_def)

subsection \<open>The seeding order\<close>

text \<open>The body of the \<open>while\<close> loop: every seed is followed by its opponent.\<close>

definition insertComplements :: "nat list \<Rightarrow> nat list" where
  "insertComplements seeds =
     (let complement = length seeds * 2 + 1 in concat (map (\<lambda>s. [s, complement - s]) seeds))"

lemma length_insertComplements [simp]: "length (insertComplements seeds) = 2 * length seeds"
  by (simp add: insertComplements_def Let_def length_concat comp_def sum_list_triv)

function growSeeds :: "nat list \<Rightarrow> nat \<Rightarrow> nat list" where
  "growSeeds seeds bracketSize =
     (if seeds \<noteq> [] \<and> length seeds < bracketSize then growSeeds (insertComplements seeds) bracketSize else seeds)"
  by pat_completeness auto
termination
  by (relation "measure (\<lambda>(seeds, bracketSize). bracketSize - length seeds)") (auto simp: neq_Nil_conv)

declare growSeeds.simps [simp del]

fun pairAdjacent :: "nat list \<Rightarrow> (nat \<times> nat) list" where
  "pairAdjacent (a # b # rest) = (a, b) # pairAdjacent rest"
| "pairAdjacent _ = []"

definition buildSeedingOrder :: "nat \<Rightarrow> (nat \<times> nat) list" where
  "buildSeedingOrder bracketSize =
     (if bracketSize = 2 then [(1, 2)] else pairAdjacent (growSeeds [1] bracketSize))"

text \<open>The order the code produces for eight seeds, which is not the one its comment lists.\<close>

lemma seeding_order_8: "buildSeedingOrder 8 = [(1, 8), (4, 5), (2, 7), (3, 6)]"
  by (simp add: buildSeedingOrder_def growSeeds.simps insertComplements_def Let_def)

text \<open>The list of seeds after \<open>k\<close> turns of the loop.\<close>

fun seeds :: "nat \<Rightarrow> nat list" where
  "seeds 0 = [1]"
| "seeds (Suc k) = insertComplements (seeds k)"

lemma length_seeds [simp]: "length (seeds k) = 2 ^ k"
  by (induction k) simp_all

lemma growSeeds_seeds: "growSeeds (seeds j) (2 ^ (j + d)) = seeds (j + d)"
proof (induction d arbitrary: j)
  case 0
  then show ?case by (simp add: growSeeds.simps)
next
  case (Suc d)
  have "seeds j \<noteq> []" by (metis length_seeds list.size(3) power_not_zero zero_neq_numeral)
  then have "growSeeds (seeds j) (2 ^ (j + Suc d)) = growSeeds (seeds (Suc j)) (2 ^ (Suc j + d))"
    using power_strict_increasing [of j "Suc (j + d)" "2 :: nat"] by (subst growSeeds.simps) simp
  then show ?case using Suc.IH [of "Suc j"] by simp
qed

lemma pairAdjacent_pairs: "pairAdjacent (concat (map (\<lambda>s. [s, f s]) xs)) = map (\<lambda>s. (s, f s)) xs"
  by (induction xs) simp_all

definition flatten_pairs :: "(nat \<times> nat) list \<Rightarrow> nat list" where
  "flatten_pairs ps = concat (map (\<lambda>(a, b). [a, b]) ps)"

lemma seeding_order_pairs: "buildSeedingOrder (2 ^ Suc k) = map (\<lambda>s. (s, 2 ^ Suc k + 1 - s)) (seeds k)"
proof -
  have "pairAdjacent (seeds (Suc k)) = map (\<lambda>s. (s, 2 ^ Suc k + 1 - s)) (seeds k)"
    by (simp add: insertComplements_def Let_def pairAdjacent_pairs mult.commute)
  moreover have "buildSeedingOrder (2 ^ Suc k) = pairAdjacent (seeds (Suc k))"
    using growSeeds_seeds [of 0 "Suc k"]
    by (cases k) (simp_all add: buildSeedingOrder_def insertComplements_def Let_def)
  ultimately show ?thesis by simp
qed

lemma flatten_seeding_order: "flatten_pairs (buildSeedingOrder (2 ^ Suc k)) = seeds (Suc k)"
  unfolding seeding_order_pairs by (simp add: flatten_pairs_def insertComplements_def Let_def comp_def mult.commute)

lemma mset_seeds: "mset (seeds k) = mset [1..<2 ^ k + 1]"
proof (induction k)
  case (Suc k)
  let ?n = "2 ^ k :: nat"
  have "mset (seeds (Suc k)) = mset (seeds k) + image_mset (\<lambda>s. 2 * ?n + 1 - s) (mset (seeds k))"
  proof -
    have "mset (concat (map (\<lambda>s. [s, f s]) xs)) = mset xs + image_mset f (mset xs)" for f :: "nat \<Rightarrow> nat" and xs
      by (induction xs) simp_all
    then show ?thesis by (simp add: insertComplements_def Let_def mult.commute)
  qed
  also have "image_mset (\<lambda>s. 2 * ?n + 1 - s) (mset (seeds k)) = mset (map (\<lambda>s. 2 * ?n + 1 - s) [1..<?n + 1])"
    unfolding Suc.IH by (simp only: mset_map)
  also have "map (\<lambda>s. 2 * ?n + 1 - s) [1..<?n + 1] = rev [?n + 1..<2 * ?n + 1]"
    by (rule nth_equalityI) (auto simp: rev_nth simp del: upt_Suc)
  also have "mset (seeds k) + mset (rev [?n + 1..<2 * ?n + 1]) = mset ([1..<?n + 1] @ [?n + 1..<2 * ?n + 1])"
    unfolding Suc.IH by (simp only: mset_rev mset_append)
  also have "[1..<?n + 1] @ [?n + 1..<2 * ?n + 1] = [1..<2 ^ Suc k + 1]"
    using upt_add_eq_append [of 1 "?n + 1" ?n] by (simp add: mult_2 del: upt_Suc)
  finally show ?case .
qed simp

lemma set_seeds: "set (seeds k) = {1..2 ^ k}"
proof -
  have "set (seeds k) = set [1..<2 ^ k + 1]" 
    using arg_cong [OF mset_seeds [of k], of set_mset] by (simp only: set_mset_mset)
  then show ?thesis by (simp only: set_upt Suc_eq_plus1 [symmetric] atLeastLessThanSuc_atLeastAtMost)
qed

text \<open>
  C35. The seeding order protects the favourites: for a bracket of \<open>2 ^ k\<close> every seed from
  1 to the size is placed once, the two seeds of a match add up to the size plus one, and
  when every match is won by the better seed, the winners stand in the next round exactly
  as the seeding order of the bracket half the size.
\<close>

theorem seeding_protects_favourites:
  "mset (flatten_pairs (buildSeedingOrder (2 ^ Suc k))) = mset [1..<2 ^ Suc k + 1] \<and>
   list_all (\<lambda>(a, b). a + b = 2 ^ Suc k + 1) (buildSeedingOrder (2 ^ Suc k)) \<and>
   map (\<lambda>(a, b). min a b) (buildSeedingOrder (2 ^ Suc (Suc k))) = flatten_pairs (buildSeedingOrder (2 ^ Suc k))"
proof (intro conjI)
  show "mset (flatten_pairs (buildSeedingOrder (2 ^ Suc k))) = mset [1..<2 ^ Suc k + 1]"
    by (simp only: flatten_seeding_order mset_seeds)
  show "list_all (\<lambda>(a, b). a + b = 2 ^ Suc k + 1) (buildSeedingOrder (2 ^ Suc k))"
    unfolding seeding_order_pairs using set_seeds [of k] by (auto simp: list_all_iff)
  have "map (\<lambda>(a, b). min a b) (buildSeedingOrder (2 ^ Suc (Suc k))) = map id (seeds (Suc k))"
    unfolding seeding_order_pairs [of "Suc k"] map_map
    by (rule map_cong) (use set_seeds [of "Suc k"] in \<open>auto simp: min_def\<close>)
  then show "map (\<lambda>(a, b). min a b) (buildSeedingOrder (2 ^ Suc (Suc k))) = flatten_pairs (buildSeedingOrder (2 ^ Suc k))"
    by (simp only: flatten_seeding_order list.map_id)
qed

subsection \<open>Rows of slots\<close>

lemma filter_rows:
  assumes "\<And>r s. s \<in> set (row r) \<Longrightarrow> level s = r"
  shows "filter (\<lambda>s. level s = r) (concat (map row [a..<b])) = (if a \<le> r \<and> r < b then row r else [])"
proof (induction b)
  case (Suc b)
  have "filter (\<lambda>s. level s = r) (row b) = (if r = b then row r else [])"
    using assms [of _ b] by (auto simp: filter_empty_conv intro!: filter_True)
  with Suc show ?case by auto
qed simp

text \<open>The two entrants of every match of a row, and the positions of the row before.\<close>

lemma two_per_match: "concat (map (\<lambda>p. [f (2 * (p - 1) + 1), f (2 * (p - 1) + 2)]) [1..<n + 1]) = map f [1..<2 * n + 1]"
  by (induction n) simp_all

subsection \<open>Who enters a list of slots, and what it refers to\<close>

definition entry_seeds :: "'a bracket_slot_scheme \<Rightarrow> nat list" where
  "entry_seeds s =
     (case homeSeed s of None \<Rightarrow> [] | Some a \<Rightarrow> [a]) @ (case awaySeed s of None \<Rightarrow> [] | Some a \<Rightarrow> [a])"

definition sources_of :: "source_type \<Rightarrow> 'a bracket_slot_scheme \<Rightarrow> string list" where
  "sources_of t s =
     (if sourceAType s = t then [homeSource s] else []) @ (if sourceBType s = t then [awaySource s] else [])"

lemma concat_indexed: "concat (map (\<lambda>(i, p). h p) (zip [0..<length ps] ps)) = concat (map h ps)"
proof -
  have "map (\<lambda>(i, p). h p) (zip [0..<length ps] ps) = map h ps" by (rule nth_equalityI) auto
  then show ?thesis by simp
qed

lemma concat_if_singleton: "concat (map (\<lambda>x. if P x then [f x] else []) xs) = map f (filter P xs)"
  by (induction xs) simp_all

lemma flatten_map: "concat (map (\<lambda>(a, b). f a @ f b) ps) = concat (map f (flatten_pairs ps))"
  by (induction ps) (auto simp: flatten_pairs_def)

lemma distinct_by_level:
  assumes "\<And>r. distinct (map g (filter (\<lambda>s. f s = r) xs))"
  shows "distinct (map (\<lambda>s. (f s, g s)) xs)"
  using assms
proof (induction xs)
  case (Cons a xs)
  have "distinct (map g (filter (\<lambda>s. f s = r) xs))" for r
    using Cons.prems [of r] by (auto split: if_splits)
  then show ?case using Cons.IH Cons.prems [of "f a"] by (auto simp: image_iff)
qed simp

text \<open>The seeding order filtered, and the seeds of a bracket with a play-in round.\<close>

lemma mset_filter_order:
  assumes "1 \<le> k"
  shows "mset (filter P (flatten_pairs (buildSeedingOrder (2 ^ k)))) = mset (filter P [1..<2 ^ k + 1])"
proof -
  obtain j where "k = Suc j" using assms by (cases k) auto
  then show ?thesis by (simp only: flatten_seeding_order mset_filter mset_seeds)
qed

lemma filter_le_upt: "filter (\<lambda>s. s \<le> b) [1..<m + 1] = [1..<min b m + 1]"
proof (induction m)
  case (Suc m)
  then show ?case by (auto simp: min_def)
qed simp

lemma filter_gt_upt: "filter (\<lambda>s. b < s) [1..<m + 1] = [b + 1..<m + 1]"
  by (induction m) auto

lemma entries_default:
  assumes "2 ^ k < n" and "n \<le> 2 * 2 ^ k"
  shows "mset (map ((+) (2 ^ k - (n - 2 ^ k))) [1..<n - 2 ^ k + 1]) + mset (map (\<lambda>i. n - i + 1) [1..<n - 2 ^ k + 1])
    + mset [1..<2 ^ k - (n - 2 ^ k) + 1] = mset [1..<n + 1]"
proof -
  let ?m = "2 ^ k :: nat"
  let ?b = "?m - (n - ?m)"
  have "map ((+) ?b) [1..<n - ?m + 1] = [?b + 1..<?m + 1]"
    using assms by (intro nth_equalityI) (auto simp del: upt_Suc)
  moreover have "map (\<lambda>i. n - i + 1) [1..<n - ?m + 1] = rev [?m + 1..<n + 1]"
    using assms by (intro nth_equalityI) (auto simp: rev_nth simp del: upt_Suc)
  moreover have "[1..<n + 1] = [1..<?b + 1] @ [?b + 1..<?m + 1] @ [?m + 1..<n + 1]"
    using assms upt_add_eq_append [of 1 "?b + 1" "n - ?b"] upt_add_eq_append [of "?b + 1" "?m + 1" "n - ?m"]
    by (simp add: less_imp_le_nat del: upt_Suc)
  ultimately show ?thesis by (simp only: mset_append mset_rev union_assoc union_commute union_lcomm)
qed

lemma length_seeding_order: "1 \<le> k \<Longrightarrow> length (buildSeedingOrder (2 ^ k)) = 2 ^ (k - 1)"
proof -
  assume "1 \<le> k"
  then obtain j where j: "k = Suc j" by (cases k) auto
  show ?thesis unfolding j seeding_order_pairs by simp
qed

subsection \<open>The contract of a bracket generator\<close>

text \<open>
  What the callers of the two generators rely on: the seeds of the slots are the field. The
  lemmas read off it where a fighter enters.
\<close>

lemma in_one_list:
  assumes "distinct (concat (map f xs))" and "s \<in> set (concat (map f xs))"
  shows "length (filter (\<lambda>x. s \<in> set (f x)) xs) = 1"
  using assms by (induction xs) (auto simp: filter_empty_conv)

locale bracket_generator =
  fixes generate :: "nat \<Rightarrow> 'o \<Rightarrow> 'e + 'b"
    and slots_of :: "'b \<Rightarrow> 'a bracket_slot_scheme list"
  assumes entries: "generate n opts = Inr b \<Longrightarrow> mset (concat (map entry_seeds (slots_of b))) = mset [1..<n + 1]"
begin

lemma distinct_entries: "generate n opts = Inr b \<Longrightarrow> distinct (concat (map entry_seeds (slots_of b)))"
  using entries [THEN mset_eq_imp_distinct_iff] by simp

lemma set_entries: "generate n opts = Inr b \<Longrightarrow> set (concat (map entry_seeds (slots_of b))) = {1..n}"
  using entries [THEN mset_eq_setD] by (simp add: atLeastLessThanSuc_atLeastAtMost del: upt_Suc)

lemma one_slot:
  assumes "generate n opts = Inr b" and "1 \<le> s \<and> s \<le> n"
  shows "length (filter (\<lambda>x. s \<in> set (entry_seeds x)) (slots_of b)) = 1"
proof (rule in_one_list [OF distinct_entries [OF assms(1)]])
  show "s \<in> set (concat (map entry_seeds (slots_of b)))"
    unfolding set_entries [OF assms(1)] using assms(2) by simp
qed

lemma entrants_of_slot:
  assumes "generate n opts = Inr b" and "x \<in> set (slots_of b)"
  shows "distinct (entry_seeds x) \<and> set (entry_seeds x) \<subseteq> {1..n}"
  using distinct_entries [OF assms(1)] set_entries [OF assms(1)] assms(2)
  by (auto simp: distinct_concat_iff)

end

end
