(* ===== verification/Single_Elim.thy ===== *)
theory Single_Elim
  imports Bracket
begin

section \<open>Single-elimination brackets\<close>

text \<open>
  \<open>packages/rules/src/scheduling/single-elim.ts\<close>. An explicit \<open>bracketSize\<close> is the
  option \<open>Some\<close>: it selects the mode with byes. Counts are naturals.
\<close>

record single_elim_bracket =
  bracketSize :: nat
  mainBracketSize :: nat
  fighterCount :: nat
  byeCount :: nat
  byeSeedCount :: nat
  playInMatchCount :: nat
  hasPlayInRound :: bool
  rounds :: nat
  slots :: "bracket_slot list"

datatype bracket_error =
    NeedAtLeastTwoFighters
  | SizeNotAPowerOfTwo nat
  | SizeBelowFighterCount nat nat
  | SizeTooLarge nat

definition MAX_SINGLE_ELIM_BRACKET_SIZE :: nat where
  "MAX_SINGLE_ELIM_BRACKET_SIZE = 128"

definition seedName :: "nat \<Rightarrow> string" where
  "seedName s = ''seed '' @ show_nat s"

definition winnerName :: "nat \<Rightarrow> nat \<Rightarrow> string" where
  "winnerName r p = ''winner of R'' @ show_nat r @ ''P'' @ show_nat p"

definition loserName :: "nat \<Rightarrow> nat \<Rightarrow> string" where
  "loserName r p = ''loser of R'' @ show_nat r @ ''P'' @ show_nat p"

text \<open>The loop of round 0, with its position.\<close>

definition play_in_slot :: "nat \<Rightarrow> nat \<Rightarrow> nat \<Rightarrow> bracket_slot" where
  "play_in_slot entrants byes pos =
     (let seedSlot = byes + pos; opponentSeed = entrants - pos + 1
      in \<lparr>round = 0, position = pos, homeSeed = Some seedSlot, awaySeed = Some opponentSeed,
          isBye = False, homeSource = seedName seedSlot, awaySource = seedName opponentSeed,
          sourceAType = SeedSource, sourceBType = SeedSource\<rparr>)"

text \<open>
  One side of a first-round match: its seed, its source and the type of its source. The
  code writes the same expressions once for the home and once for the away side.
\<close>

definition first_round_side ::
    "bool \<Rightarrow> bool \<Rightarrow> nat \<Rightarrow> nat \<Rightarrow> nat \<Rightarrow> nat option \<times> string \<times> source_type" where
  "first_round_side legacy playIn entrants byes s =
     (let playInPos = (if playIn \<and> s > byes then Some (s - byes) else None)
      in if legacy \<and> s > entrants then (None, ''bye'', ByeSource)
         else (case playInPos of
                 Some p \<Rightarrow> (None, winnerName 0 p, WinnerOf)
               | None \<Rightarrow> (Some s, seedName s, SeedSource)))"

definition first_round_slot ::
    "bool \<Rightarrow> bool \<Rightarrow> nat \<Rightarrow> nat \<Rightarrow> nat \<times> nat \<times> nat \<Rightarrow> bracket_slot" where
  "first_round_slot legacy playIn entrants byes =
     (\<lambda>(pos, home, away).
        let (hs, hsrc, htype) = first_round_side legacy playIn entrants byes home;
            (as, asrc, atype) = first_round_side legacy playIn entrants byes away
        in \<lparr>round = 1, position = pos + 1, homeSeed = hs, awaySeed = as,
            isBye = legacy \<and> home > entrants \<or> legacy \<and> away > entrants,
            homeSource = hsrc, awaySource = asrc, sourceAType = htype, sourceBType = atype\<rparr>)"

definition later_slot :: "nat \<Rightarrow> nat \<Rightarrow> bracket_slot" where
  "later_slot rnd pos =
     (let prevPos1 = (pos - 1) * 2 + 1; prevPos2 = (pos - 1) * 2 + 2
      in \<lparr>round = rnd, position = pos, homeSeed = None, awaySeed = None, isBye = False,
          homeSource = winnerName (rnd - 1) prevPos1, awaySource = winnerName (rnd - 1) prevPos2,
          sourceAType = WinnerOf, sourceBType = WinnerOf\<rparr>)"

definition later_rounds :: "nat \<Rightarrow> nat \<Rightarrow> bracket_slot list" where
  "later_rounds mainSize lastRound =
     concat (map (\<lambda>rnd. map (later_slot rnd) [1..<mainSize div 2 ^ rnd + 1]) [2..<lastRound + 1])"

definition bronze_slot :: "nat \<Rightarrow> bracket_slot" where
  "bronze_slot lastRound =
     \<lparr>round = lastRound, position = 2, homeSeed = None, awaySeed = None, isBye = False,
      homeSource = loserName (lastRound - 1) 1, awaySource = loserName (lastRound - 1) 2,
      sourceAType = LoserOf, sourceBType = LoserOf\<rparr>"

text \<open>The size of the main bracket, with the checks on an explicit one.\<close>

definition resolve_size :: "nat \<Rightarrow> nat option \<Rightarrow> bracket_error + nat" where
  "resolve_size entrants requested =
     (case requested of
        Some b \<Rightarrow>
          if b < 2 \<or> b AND (b - 1) \<noteq> 0 then Inl (SizeNotAPowerOfTwo b)
          else if b < entrants then Inl (SizeBelowFighterCount b entrants)
          else Inr b
      | None \<Rightarrow> Inr (if isPowerOf2 entrants then entrants else highestPowerOf2Below entrants))"

definition singleElimBracket :: "nat \<Rightarrow> nat option \<Rightarrow> bracket_error + single_elim_bracket" where
  "singleElimBracket entrants requested =
     (if entrants < 2 then Inl NeedAtLeastTwoFighters
      else case resolve_size entrants requested of
        Inl e \<Rightarrow> Inl e
      | Inr b \<Rightarrow>
          if b > MAX_SINGLE_ELIM_BRACKET_SIZE then Inl (SizeTooLarge b)
          else
            (let legacy = (requested \<noteq> None);
                 playIns = (if legacy \<or> isPowerOf2 entrants then 0 else entrants - b);
                 playIn = (playIns > 0);
                 byeSeeds = (if legacy then b - entrants else if playIn then b - playIns else 0);
                 byes = (if legacy then b - entrants else byeSeeds);
                 lastRound = log2 b;
                 pairs = buildSeedingOrder b;
                 sl = (if playIn then map (play_in_slot entrants byeSeeds) [1..<playIns + 1] else [])
                      @ map (first_round_slot legacy playIn entrants byeSeeds) (zip [0..<length pairs] pairs)
                      @ later_rounds b lastRound
                      @ (if b \<ge> 4 then [bronze_slot lastRound] else [])
             in Inr \<lparr>bracketSize = b, mainBracketSize = b, fighterCount = entrants, byeCount = byes,
                     byeSeedCount = byeSeeds, playInMatchCount = playIns, hasPlayInRound = playIn,
                     rounds = lastRound, slots = sl\<rparr>))"

definition totalBracketMatches :: "nat \<Rightarrow> int" where
  "totalBracketMatches entrants = int entrants - 1"

subsection \<open>The shape of a generated bracket\<close>

definition all_slots :: "bool \<Rightarrow> nat \<Rightarrow> nat \<Rightarrow> nat \<Rightarrow> nat \<Rightarrow> bracket_slot list" where
  "all_slots legacy entrants playIns byeSeeds k =
     (if playIns > 0 then map (play_in_slot entrants byeSeeds) [1..<playIns + 1] else [])
     @ map (first_round_slot legacy (playIns > 0) entrants byeSeeds)
         (zip [0..<length (buildSeedingOrder (2 ^ k))] (buildSeedingOrder (2 ^ k)))
     @ later_rounds (2 ^ k) k
     @ (if 2 ^ k \<ge> (4 :: nat) then [bronze_slot k] else [])"

lemma bracket_shape:
  assumes "singleElimBracket n req = Inr b"
  shows "\<exists>k. 1 \<le> k \<and> 2 \<le> n \<and> bracketSize b = 2 ^ k \<and> rounds b = k \<and>
    slots b = all_slots (req \<noteq> None) n (playInMatchCount b) (byeSeedCount b) k \<and>
    (if req \<noteq> None then n \<le> 2 ^ k \<and> playInMatchCount b = 0 \<and> byeSeedCount b = 2 ^ k - n
     else 2 ^ k \<le> n \<and> n < 2 * 2 ^ k \<and> playInMatchCount b = n - 2 ^ k \<and>
       byeSeedCount b = (if n = 2 ^ k then 0 else 2 ^ k - (n - 2 ^ k)))"
proof -
  obtain bs where bs: "resolve_size n req = Inr bs" and n: "2 \<le> n"
    using assms by (auto simp: singleElimBracket_def split: if_splits sum.splits)
  have "\<exists>k. 1 \<le> k \<and> bs = 2 ^ k \<and> (if req \<noteq> None then n \<le> 2 ^ k else
      2 ^ k \<le> n \<and> n < 2 * 2 ^ k \<and> (isPowerOf2 n \<longleftrightarrow> n = 2 ^ k))"
  proof (cases req)
    case None
    show ?thesis
    proof (cases "isPowerOf2 n")
      case True
      then obtain k where k: "n = 2 ^ k" by (auto simp: isPowerOf2_iff)
      then have "1 \<le> k" using n by (cases k) auto
      then show ?thesis using None True k bs by (auto simp: resolve_size_def intro!: exI [of _ k])
    next
      case False
      then obtain k where k: "bs = 2 ^ k" "2 ^ k < n" "n \<le> 2 * 2 ^ k"
        using highestPowerOf2Below_spec [OF n] bs None by (auto simp: resolve_size_def)
      have "n \<noteq> 2 ^ Suc k" using False by (auto simp: isPowerOf2_iff simp del: power_Suc)
      moreover have "1 \<le> k" using k n calculation by (cases k) auto
      ultimately show ?thesis using None False k by (auto intro!: exI [of _ k])
    qed
  next
    case (Some r)
    then have "isPowerOf2 bs" and "n \<le> bs" and "2 \<le> bs"
      using bs by (auto simp: resolve_size_def isPowerOf2_def split: if_splits)
    then obtain k where "bs = 2 ^ k" by (auto simp: isPowerOf2_iff)
    moreover from this have "1 \<le> k" using \<open>2 \<le> bs\<close> by (cases k) auto
    ultimately show ?thesis using Some \<open>n \<le> bs\<close> by auto
  qed
  then obtain k where k: "1 \<le> k" "bs = 2 ^ k" and
    cases: "if req \<noteq> None then n \<le> 2 ^ k else 2 ^ k \<le> n \<and> n < 2 * 2 ^ k \<and> (isPowerOf2 n \<longleftrightarrow> n = 2 ^ k)"
    by blast
  have b: "bracketSize b = bs" "rounds b = log2 bs"
    "playInMatchCount b = (if req \<noteq> None \<or> isPowerOf2 n then 0 else n - bs)"
    "byeSeedCount b = (if req \<noteq> None then bs - n else if playInMatchCount b > 0 then bs - playInMatchCount b else 0)"
    using assms n bs by (auto simp: singleElimBracket_def Let_def split: if_splits)
  have "slots b = all_slots (req \<noteq> None) n (playInMatchCount b) (byeSeedCount b) k"
    using assms n bs k by (auto simp: singleElimBracket_def Let_def all_slots_def split: if_splits)
  then show ?thesis
    using n k cases b by (intro exI [of _ k]) (simp split: if_splits)
qed

subsection \<open>Who enters, and where the winners go\<close>

lemma entry_first_round:
  "concat (map entry_seeds (map (first_round_slot legacy playIn n byes) (zip [0..<length ps] ps))) =
   filter (\<lambda>s. \<not> (legacy \<and> s > n) \<and> \<not> (playIn \<and> s > byes)) (flatten_pairs ps)"
proof -
  let ?f = "\<lambda>s. if \<not> (legacy \<and> s > n) \<and> \<not> (playIn \<and> s > byes) then [s] else []"
  have "entry_seeds (first_round_slot legacy playIn n byes x) = (\<lambda>(i, a, b). ?f a @ ?f b) x" for x
    by (auto simp: entry_seeds_def first_round_slot_def first_round_side_def split: prod.split)
  then have "map entry_seeds (map (first_round_slot legacy playIn n byes) (zip [0..<length ps] ps)) =
      map (\<lambda>(i, p). (\<lambda>(a, b). ?f a @ ?f b) p) (zip [0..<length ps] ps)" by simp
  then show ?thesis
    by (simp only: concat_indexed flatten_map concat_if_singleton list.map_ident)
qed

lemma winners_first_round:
  "concat (map (sources_of WinnerOf) (map (first_round_slot legacy playIn n byes) (zip [0..<length ps] ps))) =
   map (\<lambda>s. winnerName 0 (s - byes)) (filter (\<lambda>s. \<not> (legacy \<and> s > n) \<and> playIn \<and> s > byes) (flatten_pairs ps))"
proof -
  let ?f = "\<lambda>s. if \<not> (legacy \<and> s > n) \<and> playIn \<and> s > byes then [winnerName 0 (s - byes)] else []"
  have "sources_of WinnerOf (first_round_slot legacy playIn n byes x) = (\<lambda>(i, a, b). ?f a @ ?f b) x" for x
    by (auto simp: sources_of_def first_round_slot_def first_round_side_def split: prod.split)
  then have "map (sources_of WinnerOf) (map (first_round_slot legacy playIn n byes) (zip [0..<length ps] ps)) =
      map (\<lambda>(i, p). (\<lambda>(a, b). ?f a @ ?f b) p) (zip [0..<length ps] ps)" by simp
  then show ?thesis by (simp only: concat_indexed flatten_map concat_if_singleton)
qed

lemma no_entry_later: "concat (map entry_seeds (later_rounds m k)) = []"
  by (auto simp: later_rounds_def later_slot_def entry_seeds_def)

lemma mset_play_in: 
  "mset (concat (map entry_seeds (map (play_in_slot n b) [1..<p + 1]))) = mset (map ((+) b) [1..<p + 1]) + mset (map (\<lambda>i. n - i + 1) [1..<p + 1])"
  by (induction p) (simp_all add: entry_seeds_def play_in_slot_def Let_def)

lemma entries_of_all_slots:
  "concat (map entry_seeds (all_slots legacy n p b k)) =
   (if p > 0 then concat (map entry_seeds (map (play_in_slot n b) [1..<p + 1])) else []) @
   filter (\<lambda>s. \<not> (legacy \<and> s > n) \<and> \<not> (p > 0 \<and> s > b)) (flatten_pairs (buildSeedingOrder (2 ^ k)))"
proof -
  have "entry_seeds (bronze_slot k) = []" by (simp add: entry_seeds_def bronze_slot_def)
  then show ?thesis
    unfolding all_slots_def map_append concat_append entry_first_round no_entry_later by simp
qed

lemma length_later_rounds: "length (later_rounds (2 ^ k) j) + 2 ^ (k - j) = 2 ^ (k - 1)" if "1 \<le> j" "j \<le> k"
  using that
proof (induction j)
  case (Suc j)
  show ?case
  proof (cases "j = 0")
    case True
    then show ?thesis by (simp add: later_rounds_def)
  next
    case False
    then have IH: "length (later_rounds (2 ^ k) j) + 2 ^ (k - j) = 2 ^ (k - 1)" using Suc by simp
    have "length (later_rounds (2 ^ k) (Suc j)) = length (later_rounds (2 ^ k) j) + 2 ^ k div 2 ^ Suc j"
      using False by (simp add: later_rounds_def)
    moreover have "(2 :: nat) ^ k div 2 ^ Suc j = 2 ^ (k - Suc j)"
      using Suc.prems by (simp only: power_diff zero_neq_numeral not_False_eq_True)
    moreover have "(2 :: nat) ^ (k - j) = 2 ^ (k - Suc j) + 2 ^ (k - Suc j)"
      using Suc.prems by (simp add: Suc_diff_Suc flip: mult_2 power_Suc)
    ultimately show ?thesis using IH by linarith
  qed
qed simp

lemma length_all_slots:
  "1 \<le> k \<Longrightarrow> length (all_slots legacy n p b k) = p + 2 ^ k - 1 + (if 2 ^ k \<ge> (4 :: nat) then 1 else 0)"
proof -
  assume k: "1 \<le> k"
  obtain h where h: "h = (2 :: nat) ^ (k - 1)" by simp
  have "(2 :: nat) ^ k = h + h" "length (buildSeedingOrder (2 ^ k)) = h"
    "length (later_rounds (2 ^ k) k) + 1 = h"
    using k length_later_rounds [OF k order_refl] length_seeding_order [OF k] h by (cases k; simp)+
  moreover from this have "0 < h" by linarith
  ultimately show ?thesis by (auto simp: all_slots_def; linarith)
qed

lemma single_entries:
  assumes "singleElimBracket n req = Inr b"
  shows "mset (concat (map entry_seeds (slots b))) = mset [1..<n + 1]"
proof -
  obtain k where k: "1 \<le> k" "2 \<le> n" "bracketSize b = 2 ^ k"
    and slots: "slots b = all_slots (req \<noteq> None) n (playInMatchCount b) (byeSeedCount b) k"
    and num: "if req \<noteq> None then n \<le> 2 ^ k \<and> playInMatchCount b = 0 \<and> byeSeedCount b = 2 ^ k - n
     else 2 ^ k \<le> n \<and> n < 2 * 2 ^ k \<and> playInMatchCount b = n - 2 ^ k \<and>
       byeSeedCount b = (if n = 2 ^ k then 0 else 2 ^ k - (n - 2 ^ k))"
    using bracket_shape [OF assms] by blast
  let ?p = "playInMatchCount b" and ?b = "byeSeedCount b"
  let ?R = "filter (\<lambda>s. \<not> (req \<noteq> None \<and> s > n) \<and> \<not> (?p > 0 \<and> s > ?b)) [1..<2 ^ k + 1]"
  have "mset (concat (map entry_seeds (slots b))) =
      (if ?p > 0 then mset (concat (map entry_seeds (map (play_in_slot n ?b) [1..<?p + 1]))) else {#}) + mset ?R"
    unfolding slots entries_of_all_slots mset_append mset_filter_order [OF k(1)] by simp
  also have "\<dots> = mset [1..<n + 1]"
  proof -
    consider "req \<noteq> None" | "req = None" "n = 2 ^ k" | "req = None" "2 ^ k < n"
      using num by (cases "req = None"; cases "n = 2 ^ k") auto
    then show ?thesis
    proof cases
      case 1
      then have "?R = filter (\<lambda>s. s \<le> n) [1..<2 ^ k + 1]" using num by (auto intro: filter_cong)
      then show ?thesis using 1 num by (simp only: filter_le_upt) (simp add: min_def del: upt_Suc)
    next
      case 2
      then show ?thesis using num by (simp del: upt_Suc)
    next
      case 3
      then have p: "?p = n - 2 ^ k" "0 < ?p" and b: "?b = 2 ^ k - (n - 2 ^ k)" and n: "n < 2 * 2 ^ k"
        using num by simp_all
      have "?R = filter (\<lambda>s. s \<le> ?b) [1..<2 ^ k + 1]" using 3(1) p by (auto intro: filter_cong)
      then have "?R = [1..<?b + 1]" by (simp only: filter_le_upt b diff_le_self min_absorb1)
      then show ?thesis
        using entries_default [OF 3(2) less_imp_le [OF n], folded b, folded p(1)] by (simp only: p(2) if_True mset_play_in)
    qed
  qed
  finally show ?thesis .
qed

interpretation single: bracket_generator singleElimBracket slots
  by unfold_locales (rule single_entries)



text \<open>Thirteen fighters by default, and five of them in a bracket of eight.\<close>

lemma bracket_of_13: "singleElimBracket 13 None = Inr (projr (singleElimBracket 13 None)) \<and>
    bracketSize (projr (singleElimBracket 13 None)) = 8 \<and> rounds (projr (singleElimBracket 13 None)) = 3"
proof -
  have "resolve_size 13 None = Inr 8"
    by (simp add: resolve_size_def isPowerOf2_def highestPowerOf2Below_def doubleBelow.simps)
  then show ?thesis using log2_power [of 3] by (simp add: singleElimBracket_def Let_def MAX_SINGLE_ELIM_BRACKET_SIZE_def)
qed


lemma level_later: "s \<in> set (map (later_slot r) [1..<m div 2 ^ r + 1]) \<Longrightarrow> round s = r"
  by (auto simp: later_slot_def Let_def)

lemma filter_later_rounds:
  "filter (\<lambda>s. round s = r) (later_rounds m k) =
   (if 2 \<le> r \<and> r \<le> k then map (later_slot r) [1..<m div 2 ^ r + 1] else [])"
  unfolding later_rounds_def
  by (subst filter_rows [where level = round and row = "\<lambda>r. map (later_slot r) [1..<m div 2 ^ r + 1]", OF level_later])
     (assumption, simp add: less_Suc_eq_le del: upt_Suc)

lemma round_of_slots [simp]:
  "round (play_in_slot n b p) = 0" "round (first_round_slot l h n b x) = 1" "round (bronze_slot k) = k"
  by (auto simp: play_in_slot_def first_round_slot_def bronze_slot_def Let_def split: prod.split)

lemma position_of_slots [simp]:
  "position (play_in_slot n b p) = p" "position (first_round_slot l h n b x) = fst x + 1"
  "position (bronze_slot k) = 2" "position (later_slot r p) = p" "round (later_slot r p) = r"
  by (auto simp: play_in_slot_def first_round_slot_def bronze_slot_def later_slot_def Let_def split: prod.split)

text \<open>The slots of one round of the bracket.\<close>

lemma slots_of_round:
  assumes "1 \<le> k"
  shows "filter (\<lambda>s. round s = 0) (all_slots l n p b k) = map (play_in_slot n b) [1..<p + 1]"
    and "filter (\<lambda>s. round s = 1) (all_slots l n p b k) =
      map (first_round_slot l (p > 0) n b) (zip [0..<length (buildSeedingOrder (2 ^ k))] (buildSeedingOrder (2 ^ k)))"
    and "2 \<le> r \<Longrightarrow> r \<le> k \<Longrightarrow> filter (\<lambda>s. round s = r) (all_slots l n p b k) =
      map (later_slot r) [1..<2 ^ (k - r) + 1] @ (if r = k then [bronze_slot k] else [])"
proof -
  have four: "4 \<le> (2 :: nat) ^ k \<longleftrightarrow> 2 \<le> k"
    using power_increasing_iff [of "2 :: nat" 2 k] by simp
  note parts = all_slots_def filter_append filter_later_rounds four
  show "filter (\<lambda>s. round s = 0) (all_slots l n p b k) = map (play_in_slot n b) [1..<p + 1]"
    using assms by (simp add: parts filter_True filter_False del: upt_Suc)
  show "filter (\<lambda>s. round s = 1) (all_slots l n p b k) =
      map (first_round_slot l (p > 0) n b) (zip [0..<length (buildSeedingOrder (2 ^ k))] (buildSeedingOrder (2 ^ k)))"
    using assms by (simp add: parts filter_True filter_False del: upt_Suc)
  assume r: "2 \<le> r" "r \<le> k"
  then have "(2 :: nat) ^ k div 2 ^ r = 2 ^ (k - r)" by (simp add: power_diff)
  then show "filter (\<lambda>s. round s = r) (all_slots l n p b k) =
      map (later_slot r) [1..<2 ^ (k - r) + 1] @ (if r = k then [bronze_slot k] else [])"
    using r by (simp add: parts filter_True filter_False del: upt_Suc)
qed

lemma winners_later: "concat (map (sources_of WinnerOf) (map (later_slot (Suc r)) [1..<m + 1])) = map (winnerName r) [1..<2 * m + 1]"
  using two_per_match [of "winnerName r" m] by (simp add: sources_of_def later_slot_def Let_def comp_def mult.commute del: upt_Suc)

lemma winners_of_next_round:
  assumes "1 \<le> r" and "r < k"
  shows "concat (map (sources_of WinnerOf) (filter (\<lambda>s. round s = Suc r) (all_slots l n p b k))) =
    map (winnerName r) [1..<2 ^ (k - r) + 1]"
proof -
  have "sources_of WinnerOf (bronze_slot k) = []" by (simp add: sources_of_def bronze_slot_def)
  moreover have "2 * (2 :: nat) ^ (k - Suc r) = 2 ^ (k - r)" using assms by (simp add: Suc_diff_Suc flip: power_Suc)
  ultimately show ?thesis
    using assms winners_later [of r "2 ^ (k - Suc r)"] by (simp add: slots_of_round(3) del: upt_Suc)
qed

lemma places_of_round:
  assumes "1 \<le> r" and "r < k"
  shows "map (\<lambda>s. f (round s) (position s)) (filter (\<lambda>s. round s = r) (all_slots l n p b k)) =
    map (f r) [1..<2 ^ (k - r) + 1]"
proof (cases "r = 1")
  case True
  have k: "1 \<le> k" using assms by simp
  define ps where "ps = buildSeedingOrder (2 ^ k)"
  have len: "length ps = 2 ^ (k - 1)" unfolding ps_def by (rule length_seeding_order [OF k])
  have "map (\<lambda>s. f (round s) (position s)) (filter (\<lambda>s. round s = 1) (all_slots l n p b k))
      = map (f 1) (map (\<lambda>x. fst x + 1) (zip [0..<length ps] ps))"
    unfolding slots_of_round(2) [OF k] ps_def [symmetric] by simp
  also have "map (\<lambda>x. fst x + 1) (zip [0..<length ps] ps) = [1..<length ps + 1]"
    by (intro nth_equalityI) (auto simp del: upt_Suc)
  finally show ?thesis using True len by simp
next
  case False
  then show ?thesis using assms by (simp add: slots_of_round(3) comp_def del: upt_Suc)
qed


text \<open>The positions of a round are numbered from 1 without a gap.\<close>

lemma distinct_places: 
  assumes "1 \<le> k"
  shows "distinct (map (\<lambda>s. (round s, position s)) (all_slots l n p b k))"
proof -
  have "distinct (map position (filter (\<lambda>s. round s = r) (all_slots l n p b k)))" for r
  proof -
    have positions: "map position (map (first_round_slot l h n b) (zip [0..<length ps] ps)) = map Suc [0..<length ps]" for h ps
      by (intro nth_equalityI) auto
    consider "r = 0" | "r = 1" | "2 \<le> r" "r \<le> k" | "k < r" using assms by linarith
    then show ?thesis
    proof cases
      case 3
      have "2 < (2 :: nat) ^ (k - r) + 1 \<Longrightarrow> r \<noteq> k" by auto
      then show ?thesis using 3 by (auto simp: slots_of_round(3) [OF assms] comp_def simp del: upt_Suc)
    next
      case 4
      then have "filter (\<lambda>s. round s = r) (all_slots l n p b k) = []"
        using assms by (auto simp: all_slots_def filter_later_rounds filter_empty_conv)
      then show ?thesis by simp
    qed (simp_all only: slots_of_round(1,2) [OF assms] positions, simp_all add: comp_def distinct_map del: upt_Suc)
  qed
  then show ?thesis by (rule distinct_by_level)
qed


lemma winners_of_play_ins:
  assumes "1 \<le> k" and "p = 0 \<or> \<not> legacy \<and> p + b = 2 ^ k"
  shows "mset (concat (map (sources_of WinnerOf) (filter (\<lambda>s. round s = 1) (all_slots legacy n p b k)))) =
    mset (map (winnerName 0) [1..<p + 1])"
proof (cases "p = 0")
  case True
  then show ?thesis by (simp add: slots_of_round(2) [OF assms(1), simplified] winners_first_round [simplified])
next
  case False
  then have p: "\<not> legacy" "p + b = 2 ^ k" "0 < p" using assms(2) by simp_all
  let ?os = "flatten_pairs (buildSeedingOrder (2 ^ k))"
  have "concat (map (sources_of WinnerOf) (filter (\<lambda>s. round s = 1) (all_slots legacy n p b k))) =
      map (\<lambda>s. winnerName 0 (s - b)) (filter (\<lambda>s. b < s) ?os)"
    unfolding slots_of_round(2) [OF assms(1)] winners_first_round using p by simp
  then have "mset (concat (map (sources_of WinnerOf) (filter (\<lambda>s. round s = 1) (all_slots legacy n p b k)))) =
      image_mset (\<lambda>s. winnerName 0 (s - b)) (mset (filter (\<lambda>s. b < s) ?os))" by simp
  also have "mset (filter (\<lambda>s. b < s) ?os) = mset [b + 1..<2 ^ k + 1]"
    unfolding mset_filter_order [OF assms(1)] filter_gt_upt ..
  also have "image_mset (\<lambda>s. winnerName 0 (s - b)) (mset [b + 1..<2 ^ k + 1]) = mset (map (\<lambda>s. winnerName 0 (s - b)) [b + 1..<2 ^ k + 1])"
    by (simp only: mset_map)
  also have "map (\<lambda>s. winnerName 0 (s - b)) [b + 1..<2 ^ k + 1] = map (winnerName 0) [1..<p + 1]"
    using p(2) by (intro nth_equalityI) (auto simp del: upt_Suc simp flip: p(2))
  finally show ?thesis .
qed

lemma losers_of_all_slots:
  "concat (map (sources_of LoserOf) (all_slots legacy n p b k)) =
   (if 2 ^ k \<ge> (4 :: nat) then [loserName (k - 1) 1, loserName (k - 1) 2] else [])"
proof -
  have "sources_of LoserOf (first_round_slot l h n b x) = []" "sources_of LoserOf (play_in_slot n b pos) = []"
    "sources_of LoserOf (later_slot r pos) = []" for l h x pos r
    by (auto simp: sources_of_def first_round_slot_def first_round_side_def play_in_slot_def later_slot_def
        Let_def split: prod.split option.split)
  note none = this
  have "sources_of LoserOf (bronze_slot k) = [loserName (k - 1) 1, loserName (k - 1) 2]"
    by (simp add: sources_of_def bronze_slot_def)
  moreover have "concat (map (sources_of LoserOf) (later_rounds (2 ^ k) k)) = []"
    by (auto simp: later_rounds_def none)
  ultimately show ?thesis by (auto simp: all_slots_def comp_def none simp del: upt_Suc)
qed

text \<open>The winners a round waits for are those of the round before.\<close>

lemma winners_of_round:
  assumes "1 \<le> k" and "p = 0 \<or> \<not> legacy \<and> p + b = 2 ^ k" and "r < k"
  shows "mset (concat (map (sources_of WinnerOf) (filter (\<lambda>s. round s = Suc r) (all_slots legacy n p b k)))) =
    mset (map (\<lambda>s. winnerName (round s) (position s)) (filter (\<lambda>s. round s = r) (all_slots legacy n p b k)))"
proof (cases "r = 0")
  case True
  then show ?thesis
    using winners_of_play_ins [OF assms(1,2), of n] slots_of_round(1) [OF assms(1)] by (simp add: comp_def del: upt_Suc)
next
  case False
  then show ?thesis
    using assms(3) by (simp only: winners_of_next_round places_of_round One_nat_def Suc_le_eq neq0_conv)
qed

text \<open>The sizes of a generated bracket.\<close>

lemma bracket_laid_out_single:
  assumes "singleElimBracket n req = Inr b"
  obtains k where "1 \<le> k" and "2 \<le> n" and "bracketSize b = 2 ^ k" and "rounds b = k"
    and "slots b = all_slots (req \<noteq> None) n (playInMatchCount b) (byeSeedCount b) k"
    and "playInMatchCount b = 0 \<or> \<not> req \<noteq> None \<and> playInMatchCount b + byeSeedCount b = 2 ^ k"
    and "req \<noteq> None \<longrightarrow> n \<le> 2 ^ k"
  using bracket_shape [OF assms] by (auto split: if_splits)

text \<open>
  Every winner goes on to exactly one place and every place is fed: the sources
  "winner of" in the slots of one round are, as a multiset of names, the slots of the round
  before it, so no match is waited for that is not played and nobody who wins is left out;
  the only losers named are those of the two semi-finals, in the bronze match. No two slots
  share a round and a position.
\<close>

lemma winners_go_on_once:
  assumes "singleElimBracket n req = Inr b"
  shows "(\<forall>r < rounds b.
      mset (concat (map (sources_of WinnerOf) (filter (\<lambda>s. round s = Suc r) (slots b)))) =
      mset (map (\<lambda>s. winnerName (round s) (position s)) (filter (\<lambda>s. round s = r) (slots b)))) \<and>
    concat (map (sources_of LoserOf) (slots b)) =
      (if bracketSize b \<ge> 4 then [loserName (rounds b - 1) 1, loserName (rounds b - 1) 2] else []) \<and>
    distinct (map (\<lambda>s. (round s, position s)) (slots b))"
proof (rule bracket_laid_out_single [OF assms])
  fix k
  assume k: "1 \<le> k" "bracketSize b = 2 ^ k" "rounds b = k"
    and slots: "slots b = all_slots (req \<noteq> None) n (playInMatchCount b) (byeSeedCount b) k"
    and fit: "playInMatchCount b = 0 \<or> \<not> req \<noteq> None \<and> playInMatchCount b + byeSeedCount b = 2 ^ k"
  show ?thesis
    using k winners_of_round [OF k(1) fit] by (simp add: losers_of_all_slots distinct_places slots)
qed

end
