(* ===== verification/Double_Elim.thy ===== *)
theory Double_Elim
  imports Bracket
begin

section \<open>Double-elimination brackets\<close>

text \<open>
  \<open>packages/rules/src/scheduling/double-elim-shape.ts\<close> (sizing and validation),
  \<open>double-elim-slots.ts\<close> (the builders of the sections) and \<open>double-elim.ts\<close> (the
  assembly and the closed count of matches). An option that is left out is \<open>None\<close>; for the
  repechage size \<open>None\<close> is also the \<open>null\<close> of the code, which treats both alike.
\<close>

datatype second_chance_target = Gold | Bronze

record double_elim_options =
  opt_bracketSize :: "nat option"
  opt_grandFinalReset :: "bool option"
  opt_secondChanceTarget :: "second_chance_target option"
  opt_bronzeMatch :: "bool option"
  opt_repechageEntrySize :: "nat option"

record double_elim_shape =
  de_bracketSize :: nat
  de_fighterCount :: nat
  de_playInMatchCount :: nat
  de_hasPlayInRound :: bool
  de_byeSeedCount :: nat
  wbRounds :: nat
  lbRounds :: nat
  secondChanceTarget :: second_chance_target
  bronzeMatch :: bool
  repechageEntrySize :: nat
  repechageEntryRound :: nat
  grandFinalReset :: bool

datatype double_elim_error =
    TooFewFighters
  | BracketSizeNotAPowerOfTwo nat
  | BracketSizeAboveFighterCount nat nat
  | FieldAboveTwiceBracketSize nat nat
  | BracketSizeTooLarge nat
  | BronzeMatchInGoldMode
  | ResetInBronzeMode
  | RepechageNotAPowerOfTwo nat
  | RepechageAboveBracketSize nat nat
  | NoRepechageRoundsLeft bool nat

definition MAX_DOUBLE_ELIM_BRACKET_SIZE :: nat where
  "MAX_DOUBLE_ELIM_BRACKET_SIZE = 128"

subsection \<open>Sizing and validation\<close>

definition resolveBracketSize :: "nat \<Rightarrow> double_elim_options \<Rightarrow> double_elim_error + nat" where
  "resolveBracketSize entrants opts =
     (case opt_bracketSize opts of
        None \<Rightarrow> Inr (if isPowerOf2 entrants then entrants else highestPowerOf2Below entrants)
      | Some b \<Rightarrow>
          if b < 2 \<or> \<not> isPowerOf2 b then Inl (BracketSizeNotAPowerOfTwo b)
          else if b > entrants then Inl (BracketSizeAboveFighterCount b entrants)
          else if entrants > b * 2 then Inl (FieldAboveTwiceBracketSize entrants b)
          else Inr b)"

definition resolveRepechageEntrySize :: "nat \<Rightarrow> double_elim_options \<Rightarrow> double_elim_error + nat" where
  "resolveRepechageEntrySize b opts =
     (case opt_repechageEntrySize opts of
        None \<Rightarrow> Inr b
      | Some r \<Rightarrow>
          if r < 2 \<or> \<not> isPowerOf2 r then Inl (RepechageNotAPowerOfTwo r)
          else if r > b then Inl (RepechageAboveBracketSize r b)
          else Inr r)"

definition rejectInapplicableOptions ::
    "second_chance_target \<Rightarrow> double_elim_options \<Rightarrow> double_elim_error + unit" where
  "rejectInapplicableOptions target opts =
     (if target = Gold \<and> opt_bronzeMatch opts \<noteq> None then Inl BronzeMatchInGoldMode
      else if target = Bronze \<and> opt_grandFinalReset opts = Some True then Inl ResetInBronzeMode
      else Inr ())"

definition resolveLbRounds :: "nat \<Rightarrow> second_chance_target \<Rightarrow> bool \<Rightarrow> double_elim_error + nat" where
  "resolveLbRounds repechage target bronze =
     (let full = 2 * (log2 repechage - 1) in
      if target = Gold then Inr full
      else (let lb = int full - (if bronze then 1 else 2)
            in if lb < 1 then Inl (NoRepechageRoundsLeft bronze repechage) else Inr (nat lb)))"

definition resolveDoubleElimShape :: "nat \<Rightarrow> double_elim_options \<Rightarrow> double_elim_error + double_elim_shape" where
  "resolveDoubleElimShape entrants opts =
     (if entrants < 2 then Inl TooFewFighters
      else case resolveBracketSize entrants opts of
        Inl e \<Rightarrow> Inl e
      | Inr b \<Rightarrow>
          if b > MAX_DOUBLE_ELIM_BRACKET_SIZE then Inl (BracketSizeTooLarge b)
          else
            (let target = or_else (opt_secondChanceTarget opts) Gold in
             case rejectInapplicableOptions target opts of
               Inl e \<Rightarrow> Inl e
             | Inr _ \<Rightarrow>
                 (case resolveRepechageEntrySize b opts of
                    Inl e \<Rightarrow> Inl e
                  | Inr rep \<Rightarrow>
                      (let bronze = (if target = Bronze then or_else (opt_bronzeMatch opts) True else False) in
                       case resolveLbRounds rep target bronze of
                         Inl e \<Rightarrow> Inl e
                       | Inr lb \<Rightarrow>
                           (let wb = log2 b; playIns = entrants - b; playIn = (playIns > 0)
                            in Inr \<lparr>de_bracketSize = b, de_fighterCount = entrants, de_playInMatchCount = playIns,
                                    de_hasPlayInRound = playIn, de_byeSeedCount = (if playIn then b - playIns else 0),
                                    wbRounds = wb, lbRounds = lb, secondChanceTarget = target, bronzeMatch = bronze,
                                    repechageEntrySize = rep, repechageEntryRound = wb + 1 - log2 rep,
                                    grandFinalReset = (target = Gold \<and> opt_grandFinalReset opts = Some True)\<rparr>)))))"

subsection \<open>The slots\<close>

datatype bracket_section = WB | LB | GF | RESET

record double_elim_slot = bracket_slot +
  slot_section :: bracket_section

definition wbWinner :: "nat \<Rightarrow> nat \<Rightarrow> string" where
  "wbWinner r p = ''winner of WBR'' @ show_nat r @ ''P'' @ show_nat p"

definition wbLoser :: "nat \<Rightarrow> nat \<Rightarrow> string" where
  "wbLoser r p = ''loser of WBR'' @ show_nat r @ ''P'' @ show_nat p"

definition lbWinner :: "nat \<Rightarrow> nat \<Rightarrow> string" where
  "lbWinner k p = ''winner of LBR'' @ show_nat k @ ''P'' @ show_nat p"

definition seedSource :: "nat \<Rightarrow> string" where
  "seedSource s = ''seed '' @ show_nat s"

text \<open>\<open>slot(partial)\<close>: no bye, and no seeds unless they are given.\<close>

definition de_slot ::
    "bracket_section \<Rightarrow> nat \<Rightarrow> nat \<Rightarrow> nat option \<times> string \<times> source_type \<Rightarrow> nat option \<times> string \<times> source_type
     \<Rightarrow> double_elim_slot" where
  "de_slot sec rnd pos home away =
     \<lparr>round = rnd, position = pos, homeSeed = fst home, awaySeed = fst away, isBye = False,
      homeSource = fst (snd home), awaySource = fst (snd away),
      sourceAType = snd (snd home), sourceBType = snd (snd away), slot_section = sec\<rparr>"

definition play_in :: "nat \<Rightarrow> nat \<Rightarrow> nat \<Rightarrow> double_elim_slot" where
  "play_in entrants byes pos =
     (let home = byes + pos; away = entrants - pos + 1
      in de_slot WB 0 pos (Some home, seedSource home, SeedSource) (Some away, seedSource away, SeedSource))"

definition buildPlayInSlots :: "nat \<Rightarrow> nat \<Rightarrow> nat \<Rightarrow> double_elim_slot list" where
  "buildPlayInSlots entrants byes playIns = map (play_in entrants byes) [1..<playIns + 1]"

text \<open>One side of a match of the first winners round; home and away are written alike.\<close>

definition wb_first_side :: "nat \<Rightarrow> bool \<Rightarrow> nat \<Rightarrow> nat option \<times> string \<times> source_type" where
  "wb_first_side byes playIn s =
     (case (if playIn \<and> s > byes then Some (s - byes) else None) of
        Some p \<Rightarrow> (None, wbWinner 0 p, WinnerOf)
      | None \<Rightarrow> (Some s, seedSource s, SeedSource))"

definition wb_first :: "nat \<Rightarrow> bool \<Rightarrow> nat \<times> nat \<times> nat \<Rightarrow> double_elim_slot" where
  "wb_first byes playIn =
     (\<lambda>(pos, home, away). de_slot WB 1 (pos + 1) (wb_first_side byes playIn home) (wb_first_side byes playIn away))"

definition wb_later :: "nat \<Rightarrow> nat \<Rightarrow> double_elim_slot" where
  "wb_later rnd pos =
     de_slot WB rnd pos (None, wbWinner (rnd - 1) ((pos - 1) * 2 + 1), WinnerOf)
                        (None, wbWinner (rnd - 1) ((pos - 1) * 2 + 2), WinnerOf)"

definition buildWinnersSlots :: "nat \<Rightarrow> nat \<Rightarrow> bool \<Rightarrow> nat \<Rightarrow> double_elim_slot list" where
  "buildWinnersSlots b byes playIn wb =
     (let pairs = buildSeedingOrder b in
      map (wb_first byes playIn) (zip [0..<length pairs] pairs)
      @ concat (map (\<lambda>rnd. map (wb_later rnd) [1..<b div 2 ^ rnd + 1]) [2..<wb + 1]))"

text \<open>The two sources of a slot of losers round \<open>k\<close>.\<close>

definition lbSources :: "nat \<Rightarrow> nat \<Rightarrow> nat \<Rightarrow> (string \<times> source_type) \<times> (string \<times> source_type)" where
  "lbSources k pos entry =
     (if k = 1 then ((wbLoser entry (2 * pos - 1), LoserOf), (wbLoser entry (2 * pos), LoserOf))
      else if even k then ((lbWinner (k - 1) pos, WinnerOf), (wbLoser (entry + k div 2) pos, LoserOf))
      else ((lbWinner (k - 1) (2 * pos - 1), WinnerOf), (lbWinner (k - 1) (2 * pos), WinnerOf)))"

definition lb_match_count :: "nat \<Rightarrow> nat \<Rightarrow> nat" where
  "lb_match_count rep k = rep div (4 * 2 ^ ((k - 1) div 2))"

definition lb_slot :: "nat \<Rightarrow> nat \<Rightarrow> nat \<Rightarrow> nat \<Rightarrow> double_elim_slot" where
  "lb_slot entry wb k pos =
     (let (home, away) = lbSources k pos entry in de_slot LB (wb + k) pos (None, home) (None, away))"

definition buildLosersSlots :: "nat \<Rightarrow> nat \<Rightarrow> nat \<Rightarrow> nat \<Rightarrow> double_elim_slot list" where
  "buildLosersSlots rep entry wb lb =
     concat (map (\<lambda>k. map (lb_slot entry wb k) [1..<lb_match_count rep k + 1]) [1..<lb + 1])"

definition buildFinalsSlots :: "nat \<Rightarrow> nat \<Rightarrow> bool \<Rightarrow> second_chance_target \<Rightarrow> double_elim_slot list" where
  "buildFinalsSlots wb lb reset target =
     (if target = Bronze then []
      else
        (let gfRound = wb + lb + 1
         in [de_slot GF gfRound 1 (None, wbWinner wb 1, WinnerOf)
               (None, if lb > 0 then lbWinner lb 1 else wbLoser wb 1, if lb > 0 then WinnerOf else LoserOf)]
            @ (if reset then [de_slot RESET (gfRound + 1) 1 (None, ''loser of GF'', LoserOf) (None, ''winner of GF'', WinnerOf)]
               else [])))"

subsection \<open>The bracket\<close>

record double_elim_bracket =
  db_shape :: double_elim_shape
  db_byeCount :: nat
  db_slots :: "double_elim_slot list"

text \<open>The code copies the fields of the shape into its result; the model keeps the shape whole.\<close>

definition doubleElimBracket :: "nat \<Rightarrow> double_elim_options \<Rightarrow> double_elim_error + double_elim_bracket" where
  "doubleElimBracket entrants opts =
     (case resolveDoubleElimShape entrants opts of
        Inl e \<Rightarrow> Inl e
      | Inr sh \<Rightarrow>
          Inr \<lparr>db_shape = sh, db_byeCount = 0,
               db_slots =
                 buildPlayInSlots entrants (de_byeSeedCount sh) (de_playInMatchCount sh)
                 @ buildWinnersSlots (de_bracketSize sh) (de_byeSeedCount sh) (de_hasPlayInRound sh) (wbRounds sh)
                 @ buildLosersSlots (repechageEntrySize sh) (repechageEntryRound sh) (wbRounds sh) (lbRounds sh)
                 @ buildFinalsSlots (wbRounds sh) (lbRounds sh) (grandFinalReset sh) (secondChanceTarget sh)\<rparr>)"

definition totalDoubleElimMatches :: "nat \<Rightarrow> double_elim_options \<Rightarrow> double_elim_error + int" where
  "totalDoubleElimMatches entrants opts =
     (case resolveDoubleElimShape entrants opts of
        Inl e \<Rightarrow> Inl e
      | Inr sh \<Rightarrow>
          (let truncation = (if secondChanceTarget sh = Bronze then (if bronzeMatch sh then 1 else 2) else 0);
               lbMatches = int (repechageEntrySize sh) - 2 - truncation;
               finals = (if secondChanceTarget sh = Bronze then 0 else 1 + (if grandFinalReset sh then 1 else 0))
           in Inr (int (de_playInMatchCount sh) + (int (de_bracketSize sh) - 1) + lbMatches + finals)))"

subsection \<open>The shape\<close>

text \<open>What a resolved shape consists of, with the sizes as powers of two.\<close>

definition lb_truncation :: "double_elim_shape \<Rightarrow> nat" where
  "lb_truncation sh = (if secondChanceTarget sh = Bronze then (if bronzeMatch sh then 1 else 2) else 0)"

lemma resolved_size:
  assumes "resolveBracketSize n opts = Inr b" and "2 \<le> n"
  shows "\<exists>k. 1 \<le> k \<and> b = 2 ^ k \<and> 2 ^ k \<le> n \<and> n \<le> 2 * 2 ^ k"
proof (cases "opt_bracketSize opts")
  case None
  show ?thesis
  proof (cases "isPowerOf2 n")
    case True
    then obtain k where k: "n = 2 ^ k" by (auto simp: isPowerOf2_iff)
    then have "1 \<le> k" using assms(2) by (cases k) auto
    then show ?thesis using None True k assms(1) by (auto simp: resolveBracketSize_def intro!: exI [of _ k])
  next
    case False
    then obtain k where k: "b = 2 ^ k" "2 ^ k < n" "n \<le> 2 * 2 ^ k"
      using highestPowerOf2Below_spec [OF assms(2)] assms(1) None by (auto simp: resolveBracketSize_def)
    have "n \<noteq> 2 ^ Suc k" using False by (auto simp: isPowerOf2_iff simp del: power_Suc)
    moreover from this have "1 \<le> k" using k assms(2) by (cases k) auto
    ultimately show ?thesis using k by (auto intro!: exI [of _ k])
  qed
next
  case (Some r)
  then have b: "isPowerOf2 b" "2 \<le> b" "b \<le> n" "n \<le> 2 * b"
    using assms(1) by (auto simp: resolveBracketSize_def split: if_splits)
  then obtain k where "b = 2 ^ k" by (auto simp: isPowerOf2_iff)
  moreover from this have "1 \<le> k" using b(2) by (cases k) auto
  ultimately show ?thesis using b by auto
qed

lemma resolved_repechage:
  assumes "resolveRepechageEntrySize (2 ^ k) opts = Inr r" and "1 \<le> k"
  shows "\<exists>j. 1 \<le> j \<and> j \<le> k \<and> r = 2 ^ j"
proof (cases "opt_repechageEntrySize opts")
  case None
  then show ?thesis using assms by (auto simp: resolveRepechageEntrySize_def)
next
  case (Some x)
  then have r: "isPowerOf2 r" "2 \<le> r" "r \<le> 2 ^ k"
    using assms by (auto simp: resolveRepechageEntrySize_def split: if_splits)
  then obtain j where j: "r = 2 ^ j" by (auto simp: isPowerOf2_iff)
  then have "1 \<le> j" using r(2) by (cases j) auto
  moreover have "j \<le> k" using r(3) j by simp
  ultimately show ?thesis using j by auto
qed

lemma resolved_fields:
  assumes "resolveDoubleElimShape n opts = Inr sh"
  obtains b r lb target bronze where "2 \<le> n" and "resolveBracketSize n opts = Inr b" and "b \<le> MAX_DOUBLE_ELIM_BRACKET_SIZE"
    and "resolveRepechageEntrySize b opts = Inr r" and "rejectInapplicableOptions target opts = Inr ()"
    and "target = or_else (opt_secondChanceTarget opts) Gold"
    and "bronze = (if target = Bronze then or_else (opt_bronzeMatch opts) True else False)"
    and "resolveLbRounds r target bronze = Inr lb"
    and "sh = \<lparr>de_bracketSize = b, de_fighterCount = n, de_playInMatchCount = n - b,
      de_hasPlayInRound = (n - b > 0), de_byeSeedCount = (if n - b > 0 then b - (n - b) else 0),
      wbRounds = log2 b, lbRounds = lb, secondChanceTarget = target, bronzeMatch = bronze,
      repechageEntrySize = r, repechageEntryRound = log2 b + 1 - log2 r,
      grandFinalReset = (target = Gold \<and> opt_grandFinalReset opts = Some True)\<rparr>"
proof -
  obtain b where n: "2 \<le> n" and b: "resolveBracketSize n opts = Inr b" "b \<le> MAX_DOUBLE_ELIM_BRACKET_SIZE"
    using assms by (auto simp: resolveDoubleElimShape_def split: if_splits sum.splits)
  obtain r where r: "resolveRepechageEntrySize b opts = Inr r"
    using assms n b by (auto simp: resolveDoubleElimShape_def Let_def split: if_splits sum.splits)
  define target where "target = or_else (opt_secondChanceTarget opts) Gold"
  define bronze where "bronze = (if target = Bronze then or_else (opt_bronzeMatch opts) True else False)"
  obtain lb where lb: "resolveLbRounds r target bronze = Inr lb"
    using assms n b r by (auto simp: resolveDoubleElimShape_def Let_def target_def bronze_def split: if_splits sum.splits)
  have reject: "rejectInapplicableOptions target opts = Inr ()"
    using assms n b by (auto simp: resolveDoubleElimShape_def Let_def target_def split: if_splits sum.splits)
  show ?thesis
    by (rule that [OF n b r reject target_def bronze_def lb])
       (use assms n b r lb reject in \<open>unfold resolveDoubleElimShape_def bronze_def target_def, simp add: Let_def split: if_splits\<close>)
qed

lemma resolved_shape:
  assumes "resolveDoubleElimShape n opts = Inr sh"
  shows "\<exists>k j. 1 \<le> k \<and> 1 \<le> j \<and> j \<le> k \<and> 2 ^ k \<le> n \<and> n \<le> 2 * 2 ^ k \<and>
    de_bracketSize sh = 2 ^ k \<and> de_fighterCount sh = n \<and> de_playInMatchCount sh = n - 2 ^ k \<and>
    de_hasPlayInRound sh = (2 ^ k < n) \<and> de_byeSeedCount sh = (if n = 2 ^ k then 0 else 2 ^ k - (n - 2 ^ k)) \<and>
    wbRounds sh = k \<and> repechageEntrySize sh = 2 ^ j \<and> repechageEntryRound sh = k + 1 - j \<and>
    lbRounds sh + lb_truncation sh = 2 * (j - 1) \<and> (secondChanceTarget sh = Bronze \<longrightarrow> 1 \<le> lbRounds sh) \<and>
    (grandFinalReset sh \<longrightarrow> secondChanceTarget sh = Gold)"
proof -
  obtain b r lb target bronze where n: "2 \<le> n" and b: "resolveBracketSize n opts = Inr b"
    and r: "resolveRepechageEntrySize b opts = Inr r" and lb: "resolveLbRounds r target bronze = Inr lb"
    and bronze_def: "bronze = (if target = Bronze then or_else (opt_bronzeMatch opts) True else False)"
    and sh: "sh = \<lparr>de_bracketSize = b, de_fighterCount = n, de_playInMatchCount = n - b,
      de_hasPlayInRound = (n - b > 0), de_byeSeedCount = (if n - b > 0 then b - (n - b) else 0),
      wbRounds = log2 b, lbRounds = lb, secondChanceTarget = target, bronzeMatch = bronze,
      repechageEntrySize = r, repechageEntryRound = log2 b + 1 - log2 r,
      grandFinalReset = (target = Gold \<and> opt_grandFinalReset opts = Some True)\<rparr>"
    using resolved_fields [OF assms] .
  obtain k where k: "1 \<le> k" "b = 2 ^ k" "2 ^ k \<le> n" "n \<le> 2 * 2 ^ k"
    using resolved_size [OF b n] by blast
  obtain j where j: "1 \<le> j" "j \<le> k" "r = 2 ^ j"
    using resolved_repechage [of k opts r] r k by auto
  have "lb + lb_truncation sh = 2 * (j - 1) \<and> (target = Bronze \<longrightarrow> 1 \<le> lb)"
    using lb j by (cases target) (auto simp: resolveLbRounds_def lb_truncation_def sh bronze_def Let_def split: if_splits)
  then show ?thesis
    using n k j by (intro exI [of _ k] exI [of _ j]) (simp add: sh)
qed

subsection \<open>The rows of the winners bracket\<close>

definition wb_row :: "nat \<Rightarrow> nat \<Rightarrow> bool \<Rightarrow> nat \<Rightarrow> double_elim_slot list" where
  "wb_row k byes h r =
     (if r = 1 then map (wb_first byes h) (zip [0..<length (buildSeedingOrder (2 ^ k))] (buildSeedingOrder (2 ^ k)))
      else map (wb_later r) [1..<2 ^ k div 2 ^ r + 1])"

lemma winners_rows:
  assumes "1 \<le> k"
  shows "buildWinnersSlots (2 ^ k) byes h k = concat (map (wb_row k byes h) [1..<k + 1])"
proof -
  have "[1..<k + 1] = 1 # [2..<k + 1]" using assms upt_conv_Cons [of 1 "k + 1"] by (simp add: numeral_2_eq_2)
  moreover have "map (wb_row k byes h) [2..<k + 1] = map (\<lambda>r. map (wb_later r) [1..<2 ^ k div 2 ^ r + 1]) [2..<k + 1]"
    by (rule map_cong) (auto simp: wb_row_def)
  ultimately show ?thesis
    by (simp only: buildWinnersSlots_def Let_def list.map concat.simps) (simp add: wb_row_def)
qed

definition row_names :: "(nat \<Rightarrow> nat \<Rightarrow> string) \<Rightarrow> nat \<Rightarrow> nat \<Rightarrow> string list" where
  "row_names f c r = map (f r) [1..<c + 1]"

lemma wb_row_fields:
  assumes "s \<in> set (wb_row k byes h r)"
  shows "round s = r" and "slot_section s = WB"
  using assms by (auto simp: wb_row_def wb_first_def wb_later_def de_slot_def split: if_splits)

lemma wb_row_positions:
  assumes "1 \<le> r" and "r \<le> k"
  shows "map position (wb_row k byes h r) = [1..<2 ^ (k - r) + 1]"
proof (cases "r = 1")
  case True
  have "map position (map (wb_first byes h) (zip [0..<length ps] ps)) = [1..<length ps + 1]" for ps
    by (intro nth_equalityI) (auto simp: wb_first_def de_slot_def split: prod.split simp del: upt_Suc)
  then have "map position (wb_row k byes h 1) = [1..<2 ^ (k - 1) + 1]"
    unfolding wb_row_def if_P [OF refl] using length_seeding_order [of k] assms by (metis le_trans)
  then show ?thesis by (simp only: True)
next
  case False
  have "(2 :: nat) ^ k div 2 ^ r = 2 ^ (k - r)" using assms by (simp add: power_diff)
  then show ?thesis using False by (simp add: wb_row_def wb_later_def de_slot_def comp_def del: upt_Suc)
qed

lemma wb_later_winners: "concat (map (sources_of WinnerOf) (map (wb_later (Suc r)) [1..<m + 1])) = row_names wbWinner (2 * m) r"
  using two_per_match [of "wbWinner r" m]
  by (simp add: sources_of_def wb_later_def de_slot_def row_names_def comp_def mult.commute del: upt_Suc)

lemma wb_row_winners:
  assumes "1 \<le> r" and "r < k"
  shows "concat (map (sources_of WinnerOf) (wb_row k byes h (Suc r))) = row_names wbWinner (2 ^ (k - r)) r"
proof -
  have "(2 :: nat) ^ k div 2 ^ Suc r = 2 ^ (k - Suc r)" using assms by (simp only: power_diff zero_neq_numeral not_False_eq_True Suc_leI)
  moreover have "2 * (2 :: nat) ^ (k - Suc r) = 2 ^ (k - r)" using assms by (simp add: Suc_diff_Suc flip: power_Suc)
  ultimately show ?thesis using wb_later_winners [of r "2 ^ (k - Suc r)"] assms by (simp only: wb_row_def) simp
qed

lemma wb_first_sources:
  "concat (map entry_seeds (map (wb_first b h) (zip [0..<length ps] ps))) = filter (\<lambda>s. \<not> (h \<and> s > b)) (flatten_pairs ps)"
  "concat (map (sources_of WinnerOf) (map (wb_first b h) (zip [0..<length ps] ps))) =
   map (\<lambda>s. wbWinner 0 (s - b)) (filter (\<lambda>s. h \<and> s > b) (flatten_pairs ps))"
proof -
  let ?f = "\<lambda>s. if \<not> (h \<and> s > b) then [s] else []" and ?g = "\<lambda>s. if h \<and> s > b then [wbWinner 0 (s - b)] else []"
  have "entry_seeds (wb_first b h x) = (\<lambda>(i, a, b). ?f a @ ?f b) x"
    "sources_of WinnerOf (wb_first b h x) = (\<lambda>(i, a, b). ?g a @ ?g b) x" for x
    by (auto simp: entry_seeds_def sources_of_def wb_first_def wb_first_side_def de_slot_def split: prod.split)
  then have "map entry_seeds (map (wb_first b h) (zip [0..<length ps] ps)) =
      map (\<lambda>(i, p). (\<lambda>(a, b). ?f a @ ?f b) p) (zip [0..<length ps] ps)"
    "map (sources_of WinnerOf) (map (wb_first b h) (zip [0..<length ps] ps)) =
      map (\<lambda>(i, p). (\<lambda>(a, b). ?g a @ ?g b) p) (zip [0..<length ps] ps)" by simp_all
  then show "concat (map entry_seeds (map (wb_first b h) (zip [0..<length ps] ps))) = filter (\<lambda>s. \<not> (h \<and> s > b)) (flatten_pairs ps)"
    "concat (map (sources_of WinnerOf) (map (wb_first b h) (zip [0..<length ps] ps))) =
     map (\<lambda>s. wbWinner 0 (s - b)) (filter (\<lambda>s. h \<and> s > b) (flatten_pairs ps))"
    by (simp_all only: concat_indexed flatten_map concat_if_singleton list.map_ident)
qed

subsection \<open>The rows of the losers bracket\<close>

definition lb_row :: "nat \<Rightarrow> nat \<Rightarrow> nat \<Rightarrow> nat \<Rightarrow> double_elim_slot list" where
  "lb_row j entry wb k = map (lb_slot entry wb k) [1..<lb_match_count (2 ^ j) k + 1]"

lemma losers_rows: "buildLosersSlots (2 ^ j) entry wb lb = concat (map (lb_row j entry wb) [1..<lb + 1])"
  by (simp add: buildLosersSlots_def lb_row_def [abs_def])

lemma lb_count:
  assumes "k div 2 + 2 \<le> j"
  shows "lb_match_count (2 ^ j) (Suc k) = 2 ^ (j - 2 - k div 2)"
proof -
  obtain d where "j = d + k div 2 + 2" using assms by (metis add.commute add.left_commute le_Suc_ex)
  then show ?thesis by (simp add: lb_match_count_def power_add)
qed

lemma two_per_position: "concat (map (\<lambda>p. [f (2 * p - 1), f (2 * p)]) [1..<n + 1]) = map f [1..<2 * n + 1]"
  by (induction n) simp_all

lemma one_per_position: "concat (map (\<lambda>p. [f p]) xs) = map f xs"
  by (induction xs) simp_all

lemma lb_row_fields:
  assumes "s \<in> set (lb_row j entry wb k)"
  shows "round s = wb + k" and "slot_section s = LB"
  using assms by (auto simp: lb_row_def lb_slot_def de_slot_def split: prod.splits)

lemma lb_row_positions: "map position (lb_row j entry wb k) = [1..<lb_match_count (2 ^ j) k + 1]"
  by (simp add: lb_row_def lb_slot_def de_slot_def comp_def case_prod_unfold Let_def del: upt_Suc)

lemma lb_row_winners:
  assumes "1 \<le> k" and "k < 2 * (j - 1)"
  shows "concat (map (sources_of WinnerOf) (lb_row j entry wb (Suc k))) =
    row_names lbWinner (lb_match_count (2 ^ j) k) k"
proof -
  obtain l where l: "k = Suc l" using assms by (cases k) auto
  have fit: "k div 2 + 2 \<le> j" "l div 2 + 2 \<le> j" using assms l by linarith+
  note c = lb_count [OF fit(1)] lb_count [OF fit(2), folded l]
  show ?thesis
  proof (cases "even k")
    case True
    then have "j - 2 - l div 2 = Suc (j - 2 - k div 2)" using l fit by (auto elim!: evenE)
    moreover have "sources_of WinnerOf (lb_slot entry wb (Suc k) p) = [lbWinner k (2 * p - 1), lbWinner k (2 * p)]" for p
      using True assms by (simp add: lb_slot_def lbSources_def sources_of_def de_slot_def)
    ultimately show ?thesis
      using two_per_position [of "lbWinner k" "2 ^ (j - 2 - k div 2)"]
      by (simp add: lb_row_def c row_names_def comp_def del: upt_Suc)
  next
    case False
    then have "l div 2 = k div 2" using l by (auto elim!: evenE)
    moreover have "sources_of WinnerOf (lb_slot entry wb (Suc k) p) = [lbWinner k p]" for p
      using False assms by (simp add: lb_slot_def lbSources_def sources_of_def de_slot_def)
    ultimately show ?thesis
      using one_per_position [of "lbWinner k"] by (simp add: lb_row_def c row_names_def comp_def del: upt_Suc)
  qed
qed

lemma lb_row_first_winners: "concat (map (sources_of WinnerOf) (lb_row j entry wb 1)) = []"
  by (simp add: lb_row_def lb_slot_def lbSources_def sources_of_def de_slot_def del: upt_Suc)

lemma lb_row_losers:
  assumes "k < 2 * (j - 1)" and "j \<le> wb" and entry: "entry = wb + 1 - j"
  shows "concat (map (sources_of LoserOf) (lb_row j entry wb (Suc k))) =
    (if k = 0 \<or> odd k then row_names wbLoser (2 ^ (wb - (entry + Suc k div 2))) (entry + Suc k div 2) else [])"
proof -
  have fit: "k div 2 + 2 \<le> j" using assms by linarith
  note c = lb_count [OF fit]
  consider "k = 0" | "odd k" | "k \<noteq> 0" "even k" by blast
  then show ?thesis
  proof cases
    case 1
    have "sources_of LoserOf (lb_slot entry wb (Suc k) p) = [wbLoser entry (2 * p - 1), wbLoser entry (2 * p)]" for p
      using 1 by (simp add: lb_slot_def lbSources_def sources_of_def de_slot_def)
    moreover have "2 * (2 :: nat) ^ (j - 2) = 2 ^ (wb - entry)"
      using fit assms by (simp flip: power_Suc)
    ultimately show ?thesis
      using 1 c two_per_position [of "wbLoser entry" "2 ^ (j - 2)"]
      by (simp add: lb_row_def row_names_def comp_def del: upt_Suc)
  next
    case 2
    then have "j - 2 - k div 2 = wb - (entry + Suc k div 2)" using assms by (auto elim!: oddE)
    moreover have "sources_of LoserOf (lb_slot entry wb (Suc k) p) = [wbLoser (entry + Suc k div 2) p]" for p
      using 2 odd_pos [OF 2] by (auto simp: lb_slot_def lbSources_def sources_of_def de_slot_def)
    ultimately show ?thesis
      using 2 odd_pos [OF 2] one_per_position [of "wbLoser (entry + Suc k div 2)"]
      by (simp add: lb_row_def c row_names_def comp_def del: upt_Suc)
  next
    case 3
    then have "sources_of LoserOf (lb_slot entry wb (Suc k) p) = []" for p
      by (simp add: lb_slot_def lbSources_def sources_of_def de_slot_def)
    then show ?thesis using 3 by (simp add: lb_row_def comp_def del: upt_Suc)
  qed
qed

text \<open>The losers that drop into the first \<open>lb\<close> rounds, in the order of the slots.\<close>

lemma lb_losers:
  assumes "lb \<le> 2 * (j - 1)" and "j \<le> wb" and entry: "entry = wb + 1 - j"
  shows "concat (map (sources_of LoserOf) (concat (map (lb_row j entry wb) [1..<lb + 1]))) =
    (if lb = 0 then [] else concat (map (\<lambda>r. row_names wbLoser (2 ^ (wb - r)) r) [entry..<entry + lb div 2 + 1]))"
  using assms(1)
proof (induction lb)
  case (Suc lb)
  have "[1..<Suc lb + 1] = [1..<lb + 1] @ [Suc lb]" by simp
  then have "concat (map (sources_of LoserOf) (concat (map (lb_row j entry wb) [1..<Suc lb + 1]))) =
      concat (map (sources_of LoserOf) (concat (map (lb_row j entry wb) [1..<lb + 1])))
      @ concat (map (sources_of LoserOf) (lb_row j entry wb (Suc lb)))"
    by (simp only: map_append concat_append list.map concat.simps append_Nil2)
  moreover have "concat (map (sources_of LoserOf) (concat (map (lb_row j entry wb) [1..<lb + 1]))) =
      (if lb = 0 then [] else concat (map (\<lambda>r. row_names wbLoser (2 ^ (wb - r)) r) [entry..<entry + lb div 2 + 1]))"
    using Suc by simp
  moreover note lb_row_losers [OF _ assms(2,3), of lb]
  moreover consider "lb = 0" | "odd lb" | "lb \<noteq> 0" "even lb" by blast
  ultimately show ?case
    using Suc.prems by cases (auto elim!: oddE evenE)
qed simp

lemma concat_map_concat: "concat (map f (concat xss)) = concat (map (\<lambda>xs. concat (map f xs)) xss)"
  by (induction xss) simp_all

lemma lb_winners:
  assumes "1 \<le> lb" and "lb \<le> 2 * (j - 1)"
  shows "concat (map (sources_of WinnerOf) (concat (map (lb_row j entry wb) [1..<lb + 1]))) =
    concat (map (\<lambda>k. row_names lbWinner (lb_match_count (2 ^ j) k) k) [1..<lb])"
proof -
  have "[1..<lb + 1] = 1 # map Suc [1..<lb]" using assms(1) upt_conv_Cons [of 1 "lb + 1"] by (simp add: map_Suc_upt)
  then have "concat (map (sources_of WinnerOf) (concat (map (lb_row j entry wb) [1..<lb + 1]))) =
      concat (map (\<lambda>k. concat (map (sources_of WinnerOf) (lb_row j entry wb (Suc k)))) [1..<lb])"
    using lb_row_first_winners [of j entry wb] by (simp add: concat_map_concat comp_def)
  also have "\<dots> = concat (map (\<lambda>k. row_names lbWinner (lb_match_count (2 ^ j) k) k) [1..<lb])"
    by (rule arg_cong [of _ _ concat], rule map_cong [OF refl], rule lb_row_winners) (use assms in auto)
  finally show ?thesis .
qed

lemma wb_winners:
  assumes "1 \<le> k"
  shows "concat (map (sources_of WinnerOf) (concat (map (wb_row k byes h) [1..<k + 1]))) =
    concat (map (sources_of WinnerOf) (wb_row k byes h 1)) @ concat (map (\<lambda>r. row_names wbWinner (2 ^ (k - r)) r) [1..<k])"
proof -
  have "[1..<k + 1] = 1 # map Suc [1..<k]" using assms(1) upt_conv_Cons [of 1 "k + 1"] by (simp add: map_Suc_upt)
  then have "concat (map (sources_of WinnerOf) (concat (map (wb_row k byes h) [1..<k + 1]))) =
      concat (map (sources_of WinnerOf) (wb_row k byes h 1)) @
      concat (map (\<lambda>r. concat (map (sources_of WinnerOf) (wb_row k byes h (Suc r)))) [1..<k])"
    by (simp add: concat_map_concat comp_def)
  also have "map (\<lambda>r. concat (map (sources_of WinnerOf) (wb_row k byes h (Suc r)))) [1..<k] =
      map (\<lambda>r. row_names wbWinner (2 ^ (k - r)) r) [1..<k]"
    by (rule map_cong [OF refl], rule wb_row_winners) auto
  finally show ?thesis .
qed

subsection \<open>Names of the slots\<close>

text \<open>
  The name a finished slot is referred to by, and whether the bracket goes on from it:
  in bronze mode nothing follows the winners final and the last losers round.
\<close>

definition winner_name :: "double_elim_shape \<Rightarrow> double_elim_slot \<Rightarrow> string" where
  "winner_name sh s =
     (case slot_section s of
        WB \<Rightarrow> wbWinner (round s) (position s)
      | LB \<Rightarrow> lbWinner (round s - wbRounds sh) (position s)
      | _ \<Rightarrow> ''winner of GF'')"

definition loser_name :: "double_elim_slot \<Rightarrow> string" where
  "loser_name s = (if slot_section s = WB then wbLoser (round s) (position s) else ''loser of GF'')"

definition goes_on :: "double_elim_shape \<Rightarrow> double_elim_slot \<Rightarrow> bool" where
  "goes_on sh s =
     (case slot_section s of
        WB \<Rightarrow> secondChanceTarget sh = Gold \<or> round s < wbRounds sh
      | LB \<Rightarrow> secondChanceTarget sh = Gold \<or> round s < wbRounds sh + lbRounds sh
      | GF \<Rightarrow> grandFinalReset sh
      | RESET \<Rightarrow> False)"

definition drops :: "double_elim_shape \<Rightarrow> double_elim_slot \<Rightarrow> bool" where
  "drops sh s =
     (case slot_section s of
        WB \<Rightarrow> repechageEntryRound sh \<le> round s \<and> (secondChanceTarget sh = Gold \<or> round s < wbRounds sh)
      | GF \<Rightarrow> grandFinalReset sh
      | _ \<Rightarrow> False)"

lemma filter_concat_rows:
  assumes "\<And>r s. r \<in> set rs \<Longrightarrow> s \<in> set (row r) \<Longrightarrow> P s = Q r"
  shows "filter P (concat (map row rs)) = concat (map row (filter Q rs))"
  using assms
proof (induction rs)
  case (Cons r rs)
  have "filter P (row r) = (if Q r then row r else [])"
    using Cons.prems [of r] by (auto simp: filter_empty_conv intro!: filter_True)
  moreover have "filter P (concat (map row rs)) = concat (map row (filter Q rs))"
    using Cons by simp
  ultimately show ?case by simp
qed simp

lemma map_concat_rows:
  assumes "\<And>r. r \<in> set rs \<Longrightarrow> map f (row r) = row_names g (c r) r"
  shows "map f (concat (map row rs)) = concat (map (\<lambda>r. row_names g (c r) r) rs)"
  using assms by (induction rs) simp_all

lemma wb_row_names:
  assumes "1 \<le> r" and "r \<le> k"
  shows "map (winner_name sh) (wb_row k byes h r) = row_names wbWinner (2 ^ (k - r)) r"
    and "map loser_name (wb_row k byes h r) = row_names wbLoser (2 ^ (k - r)) r"
proof -
  have "map (winner_name sh) (wb_row k byes h r) = map (wbWinner r) (map position (wb_row k byes h r))"
    "map loser_name (wb_row k byes h r) = map (wbLoser r) (map position (wb_row k byes h r))"
    using wb_row_fields [of _ k byes h r] by (simp_all add: winner_name_def loser_name_def)
  then show "map (winner_name sh) (wb_row k byes h r) = row_names wbWinner (2 ^ (k - r)) r"
    "map loser_name (wb_row k byes h r) = row_names wbLoser (2 ^ (k - r)) r"
    by (simp_all only: wb_row_positions [OF assms] row_names_def)
qed

lemma lb_row_names:
  "map (winner_name sh) (lb_row j entry (wbRounds sh) k) = row_names lbWinner (lb_match_count (2 ^ j) k) k"
proof -
  have "map (winner_name sh) (lb_row j entry (wbRounds sh) k) =
      map (lbWinner k) (map position (lb_row j entry (wbRounds sh) k))"
    using lb_row_fields [of _ j entry "wbRounds sh" k] by (simp add: winner_name_def)
  then show ?thesis by (simp only: lb_row_positions row_names_def)
qed

text \<open>The four sections of a bracket of shape \<open>sh\<close>, as rows.\<close>

lemma sections:
  assumes "doubleElimBracket n opts = Inr b"
  shows "\<exists>k j. let sh = db_shape b in resolveDoubleElimShape n opts = Inr sh \<and> 1 \<le> k \<and> 1 \<le> j \<and> j \<le> k \<and>
    wbRounds sh = k \<and> repechageEntrySize sh = 2 ^ j \<and> repechageEntryRound sh = k + 1 - j \<and> de_bracketSize sh = 2 ^ k \<and>
    lbRounds sh + lb_truncation sh = 2 * (j - 1) \<and> (secondChanceTarget sh = Bronze \<longrightarrow> 1 \<le> lbRounds sh) \<and>
    (grandFinalReset sh \<longrightarrow> secondChanceTarget sh = Gold) \<and>
    2 ^ k \<le> n \<and> n \<le> 2 * 2 ^ k \<and> de_playInMatchCount sh = n - 2 ^ k \<and> de_hasPlayInRound sh = (2 ^ k < n) \<and>
    de_byeSeedCount sh = (if n = 2 ^ k then 0 else 2 ^ k - (n - 2 ^ k)) \<and>
    db_slots b = map (play_in n (de_byeSeedCount sh)) [1..<n - 2 ^ k + 1]
      @ concat (map (wb_row k (de_byeSeedCount sh) (de_hasPlayInRound sh)) [1..<k + 1])
      @ concat (map (lb_row j (k + 1 - j) k) [1..<lbRounds sh + 1])
      @ buildFinalsSlots k (lbRounds sh) (grandFinalReset sh) (secondChanceTarget sh)"
proof -
  obtain sh where sh: "resolveDoubleElimShape n opts = Inr sh" "db_shape b = sh"
    and slots: "db_slots b = buildPlayInSlots n (de_byeSeedCount sh) (de_playInMatchCount sh)
      @ buildWinnersSlots (de_bracketSize sh) (de_byeSeedCount sh) (de_hasPlayInRound sh) (wbRounds sh)
      @ buildLosersSlots (repechageEntrySize sh) (repechageEntryRound sh) (wbRounds sh) (lbRounds sh)
      @ buildFinalsSlots (wbRounds sh) (lbRounds sh) (grandFinalReset sh) (secondChanceTarget sh)"
    using assms by (auto simp: doubleElimBracket_def split: sum.splits)
  obtain k j where shape: "1 \<le> k \<and> 1 \<le> j \<and> j \<le> k \<and> 2 ^ k \<le> n \<and> n \<le> 2 * 2 ^ k \<and>
    de_bracketSize sh = 2 ^ k \<and> de_fighterCount sh = n \<and> de_playInMatchCount sh = n - 2 ^ k \<and>
    de_hasPlayInRound sh = (2 ^ k < n) \<and> de_byeSeedCount sh = (if n = 2 ^ k then 0 else 2 ^ k - (n - 2 ^ k)) \<and>
    wbRounds sh = k \<and> repechageEntrySize sh = 2 ^ j \<and> repechageEntryRound sh = k + 1 - j \<and>
    lbRounds sh + lb_truncation sh = 2 * (j - 1) \<and> (secondChanceTarget sh = Bronze \<longrightarrow> 1 \<le> lbRounds sh) \<and>
    (grandFinalReset sh \<longrightarrow> secondChanceTarget sh = Gold)"
    using resolved_shape [OF sh(1)] by blast
  have slots': "db_slots b = map (play_in n (de_byeSeedCount sh)) [1..<n - 2 ^ k + 1]
      @ concat (map (wb_row k (de_byeSeedCount sh) (de_hasPlayInRound sh)) [1..<k + 1])
      @ concat (map (lb_row j (k + 1 - j) k) [1..<lbRounds sh + 1])
      @ buildFinalsSlots k (lbRounds sh) (grandFinalReset sh) (secondChanceTarget sh)"
    using shape unfolding slots
    by (simp only: buildPlayInSlots_def winners_rows losers_rows)
  show ?thesis
    unfolding Let_def sh(2) using shape sh(1) slots'
    by (intro exI [of _ k] exI [of _ j] conjI) (elim conjE, assumption)+
qed

lemma lb_last_count:
  assumes "1 \<le> j" and "lb = 2 * (j - 1)" and "0 < lb"
  shows "lb_match_count (2 ^ j) lb = 1"
proof -
  obtain l where l: "lb = Suc l" using assms(3) by (cases lb) auto
  then have "l div 2 + 2 = j" using assms by linarith
  then show ?thesis using lb_count [of l j] l by simp
qed

lemma wb_none: "sources_of LoserOf (wb_first b h x) = []" "sources_of LoserOf (wb_later r p) = []"
  by (auto simp: sources_of_def wb_first_def wb_first_side_def wb_later_def de_slot_def Let_def split: prod.split)

lemma play_in_none: "t \<noteq> SeedSource \<Longrightarrow> concat (map (sources_of t) (map (play_in n b) ps)) = []"
  by (auto simp: sources_of_def play_in_def de_slot_def Let_def)

lemma wb_no_losers: "concat (map (sources_of LoserOf) (concat (map (wb_row k byes h) rs))) = []"
  by (auto simp: wb_row_def wb_none split: if_splits)

text \<open>
  A generated bracket laid out: \<open>2 ^ k\<close> seats, a repechage of \<open>2 ^ j\<close>, and the rows of its
  sections.
\<close>

definition laid_out :: "nat \<Rightarrow> double_elim_bracket \<Rightarrow> nat \<Rightarrow> nat \<Rightarrow> bool" where
  "laid_out n b k j \<longleftrightarrow>
     (let sh = db_shape b in
      1 \<le> k \<and> 1 \<le> j \<and> j \<le> k \<and> wbRounds sh = k \<and> repechageEntryRound sh = k + 1 - j \<and>
      lbRounds sh + lb_truncation sh = 2 * (j - 1) \<and> (secondChanceTarget sh = Bronze \<longrightarrow> 1 \<le> lbRounds sh) \<and>
      2 ^ k \<le> n \<and> n \<le> 2 * 2 ^ k \<and> de_hasPlayInRound sh = (2 ^ k < n) \<and>
      de_byeSeedCount sh = (if n = 2 ^ k then 0 else 2 ^ k - (n - 2 ^ k)) \<and>
      db_slots b = map (play_in n (de_byeSeedCount sh)) [1..<n - 2 ^ k + 1]
        @ concat (map (wb_row k (de_byeSeedCount sh) (de_hasPlayInRound sh)) [1..<k + 1])
        @ concat (map (lb_row j (k + 1 - j) k) [1..<lbRounds sh + 1])
        @ buildFinalsSlots k (lbRounds sh) (grandFinalReset sh) (secondChanceTarget sh))"

lemma bracket_laid_out:
  assumes "doubleElimBracket n opts = Inr b"
  obtains k j where "laid_out n b k j"
  using sections [OF assms] unfolding laid_out_def Let_def by blast

lemma laid_outD:
  assumes "laid_out n b k j"
  shows "1 \<le> k" "1 \<le> j" "j \<le> k" "wbRounds (db_shape b) = k" "repechageEntryRound (db_shape b) = k + 1 - j"
    "lbRounds (db_shape b) + lb_truncation (db_shape b) = 2 * (j - 1)"
    "secondChanceTarget (db_shape b) = Bronze \<Longrightarrow> 1 \<le> lbRounds (db_shape b)"
    "2 ^ k \<le> n" "n \<le> 2 * 2 ^ k" "de_hasPlayInRound (db_shape b) = (2 ^ k < n)"
    "de_byeSeedCount (db_shape b) = (if n = 2 ^ k then 0 else 2 ^ k - (n - 2 ^ k))"
    "db_slots b = map (play_in n (de_byeSeedCount (db_shape b))) [1..<n - 2 ^ k + 1]
        @ concat (map (wb_row k (de_byeSeedCount (db_shape b)) (de_hasPlayInRound (db_shape b))) [1..<k + 1])
        @ concat (map (lb_row j (k + 1 - j) k) [1..<lbRounds (db_shape b) + 1])
        @ buildFinalsSlots k (lbRounds (db_shape b)) (grandFinalReset (db_shape b)) (secondChanceTarget (db_shape b))"
    "lbRounds (db_shape b) \<le> 2 * (j - 1)"
  using assms unfolding laid_out_def Let_def by simp_all

abbreviation (input) finals_of :: "nat \<Rightarrow> double_elim_shape \<Rightarrow> double_elim_slot list" where
  "finals_of k sh \<equiv> buildFinalsSlots k (lbRounds sh) (grandFinalReset sh) (secondChanceTarget sh)"

text \<open>The play-in winners, as the first winners round refers to them.\<close>

lemma wb_first_winners:
  assumes "1 \<le> k" and "2 ^ k \<le> n" and "n \<le> 2 * 2 ^ k" and "h = (2 ^ k < n)"
    and "byes = (if n = 2 ^ k then 0 else 2 ^ k - (n - 2 ^ k))"
  shows "mset (concat (map (sources_of WinnerOf) (wb_row k byes h 1))) = mset (map (wbWinner 0) [1..<n - 2 ^ k + 1])"
proof (cases "n = 2 ^ k")
  case True
  then show ?thesis using assms by (simp add: wb_row_def wb_first_sources [simplified])
next
  case False
  then have h: "h" and b: "byes = 2 ^ k - (n - 2 ^ k)" using assms by auto
  have "mset (concat (map (sources_of WinnerOf) (wb_row k byes h 1))) =
      image_mset (\<lambda>s. wbWinner 0 (s - byes)) (mset (filter (\<lambda>s. byes < s) (flatten_pairs (buildSeedingOrder (2 ^ k)))))"
    unfolding wb_row_def if_P [OF refl] wb_first_sources using h by simp
  also have "\<dots> = mset (map (\<lambda>s. wbWinner 0 (s - byes)) [byes + 1..<2 ^ k + 1])"
    unfolding mset_filter_order [OF assms(1)] filter_gt_upt by (simp only: mset_map)
  also have "map (\<lambda>s. wbWinner 0 (s - byes)) [byes + 1..<2 ^ k + 1] = map (wbWinner 0) [1..<n - 2 ^ k + 1]"
    using assms(2,3) b by (intro nth_equalityI) (auto simp del: upt_Suc)
  finally show ?thesis .
qed

lemma filter_below: "filter (\<lambda>r. gold \<or> r < k) [1..<k + 1] = (if gold then [1..<k + 1] else [1..<k])"
  by (auto simp: filter_False intro: filter_True)

text \<open>The winners the bracket refers to, and those it goes on from, row by row.\<close>

lemma winner_refs:
  assumes "laid_out n b k j"
  shows "mset (concat (map (sources_of WinnerOf) (db_slots b))) =
    mset (map (wbWinner 0) [1..<n - 2 ^ k + 1]) + mset (concat (map (\<lambda>r. row_names wbWinner (2 ^ (k - r)) r) [1..<k]))
    + mset (concat (map (\<lambda>r. row_names lbWinner (lb_match_count (2 ^ j) r) r) [1..<lbRounds (db_shape b)]))
    + mset (concat (map (sources_of WinnerOf) (finals_of k (db_shape b))))"
proof -
  note lay = laid_outD [OF assms]
  let ?lb = "lbRounds (db_shape b)"
  have "concat (map (sources_of WinnerOf) (concat (map (lb_row j (k + 1 - j) k) [1..<?lb + 1]))) =
      concat (map (\<lambda>r. row_names lbWinner (lb_match_count (2 ^ j) r) r) [1..<?lb])"
  proof (cases "?lb = 0")
    case False
    then show ?thesis by (intro lb_winners lay(13)) simp
  qed simp
  moreover have "concat (map (sources_of WinnerOf) (map (play_in n (de_byeSeedCount (db_shape b))) [1..<n - 2 ^ k + 1])) = []"
    by (rule play_in_none) simp
  ultimately show ?thesis
    unfolding lay(12) map_append concat_append wb_winners [OF lay(1)] mset_append
      wb_first_winners [OF lay(1,8,9,10,11)] by simp
qed

lemma winner_names:
  assumes "laid_out n b k j"
  shows "map (winner_name (db_shape b)) (filter (goes_on (db_shape b)) (db_slots b)) = map (wbWinner 0) [1..<n - 2 ^ k + 1]
    @ concat (map (\<lambda>r. row_names wbWinner (2 ^ (k - r)) r) (if secondChanceTarget (db_shape b) = Gold then [1..<k + 1] else [1..<k]))
    @ concat (map (\<lambda>r. row_names lbWinner (lb_match_count (2 ^ j) r) r)
        (if secondChanceTarget (db_shape b) = Gold then [1..<lbRounds (db_shape b) + 1] else [1..<lbRounds (db_shape b)]))
    @ map (winner_name (db_shape b)) (filter (goes_on (db_shape b)) (finals_of k (db_shape b)))"
proof -
  note lay = laid_outD [OF assms]
  let ?sh = "db_shape b"
  let ?gold = "secondChanceTarget ?sh = Gold" and ?lb = "lbRounds ?sh"
  let ?wb = "wb_row k (de_byeSeedCount ?sh) (de_hasPlayInRound ?sh)"
  have "map (winner_name ?sh) (filter (goes_on ?sh) (map (play_in n (de_byeSeedCount ?sh)) [1..<n - 2 ^ k + 1])) =
      map (wbWinner 0) [1..<n - 2 ^ k + 1]"
    using lay(1,4) by (subst filter_True) (auto simp: goes_on_def winner_name_def play_in_def de_slot_def Let_def)
  moreover have "filter (goes_on ?sh) (concat (map ?wb [1..<k + 1])) = concat (map ?wb (filter (\<lambda>r. ?gold \<or> r < k) [1..<k + 1]))"
    by (rule filter_concat_rows) (simp add: goes_on_def lay(4) wb_row_fields)
  moreover have "map (winner_name ?sh) (concat (map ?wb (filter (\<lambda>r. ?gold \<or> r < k) [1..<k + 1]))) =
      concat (map (\<lambda>r. row_names wbWinner (2 ^ (k - r)) r) (filter (\<lambda>r. ?gold \<or> r < k) [1..<k + 1]))"
    by (rule map_concat_rows, rule wb_row_names) auto
  moreover have "filter (goes_on ?sh) (concat (map (lb_row j (k + 1 - j) k) [1..<?lb + 1])) =
      concat (map (lb_row j (k + 1 - j) k) (filter (\<lambda>r. ?gold \<or> r < ?lb) [1..<?lb + 1]))"
    by (rule filter_concat_rows) (simp add: goes_on_def lay(4) lb_row_fields)
  moreover have "map (winner_name ?sh) (concat (map (lb_row j (k + 1 - j) k) (filter (\<lambda>r. ?gold \<or> r < ?lb) [1..<?lb + 1]))) =
      concat (map (\<lambda>r. row_names lbWinner (lb_match_count (2 ^ j) r) r) (filter (\<lambda>r. ?gold \<or> r < ?lb) [1..<?lb + 1]))"
    by (rule map_concat_rows) (use lb_row_names [of ?sh j] lay(4) in simp)
  ultimately show ?thesis
    unfolding lay(12) by (simp only: filter_append map_append filter_below)
qed

lemma gold_finals_winners:
  assumes "secondChanceTarget sh = Gold"
  shows "concat (map (sources_of WinnerOf) (finals_of k sh)) =
    [wbWinner k 1] @ (if lbRounds sh > 0 then [lbWinner (lbRounds sh) 1] else [])
    @ map (winner_name sh) (filter (goes_on sh) (finals_of k sh))"
  using assms by (simp add: buildFinalsSlots_def de_slot_def sources_of_def goes_on_def winner_name_def Let_def)

text \<open>The winners referred to are those who go on.\<close>

lemma double_winners:
  assumes "doubleElimBracket n opts = Inr b"
  shows "mset (concat (map (sources_of WinnerOf) (db_slots b))) =
    mset (map (winner_name (db_shape b)) (filter (goes_on (db_shape b)) (db_slots b)))"
proof -
  obtain k j where laid: "laid_out n b k j" using bracket_laid_out [OF assms] .
  note lay = laid_outD [OF laid]
  let ?sh = "db_shape b"
  let ?lb = "lbRounds ?sh"
  let ?W = "\<lambda>r. row_names wbWinner (2 ^ (k - r)) r" and ?L = "\<lambda>r. row_names lbWinner (lb_match_count (2 ^ j) r) r"
  show ?thesis
  proof (cases "secondChanceTarget ?sh = Gold")
    case False
    then have "finals_of k ?sh = []" by (cases "secondChanceTarget ?sh") (auto simp: buildFinalsSlots_def)
    then show ?thesis unfolding winner_refs [OF laid] winner_names [OF laid] mset_append using False by simp
  next
    case True
    then have lb0: "?lb = 2 * (j - 1)" using lay(6) by (simp add: lb_truncation_def)
    have W: "concat (map ?W [1..<k + 1]) = concat (map ?W [1..<k]) @ [wbWinner k 1]"
      using lay(1) by (simp add: row_names_def)
    have L: "concat (map ?L [1..<?lb + 1]) = concat (map ?L [1..<?lb]) @ (if ?lb > 0 then [lbWinner ?lb 1] else [])"
      using lb_last_count [OF lay(2) lb0] by (cases "?lb = 0") (simp_all add: row_names_def Suc_le_eq)
    show ?thesis
      unfolding winner_refs [OF laid] winner_names [OF laid] gold_finals_winners [OF True] if_P [OF True] W L mset_append
      by (simp only: union_ac)
  qed
qed

text \<open>
  Every winner goes on to exactly one place. The sources "winner of" of the bracket are,
  as a multiset of names, the slots the bracket goes on from: every play-in and every match
  of the winners and of the losers bracket, in bronze mode without the winners final and
  the last losers round, and the grand final when it can be reset.
\<close>

lemma double_winners_go_on_once:
  assumes "doubleElimBracket n opts = Inr b"
  shows "mset (concat (map (sources_of WinnerOf) (db_slots b))) =
    mset (map (winner_name (db_shape b)) (filter (goes_on (db_shape b)) (db_slots b)))"
  by (rule double_winners [OF assms])

text \<open>The losers the bracket refers to, and those it has a second chance for.\<close>

lemma loser_refs:
  assumes "laid_out n b k j"
  shows "concat (map (sources_of LoserOf) (db_slots b)) =
    (if lbRounds (db_shape b) = 0 then []
     else concat (map (\<lambda>r. row_names wbLoser (2 ^ (k - r)) r) [k + 1 - j..<k + 1 - j + lbRounds (db_shape b) div 2 + 1]))
    @ concat (map (sources_of LoserOf) (finals_of k (db_shape b)))"
proof -
  note lay = laid_outD [OF assms]
  have "concat (map (sources_of LoserOf) (map (play_in n (de_byeSeedCount (db_shape b))) [1..<n - 2 ^ k + 1])) = []"
    by (rule play_in_none) simp
  then show ?thesis
    unfolding lay(12) by (simp only: map_append concat_append wb_no_losers lb_losers [OF lay(13,3) refl] append_Nil)
qed

lemma filter_interval: "1 \<le> e \<Longrightarrow> m \<le> k + 1 \<Longrightarrow> filter (\<lambda>r. e \<le> r \<and> r < m) [1..<k + 1] = [e..<m]"
  by (intro sorted_distinct_set_unique) (auto simp: sorted_wrt_filter simp del: upt_Suc)

lemma loser_names:
  assumes "laid_out n b k j"
  shows "map loser_name (filter (drops (db_shape b)) (db_slots b)) =
    concat (map (\<lambda>r. row_names wbLoser (2 ^ (k - r)) r)
      [k + 1 - j..<if secondChanceTarget (db_shape b) = Gold then k + 1 else k])
    @ map loser_name (filter (drops (db_shape b)) (finals_of k (db_shape b)))"
proof -
  note lay = laid_outD [OF assms]
  let ?sh = "db_shape b"
  let ?wb = "wb_row k (de_byeSeedCount ?sh) (de_hasPlayInRound ?sh)"
  let ?last = "if secondChanceTarget ?sh = Gold then k + 1 else k"
  have "filter (drops ?sh) (map (play_in n (de_byeSeedCount ?sh)) [1..<n - 2 ^ k + 1]) = []"
    using lay(1,3,5) by (auto simp: filter_empty_conv drops_def play_in_def de_slot_def Let_def)
  moreover have "filter (drops ?sh) (concat (map ?wb [1..<k + 1])) =
      concat (map ?wb (filter (\<lambda>r. k + 1 - j \<le> r \<and> r < ?last) [1..<k + 1]))"
    by (rule filter_concat_rows) (auto simp: drops_def lay(4,5) wb_row_fields)
  moreover have "map loser_name (concat (map ?wb (filter (\<lambda>r. k + 1 - j \<le> r \<and> r < ?last) [1..<k + 1]))) =
      concat (map (\<lambda>r. row_names wbLoser (2 ^ (k - r)) r) (filter (\<lambda>r. k + 1 - j \<le> r \<and> r < ?last) [1..<k + 1]))"
    by (rule map_concat_rows, rule wb_row_names) auto
  moreover have "filter (drops ?sh) (concat (map (lb_row j (k + 1 - j) k) [1..<lbRounds ?sh + 1])) = []"
    by (auto simp: filter_empty_conv drops_def dest: lb_row_fields)
  moreover have "filter (\<lambda>r. k + 1 - j \<le> r \<and> r < ?last) [1..<k + 1] = [k + 1 - j..<?last]"
    by (rule filter_interval) (use lay(3) in auto)
  ultimately show ?thesis
    unfolding lay(12) by (simp only: filter_append map_append list.map append_Nil)
qed

lemma gold_finals_losers:
  assumes "secondChanceTarget sh = Gold"
  shows "concat (map (sources_of LoserOf) (finals_of k sh)) =
    (if lbRounds sh > 0 then [] else [wbLoser k 1]) @ map loser_name (filter (drops sh) (finals_of k sh))"
  using assms by (simp add: buildFinalsSlots_def de_slot_def sources_of_def drops_def loser_name_def Let_def)

text \<open>The losers referred to are those with a second chance.\<close>

lemma double_losers:
  assumes "doubleElimBracket n opts = Inr b"
  shows "mset (concat (map (sources_of LoserOf) (db_slots b))) =
    mset (map loser_name (filter (drops (db_shape b)) (db_slots b)))"
proof -
  obtain k j where laid: "laid_out n b k j" using bracket_laid_out [OF assms] .
  note lay = laid_outD [OF laid]
  let ?sh = "db_shape b"
  let ?gold = "secondChanceTarget ?sh = Gold" and ?lb = "lbRounds ?sh" and ?e = "k + 1 - j"
  note both = loser_refs [OF laid] loser_names [OF laid]
  consider (bronze) "secondChanceTarget ?sh = Bronze" | (direct) "?gold" "?lb = 0" | (ladder) "?gold" "?lb \<noteq> 0"
    by (cases "secondChanceTarget ?sh") auto
  then show ?thesis
  proof cases
    case bronze
    then have "finals_of k ?sh = []" by (simp add: buildFinalsSlots_def)
    moreover have "?e + ?lb div 2 + 1 = k" "?lb \<noteq> 0"
      using lay(1,2,3,6,7) bronze by (auto simp: lb_truncation_def split: if_splits)
    ultimately show ?thesis unfolding both using bronze by simp
  next
    case direct
    then have "?e = k" using lay(2,3,6) by (simp add: lb_truncation_def)
    then have "concat (map (\<lambda>r. row_names wbLoser (2 ^ (k - r)) r) [?e..<k + 1]) = [wbLoser k 1]" by (simp add: row_names_def)
    then show ?thesis unfolding both gold_finals_losers [OF direct(1)] using direct by (simp del: upt_Suc)
  next
    case ladder
    then have "?lb = 2 * (j - 1)" using lay(6) by (simp add: lb_truncation_def)
    then have "?e + ?lb div 2 + 1 = k + 1" using lay(2,3) by linarith
    then show ?thesis unfolding both gold_finals_losers [OF ladder(1)] using ladder by (simp del: upt_Suc)
  qed
qed

text \<open>
  Every loser who has a second chance gets it exactly once. The sources "loser of" of
  the bracket are, as a multiset of names, the matches of the winners bracket from the
  repechage entry round on (in bronze mode without the final, whose loser has silver), and
  the grand final when it can be reset. A play-in names no loser.
\<close>

lemma losers_drop_once:
  assumes "doubleElimBracket n opts = Inr b"
  shows "mset (concat (map (sources_of LoserOf) (db_slots b))) =
    mset (map loser_name (filter (drops (db_shape b)) (db_slots b)))"
  by (rule double_losers [OF assms])

subsection \<open>The number of matches\<close>

lemma length_lb_row: "k div 2 + 2 \<le> j \<Longrightarrow> length (lb_row j e wb (Suc k)) = 2 ^ (j - 2 - k div 2)"
  by (simp add: lb_row_def lb_count del: upt_Suc)

lemma rows_Suc: "concat (map row [1..<Suc m + 1]) = concat (map row [1..<m + 1]) @ row (Suc m)"
  by simp

lemma length_losers_pairs:
  "m \<le> j - 1 \<Longrightarrow> length (concat (map (lb_row j e wb) [1..<2 * m + 1])) + 2 ^ (j - m) = 2 ^ j"
proof (induction m)
  case (Suc m)
  have fit: "(2 * m) div 2 + 2 \<le> j" "(Suc (2 * m)) div 2 + 2 \<le> j" using Suc.prems by linarith+
  have "length (lb_row j e wb (Suc (2 * m))) = 2 ^ (j - 2 - m)" "length (lb_row j e wb (Suc (Suc (2 * m)))) = 2 ^ (j - 2 - m)"
    using length_lb_row [OF fit(1)] length_lb_row [OF fit(2)] by simp_all
  moreover have "concat (map (lb_row j e wb) [1..<2 * Suc m + 1]) =
      concat (map (lb_row j e wb) [1..<2 * m + 1]) @ lb_row j e wb (Suc (2 * m)) @ lb_row j e wb (Suc (Suc (2 * m)))"
    by simp
  moreover have "(2 :: nat) ^ (j - m) = 2 ^ (j - Suc m) + 2 ^ (j - 2 - m) + 2 ^ (j - 2 - m)"
  proof -
    obtain d where "j = d + m + 2" using fit(1) by (metis add.commute add.left_commute le_Suc_ex nonzero_mult_div_cancel_left zero_neq_numeral)
    then show ?thesis by simp
  qed
  moreover have "length (concat (map (lb_row j e wb) [1..<2 * m + 1])) + 2 ^ (j - m) = 2 ^ j" using Suc by simp
  ultimately show ?case by (simp only: length_append)
qed simp

lemma length_losers:
  assumes "1 \<le> j" and "lb + t = 2 * (j - 1)" and "t \<le> 2"
  shows "length (concat (map (lb_row j e wb) [1..<lb + 1])) + t + 2 = 2 ^ j"
proof -
  have full: "length (concat (map (lb_row j e wb) [1..<2 * (j - 1) + 1])) + 2 = 2 ^ j"
    using length_losers_pairs [of "j - 1" j e wb] assms(1) by simp
  consider "t = 0" | "t = 1" | "t = 2" using assms(3) by linarith
  then show ?thesis
  proof cases
    case 1
    then show ?thesis using full assms(2) by simp
  next
    case 2
    then have lb: "2 * (j - 1) = Suc lb" and fit: "lb div 2 + 2 \<le> j" using assms by linarith+
    have "lb div 2 + 2 = j" using lb by linarith
    then have "length (lb_row j e wb (Suc lb)) = 1" using length_lb_row [OF fit, of e wb] by simp
    then show ?thesis using full 2 unfolding lb rows_Suc length_append by linarith
  next
    case 3
    then have lb: "2 * (j - 1) = Suc (Suc lb)" using assms by linarith
    then have "lb div 2 + 2 = j" "Suc lb div 2 + 2 = j" by linarith+
    then have "length (lb_row j e wb (Suc lb)) = 1" "length (lb_row j e wb (Suc (Suc lb))) = 1"
      using length_lb_row [of lb j e wb] length_lb_row [of "Suc lb" j e wb] by simp_all
    then show ?thesis using full 3 unfolding lb rows_Suc length_append by linarith
  qed
qed

lemma length_winners: "1 \<le> k \<Longrightarrow> length (concat (map (wb_row k byes h) [1..<k + 1])) + 1 = 2 ^ k"
proof -
  assume k: "1 \<le> k"
  have "length (concat (map (wb_row k byes h) [1..<m + 1])) + 2 ^ (k - m) = 2 ^ k" if "m \<le> k" for m
    using that
  proof (induction m)
    case (Suc m)
    have "length (wb_row k byes h (Suc m)) = length (map position (wb_row k byes h (Suc m)))" by simp
    also have "\<dots> = 2 ^ (k - Suc m)" using wb_row_positions [of "Suc m" k byes h] Suc.prems by (simp del: upt_Suc)
    finally have "length (wb_row k byes h (Suc m)) = 2 ^ (k - Suc m)" .
    moreover have "(2 :: nat) ^ (k - m) = 2 ^ (k - Suc m) + 2 ^ (k - Suc m)"
      using Suc.prems by (simp add: Suc_diff_Suc flip: mult_2 power_Suc)
    ultimately show ?case using Suc unfolding rows_Suc length_append by linarith
  qed simp
  from this [of k] show ?thesis by simp
qed

text \<open>
  C37. The closed form counts the bracket: \<open>totalDoubleElimMatches\<close> gives, for every number
  of fighters and every choice of options, the number of slots \<open>doubleElimBracket\<close> builds,
  and it refuses the same inputs with the same error.
\<close>

theorem closed_form_counts_the_slots:
  "totalDoubleElimMatches n opts = map_sum id (\<lambda>b. int (length (db_slots b))) (doubleElimBracket n opts)"
proof (cases "doubleElimBracket n opts")
  case (Inl e)
  then show ?thesis by (auto simp: doubleElimBracket_def totalDoubleElimMatches_def split: sum.splits)
next
  case (Inr b)
  let ?sh = "db_shape b"
  obtain k j where sh: "resolveDoubleElimShape n opts = Inr ?sh" and k: "1 \<le> k" "1 \<le> j" "2 ^ k \<le> n"
      "repechageEntrySize ?sh = 2 ^ j" "de_bracketSize ?sh = 2 ^ k" "de_playInMatchCount ?sh = n - 2 ^ k"
    and lb: "lbRounds ?sh + lb_truncation ?sh = 2 * (j - 1)"
    and slots: "db_slots b = map (play_in n (de_byeSeedCount ?sh)) [1..<n - 2 ^ k + 1]
      @ concat (map (wb_row k (de_byeSeedCount ?sh) (de_hasPlayInRound ?sh)) [1..<k + 1])
      @ concat (map (lb_row j (k + 1 - j) k) [1..<lbRounds ?sh + 1])
      @ buildFinalsSlots k (lbRounds ?sh) (grandFinalReset ?sh) (secondChanceTarget ?sh)"
    using sections [OF Inr] unfolding Let_def by blast
  have t: "lb_truncation ?sh \<le> 2" by (simp add: lb_truncation_def)
  have fin: "length (buildFinalsSlots k (lbRounds ?sh) (grandFinalReset ?sh) (secondChanceTarget ?sh)) =
      (if secondChanceTarget ?sh = Bronze then 0 else 1 + (if grandFinalReset ?sh then 1 else 0))"
    by (simp add: buildFinalsSlots_def Let_def)
  have A: "int (length (concat (map (wb_row k (de_byeSeedCount ?sh) (de_hasPlayInRound ?sh)) [1..<k + 1]))) = 2 ^ k - 1"
    using arg_cong [OF length_winners [OF k(1), of "de_byeSeedCount ?sh" "de_hasPlayInRound ?sh"], of int]
    by (simp del: upt_Suc)
  have B: "int (length (concat (map (lb_row j (k + 1 - j) k) [1..<lbRounds ?sh + 1]))) = 2 ^ j - 2 - int (lb_truncation ?sh)"
    using arg_cong [OF length_losers [OF k(2) lb t, of "k + 1 - j" k], of int] by (simp del: upt_Suc)
  have C: "int (length (map (play_in n (de_byeSeedCount ?sh)) [1..<n - 2 ^ k + 1])) = int (n - 2 ^ k)"
    by (simp only: length_map length_upt add_diff_cancel_right')
  have "int (length (db_slots b)) = int (n - 2 ^ k) + (2 ^ k - 1) + (2 ^ j - 2 - int (lb_truncation ?sh)) +
      (if secondChanceTarget ?sh = Bronze then 0 else 1 + (if grandFinalReset ?sh then 1 else 0))"
    unfolding slots length_append of_nat_add A B C fin by (simp del: upt_Suc)
  then show ?thesis
    unfolding totalDoubleElimMatches_def sh Inr using k by (simp add: Let_def lb_truncation_def)
qed

subsection \<open>Who enters\<close>

lemma no_entry: "entry_seeds (wb_later r p) = []" "entry_seeds (lb_slot e wb r p) = []"
  by (auto simp: entry_seeds_def wb_later_def lb_slot_def de_slot_def split: prod.split)

lemma double_entries:
  assumes "doubleElimBracket n opts = Inr b"
  shows "mset (concat (map entry_seeds (db_slots b))) = mset [1..<n + 1]"
proof -
  let ?sh = "db_shape b"
  obtain k j where k: "1 \<le> k" "2 ^ k \<le> n" "n \<le> 2 * 2 ^ k" "de_hasPlayInRound ?sh = (2 ^ k < n)"
      "de_byeSeedCount ?sh = (if n = 2 ^ k then 0 else 2 ^ k - (n - 2 ^ k))"
    and slots: "db_slots b = map (play_in n (de_byeSeedCount ?sh)) [1..<n - 2 ^ k + 1]
      @ concat (map (wb_row k (de_byeSeedCount ?sh) (de_hasPlayInRound ?sh)) [1..<k + 1])
      @ concat (map (lb_row j (k + 1 - j) k) [1..<lbRounds ?sh + 1])
      @ buildFinalsSlots k (lbRounds ?sh) (grandFinalReset ?sh) (secondChanceTarget ?sh)"
    using sections [OF assms] unfolding Let_def by blast
  let ?b = "de_byeSeedCount ?sh" and ?h = "de_hasPlayInRound ?sh"
  have row1: "[1..<k + 1] = 1 # [2..<k + 1]" using k(1) upt_conv_Cons [of 1 "k + 1"] by (simp add: numeral_2_eq_2)
  have "concat (map entry_seeds (concat (map (wb_row k ?b ?h) [2..<k + 1]))) = []"
    by (auto simp: wb_row_def no_entry)
  then have wb: "concat (map entry_seeds (concat (map (wb_row k ?b ?h) [1..<k + 1]))) =
      filter (\<lambda>s. \<not> (?h \<and> s > ?b)) (flatten_pairs (buildSeedingOrder (2 ^ k)))"
    unfolding row1 list.map concat.simps map_append concat_append
    by (simp only: wb_row_def if_True refl wb_first_sources append_Nil2)
  have lb: "concat (map entry_seeds (concat (map (lb_row j (k + 1 - j) k) [1..<lbRounds ?sh + 1]))) = []"
    by (auto simp: lb_row_def no_entry)
  have fin: "concat (map entry_seeds (buildFinalsSlots k (lbRounds ?sh) (grandFinalReset ?sh) (secondChanceTarget ?sh))) = []"
    by (simp add: buildFinalsSlots_def entry_seeds_def de_slot_def Let_def)
  have play: "mset (concat (map entry_seeds (map (play_in n ?b) [1..<p + 1]))) =
      mset (map ((+) ?b) [1..<p + 1]) + mset (map (\<lambda>i. n - i + 1) [1..<p + 1])" for p
    by (induction p) (simp_all add: entry_seeds_def play_in_def de_slot_def Let_def)
  have "mset (concat (map entry_seeds (db_slots b))) =
      mset (map ((+) ?b) [1..<n - 2 ^ k + 1]) + mset (map (\<lambda>i. n - i + 1) [1..<n - 2 ^ k + 1])
      + mset (filter (\<lambda>s. \<not> (?h \<and> s > ?b)) [1..<2 ^ k + 1])"
    unfolding slots map_append concat_append mset_append wb lb fin play mset_filter_order [OF k(1)]
    by (simp only: mset.simps add_0_right union_assoc)
  also have "\<dots> = mset [1..<n + 1]"
  proof (cases "n = 2 ^ k")
    case True
    then show ?thesis using k by (simp del: upt_Suc)
  next
    case False
    then have n: "2 ^ k < n" and b: "?b = 2 ^ k - (n - 2 ^ k)" and h: ?h using k by auto
    have "filter (\<lambda>s. \<not> (?h \<and> s > ?b)) [1..<2 ^ k + 1] = filter (\<lambda>s. s \<le> ?b) [1..<2 ^ k + 1]"
      using h by (auto intro: filter_cong)
    also have "\<dots> = [1..<?b + 1]" by (simp only: filter_le_upt b diff_le_self min_absorb1)
    finally show ?thesis using entries_default [OF n k(3), folded b] by simp
  qed
  finally show ?thesis .
qed

interpretation double: bracket_generator doubleElimBracket db_slots
  by unfold_locales (rule double_entries)

text \<open>
  Everybody enters the double-elimination bracket exactly once: each seed from 1 to the
  number of fighters stands in exactly one slot, on one side of it, and no other seed does.
\<close>

lemma double_everybody_enters_once:
  assumes "doubleElimBracket n opts = Inr b"
  shows "(\<forall>s. 1 \<le> s \<and> s \<le> n \<longrightarrow> length (filter (\<lambda>x. s \<in> set (entry_seeds x)) (db_slots b)) = 1) \<and>
    (\<forall>x \<in> set (db_slots b). distinct (entry_seeds x) \<and> set (entry_seeds x) \<subseteq> {1..n})"
  using double.one_slot [OF assms] double.entrants_of_slot [OF assms] by blast

end
