(* ===== verification/Swiss_Matching.thy ===== *)
theory Swiss_Matching
  imports Prelude
begin

section \<open>The pairing search of a Swiss round\<close>

text \<open>
  \<open>packages/rules/src/scheduling/swiss-matching.ts\<close>. A bracket is a list of players and
  the search works on indices into it. The budget that the code mutates is passed in and
  returned. Points and scores are rationals.
\<close>

record swiss_player =
  sp_id :: string
  points :: rat
  score :: "rat option"
  opponentIds :: "string list"
  hadBye :: bool
  rank :: int

datatype swiss_pairing_method = Fold | Adjacent

type_synonym index_pair = "nat \<times> nat"

definition SEARCH_BUDGET :: nat where
  "SEARCH_BUDGET = 10000"

text \<open>\<open>new Map(bracket.map((p, i) => [p.registrationId, i]))\<close>: the last index under an id.\<close>

definition indexById :: "swiss_player list \<Rightarrow> string \<Rightarrow> nat option" where
  "indexById bracket i = map_of (rev (zip (map sp_id bracket) [0..<length bracket])) i"

definition metOneWay :: "swiss_player list \<Rightarrow> nat \<Rightarrow> nat \<Rightarrow> bool" where
  "metOneWay bracket i j \<longleftrightarrow>
     i < length bracket \<and> list_ex (\<lambda>opp. indexById bracket opp = Some j) (opponentIds (bracket ! i))"

definition haveMetLookup :: "swiss_player list \<Rightarrow> nat \<Rightarrow> nat \<Rightarrow> bool" where
  "haveMetLookup bracket i j \<longleftrightarrow> metOneWay bracket i j \<or> metOneWay bracket j i"

definition idealPartnerIndex :: "nat \<Rightarrow> swiss_pairing_method \<Rightarrow> nat \<Rightarrow> int" where
  "idealPartnerIndex n pairing_rule i =
     (case pairing_rule of
        Fold \<Rightarrow> let half = n div 2 in if i < half then int i + int half else int i - int half
      | Adjacent \<Rightarrow> if even i then int i + 1 else int i - 1)"

text \<open>The pairing_rule's pairing; the code calls it on an even number of fighters only.\<close>

definition idealPairs :: "nat \<Rightarrow> swiss_pairing_method \<Rightarrow> index_pair list" where
  "idealPairs n pairing_rule =
     (case pairing_rule of
        Fold \<Rightarrow> let half = n div 2 in map (\<lambda>i. (i, i + half)) [0..<half]
      | Adjacent \<Rightarrow> map (\<lambda>i. (2 * i, 2 * i + 1)) [0..<(n + 1) div 2])"

text \<open>The order of the candidates: the distance from the ideal partner, then the index.\<close>

definition compareCandidates :: "int \<Rightarrow> nat \<Rightarrow> nat \<Rightarrow> int" where
  "compareCandidates ideal x y =
     (let d = \<bar>int x - ideal\<bar> - \<bar>int y - ideal\<bar> in if d \<noteq> 0 then d else int x - int y)"

text \<open>
  The inner function \<open>solve\<close> and its loop over the candidates. Both return the budget left.
\<close>

function (sequential)
  solve :: "(nat \<Rightarrow> nat \<Rightarrow> bool) \<Rightarrow> (nat \<Rightarrow> int) \<Rightarrow> nat list \<Rightarrow> nat \<Rightarrow> index_pair list option \<times> nat" and
  tryCandidates :: "(nat \<Rightarrow> nat \<Rightarrow> bool) \<Rightarrow> (nat \<Rightarrow> int) \<Rightarrow> nat \<Rightarrow> nat list \<Rightarrow> nat list \<Rightarrow> nat
    \<Rightarrow> index_pair list option \<times> nat" where
  "solve met ideal [] budget = (Some [], budget)"
| "solve met ideal (a # others) 0 = (None, 0)"
| "solve met ideal (a # others) (Suc left) =
     tryCandidates met ideal a others (sort_by (compareCandidates (ideal a)) others) left"
| "tryCandidates met ideal a others [] budget = (None, budget)"
| "tryCandidates met ideal a others (b # bs) budget =
     (if met a b then tryCandidates met ideal a others bs budget
      else (case solve met ideal (filter (\<lambda>i. i \<noteq> a \<and> i \<noteq> b) others) budget of
              (Some sub, budget') \<Rightarrow> (Some ((a, b) # sub), budget')
            | (None, budget') \<Rightarrow> tryCandidates met ideal a others bs budget'))"
  by pat_completeness auto
termination
  by (relation "measures [case_sum (\<lambda>(met, ideal, av, b). length av) (\<lambda>(met, ideal, a, others, bs, b). Suc (length others)),
      case_sum (\<lambda>(met, ideal, av, b). Suc (length av)) (\<lambda>(met, ideal, a, others, bs, b). length bs)]")
     (auto simp: le_imp_less_Suc)

definition searchMatching ::
    "(nat \<Rightarrow> nat \<Rightarrow> bool) \<Rightarrow> swiss_pairing_method \<Rightarrow> nat \<Rightarrow> nat \<Rightarrow> index_pair list option \<times> nat" where
  "searchMatching met pairing_rule n budget = solve met (idealPartnerIndex n pairing_rule) [0..<n] budget"

subsection \<open>Soundness\<close>

definition unpair :: "index_pair list \<Rightarrow> nat list" where
  "unpair ps = concat (map (\<lambda>(x, y). [x, y]) ps)"

lemma unpair_simps [simp]: "unpair [] = []" "unpair ((x, y) # ps) = x # y # unpair ps"
  by (simp_all add: unpair_def)

lemma mset_without:
  assumes "distinct others" and "b \<in> set others" and "a \<notin> set others"
  shows "mset others = add_mset b (mset (filter (\<lambda>i. i \<noteq> a \<and> i \<noteq> b) others))"
proof -
  have "filter (\<lambda>i. i \<noteq> a \<and> i \<noteq> b) others = remove1 b others"
    using assms by (auto simp: distinct_remove1_removeAll removeAll_filter_not_eq intro!: filter_cong)
  then show ?thesis using assms(2) by (simp add: add_mset_remove_trivial_If)
qed

lemma search_sound:
  "solve met ideal av budget = (Some ps, left) \<Longrightarrow> sorted_wrt (<) av \<Longrightarrow>
     mset (unpair ps) = mset av \<and> (\<forall>(x, y) \<in> set ps. x < y \<and> \<not> met x y)"
  "tryCandidates met ideal a others bs budget = (Some ps, left) \<Longrightarrow> sorted_wrt (<) (a # others) \<Longrightarrow> set bs \<subseteq> set others \<Longrightarrow>
     mset (unpair ps) = mset (a # others) \<and> (\<forall>(x, y) \<in> set ps. x < y \<and> \<not> met x y)"
proof (induction met ideal av budget and met ideal a others bs budget arbitrary: ps left and ps left
    rule: solve_tryCandidates.induct)
  case (3 met ideal a others budget)
  then show ?case by simp
next
  case (5 met ideal a others b bs budget)
  show ?case
  proof (cases "met a b")
    case True
    then show ?thesis using 5 by simp
  next
    case False
    obtain r budget' where s: "solve met ideal (filter (\<lambda>i. i \<noteq> a \<and> i \<noteq> b) others) budget = (r, budget')" by force
    have b: "b \<in> set others" "a < b" "distinct others" "a \<notin> set others" "sorted_wrt (<) others"
      using "5.prems" strict_sorted_iff [of others] by auto
    show ?thesis
    proof (cases r)
      case None
      then show ?thesis using 5 False s by simp
    next
      case (Some sub)
      then have ps: "ps = (a, b) # sub" using "5.prems" False s by simp
      have "mset (unpair sub) = mset (filter (\<lambda>i. i \<noteq> a \<and> i \<noteq> b) others) \<and> (\<forall>(x, y) \<in> set sub. x < y \<and> \<not> met x y)"
        using "5.IH"(2) [OF False, of sub budget'] s Some b(5) by (simp add: sorted_wrt_filter)
      then have "mset (unpair ps) = add_mset a (add_mset b (mset (filter (\<lambda>i. i \<noteq> a \<and> i \<noteq> b) others)))"
        and "\<forall>(x, y) \<in> set ps. x < y \<and> \<not> met x y"
        unfolding ps using b(2) False by simp_all
      then show ?thesis by (simp only: mset_without [OF b(3,1,4), symmetric] mset.simps)
    qed
  qed
qed auto

subsection \<open>The budget, and completeness\<close>

lemma budget_spent:
  "solve met ideal av budget = (r, left) \<Longrightarrow> left \<le> budget"
  "tryCandidates met ideal a others bs budget = (r, left) \<Longrightarrow> left \<le> budget"
proof (induction met ideal av budget and met ideal a others bs budget arbitrary: r left and r left
    rule: solve_tryCandidates.induct)
  case (3 met ideal a others budget)
  then show ?case by fastforce
next
  case (5 met ideal a others b bs budget)
  obtain s budget' where s: "solve met ideal (filter (\<lambda>i. i \<noteq> a \<and> i \<noteq> b) others) budget = (s, budget')" by force
  show ?case
  proof (cases "met a b")
    case True
    then show ?thesis using 5 by simp
  next
    case False
    then have "budget' \<le> budget" using "5.IH"(2) s by blast
    show ?thesis
    proof (cases s)
      case None
      then show ?thesis
        using "5.IH"(3) [OF False s [symmetric] None, of r left] "5.prems" s False \<open>budget' \<le> budget\<close> by simp
    next
      case (Some sub)
      then show ?thesis using "5.prems" s False \<open>budget' \<le> budget\<close> by simp
    qed
  qed
qed auto

text \<open>A pairing of all of \<open>av\<close> in which nobody meets again.\<close>

definition rematch_free :: "(nat \<Rightarrow> nat \<Rightarrow> bool) \<Rightarrow> nat list \<Rightarrow> index_pair list \<Rightarrow> bool" where
  "rematch_free met av ps \<longleftrightarrow> mset (unpair ps) = mset av \<and> (\<forall>(x, y) \<in> set ps. \<not> met x y)"

lemma unpair_perm: "mset ps = mset qs \<Longrightarrow> mset (unpair ps) = mset (unpair qs)"
proof -
  have "mset (unpair ps) = (\<Sum>(x, y) \<in># mset ps. {#x, y#})" for ps
    by (induction ps) auto
  then show "mset ps = mset qs \<Longrightarrow> mset (unpair ps) = mset (unpair qs)" by simp
qed

lemma partner_of_first:
  assumes "rematch_free met (a # others) ps" and "\<And>x y. met x y = met y x"
    and "distinct others" and "a \<notin> set others"
  obtains b sub where "b \<in> set others" "\<not> met a b" "rematch_free met (filter (\<lambda>i. i \<noteq> a \<and> i \<noteq> b) others) sub"
proof -
  have "a \<in> set (unpair ps)"
    using assms(1) by (metis list.set_intros(1) mset_eq_setD rematch_free_def)
  then obtain x y where p: "(x, y) \<in> set ps" "a = x \<or> a = y" by (auto simp: unpair_def)
  define b where "b = (if a = x then y else x)"
  obtain us vs where ps: "ps = us @ (x, y) # vs" using p(1) by (meson split_list)
  have mem: "mset (unpair ps) = mset (a # b # unpair (us @ vs))"
  proof -
    have "mset (unpair ps) = mset (x # y # unpair (us @ vs))"
      using unpair_perm [of ps "(x, y) # us @ vs"] by (simp add: ps)
    then show ?thesis using p(2) by (cases "a = x") (simp_all add: b_def add_mset_commute)
  qed
  then have rest: "mset others = add_mset b (mset (unpair (us @ vs)))"
    using assms(1) by (simp add: rematch_free_def)
  then have b: "b \<in> set others" by (metis set_mset_mset union_single_eq_member)
  show ?thesis
  proof (rule that [OF b])
    have "\<not> met x y" using assms(1) p(1) by (auto simp: rematch_free_def)
    moreover have "met a b = met x y" using p(2) assms(2) [of a b] by (cases "a = x") (auto simp: b_def)
    ultimately show "\<not> met a b" by simp
    have "mset (unpair (us @ vs)) = mset (filter (\<lambda>i. i \<noteq> a \<and> i \<noteq> b) others)"
      using trans [OF rest [symmetric] mset_without [OF assms(3) b assms(4)]]
      by (simp only: add_mset_add_mset_same_iff)
    then show "rematch_free met (filter (\<lambda>i. i \<noteq> a \<and> i \<noteq> b) others) (us @ vs)"
      using assms(1) by (simp add: rematch_free_def ps)
  qed
qed

lemma search_complete:
  "solve met ideal av budget = (None, left) \<Longrightarrow> 0 < left \<Longrightarrow> sorted_wrt (<) av \<Longrightarrow> (\<And>x y. met x y = met y x) \<Longrightarrow>
     \<not> rematch_free met av ps"
  "tryCandidates met ideal a others bs budget = (None, left) \<Longrightarrow> 0 < left \<Longrightarrow> sorted_wrt (<) (a # others) \<Longrightarrow>
     (\<And>x y. met x y = met y x) \<Longrightarrow> b \<in> set bs \<Longrightarrow> \<not> met a b \<Longrightarrow> \<not> rematch_free met (filter (\<lambda>i. i \<noteq> a \<and> i \<noteq> b) others) ps"
proof (induction met ideal av budget and met ideal a others bs budget arbitrary: ps left and ps left b
    rule: solve_tryCandidates.induct)
  case (3 met ideal a others budget)
  show ?case
  proof
    assume "rematch_free met (a # others) ps"
    moreover have "distinct others" "a \<notin> set others" using "3.prems"(3) strict_sorted_iff [of others] by auto
    ultimately obtain b sub where b: "b \<in> set others" "\<not> met a b"
      and sub: "rematch_free met (filter (\<lambda>i. i \<noteq> a \<and> i \<noteq> b) others) sub"
      using partner_of_first "3.prems"(4) by blast
    have "b \<in> set (sort_by (compareCandidates (ideal a)) others)" using b(1) by simp
    then show False using 3 sub b(2) by simp
  qed
next
  case (5 met ideal a others c bs budget)
  show ?case
  proof (cases "met a c")
    case True
    then show ?thesis using 5 by auto
  next
    case False
    obtain s budget' where s: "solve met ideal (filter (\<lambda>i. i \<noteq> a \<and> i \<noteq> c) others) budget = (s, budget')" by force
    then have "s = None" using "5.prems"(1) False by (cases s) simp_all
    then have rest: "tryCandidates met ideal a others bs budget' = (None, left)"
      using "5.prems"(1) False s by simp
    have "0 < budget'" using budget_spent(2) [OF rest] "5.prems"(2) by simp
    have "sorted_wrt (<) (filter (\<lambda>i. i \<noteq> a \<and> i \<noteq> c) others)" using "5.prems"(3) by (simp add: sorted_wrt_filter)
    then have "\<not> rematch_free met (filter (\<lambda>i. i \<noteq> a \<and> i \<noteq> c) others) ps"
      using "5.IH"(2) [OF False] s \<open>s = None\<close> \<open>0 < budget'\<close> "5.prems"(4) by blast
    moreover have "\<not> rematch_free met (filter (\<lambda>i. i \<noteq> a \<and> i \<noteq> b) others) ps" if "b \<in> set bs"
      using "5.IH"(3) [OF False s [symmetric] \<open>s = None\<close> rest "5.prems"(2,3,4) that "5.prems"(6)] .
    ultimately show ?thesis using "5.prems"(5) by auto
  qed
qed (auto simp: rematch_free_def)

subsection \<open>The pairing_rule's own pairing\<close>

lemma insert_by_least: "\<forall>y \<in> set ys. cmp x y \<le> 0 \<Longrightarrow> insert_by cmp x ys = x # ys"
  by (cases ys) simp_all

lemma insert_by_after: "0 < cmp x y \<Longrightarrow> insert_by cmp x (y # ys) = y # insert_by cmp x ys"
  by simp

lemma sort_by_least:
  assumes "p \<in> set xs" and "distinct xs" and "\<And>y. y \<in> set xs \<Longrightarrow> y \<noteq> p \<Longrightarrow> cmp p y < 0 \<and> 0 < cmp y p"
  shows "\<exists>ys. sort_by cmp xs = p # ys"
  using assms
proof (induction xs)
  case (Cons x xs)
  show ?case
  proof (cases "x = p")
    case True
    have "\<forall>y \<in> set (sort_by cmp xs). cmp p y \<le> 0"
      using Cons.prems True by (force intro: less_imp_le)
    then show ?thesis using True by (simp add: insert_by_least)
  next
    case False
    then obtain ys where "sort_by cmp xs = p # ys" using Cons by auto
    then show ?thesis using Cons.prems(3) [of x] False by simp
  qed
qed simp

lemma first_probe:
  assumes "int p = ideal a" and "p \<in> set others" and "distinct others" and "\<not> met a p"
    and "solve met ideal (filter (\<lambda>i. i \<noteq> a \<and> i \<noteq> p) others) budget = (Some sub, left)"
  shows "solve met ideal (a # others) (Suc budget) = (Some ((a, p) # sub), left)"
proof -
  have "\<exists>ys. sort_by (compareCandidates (ideal a)) others = p # ys"
    by (rule sort_by_least [OF assms(2,3)]) (auto simp: compareCandidates_def Let_def simp flip: assms(1))
  then show ?thesis using assms(4,5) by auto
qed

lemma ideal_fold:
  assumes "\<forall>i < h. \<not> met i (i + h)" and "d \<le> h"
  shows "solve met (idealPartnerIndex (2 * h) Fold) ([h - d..<h] @ [2 * h - d..<2 * h]) (d + budget) =
    (Some (map (\<lambda>i. (i, i + h)) [h - d..<h]), budget)"
  using assms(2)
proof (induction d)
  case (Suc d)
  let ?a = "h - Suc d" and ?p = "2 * h - Suc d"
  have av: "[?a..<h] @ [?p..<2 * h] = ?a # [h - d..<h] @ ?p # [2 * h - d..<2 * h]"
    using Suc.prems upt_conv_Cons [of ?a h] upt_conv_Cons [of ?p "2 * h"] by (simp add: Suc_diff_Suc)
  have "filter (\<lambda>i. i \<noteq> ?a \<and> i \<noteq> ?p) ([h - d..<h] @ ?p # [2 * h - d..<2 * h]) = [h - d..<h] @ [2 * h - d..<2 * h]"
    using Suc.prems by (simp, intro arg_cong2 [of _ _ _ _ append] filter_True) auto
  moreover have "int ?p = idealPartnerIndex (2 * h) Fold ?a"
    using Suc.prems by (simp add: idealPartnerIndex_def Let_def of_nat_diff)
  moreover have "\<not> met ?a ?p"
  proof -
    have "?p = ?a + h" "?a < h" using Suc.prems by simp_all
    then show ?thesis using assms(1) by metis
  qed
  moreover have "distinct ([h - d..<h] @ ?p # [2 * h - d..<2 * h])" using Suc.prems by auto
  ultimately have "solve met (idealPartnerIndex (2 * h) Fold) (?a # [h - d..<h] @ ?p # [2 * h - d..<2 * h]) (Suc (d + budget)) =
      (Some ((?a, ?p) # map (\<lambda>i. (i, i + h)) [h - d..<h]), budget)"
    using Suc.IH Suc.prems by (intro first_probe) simp_all
  moreover have "[?a..<h] = ?a # [h - d..<h]" using Suc.prems upt_conv_Cons [of ?a h] by (simp add: Suc_diff_Suc)
  moreover have "?p = ?a + h" using Suc.prems by simp
  ultimately show ?case unfolding av by simp
qed simp

lemma ideal_adjacent:
  assumes "\<forall>i < h. \<not> met (2 * i) (2 * i + 1)" and "d \<le> h"
  shows "solve met (idealPartnerIndex (2 * h) Adjacent) [2 * h - 2 * d..<2 * h] (d + budget) =
    (Some (map (\<lambda>i. (2 * i, 2 * i + 1)) [h - d..<h]), budget)"
  using assms(2)
proof (induction d)
  case (Suc d)
  let ?a = "2 * (h - Suc d)" and ?p = "2 * (h - Suc d) + 1"
  have av: "[2 * h - 2 * Suc d..<2 * h] = ?a # ?p # [2 * h - 2 * d..<2 * h]"
  proof -
    have "2 * h - 2 * Suc d = ?a" "Suc ?a = ?p" "Suc ?p = 2 * h - 2 * d" "?a < 2 * h" "?p < 2 * h" using Suc.prems by simp_all
    then show ?thesis using upt_conv_Cons [of ?a "2 * h"] upt_conv_Cons [of ?p "2 * h"] by simp
  qed
  have "filter (\<lambda>i. i \<noteq> ?a \<and> i \<noteq> ?p) (?p # [2 * h - 2 * d..<2 * h]) = [2 * h - 2 * d..<2 * h]"
    using Suc.prems by (auto intro!: filter_True)
  moreover have "int ?p = idealPartnerIndex (2 * h) Adjacent ?a" by (simp add: idealPartnerIndex_def)
  moreover have "\<not> met ?a ?p" using assms(1) Suc.prems by simp
  moreover have "distinct (?p # [2 * h - 2 * d..<2 * h])" using Suc.prems by auto
  ultimately have "solve met (idealPartnerIndex (2 * h) Adjacent) (?a # ?p # [2 * h - 2 * d..<2 * h]) (Suc (d + budget)) =
      (Some ((?a, ?p) # map (\<lambda>i. (2 * i, 2 * i + 1)) [h - d..<h]), budget)"
    using Suc.IH Suc.prems by (intro first_probe) simp_all
  moreover have "[h - Suc d..<h] = (h - Suc d) # [h - d..<h]" using Suc.prems upt_conv_Cons [of "h - Suc d" h] by (simp add: Suc_diff_Suc)
  ultimately show ?case unfolding av by simp
qed simp

text \<open>
  C38. The search finds a pairing without a rematch if there is one. What it returns pairs
  everybody exactly once, the better-ranked index first, and nobody with an opponent he has
  met; when it returns nothing although budget is left, no such pairing exists.
\<close>

theorem search_sound_and_complete:
  assumes "\<And>x y. met x y = met y x" and "searchMatching met pairing_rule n budget = (result, left)"
  shows "(\<forall>ps. result = Some ps \<longrightarrow> mset (unpair ps) = mset [0..<n] \<and> list_all (\<lambda>(x, y). x < y \<and> \<not> met x y) ps) \<and>
    (result = None \<and> 0 < left \<longrightarrow> \<not> (\<exists>ps. rematch_free met [0..<n] ps)) \<and> left \<le> budget"
  using search_sound(1) [of met "idealPartnerIndex n pairing_rule" "[0..<n]" budget]
    search_complete(1) [of met "idealPartnerIndex n pairing_rule" "[0..<n]" budget left] assms
    budget_spent(1) [of met "idealPartnerIndex n pairing_rule" "[0..<n]" budget result left]
  unfolding searchMatching_def list_all_iff by (auto simp del: upt_Suc simp: case_prod_unfold)

text \<open>
  Where nothing stands in its way the search returns the pairing of the method itself:
  if the pairs of the method have not met, it finds them, spending one visit for a pair.
\<close>

lemma unconstrained_search_is_ideal:
  assumes "list_all (\<lambda>(x, y). \<not> met x y) (idealPairs (2 * h) pairing_rule)"
  shows "searchMatching met pairing_rule (2 * h) (h + budget) = (Some (idealPairs (2 * h) pairing_rule), budget)"
proof (cases pairing_rule)
  case Fold
  then have "\<forall>i < h. \<not> met i (i + h)" using assms by (simp add: idealPairs_def list_all_iff Let_def)
  then have "solve met (idealPartnerIndex (2 * h) Fold) ([h - h..<h] @ [2 * h - h..<2 * h]) (h + budget) =
      (Some (map (\<lambda>i. (i, i + h)) [h - h..<h]), budget)" by (intro ideal_fold) simp_all
  then show ?thesis
    using Fold upt_add_eq_append [of 0 h h] by (simp add: searchMatching_def idealPairs_def Let_def mult_2)
next
  case Adjacent
  then have "\<forall>i < h. \<not> met (2 * i) (2 * i + 1)" using assms by (simp add: idealPairs_def list_all_iff)
  then have "solve met (idealPartnerIndex (2 * h) Adjacent) [2 * h - 2 * h..<2 * h] (h + budget) =
      (Some (map (\<lambda>i. (2 * i, 2 * i + 1)) [h - h..<h]), budget)" by (intro ideal_adjacent) simp_all
  then show ?thesis
    using Adjacent by (simp add: searchMatching_def idealPairs_def)
qed

text \<open>Four fighters, the first and the third have met.\<close>

definition met_1_3 :: "nat \<Rightarrow> nat \<Rightarrow> bool" where
  "met_1_3 i j \<longleftrightarrow> (i = 0 \<and> j = 2) \<or> (i = 2 \<and> j = 0)"

lemma search_of_4: "searchMatching met_1_3 Fold 4 10 = (Some [(0, 1), (2, 3)], 8)"
  by code_simp

theorem search_sound_and_complete_witness: "mset (unpair [(0, 1), (2, 3)]) = mset [0..<4] \<and> (8 :: nat) \<le> 10"
  using search_sound_and_complete [OF _ search_of_4] by (auto simp: met_1_3_def)

end
