(* ===== verification/Swiss.thy ===== *)
theory Swiss
  imports Swiss_Matching
begin

section \<open>Pairing one round of a Swiss phase\<close>

text \<open>
  \<open>packages/rules/src/scheduling/swiss.ts\<close>. The code pushes warnings and pairings onto
  arrays and mutates the budget; the model threads the three through the loop over the
  groups and returns them.
\<close>

datatype swiss_grouping = ByPoints | ScoreBands "rat list"

datatype swiss_warning_code = ForcedRematch | NoPerfectMatching | SingletonBand

record swiss_warning =
  warning_code :: swiss_warning_code
  registrationIds :: "string list"

record swiss_pairing =
  board :: nat
  aId :: string
  bId :: string
  rematch :: bool

record swiss_round_plan =
  pairings :: "swiss_pairing list"
  byeRegistrationId :: "string option"
  warnings :: "swiss_warning list"

subsection \<open>The number of rounds\<close>

function countRounds :: "nat \<Rightarrow> nat \<Rightarrow> nat" where
  "countRounds entrants r = (if 2 ^ r < entrants then countRounds entrants (Suc r) else r)"
  by pat_completeness auto
termination
proof (relation "measure (\<lambda>(entrants, r). entrants - r)")
  fix entrants r :: nat
  assume "2 ^ r < entrants"
  moreover have "r < 2 ^ r" by (rule less_exp)
  ultimately have "r < entrants" by (rule order_less_trans [rotated])
  then show "((entrants, Suc r), (entrants, r)) \<in> measure (\<lambda>(entrants, r). entrants - r)" by simp
qed simp

declare countRounds.simps [simp del]

definition recommendedRoundCount :: "nat \<Rightarrow> nat" where
  "recommendedRoundCount entrants = min 9 (max 3 (countRounds entrants 0))"

subsection \<open>Order, bands and groups\<close>

definition compareByRank :: "swiss_player \<Rightarrow> swiss_player \<Rightarrow> int" where
  "compareByRank a b =
     (if rank a - rank b \<noteq> 0 then rank a - rank b
      else if sp_id a < sp_id b then -1 else if sp_id b < sp_id a then 1 else 0)"

definition sortByRank :: "swiss_player list \<Rightarrow> swiss_player list" where
  "sortByRank players = sort_by compareByRank players"

text \<open>How many edges a score has cleared; no score clears none.\<close>

definition bandIndex :: "rat list \<Rightarrow> swiss_player \<Rightarrow> nat" where
  "bandIndex edges player =
     (case score player of None \<Rightarrow> 0 | Some s \<Rightarrow> length (takeWhile (\<lambda>e. s \<ge> e) edges))"

definition bandEdges :: "rat list \<Rightarrow> rat list" where
  "bandEdges boundaries = sort_by (\<lambda>a b. a - b) (remdups boundaries)"

definition bandsOf :: "swiss_player list \<Rightarrow> rat list \<Rightarrow> swiss_player list list" where
  "bandsOf players boundaries =
     (let edges = bandEdges boundaries;
          bands = map (\<lambda>i. filter (\<lambda>p. bandIndex edges p = i) players) [0..<length edges + 1]
      in map sortByRank (rev bands))"

definition groupByPoints :: "swiss_player list \<Rightarrow> swiss_player list list" where
  "groupByPoints players =
     map (\<lambda>pts. sortByRank (filter (\<lambda>p. points p = pts) players))
       (sort_by (\<lambda>a b. b - a) (remdups (map points players)))"

subsection \<open>The bye\<close>

definition takeBye :: "swiss_player list \<Rightarrow> swiss_player option \<times> swiss_player list" where
  "takeBye field =
     (if even (length field) then (None, field)
      else (let chosen = (case find (\<lambda>p. \<not> hadBye p) (rev field) of Some p \<Rightarrow> p | None \<Rightarrow> last field)
            in (Some chosen, filter (\<lambda>p. sp_id p \<noteq> sp_id chosen) field)))"

subsection \<open>Closing a bracket\<close>

text \<open>The loop over the even prefixes: the pairs, who floats, and the budget left.\<close>

function closePrefix ::
    "swiss_pairing_method \<Rightarrow> swiss_player list \<Rightarrow> nat \<Rightarrow> nat \<Rightarrow> index_pair list \<times> swiss_player list \<times> nat" where
  "closePrefix pairing_rule bracket prefix budget =
     (if prefix \<ge> 2 then
        (case searchMatching (haveMetLookup bracket) pairing_rule prefix budget of
           (Some solved, budget') \<Rightarrow> (solved, drop prefix bracket, budget')
         | (None, budget') \<Rightarrow> closePrefix pairing_rule bracket (prefix - 2) budget')
      else ([], bracket, budget))"
  by pat_completeness auto
termination
  by (relation "measure (\<lambda>(pairing_rule, bracket, prefix, budget). prefix)") auto

declare closePrefix.simps [simp del]

definition closeBracket ::
    "swiss_player list \<Rightarrow> swiss_pairing_method \<Rightarrow> bool \<Rightarrow> nat
     \<Rightarrow> index_pair list \<times> swiss_player list \<times> nat \<times> swiss_warning list" where
  "closeBracket bracket pairing_rule isLast budget =
     (if isLast then
        (if bracket = [] then ([], [], budget, [])
         else (case searchMatching (haveMetLookup bracket) pairing_rule (length bracket) budget of
                 (Some solved, budget') \<Rightarrow> (solved, [], budget', [])
               | (None, budget') \<Rightarrow>
                   (idealPairs (length bracket) pairing_rule, [], budget',
                    [\<lparr>warning_code = NoPerfectMatching, registrationIds = map sp_id bracket\<rparr>])))
      else (let (solved, floated, budget') =
                  closePrefix pairing_rule bracket (length bracket - length bracket mod 2) budget
            in (solved, floated, budget', [])))"

definition toPairing :: "swiss_player \<Rightarrow> swiss_player \<Rightarrow> nat \<Rightarrow> bool \<Rightarrow> swiss_pairing \<times> swiss_warning list" where
  "toPairing a b boardIndex again =
     (\<lparr>board = boardIndex + 1, aId = sp_id a, bId = sp_id b, rematch = again\<rparr>,
      if again then [\<lparr>warning_code = ForcedRematch, registrationIds = [sp_id a, sp_id b]\<rparr>] else [])"

text \<open>The pairings of one closed bracket, the first one at index \<open>start\<close> of the round.\<close>

definition bracketPairings ::
    "swiss_player list \<Rightarrow> nat \<Rightarrow> index_pair list \<Rightarrow> (swiss_pairing \<times> swiss_warning list) list" where
  "bracketPairings bracket start solved =
     map (\<lambda>(offset, x, y). toPairing (bracket ! x) (bracket ! y) (start + offset) (haveMetLookup bracket x y))
       (zip [0..<length solved] solved)"

subsection \<open>The round\<close>

text \<open>The loop over the groups, best group first.\<close>

fun pairGroups ::
    "swiss_pairing_method \<Rightarrow> swiss_player list list \<Rightarrow> swiss_player list \<Rightarrow> nat
     \<Rightarrow> swiss_pairing list \<Rightarrow> swiss_warning list \<Rightarrow> swiss_pairing list \<times> swiss_warning list" where
  "pairGroups pairing_rule [] carried budget done warned = (done, warned)"
| "pairGroups pairing_rule (g # gs) carried budget done warned =
     (let bracket = sortByRank (carried @ g);
          (solved, floated, budget', ws) = closeBracket bracket pairing_rule (gs = []) budget;
          new = bracketPairings bracket (length done) solved
      in pairGroups pairing_rule gs floated budget' (done @ map fst new) (warned @ ws @ concat (map snd new)))"

definition singletonBands :: "swiss_player list list \<Rightarrow> swiss_warning list" where
  "singletonBands groups =
     map (\<lambda>g. \<lparr>warning_code = SingletonBand, registrationIds = [sp_id (hd g)]\<rparr>) (filter (\<lambda>g. length g = 1) groups)"

definition planSwissRound ::
    "swiss_player list \<Rightarrow> swiss_pairing_method \<Rightarrow> swiss_grouping \<Rightarrow> swiss_round_plan" where
  "planSwissRound players pairing_rule grouping =
     (let field = sortByRank players in
      if field = [] then \<lparr>pairings = [], byeRegistrationId = None, warnings = []\<rparr>
      else
        (let (bye, others) = takeBye field;
             groups = (case grouping of ScoreBands boundaries \<Rightarrow> bandsOf others boundaries | ByPoints \<Rightarrow> groupByPoints others);
             early = (case grouping of ScoreBands _ \<Rightarrow> singletonBands groups | ByPoints \<Rightarrow> []);
             (ps, ws) = pairGroups pairing_rule groups [] SEARCH_BUDGET [] early
         in \<lparr>pairings = ps, byeRegistrationId = map_option sp_id bye, warnings = ws\<rparr>))"

subsection \<open>The order of the field\<close>

interpretation by_rank: comparator compareByRank
proof
  show "compareByRank a b \<le> 0 \<longleftrightarrow> 0 \<le> compareByRank b a" for a b
    by (auto simp: compareByRank_def)
  show "compareByRank a b \<le> 0 \<Longrightarrow> compareByRank b c \<le> 0 \<Longrightarrow> compareByRank a c \<le> 0" for a b c
    by (auto simp: compareByRank_def split: if_splits)
qed

interpretation ascending_edges: strict_comparator "\<lambda>a b :: rat. a - b"
  by unfold_locales auto

lemma sortByRank_simps [simp]:
  "mset (sortByRank ps) = mset ps" "set (sortByRank ps) = set ps" "length (sortByRank ps) = length ps"
  "sortByRank ps = [] \<longleftrightarrow> ps = []"
  by (simp_all add: sortByRank_def)

lemma sortByRank_ranks: "sorted_wrt (\<lambda>a b. rank a \<le> rank b) (sortByRank ps)"
  using by_rank.sorted_sort_by [of ps] unfolding sortByRank_def
  by (rule sorted_wrt_mono_rel [rotated]) (auto simp: compareByRank_def split: if_splits)

lemma mset_concat_sorted: "mset (concat (map sortByRank gs)) = mset (concat gs)"
  by (induction gs) simp_all

subsection \<open>Bands and groups partition the field\<close>

lemma mset_filter_keys:
  assumes "distinct ks" and "\<And>x. x \<in> set xs \<Longrightarrow> key x \<in> set ks"
  shows "mset (concat (map (\<lambda>k. filter (\<lambda>x. key x = k) xs) ks)) = mset xs"
  using assms(2)
proof (induction xs)
  case (Cons x xs)
  have "mset (concat (map (\<lambda>k. filter (\<lambda>y. key y = k) (x # xs)) ks)) =
      mset (concat (map (\<lambda>k. filter (\<lambda>y. key y = k) xs) ks)) + {#x#}" if "key x \<in> set ks" "distinct ks" for ks
    using that by (induction ks) (auto intro!: arg_cong [of _ _ mset] arg_cong [of _ _ concat] map_cong)
  then show ?case using Cons assms(1) by simp
qed simp

lemma mset_groupByPoints: "mset (concat (groupByPoints players)) = mset players"
proof -
  have "mset (concat (map (\<lambda>k. filter (\<lambda>p. points p = k) players) (sort_by (\<lambda>a b. b - a) (remdups (map points players))))) = mset players"
    by (rule mset_filter_keys) simp_all
  then show ?thesis
    using mset_concat_sorted [of "map (\<lambda>k. filter (\<lambda>p. points p = k) players) (sort_by (\<lambda>a b. b - a) (remdups (map points players)))"]
    by (simp add: groupByPoints_def comp_def)
qed

lemma bandIndex_le: "bandIndex edges p < length edges + 1"
  by (auto simp: bandIndex_def length_takeWhile_le less_Suc_eq_le split: option.splits)

lemma mset_bandsOf: "mset (concat (bandsOf players boundaries)) = mset players"
proof -
  let ?e = "bandEdges boundaries"
  have "mset (concat (map (\<lambda>k. filter (\<lambda>p. bandIndex ?e p = k) players) (rev [0..<length ?e + 1]))) = mset players"
    using bandIndex_le [of ?e] by (intro mset_filter_keys) (simp_all del: upt_Suc)
  then show ?thesis
    using mset_concat_sorted [of "map (\<lambda>k. filter (\<lambda>p. bandIndex ?e p = k) players) (rev [0..<length ?e + 1])"]
    by (simp add: bandsOf_def Let_def rev_map del: upt_Suc)
qed

subsection \<open>Closing a bracket\<close>

lemma haveMetLookup_sym: "haveMetLookup bracket x y = haveMetLookup bracket y x"
  by (auto simp: haveMetLookup_def)

lemma indexById_iff:
  assumes "distinct (map sp_id bracket)" and "j < length bracket"
  shows "indexById bracket i = Some j \<longleftrightarrow> sp_id (bracket ! j) = i"
proof -
  let ?kv = "zip (map sp_id bracket) [0..<length bracket]"
  have "distinct (map fst (rev ?kv))" using assms(1) by (simp add: rev_map [symmetric])
  then have "map_of (rev ?kv) i = Some j \<longleftrightarrow> (i, j) \<in> set ?kv" by simp
  also have "\<dots> \<longleftrightarrow> sp_id (bracket ! j) = i" using assms(2) by (auto simp: set_zip intro!: exI [of _ j])
  finally show ?thesis by (simp add: indexById_def)
qed

lemma haveMet_iff:
  assumes "distinct (map sp_id bracket)" and "x < length bracket" and "y < length bracket"
  shows "haveMetLookup bracket x y \<longleftrightarrow>
    sp_id (bracket ! y) \<in> set (opponentIds (bracket ! x)) \<or> sp_id (bracket ! x) \<in> set (opponentIds (bracket ! y))"
  using assms by (auto simp: haveMetLookup_def metOneWay_def list_ex_iff indexById_iff)

lemma search_result:
  assumes "searchMatching (haveMetLookup bracket) pairing_rule n budget = (Some ps, left)"
  shows "mset (unpair ps) = mset [0..<n] \<and> (\<forall>(x, y) \<in> set ps. x < y \<and> \<not> haveMetLookup bracket x y)"
  using assms search_sound(1) [of "haveMetLookup bracket" "idealPartnerIndex n pairing_rule" "[0..<n]" budget ps left]
  by (simp add: searchMatching_def del: upt_Suc)

lemma mset_idealPairs:
  assumes "even n"
  shows "mset (unpair (idealPairs n pairing_rule)) = mset [0..<n] \<and> (\<forall>(x, y) \<in> set (idealPairs n pairing_rule). x < y)"
proof -
  obtain h where h: "n = 2 * h" using assms by (elim evenE)
  have "mset (unpair (map (\<lambda>i. (i, i + k)) xs)) = mset (xs @ map (\<lambda>i. i + k) xs)" for k xs
    by (induction xs) simp_all
  from this [of h "[0..<h]"] have f: "mset (unpair (map (\<lambda>i. (i, i + h)) [0..<h])) = mset ([0..<h] @ [h..<h + h])"
    by (simp add: map_add_upt add.commute)
  have "mset (unpair (map (\<lambda>i. (2 * i, 2 * i + 1)) [0..<h])) = mset [0..<2 * h]"
    by (induction h) (simp_all add: unpair_def)
  then show ?thesis
    using f upt_add_eq_append [of 0 h h]
    by (cases pairing_rule) (auto simp: idealPairs_def Let_def h mult_2)
qed

text \<open>What closing a bracket does to the fighters in it.\<close>

definition covers :: "swiss_player list \<Rightarrow> index_pair list \<Rightarrow> swiss_player list \<Rightarrow> bool" where
  "covers bracket solved floated \<longleftrightarrow>
     mset (map (\<lambda>i. bracket ! i) (unpair solved)) + mset floated = mset bracket \<and>
     (\<forall>(x, y) \<in> set solved. x < y \<and> y < length bracket)"

lemma covers_prefix:
  assumes "mset (unpair ps) = mset [0..<n]" and "\<forall>(x, y) \<in> set ps. x < y" and "n \<le> length bracket"
  shows "covers bracket ps (drop n bracket)"
proof -
  have "mset (map (\<lambda>i. bracket ! i) (unpair ps)) = mset (map (\<lambda>i. bracket ! i) [0..<n])"
    using assms(1) by (simp only: mset_map)
  also have "map (\<lambda>i. bracket ! i) [0..<n] = take n bracket"
    using assms(3) by (intro nth_equalityI) simp_all
  finally have "mset (map (\<lambda>i. bracket ! i) (unpair ps)) + mset (drop n bracket) = mset bracket"
    by (metis append_take_drop_id mset_append)
  moreover have "y < length bracket" if "(x, y) \<in> set ps" for x y
  proof -
    have "y \<in> set (unpair ps)" using that by (auto simp: unpair_def)
    then have "y < n" using assms(1) by (metis atLeast0LessThan lessThan_iff mset_eq_setD set_upt)
    then show ?thesis using assms(3) by simp
  qed
  ultimately show ?thesis using assms(2) by (auto simp: covers_def)
qed

lemma closePrefix_result:
  assumes "prefix \<le> length bracket" and "even prefix" and "closePrefix pairing_rule bracket prefix budget = (solved, floated, left)"
  shows "covers bracket solved floated \<and> (\<forall>(x, y) \<in> set solved. \<not> haveMetLookup bracket x y) \<and>
    (even (length floated) \<longleftrightarrow> even (length bracket))"
  using assms
proof (induction pairing_rule bracket prefix budget arbitrary: left rule: closePrefix.induct)
  case (1 pairing_rule bracket prefix budget)
  obtain r budget' where s: "searchMatching (haveMetLookup bracket) pairing_rule prefix budget = (r, budget')" by force
  consider "\<not> 2 \<le> prefix" | "2 \<le> prefix" "r = None" | ps where "2 \<le> prefix" "r = Some ps" by (cases r) auto
  then show ?case
  proof cases
    case 1
    then have "solved = []" "floated = bracket"
      using "1.prems"(3) by (simp_all add: closePrefix.simps [of pairing_rule bracket prefix])
    then show ?thesis by (simp add: covers_def)
  next
    case 2
    then show ?thesis
      using "1.IH" [OF 2(1) s [symmetric] 2(2), of left] "1.prems" s
      by (simp add: closePrefix.simps [of pairing_rule bracket prefix])
  next
    case 3
    then have "solved = ps" "floated = drop prefix bracket"
      using "1.prems"(3) s by (simp_all add: closePrefix.simps [of pairing_rule bracket prefix])
    then show ?thesis
      using search_result [OF s [unfolded 3(2)]] covers_prefix [of ps prefix bracket] "1.prems"(1,2) by auto
  qed
qed

text \<open>
  Closing keeps the parity of what floats; the last bracket closes completely if it is
  even; and a pair that has met comes only with the warning that no pairing was found.
\<close>

lemma closeBracket_result:
  assumes "closeBracket bracket pairing_rule isLast budget = (solved, floated, left, ws)"
    and "isLast \<Longrightarrow> even (length bracket)"
  shows "covers bracket solved floated \<and> (even (length floated) \<longleftrightarrow> even (length bracket)) \<and> (isLast \<longrightarrow> floated = []) \<and>
    ((\<forall>(x, y) \<in> set solved. \<not> haveMetLookup bracket x y) \<or>
     (\<exists>w \<in> set ws. warning_code w = NoPerfectMatching))"
proof (cases isLast)
  case False
  let ?n = "length bracket - length bracket mod 2"
  have "even ?n" by simp
  moreover obtain b where "closePrefix pairing_rule bracket ?n budget = (solved, floated, b)"
    using assms(1) False by (auto simp: closeBracket_def split: prod.splits)
  ultimately show ?thesis using closePrefix_result [of ?n bracket pairing_rule budget solved floated b] False by auto
next
  case True
  show ?thesis
  proof (cases "bracket = []")
    case True
    then show ?thesis using assms(1) \<open>isLast\<close> by (simp add: closeBracket_def covers_def)
  next
    case False
    obtain r b where s: "searchMatching (haveMetLookup bracket) pairing_rule (length bracket) budget = (r, b)" by force
    show ?thesis
    proof (cases r)
      case None
      then have "solved = idealPairs (length bracket) pairing_rule" "floated = []"
        "ws = [\<lparr>warning_code = NoPerfectMatching, registrationIds = map sp_id bracket\<rparr>]"
        using assms(1) True False s by (simp_all add: closeBracket_def)
      then show ?thesis
        using mset_idealPairs [OF assms(2) [OF True], of pairing_rule] covers_prefix [of solved "length bracket" bracket] assms(2) True
        by auto
    next
      case (Some ps)
      then have "solved = ps" "floated = []"
        using assms(1) True False s by (simp_all add: closeBracket_def)
      then show ?thesis
        using search_result [OF s [unfolded Some]] covers_prefix [of ps "length bracket" bracket] assms(2) True by auto
    qed
  qed
qed

subsection \<open>The loop over the groups\<close>

definition idsOf :: "swiss_pairing list \<Rightarrow> string list" where
  "idsOf ps = concat (map (\<lambda>p. [aId p, bId p]) ps)"

lemma idsOf_append [simp]: "idsOf (ps @ qs) = idsOf ps @ idsOf qs"
  by (simp add: idsOf_def)

lemma bracketPairings_fields:
  "map (aId \<circ> fst) (bracketPairings bracket start solved) = map (\<lambda>(x, y). sp_id (bracket ! x)) solved"
  "map (bId \<circ> fst) (bracketPairings bracket start solved) = map (\<lambda>(x, y). sp_id (bracket ! y)) solved"
  "map (rematch \<circ> fst) (bracketPairings bracket start solved) = map (\<lambda>(x, y). haveMetLookup bracket x y) solved"
  "map (board \<circ> fst) (bracketPairings bracket start solved) = [start + 1..<start + length solved + 1]"
  by (auto simp: bracketPairings_def toPairing_def split: prod.splits intro!: nth_equalityI simp del: upt_Suc)

lemma bracketPairings_mem:
  assumes "(p, w) \<in> set (bracketPairings bracket start solved)"
  shows "\<exists>x y. (x, y) \<in> set solved \<and> aId p = sp_id (bracket ! x) \<and> bId p = sp_id (bracket ! y) \<and>
    rematch p = haveMetLookup bracket x y \<and>
    w = (if rematch p then [\<lparr>warning_code = ForcedRematch, registrationIds = [aId p, bId p]\<rparr>] else [])"
proof -
  obtain i x y where "(i, x, y) \<in> set (zip [0..<length solved] solved)"
    and p: "(p, w) = toPairing (bracket ! x) (bracket ! y) (start + i) (haveMetLookup bracket x y)"
    using assms by (auto simp: bracketPairings_def)
  then have "(x, y) \<in> set solved" by (auto dest: set_zip_rightD)
  then show ?thesis using p by (intro exI [of _ x] exI [of _ y]) (simp add: toPairing_def)
qed

lemma idsOf_bracket: "idsOf (map fst (bracketPairings bracket start solved)) = map (\<lambda>i. sp_id (bracket ! i)) (unpair solved)"
proof -
  have "idsOf ps = concat (map2 (\<lambda>a b. [a, b]) (map aId ps) (map bId ps))" for ps
    by (simp add: idsOf_def zip_map_map zip_same_conv_map comp_def)
  moreover have "concat (map2 (\<lambda>a b. [a, b]) (map (\<lambda>(x, y). f x) ps) (map (\<lambda>(x, y). f y) ps)) = map f (unpair ps)"
    for f :: "nat \<Rightarrow> string" and ps by (induction ps) auto
  ultimately show ?thesis by (simp add: bracketPairings_fields)
qed

definition haveMet :: "swiss_player \<Rightarrow> swiss_player \<Rightarrow> bool" where
  "haveMet a b \<longleftrightarrow> sp_id b \<in> set (opponentIds a) \<or> sp_id a \<in> set (opponentIds b)"

text \<open>
  A pairing tells the truth about two fighters of the field: the better ranked one comes
  first, it is marked as a rematch exactly when they have met, and then both warnings are
  there.
\<close>

definition honest :: "swiss_player set \<Rightarrow> swiss_warning list \<Rightarrow> swiss_pairing \<Rightarrow> bool" where
  "honest field ws p \<longleftrightarrow>
     (\<exists>a \<in> field. \<exists>b \<in> field. aId p = sp_id a \<and> bId p = sp_id b \<and> rank a \<le> rank b \<and> (rematch p \<longleftrightarrow> haveMet a b)) \<and>
     (rematch p \<longrightarrow> \<lparr>warning_code = ForcedRematch, registrationIds = [aId p, bId p]\<rparr> \<in> set ws \<and>
        (\<exists>w \<in> set ws. warning_code w = NoPerfectMatching))"

lemma honest_mono: "honest f ws p \<Longrightarrow> f \<subseteq> f' \<Longrightarrow> set ws \<subseteq> set ws' \<Longrightarrow> honest f' ws' p"
  unfolding honest_def by blast

lemma bracket_honest:
  assumes "covers bracket solved floated" and "distinct (map sp_id bracket)" and "sorted_wrt (\<lambda>a b. rank a \<le> rank b) bracket"
    and "(\<forall>(x, y) \<in> set solved. \<not> haveMetLookup bracket x y) \<or> (\<exists>w \<in> set ws. warning_code w = NoPerfectMatching)"
    and new: "new = bracketPairings bracket start solved" and "p \<in> set (map fst new)"
  shows "honest (set bracket) (ws @ concat (map snd new)) p"
proof -
  obtain w where pw: "(p, w) \<in> set new" using assms(6) by force
  then obtain x y where xy: "(x, y) \<in> set solved" and p: "aId p = sp_id (bracket ! x)" "bId p = sp_id (bracket ! y)"
    "rematch p = haveMetLookup bracket x y"
    and w: "w = (if rematch p then [\<lparr>warning_code = ForcedRematch, registrationIds = [aId p, bId p]\<rparr>] else [])"
    using bracketPairings_mem new by blast
  have lt: "x < y" "y < length bracket" using assms(1) xy by (auto simp: covers_def)
  then have "rank (bracket ! x) \<le> rank (bracket ! y)" using assms(3) by (simp add: sorted_wrt_iff_nth_less)
  moreover have "rematch p \<longleftrightarrow> haveMet (bracket ! x) (bracket ! y)"
    using haveMet_iff [OF assms(2), of x y] lt p(3) by (simp add: haveMet_def)
  moreover have "rematch p \<longrightarrow> \<lparr>warning_code = ForcedRematch, registrationIds = [aId p, bId p]\<rparr> \<in> set (concat (map snd new))"
    using pw w by force
  moreover have "rematch p \<longrightarrow> (\<exists>w \<in> set ws. warning_code w = NoPerfectMatching)"
    using assms(4) xy p(3) by auto
  moreover have "bracket ! x \<in> set bracket" "bracket ! y \<in> set bracket" using lt by simp_all
  ultimately show ?thesis unfolding honest_def using p(1,2) by auto
qed

lemma distinct_subset_mset:
  assumes "distinct xs" and "mset ys \<subseteq># mset xs"
  shows "distinct ys"
  unfolding distinct_count_atmost_1
proof
  fix a
  have "count (mset ys) a \<le> count (mset xs) a" using assms(2) by (rule mset_subset_eq_count)
  also have "\<dots> \<le> 1" using assms(1) unfolding distinct_count_atmost_1 by simp
  finally show "count (mset ys) a = (if a \<in> set ys then 1 else 0)"
    by (cases "a \<in> set ys") (simp_all add: le_Suc_eq count_eq_zero_iff)
qed

lemma pairGroups_result:
  assumes "distinct (map sp_id (carried @ concat gs))" and "even (length (carried @ concat gs))"
    and "gs = [] \<Longrightarrow> carried = []"
  shows "\<exists>fresh ws. pairGroups pairing_rule gs carried budget done warned = (done @ fresh, warned @ ws) \<and>
    mset (idsOf fresh) = mset (map sp_id (carried @ concat gs)) \<and>
    map board fresh = [length done + 1..<length done + length fresh + 1] \<and>
    (\<forall>p \<in> set fresh. honest (set (carried @ concat gs)) ws p)"
  using assms
proof (induction gs arbitrary: carried budget "done" warned)
  case Nil
  then show ?case by (simp add: idsOf_def)
next
  case (Cons g gs)
  define bracket where "bracket = sortByRank (carried @ g)"
  obtain solved floated left ws where closed: "closeBracket bracket pairing_rule (gs = []) budget = (solved, floated, left, ws)"
    by (metis prod_cases4)
  define new where "new = bracketPairings bracket (length done) solved"
  have mset_b: "mset bracket = mset (carried @ g)" by (simp add: bracket_def)
  have "mset (map sp_id bracket) = mset (map sp_id (carried @ g))" using mset_b by (simp only: mset_map)
  then have distinct_b: "distinct (map sp_id bracket)"
    using Cons.prems(1) mset_eq_imp_distinct_iff [of "map sp_id bracket" "map sp_id (carried @ g)"] by auto
  have even_b: "even (length bracket)" if "gs = []" using Cons.prems(2) that by (simp add: bracket_def)
  note result = closeBracket_result [OF closed even_b]
  have cov: "covers bracket solved floated" and par: "even (length floated) \<longleftrightarrow> even (length bracket)"
    using result by blast+
  have split: "mset (map (\<lambda>i. sp_id (bracket ! i)) (unpair solved)) + mset (map sp_id floated) = mset (map sp_id (carried @ g))"
  proof -
    have "image_mset sp_id (mset (map (\<lambda>i. bracket ! i) (unpair solved)) + mset floated) = image_mset sp_id (mset (carried @ g))"
      using cov mset_b by (simp add: covers_def)
    then show ?thesis by (simp add: multiset.map_comp comp_def)
  qed
  have subset: "set floated \<subseteq> set (carried @ g)"
    using cov mset_b by (metis covers_def mset_subset_eq_add_right set_mset_mono set_mset_mset)
  have "mset (map sp_id (floated @ concat gs)) \<subseteq># mset (map sp_id (carried @ concat (g # gs)))"
    using split by (simp add: union_assoc [symmetric]) (metis add.commute mset_subset_eq_add_left)
  then have distinct_f: "distinct (map sp_id (floated @ concat gs))"
    using Cons.prems(1) by (rule distinct_subset_mset [rotated])
  have even_f: "even (length (floated @ concat gs))"
    using Cons.prems(2) par by (auto simp: bracket_def)
  have none: "floated = []" if "gs = []" using result that by blast
  obtain fresh wsf where IH:
    "pairGroups pairing_rule gs floated left (done @ map fst new) (warned @ ws @ concat (map snd new)) =
       ((done @ map fst new) @ fresh, (warned @ ws @ concat (map snd new)) @ wsf)"
    "mset (idsOf fresh) = mset (map sp_id (floated @ concat gs))"
    "map board fresh = [length (done @ map fst new) + 1..<length (done @ map fst new) + length fresh + 1]"
    "\<forall>p \<in> set fresh. honest (set (floated @ concat gs)) wsf p"
    using Cons.IH [OF distinct_f even_f none] by blast
  have sorted_b: "sorted_wrt (\<lambda>a b. rank a \<le> rank b) bracket" unfolding bracket_def by (rule sortByRank_ranks)
  let ?ws = "(ws @ concat (map snd new)) @ wsf"
  have "honest (set (carried @ concat (g # gs))) ?ws p" if "p \<in> set (map fst new @ fresh)" for p
  proof (cases "p \<in> set fresh")
    case True
    show ?thesis by (rule honest_mono [OF IH(4) [rule_format, OF True]]) (use subset in auto)
  next
    case False
    then have "p \<in> set (map fst new)" using that by simp
    moreover have "(\<forall>(x, y) \<in> set solved. \<not> haveMetLookup bracket x y) \<or> (\<exists>w \<in> set ws. warning_code w = NoPerfectMatching)"
      using result by blast
    ultimately have "honest (set bracket) (ws @ concat (map snd new)) p"
      using bracket_honest [OF cov distinct_b sorted_b _ new_def] by blast
    then show ?thesis by (rule honest_mono) (auto simp: bracket_def)
  qed
  moreover have "pairGroups pairing_rule (g # gs) carried budget done warned = (done @ map fst new @ fresh, warned @ ?ws)"
    using closed IH(1) by (simp add: Let_def flip: bracket_def new_def)
  moreover have "mset (idsOf (map fst new @ fresh)) = mset (map sp_id (carried @ concat (g # gs)))"
    using IH(2) split by (simp add: new_def idsOf_bracket union_assoc [symmetric])
  moreover have "map board (map fst new @ fresh) = [length done + 1..<length done + length (map fst new @ fresh) + 1]"
  proof -
    have len: "length new = length solved" by (simp add: new_def bracketPairings_def)
    have "map board (map fst new) = [length done + 1..<length done + length new + 1]"
      using bracketPairings_fields(4) [of bracket "length done" solved] by (simp only: new_def map_map len [unfolded new_def])
    then show ?thesis
      using IH(3) upt_add_eq_append [of "length done + 1" "length done + length new + 1" "length fresh"]
      by (simp add: add.assoc del: upt_Suc)
  qed
  ultimately show ?case by blast
qed

subsection \<open>The bye\<close>

lemma find_in_set: "find P xs = Some p \<Longrightarrow> p \<in> set xs \<and> P p"
  by (induction xs) (auto split: if_splits)

lemma takeBye_rest:
  assumes "distinct (map sp_id field)" and "takeBye field = (bye, others)"
  shows "mset field = mset others + (case bye of None \<Rightarrow> {#} | Some p \<Rightarrow> {#p#})" and "even (length others)"
    and "bye = None \<longleftrightarrow> even (length field)"
proof -
  have "mset field = mset others + (case bye of None \<Rightarrow> {#} | Some p \<Rightarrow> {#p#}) \<and> even (length others) \<and> (bye = None \<longleftrightarrow> even (length field))"
  proof (cases "even (length field)")
    case True
    then show ?thesis using assms(2) by (auto simp: takeBye_def)
  next
    case False
    obtain p where p: "bye = Some p" "others = filter (\<lambda>q. sp_id q \<noteq> sp_id p) field"
      "p = (case find (\<lambda>p. \<not> hadBye p) (rev field) of Some p \<Rightarrow> p | None \<Rightarrow> last field)"
      using assms(2) False by (simp add: takeBye_def Let_def)
    have "field \<noteq> []" using False by auto
    then have "p \<in> set field" using p(3) by (auto dest!: find_in_set split: option.splits)
    then obtain us vs where us: "field = us @ p # vs" by (meson split_list)
    have "sp_id p \<notin> sp_id ` set us" "sp_id p \<notin> sp_id ` set vs" using assms(1) unfolding us by auto
    then have "filter (\<lambda>q. sp_id q \<noteq> sp_id p) us = us" "filter (\<lambda>q. sp_id q \<noteq> sp_id p) vs = vs"
      by (auto intro!: filter_True simp: image_iff)
    then have "others = us @ vs" using p(2) us by simp
    then show ?thesis using p(1) us False by simp
  qed
  then show "mset field = mset others + (case bye of None \<Rightarrow> {#} | Some p \<Rightarrow> {#p#})" and "even (length others)"
    and "bye = None \<longleftrightarrow> even (length field)" by blast+
qed

lemma takeBye_choice:
  assumes "sorted_wrt (\<lambda>a b. rank a \<le> rank b) field" and "takeBye field = (Some p, others)"
  shows "p \<in> set field \<and> (\<forall>q \<in> set field. (hadBye p \<longrightarrow> hadBye q) \<and> (hadBye q = hadBye p \<longrightarrow> rank q \<le> rank p))"
proof -
  have odd: "odd (length field)" and p: "p = (case find (\<lambda>p. \<not> hadBye p) (rev field) of Some p \<Rightarrow> p | None \<Rightarrow> last field)"
    using assms(2) by (auto simp: takeBye_def Let_def split: if_splits)
  show ?thesis
  proof (cases "find (\<lambda>p. \<not> hadBye p) (rev field)")
    case None
    then have all: "\<forall>q \<in> set field. hadBye q" by (simp add: find_None_iff)
    obtain us where us: "field = us @ [p]" using None p odd by (cases field rule: rev_cases) auto
    show ?thesis using all assms(1) unfolding us by (auto simp: sorted_wrt_append)
  next
    case (Some r)
    then have r: "p = r" "\<not> hadBye r" using p find_in_set [OF Some] by simp_all
    obtain us vs where us: "field = us @ r # vs" and vs: "\<forall>q \<in> set vs. hadBye q"
    proof -
      obtain i where i: "i < length field" "r = rev field ! i" "\<forall>j<i. hadBye (rev field ! j)"
        using Some by (auto simp: find_Some_iff)
      then have "rev field = take i (rev field) @ r # drop (Suc i) (rev field)" by (simp add: id_take_nth_drop)
      then have "field = rev (drop (Suc i) (rev field)) @ r # rev (take i (rev field))"
        by (metis append.assoc append_Cons append_Nil rev.simps(2) rev_append rev_rev_ident)
      moreover have "\<forall>q \<in> set (rev (take i (rev field))). hadBye q" using i by (auto simp: in_set_conv_nth)
      ultimately show ?thesis using that by blast
    qed
    show ?thesis using r vs assms(1) unfolding us by (auto simp: sorted_wrt_append)
  qed
qed

subsection \<open>The plan of a round\<close>

lemma plan_parts:
  assumes "distinct (map sp_id players)"
  shows "\<exists>bye others. takeBye (sortByRank players) = (bye, others) \<and>
    byeRegistrationId (planSwissRound players pairing_rule grouping) = map_option sp_id bye \<and>
    mset (idsOf (pairings (planSwissRound players pairing_rule grouping))) = mset (map sp_id others) \<and>
    map board (pairings (planSwissRound players pairing_rule grouping)) =
      [1..<length (pairings (planSwissRound players pairing_rule grouping)) + 1] \<and>
    (\<forall>p \<in> set (pairings (planSwissRound players pairing_rule grouping)).
      honest (set players) (warnings (planSwissRound players pairing_rule grouping)) p)"
proof (cases "players = []")
  case True
  then show ?thesis by (simp add: planSwissRound_def takeBye_def idsOf_def)
next
  case False
  obtain bye others where bye: "takeBye (sortByRank players) = (bye, others)" by force
  define groups where "groups = (case grouping of ScoreBands boundaries \<Rightarrow> bandsOf others boundaries | ByPoints \<Rightarrow> groupByPoints others)"
  define early where "early = (case grouping of ScoreBands _ \<Rightarrow> singletonBands groups | ByPoints \<Rightarrow> [])"
  have mset_g: "mset (concat groups) = mset others"
    by (cases grouping) (simp_all add: groups_def mset_bandsOf mset_groupByPoints)
  have "mset (map sp_id (sortByRank players)) = mset (map sp_id players)" by (simp only: mset_map sortByRank_simps)
  then have field: "distinct (map sp_id (sortByRank players))"
    using assms mset_eq_imp_distinct_iff by blast
  note rest = takeBye_rest [OF field bye]
  have "mset (map sp_id (concat groups)) = mset (map sp_id others)" using mset_g by (simp only: mset_map)
  moreover have "mset others \<subseteq># mset (sortByRank players)" using rest(1) by simp
  then have "mset (map sp_id others) \<subseteq># mset (map sp_id (sortByRank players))"
    by (simp only: mset_map image_mset_subseteq_mono)
  ultimately have "distinct (map sp_id (concat groups))" using distinct_subset_mset [OF field] by simp
  moreover have "even (length (concat groups))" using mset_eq_length [OF mset_g] rest(2) by simp
  ultimately obtain fresh ws where run:
    "pairGroups pairing_rule groups [] SEARCH_BUDGET [] early = ([] @ fresh, early @ ws)"
    "mset (idsOf fresh) = mset (map sp_id ([] @ concat groups))"
    "map board fresh = [length ([] :: swiss_pairing list) + 1..<length ([] :: swiss_pairing list) + length fresh + 1]"
    "\<forall>p \<in> set fresh. honest (set ([] @ concat groups)) ws p"
    using pairGroups_result [of "[]" groups pairing_rule SEARCH_BUDGET "[]" early] by auto
  have plan: "planSwissRound players pairing_rule grouping =
      \<lparr>pairings = fresh, byeRegistrationId = map_option sp_id bye, warnings = early @ ws\<rparr>"
    using False bye run(1) unfolding planSwissRound_def Let_def
    by (cases grouping) (simp_all add: groups_def early_def)
  have "set (concat groups) \<subseteq> set players"
  proof -
    have "set others \<subseteq> set (sortByRank players)" using bye by (auto simp: takeBye_def Let_def split: if_splits)
    then show ?thesis using mset_eq_setD [OF mset_g] by simp
  qed
  then have "\<forall>p \<in> set fresh. honest (set players) (early @ ws) p"
    using run(4) by (auto elim!: honest_mono)
  then show ?thesis
    unfolding plan using bye run(2,3) mset_g by (simp del: upt_Suc)
qed

text \<open>
  C39. A Swiss round takes in everybody: of a field with distinct ids every fighter stands in
  exactly one pairing or has the bye, the bye is given exactly when the field is odd, and
  the boards are numbered from 1 without a gap, whatever the pairing method, the grouping, the
  scores and the history, and also when the search runs out of budget.
\<close>

theorem swiss_round_takes_in_everybody:
  assumes "distinct (map sp_id players)"
  shows "mset (idsOf (pairings (planSwissRound players pairing_rule grouping))) +
      (case byeRegistrationId (planSwissRound players pairing_rule grouping) of None \<Rightarrow> {#} | Some i \<Rightarrow> {#i#}) =
      mset (map sp_id players) \<and>
    (byeRegistrationId (planSwissRound players pairing_rule grouping) = None \<longleftrightarrow> even (length players)) \<and>
    map board (pairings (planSwissRound players pairing_rule grouping)) =
      [1..<length (pairings (planSwissRound players pairing_rule grouping)) + 1]"
proof -
  let ?plan = "planSwissRound players pairing_rule grouping"
  obtain bye others where bye: "takeBye (sortByRank players) = (bye, others)"
    and plan: "byeRegistrationId ?plan = map_option sp_id bye" "mset (idsOf (pairings ?plan)) = mset (map sp_id others)"
      "map board (pairings ?plan) = [1..<length (pairings ?plan) + 1]"
    using plan_parts [OF assms, of pairing_rule grouping] by blast
  have ids: "mset (map sp_id (sortByRank players)) = mset (map sp_id players)" by (simp only: mset_map sortByRank_simps)
  then have field: "distinct (map sp_id (sortByRank players))"
    using assms mset_eq_imp_distinct_iff by blast
  have "mset (map sp_id players) = image_mset sp_id (mset others + (case bye of None \<Rightarrow> {#} | Some p \<Rightarrow> {#p#}))"
    using takeBye_rest(1) [OF field bye] by (simp only: mset_map sortByRank_simps)
  moreover have "bye = None \<longleftrightarrow> even (length players)" using takeBye_rest(3) [OF field bye] by simp
  ultimately show ?thesis
    using plan(3) unfolding plan(1,2) by (cases bye) (simp_all del: upt_Suc)
qed

text \<open>
  C40. Rematches are forced and disclosed: in every pairing the better-ranked fighter comes
  first, the pairing is marked as a rematch exactly when the two have met before, and then
  the plan carries a warning that names the two and the warning that a group could not be
  paired otherwise.
\<close>

theorem rematches_are_disclosed:
  assumes "distinct (map sp_id players)"
  shows "\<forall>p \<in> set (pairings (planSwissRound players pairing_rule grouping)).
    honest (set players) (warnings (planSwissRound players pairing_rule grouping)) p"
  using plan_parts [OF assms, of pairing_rule grouping] by blast

text \<open>
  The bye goes to the lowest-ranked fighter who has had none, and to the lowest-ranked
  of all only when everybody has had one.
\<close>

lemma bye_goes_to_the_lowest_without_one:
  assumes "byeRegistrationId (planSwissRound players pairing_rule grouping) = Some i"
  shows "\<exists>p \<in> set players. sp_id p = i \<and>
    (\<forall>q \<in> set players. (hadBye p \<longrightarrow> hadBye q) \<and> (hadBye q = hadBye p \<longrightarrow> rank q \<le> rank p))"
proof -
  obtain bye others where bye: "takeBye (sortByRank players) = (bye, others)" by force
  then have "byeRegistrationId (planSwissRound players pairing_rule grouping) = map_option sp_id bye"
    by (cases "players = []") (simp_all add: planSwissRound_def takeBye_def Let_def sortByRank_def split: prod.split)
  then obtain p where "bye = Some p" "sp_id p = i" using assms by (cases bye) auto
  then show ?thesis using takeBye_choice [OF sortByRank_ranks, of players p others] bye by auto
qed

subsection \<open>Score bands and the number of rounds\<close>

definition cleared :: "rat list \<Rightarrow> swiss_player \<Rightarrow> rat set" where
  "cleared boundaries p = {e \<in> set boundaries. \<exists>s. score p = Some s \<and> e \<le> s}"

lemma takeWhile_sorted: "sorted_wrt (<) (es :: rat list) \<Longrightarrow> set (takeWhile (\<lambda>e. s \<ge> e) es) = {e \<in> set es. e \<le> s}"
  by (induction es) auto

lemma bandEdges_simps: "set (bandEdges boundaries) = set boundaries" "sorted_wrt (<) (bandEdges boundaries)"
proof -
  show "set (bandEdges boundaries) = set boundaries" by (simp add: bandEdges_def)
  have "sorted_wrt (\<le>) (bandEdges boundaries)"
    using ascending_edges.sorted_sort_by [of "remdups boundaries"] by (simp add: bandEdges_def)
  moreover have "distinct (bandEdges boundaries)" by (simp add: bandEdges_def)
  ultimately show "sorted_wrt (<) (bandEdges boundaries)" by (simp add: strict_sorted_iff)
qed

lemma cleared_band: "cleared boundaries p = set (take (bandIndex (bandEdges boundaries) p) (bandEdges boundaries))"
proof (cases "score p")
  case (Some s)
  then show ?thesis
    using takeWhile_sorted [OF bandEdges_simps(2), of s boundaries] bandEdges_simps(1) [of boundaries]
    by (simp add: cleared_def bandIndex_def flip: takeWhile_eq_take)
qed (simp add: cleared_def bandIndex_def)

lemma band_members:
  assumes "i < length (bandsOf players boundaries)" and "p \<in> set (bandsOf players boundaries ! i)"
  shows "p \<in> set players \<and> bandIndex (bandEdges boundaries) p = length (bandEdges boundaries) - i"
  using assms by (auto simp: bandsOf_def Let_def rev_map rev_nth simp del: upt_Suc)

text \<open>
  The score bands partition the players and follow the edges, however the edges were
  entered: there is one band more than there are different edges, two players of one band
  have cleared the same edges, and a player of a higher band has cleared all the edges a
  player of a lower band has, and more.
\<close>

lemma bands_follow_the_edges:
  "mset (concat (bandsOf players boundaries)) = mset players \<and>
   length (bandsOf players boundaries) = card (set boundaries) + 1 \<and>
   (\<forall>i < length (bandsOf players boundaries). \<forall>j \<le> i.
     \<forall>b \<in> set (bandsOf players boundaries ! i). \<forall>a \<in> set (bandsOf players boundaries ! j).
       if i = j then cleared boundaries a = cleared boundaries b else cleared boundaries b \<subset> cleared boundaries a)"
proof (intro conjI allI impI ballI)
  let ?E = "bandEdges boundaries"
  have distinct_E: "distinct ?E" using bandEdges_simps(2) by (simp add: strict_sorted_iff)
  show "mset (concat (bandsOf players boundaries)) = mset players" by (rule mset_bandsOf)
  have len: "length (bandsOf players boundaries) = length ?E + 1" by (simp add: bandsOf_def Let_def)
  then show "length (bandsOf players boundaries) = card (set boundaries) + 1"
    using distinct_card [OF distinct_E] by (simp add: bandEdges_simps(1))
  fix i j a b
  assume i: "i < length (bandsOf players boundaries)" and j: "j \<le> i"
    and b: "b \<in> set (bandsOf players boundaries ! i)" and a: "a \<in> set (bandsOf players boundaries ! j)"
  have B: "cleared boundaries b = set (take (length ?E - i) ?E)" using band_members [OF i b] by (simp add: cleared_band)
  have A: "cleared boundaries a = set (take (length ?E - j) ?E)" using band_members [OF _ a] i j by (simp add: cleared_band)
  show "if i = j then cleared boundaries a = cleared boundaries b else cleared boundaries b \<subset> cleared boundaries a"
  proof (cases "i = j")
    case False
    then have "length ?E - i < length ?E - j" using i j len by linarith
    moreover have "card (set (take k ?E)) = min (length ?E) k" for k
      using distinct_card [of "take k ?E"] distinct_E by simp
    moreover have "set (take (length ?E - i) ?E) \<subseteq> set (take (length ?E - j) ?E)"
      using calculation(1) by (simp add: set_take_subset_set_take)
    ultimately have "set (take (length ?E - i) ?E) \<subset> set (take (length ?E - j) ?E)" by (auto dest: arg_cong [of _ _ card])
    then show ?thesis using False by (simp add: A B)
  qed (simp add: A B)
qed

lemma countRounds_spec: "2 ^ countRounds n r \<ge> n \<and> (\<forall>k. r \<le> k \<and> k < countRounds n r \<longrightarrow> 2 ^ k < n) \<and> r \<le> countRounds n r"
proof (induction n r rule: countRounds.induct)
  case (1 n r)
  show ?case
  proof (cases "2 ^ r < n")
    case True
    have "2 ^ k < n" if "r \<le> k" "k < countRounds n (Suc r)" for k
      using that True 1 [OF True] by (cases "k = r") auto
    then show ?thesis using 1 [OF True] True by (simp add: countRounds.simps [of n r])
  qed (simp add: countRounds.simps [of n r])
qed

text \<open>
  The recommended number of rounds is the least number that separates the field by
  halving, \<open>ceil (log2 n)\<close>, clamped to 3 to 9; the doubling loop ends for every field.
\<close>

lemma recommended_rounds_separate:
  "(recommendedRoundCount n < 9 \<longrightarrow> n \<le> 2 ^ recommendedRoundCount n) \<and>
   (3 < recommendedRoundCount n \<longrightarrow> 2 ^ (recommendedRoundCount n - 1) < n) \<and>
   3 \<le> recommendedRoundCount n \<and> recommendedRoundCount n \<le> 9"
proof (intro conjI impI)
  note spec = countRounds_spec [of n 0]
  show "3 \<le> recommendedRoundCount n" and "recommendedRoundCount n \<le> 9" by (simp_all add: recommendedRoundCount_def)
  assume "recommendedRoundCount n < 9"
  then have "countRounds n 0 \<le> recommendedRoundCount n" by (auto simp: recommendedRoundCount_def)
  then have "(2 :: nat) ^ countRounds n 0 \<le> 2 ^ recommendedRoundCount n" by simp
  then show "n \<le> 2 ^ recommendedRoundCount n" using spec by linarith
next
  note spec = countRounds_spec [of n 0]
  assume "3 < recommendedRoundCount n"
  then have "recommendedRoundCount n - 1 < countRounds n 0" by (auto simp: recommendedRoundCount_def)
  then show "2 ^ (recommendedRoundCount n - 1) < n" using spec by blast
qed

subsection \<open>A round of three\<close>

definition player :: "string \<Rightarrow> rat \<Rightarrow> string list \<Rightarrow> bool \<Rightarrow> int \<Rightarrow> swiss_player" where
  "player i pts opps b r =
     \<lparr>sp_id = i, points = pts, score = Some pts, opponentIds = opps, hadBye = b, rank = r\<rparr>"

definition three_players :: "swiss_player list" where
  "three_players = [player ''a'' 3 [''b''] False 1, player ''b'' 1 [''a''] True 3, player ''c'' 2 [] False 2]"

lemma three_distinct: "distinct (map sp_id three_players)"
  by (simp add: three_players_def player_def)

lemma round_of_three:
  "planSwissRound three_players Fold ByPoints =
     \<lparr>pairings = [\<lparr>board = 1, aId = ''a'', bId = ''b'', rematch = True\<rparr>], byeRegistrationId = Some ''c'',
      warnings = [\<lparr>warning_code = NoPerfectMatching, registrationIds = [''a'', ''b'']\<rparr>,
        \<lparr>warning_code = ForcedRematch, registrationIds = [''a'', ''b'']\<rparr>]\<rparr>"
  by code_simp

theorem swiss_round_takes_in_everybody_witness:
  "mset (idsOf (pairings (planSwissRound three_players Fold ByPoints))) + {#''c''#} = mset (map sp_id three_players)"
  using swiss_round_takes_in_everybody [OF three_distinct, of Fold ByPoints] by (simp add: round_of_three)

theorem rematches_are_disclosed_witness:
  "honest (set three_players) (warnings (planSwissRound three_players Fold ByPoints))
     \<lparr>board = 1, aId = ''a'', bId = ''b'', rematch = True\<rparr>"
  using rematches_are_disclosed [OF three_distinct, of Fold ByPoints] by (simp add: round_of_three)

lemma recommended_rounds_separate_witness: "recommendedRoundCount 20 = 5 \<and> (20 :: nat) \<le> 2 ^ (5 :: nat) \<and> 2 ^ (4 :: nat) < (20 :: nat)"
proof -
  have "recommendedRoundCount 20 = 5" by (simp add: recommendedRoundCount_def countRounds.simps)
  then show ?thesis using recommended_rounds_separate [of 20] by simp
qed

end
