(* ===== verification/Standings.thy ===== *)
theory Standings
  imports Prelude
begin

section \<open>Standings: the order of a table and the reason for it\<close>

text \<open>
  \<open>packages/rules/src/results/standings.ts\<close> with \<open>by-codepoint.ts\<close>, and the ranking
  vocabulary of \<open>ranking.ts\<close>. A stat is its number, as \<open>Number(...)\<close> reads it; a text that
  is no number (\<open>NaN\<close> in the code) is not modelled. Numbers are rationals.
\<close>

datatype ranking_direction = Asc | Desc

record ranking_rule =
  rule_key :: string
  direction :: ranking_direction

record deciding_tiebreak =
  dt_key :: string
  dt_direction :: ranking_direction
  mine :: rat
  theirs :: rat

record standings_club =
  club_id :: string
  club_name :: string
  club_abbreviation :: "string option"

datatype standings_status = InProgress | Completed

record standings_row =
  row_rank :: nat
  row_registrationId :: string
  displayName :: string
  club :: "standings_club option"
  row_status :: standings_status
  stats :: "(string \<times> rat) list"
  decidingTiebreak :: "deciding_tiebreak option"

text \<open>The terminal key: strings by their code units, no locale.\<close>

definition byCodepoint :: "string \<Rightarrow> string \<Rightarrow> rat" where
  "byCodepoint a b = (if a < b then -1 else if b < a then 1 else 0)"

text \<open>\<open>Number(row.stats[key] ?? 0)\<close>.\<close>

definition statOf :: "standings_row \<Rightarrow> string \<Rightarrow> rat" where
  "statOf row k = or_else (map_of (stats row) k) 0"

text \<open>The loop over the chain in the comparator.\<close>

fun compareChain :: "ranking_rule list \<Rightarrow> standings_row \<Rightarrow> standings_row \<Rightarrow> rat" where
  "compareChain [] a b = 0"
| "compareChain (r # rules) a b =
     (let av = statOf a (rule_key r); bv = statOf b (rule_key r) in
      if av \<noteq> bv then (if direction r = Desc then bv - av else av - bv)
      else compareChain rules a b)"

definition compareRows :: "ranking_rule list \<Rightarrow> standings_row \<Rightarrow> standings_row \<Rightarrow> rat" where
  "compareRows rules =
     then_by (compareChain rules)
       (then_by (\<lambda>a b. byCodepoint (displayName a) (displayName b))
                (\<lambda>a b. byCodepoint (row_registrationId a) (row_registrationId b)))"

fun decidingTiebreakBetween ::
    "standings_row \<Rightarrow> standings_row \<Rightarrow> ranking_rule list \<Rightarrow> deciding_tiebreak option" where
  "decidingTiebreakBetween abv me [] = None"
| "decidingTiebreakBetween abv me (r # rules) =
     (let th = statOf abv (rule_key r); mi = statOf me (rule_key r) in
      if mi \<noteq> th then Some \<lparr>dt_key = rule_key r, dt_direction = direction r, mine = mi, theirs = th\<rparr>
      else decidingTiebreakBetween abv me rules)"

definition applyRanking :: "standings_row list \<Rightarrow> ranking_rule list \<Rightarrow> standings_row list" where
  "applyRanking rows rules =
     (let sorted = sort_by (compareRows rules) rows
      in map (\<lambda>i. (sorted ! i)\<lparr>row_rank := i + 1,
                  decidingTiebreak := (if i = 0 then None
                                       else decidingTiebreakBetween (sorted ! (i - 1)) (sorted ! i) rules)\<rparr>)
           [0..<length sorted])"

subsection \<open>The comparator is a total preorder\<close>

interpretation codepoint: strict_comparator byCodepoint
  by unfold_locales (auto simp: byCodepoint_def split: if_splits)

lemma codepoint_on: "comparator (\<lambda>a b. byCodepoint (f a) (f b))"
  by unfold_locales (rule codepoint.flip, rule codepoint.trans)

lemma chain_comparator: "comparator (compareChain rules)"
proof (induction rules)
  case Nil
  show ?case by unfold_locales simp_all
next
  case (Cons r rules)
  have "comparator (\<lambda>a b. if direction r = Desc then statOf b (rule_key r) - statOf a (rule_key r)
      else statOf a (rule_key r) - statOf b (rule_key r))"
    by unfold_locales auto
  from then_by_comparator [OF this Cons.IH] show ?case
    by (rule back_subst [of comparator]) (auto simp: then_by_def Let_def fun_eq_iff)
qed

interpretation rows: comparator "compareRows rules" for rules
  unfolding compareRows_def by (intro then_by_comparator chain_comparator codepoint_on)

lemma compareRows_level: "compareRows rules a b = 0 \<Longrightarrow> row_registrationId a = row_registrationId b"
  by (auto simp: compareRows_def then_by_def dest: codepoint.level_eq split: if_splits)

subsection \<open>The table does not depend on the order of reading\<close>

lemma length_applyRanking [simp]: "length (applyRanking rows rules) = length rows"
  by (simp add: applyRanking_def Let_def)

lemma nth_applyRanking:
  assumes "i < length rows"
  shows "applyRanking rows rules ! i = (sort_by (compareRows rules) rows ! i)\<lparr>row_rank := i + 1,
    decidingTiebreak := (if i = 0 then None
      else decidingTiebreakBetween (sort_by (compareRows rules) rows ! (i - 1)) (sort_by (compareRows rules) rows ! i) rules)\<rparr>"
  using assms by (simp add: applyRanking_def Let_def)

lemma stats_applyRanking:
  "map row_registrationId (applyRanking rows rules) = map row_registrationId (sort_by (compareRows rules) rows)"
  "map stats (applyRanking rows rules) = map stats (sort_by (compareRows rules) rows)"
  by (auto simp: nth_applyRanking intro!: nth_equalityI)

text \<open>
  The standings are a function of the set of rows: with distinct registrations two
  readings of the same rows, in whatever order the database returns them, give the same
  table, in which every registration stands once and the ranks run from 1 without a gap or
  a tie.
\<close>

lemma standings_are_deterministic:
  assumes "mset rows = mset rows'" and "distinct (map row_registrationId rows)"
  shows "applyRanking rows rules = applyRanking rows' rules \<and>
    mset (map row_registrationId (applyRanking rows rules)) = mset (map row_registrationId rows) \<and>
    map row_rank (applyRanking rows rules) = [1..<length rows + 1]"
proof (intro conjI)
  have "sort_by (compareRows rules) rows = sort_by (compareRows rules) rows'"
  proof (rule rows.sort_by_mset_on [OF assms(1)])
    fix a b assume "a \<in> set rows" "b \<in> set rows" "compareRows rules a b = 0"
    then show "a = b" using assms(2) compareRows_level [of rules a b] by (auto simp: distinct_map dest: inj_onD)
  qed
  then show "applyRanking rows rules = applyRanking rows' rules" by (simp add: applyRanking_def)
  show "mset (map row_registrationId (applyRanking rows rules)) = mset (map row_registrationId rows)"
    unfolding stats_applyRanking by (simp only: mset_map mset_sort_by)
  show "map row_rank (applyRanking rows rules) = [1..<length rows + 1]"
    by (rule nth_equalityI) (auto simp: nth_applyRanking simp del: upt_Suc)
qed

subsection \<open>The deciding tiebreak\<close>

lemma deciding_none: "decidingTiebreakBetween a b rules = None \<longleftrightarrow> list_all (\<lambda>r. statOf a (rule_key r) = statOf b (rule_key r)) rules"
  by (induction rules) (auto simp: Let_def)

text \<open>
  The tiebreak names the first rule of the chain on which the two differ, with both values,
  and the row above has the better value.
\<close>

lemma deciding_some:
  assumes "decidingTiebreakBetween a b rules = Some t" and "compareChain rules a b \<le> 0"
  shows "\<exists>before r after. rules = before @ r # after \<and>
    list_all (\<lambda>q. statOf a (rule_key q) = statOf b (rule_key q)) before \<and>
    dt_key t = rule_key r \<and> dt_direction t = direction r \<and> theirs t = statOf a (rule_key r) \<and> mine t = statOf b (rule_key r) \<and>
    (if direction r = Desc then mine t < theirs t else theirs t < mine t)"
  using assms
proof (induction rules)
  case (Cons r rules)
  show ?case
  proof (cases "statOf a (rule_key r) = statOf b (rule_key r)")
    case True
    then obtain before q after where "rules = before @ q # after"
      "list_all (\<lambda>q. statOf a (rule_key q) = statOf b (rule_key q)) before"
      "dt_key t = rule_key q" "dt_direction t = direction q" "theirs t = statOf a (rule_key q)" "mine t = statOf b (rule_key q)"
      "if direction q = Desc then mine t < theirs t else theirs t < mine t"
      using Cons by (auto simp: Let_def)
    then show ?thesis using True by (intro exI [of _ "r # before"] exI [of _ q] exI [of _ after]) simp
  next
    case False
    then show ?thesis
      using Cons.prems by (intro exI [of _ "[]"] exI [of _ r] exI [of _ rules]) (auto simp: Let_def split: if_splits)
  qed
qed simp

lemma compareRows_chain: "compareRows rules a b \<le> 0 \<Longrightarrow> compareChain rules a b \<le> 0"
  by (auto simp: compareRows_def then_by_def split: if_splits)

text \<open>
  The table gives the true reason for every place: the leader has no tiebreak; a row
  without one is level with the row above on every key of the chain; and a tiebreak names
  the first key of the chain on which the two rows differ, with their values of it, of which
  the row above has the better one in the direction of the key.
\<close>

lemma deciding_tiebreak_is_the_reason:
  assumes "i + 1 < length rows" and "table = applyRanking rows rules"
  shows "decidingTiebreak (table ! 0) = None \<and>
    (case decidingTiebreak (table ! (i + 1)) of
       None \<Rightarrow> list_all (\<lambda>r. statOf (table ! i) (rule_key r) = statOf (table ! (i + 1)) (rule_key r)) rules
     | Some t \<Rightarrow> (\<exists>before r after. rules = before @ r # after \<and>
         list_all (\<lambda>q. statOf (table ! i) (rule_key q) = statOf (table ! (i + 1)) (rule_key q)) before \<and>
         dt_key t = rule_key r \<and> dt_direction t = direction r \<and>
         theirs t = statOf (table ! i) (rule_key r) \<and> mine t = statOf (table ! (i + 1)) (rule_key r) \<and>
         (if direction r = Desc then mine t < theirs t else theirs t < mine t)))"
proof -
  let ?s = "sort_by (compareRows rules) rows"
  have stat: "statOf (table ! k) q = statOf (?s ! k) q" if "k < length rows" for k q
    using that by (simp add: assms(2) nth_applyRanking statOf_def)
  have "compareRows rules (?s ! i) (?s ! (i + 1)) \<le> 0"
    using rows.sorted_sort_by [of rules rows] assms(1) by (simp add: sorted_wrt_iff_nth_less)
  then have le: "compareChain rules (?s ! i) (?s ! (i + 1)) \<le> 0" by (rule compareRows_chain)
  have first: "decidingTiebreak (table ! 0) = None" using assms by (subst assms(2), subst nth_applyRanking) auto
  have dt: "decidingTiebreak (table ! (i + 1)) = decidingTiebreakBetween (?s ! i) (?s ! (i + 1)) rules"
    using assms(1) by (simp add: assms(2) nth_applyRanking)
  show ?thesis
  proof (cases "decidingTiebreak (table ! (i + 1))")
    case None
    then show ?thesis using first deciding_none [of "?s ! i" "?s ! (i + 1)" rules] dt stat assms(1) by simp
  next
    case (Some t)
    then show ?thesis
      using first deciding_some [OF Some [unfolded dt] le] stat assms(1) by simp
  qed
qed

end
