(* ===== verification/R1_Seeding.thy ===== *)
theory R1_Seeding
  imports Local_Search Standings
begin

section \<open>Seeding the first round of a bracket\<close>

text \<open>
  \<open>packages/rules/src/results/r1-ranking.ts\<close> (the rankings a draw is made from) and
  \<open>bracket-r1-seeding.ts\<close> (placing a ranking on the slots, the drift of a drawn bracket,
  the snake across pools). Ratings are rationals; the shuffle uses the 32-bit generator of
  the local search.
\<close>

record seedable_registration =
  sr_id :: string
  sr_seed :: "int option"
  bibNumber :: "int option"
  hemaRatingsId :: "string option"

record ranked_registration =
  rr_rank :: int
  rr_registrationId :: string

record bracket_r1_slot =
  slot_id :: string
  seedA :: "int option"
  seedB :: "int option"

record slot_seed_update =
  slotId :: string
  registrationAId :: "string option"
  registrationBId :: "string option"

subsection \<open>Rankings\<close>

definition rankBySeed :: "seedable_registration list \<Rightarrow> ranked_registration list" where
  "rankBySeed regs =
     map (\<lambda>(idx, reg). \<lparr>rr_rank = (case sr_seed reg of Some s \<Rightarrow> s
                                 | None \<Rightarrow> or_else (bibNumber reg) (int idx + 1)),
                      rr_registrationId = sr_id reg\<rparr>)
         (zip [0..<length regs] regs)"

text \<open>\<open>reg.hemaRatingsId ? ... : null\<close>: an empty id counts as none.\<close>

definition ratingOf :: "(string \<Rightarrow> rat option) \<Rightarrow> seedable_registration \<Rightarrow> rat option" where
  "ratingOf ratings reg =
     (case hemaRatingsId reg of None \<Rightarrow> None | Some h \<Rightarrow> if h = [] then None else ratings h)"

text \<open>Two nullable values, the missing one last: by rating descending, by seed ascending.\<close>

definition ratingOrder :: "rat option \<Rightarrow> rat option \<Rightarrow> rat" where
  "ratingOrder ra rb =
     (if ra \<noteq> rb then (case ra of None \<Rightarrow> 1 | Some x \<Rightarrow> (case rb of None \<Rightarrow> -1 | Some y \<Rightarrow> y - x)) else 0)"

definition seedOrder :: "int option \<Rightarrow> int option \<Rightarrow> rat" where
  "seedOrder sa sb =
     (if sa \<noteq> sb then (case sa of None \<Rightarrow> 1 | Some x \<Rightarrow> (case sb of None \<Rightarrow> -1 | Some y \<Rightarrow> of_int (x - y))) else 0)"

definition seedOrBib :: "seedable_registration \<Rightarrow> int option" where
  "seedOrBib reg = (case sr_seed reg of Some s \<Rightarrow> Some s | None \<Rightarrow> bibNumber reg)"

definition compareByRating ::
    "(string \<Rightarrow> rat option) \<Rightarrow> seedable_registration \<Rightarrow> seedable_registration \<Rightarrow> rat" where
  "compareByRating ratings =
     then_by (\<lambda>a b. ratingOrder (ratingOf ratings a) (ratingOf ratings b))
       (then_by (\<lambda>a b. seedOrder (seedOrBib a) (seedOrBib b)) (\<lambda>a b. byCodepoint (sr_id a) (sr_id b)))"

definition numbered :: "seedable_registration list \<Rightarrow> ranked_registration list" where
  "numbered regs =
     map (\<lambda>(idx, reg). \<lparr>rr_rank = int idx + 1, rr_registrationId = sr_id reg\<rparr>) (zip [0..<length regs] regs)"

definition rankByRating ::
    "seedable_registration list \<Rightarrow> (string \<Rightarrow> rat option) \<Rightarrow> ranked_registration list" where
  "rankByRating regs ratings = numbered (sort_by (compareByRating ratings) regs)"

text \<open>The shuffle: for \<open>i\<close> from the last index down to 1, exchange \<open>i\<close> and a drawn \<open>j \<le> i\<close>.\<close>

fun shuffle_from :: "nat \<Rightarrow> 32 word \<Rightarrow> 'a list \<Rightarrow> 'a list" where
  "shuffle_from 0 sd pool = pool"
| "shuffle_from (Suc i) sd pool =
     (let (j, sd') = draw_index sd (Suc i + 1)
      in shuffle_from i sd' (pool[Suc i := pool ! j, j := pool ! Suc i]))"

definition rankRandom :: "seedable_registration list \<Rightarrow> int \<Rightarrow> ranked_registration list" where
  "rankRandom regs prngSeed =
     (let pool = sort_by (\<lambda>a b. byCodepoint (sr_id a) (sr_id b)) regs
      in numbered (shuffle_from (length pool - 1) (word_of_int prngSeed) pool))"

subsection \<open>Placing a ranking on the slots\<close>

text \<open>\<open>/^seed (\d+)$/\<close>.\<close>

definition parseSeed :: "string option \<Rightarrow> int option" where
  "parseSeed r =
     (case r of
        None \<Rightarrow> None
      | Some s \<Rightarrow> if take 5 s = ''seed '' then map_option int (read_nat (drop 5 s)) else None)"

definition byRank :: "ranked_registration list \<Rightarrow> int \<Rightarrow> string option" where
  "byRank rankings k = map_of (rev (map (\<lambda>r. (rr_rank r, rr_registrationId r)) rankings)) k"

definition buildR1SeedingPlan ::
    "ranked_registration list \<Rightarrow> bracket_r1_slot list \<Rightarrow> slot_seed_update list" where
  "buildR1SeedingPlan rankings slots =
     map (\<lambda>s. \<lparr>slotId = slot_id s,
              registrationAId = (case seedA s of None \<Rightarrow> None | Some k \<Rightarrow> byRank rankings k),
              registrationBId = (case seedB s of None \<Rightarrow> None | Some k \<Rightarrow> byRank rankings k)\<rparr>) slots"

text \<open>A slot as it stands in the bracket, with the fighters it holds.\<close>

record held_slot = bracket_r1_slot +
  heldA :: "string option"
  heldB :: "string option"

definition heldById :: "held_slot list \<Rightarrow> string \<Rightarrow> held_slot option" where
  "heldById slots i = map_of (rev (map (\<lambda>s. (slot_id s, s)) slots)) i"

definition drifted :: "slot_seed_update \<Rightarrow> held_slot \<Rightarrow> bool" where
  "drifted u s \<longleftrightarrow>
     seedA s \<noteq> None \<and> heldA s \<noteq> registrationAId u \<or> seedB s \<noteq> None \<and> heldB s \<noteq> registrationBId u"

definition diffR1SeedingPlan :: "slot_seed_update list \<Rightarrow> held_slot list \<Rightarrow> string list" where
  "diffR1SeedingPlan plan slots =
     map slotId (filter (\<lambda>u. case heldById slots (slotId u) of None \<Rightarrow> False | Some s \<Rightarrow> drifted u s) plan)"

datatype seeding_source = PoolSource | SwissSource | StaticSource

definition seedingSourceKind :: "string \<Rightarrow> bool \<Rightarrow> seeding_source" where
  "seedingSourceKind strategy poolStandingsAvailable =
     (if strategy = ''by-swiss-rank'' then SwissSource
      else if strategy = ''by-rating'' \<or> strategy = ''random'' then StaticSource
      else if poolStandingsAvailable then PoolSource else StaticSource)"

subsection \<open>The snake across pools\<close>

record pool_ranking =
  pr_poolId :: string
  pr_rows :: "(int \<times> string) list"

text \<open>The rows a place takes from the pools, in the order of the pools it reads.\<close>

definition place_rows :: "pool_ranking list \<Rightarrow> nat \<Rightarrow> string list" where
  "place_rows pools n =
     (let order = (if odd n then pools else rev pools)
      in List.map_filter (\<lambda>pool. map_option snd (find (\<lambda>row. fst row = int n) (pr_rows pool))) order)"

fun number_places :: "int \<Rightarrow> string list \<Rightarrow> ranked_registration list" where
  "number_places nextRank [] = []"
| "number_places nextRank (i # ids) =
     \<lparr>rr_rank = nextRank, rr_registrationId = i\<rparr> # number_places (nextRank + 1) ids"

definition buildCrossPoolSnakeRanking :: "pool_ranking list \<Rightarrow> nat \<Rightarrow> ranked_registration list" where
  "buildCrossPoolSnakeRanking pools topN = number_places 1 (concat (map (place_rows pools) [1..<topN + 1]))"

subsection \<open>Draws can be replayed\<close>

lemma rating_order: "comparator (\<lambda>a b. ratingOrder (f a) (f b))"
  by unfold_locales (auto simp: ratingOrder_def split: option.splits if_splits)

lemma seed_order: "comparator (\<lambda>a b. seedOrder (f a) (f b))"
  by unfold_locales (auto simp: seedOrder_def split: option.splits if_splits)

interpretation by_rating: comparator "compareByRating ratings" for ratings
  unfolding compareByRating_def by (intro then_by_comparator rating_order seed_order codepoint_on)

interpretation by_id: comparator "\<lambda>a b. byCodepoint (sr_id a) (sr_id b)"
  by (rule codepoint_on)

lemma compareByRating_level: "compareByRating ratings a b = 0 \<Longrightarrow> sr_id a = sr_id b"
  by (auto simp: compareByRating_def then_by_def dest: codepoint.level_eq split: if_splits)

lemma mset_shuffle_from: "i < length pool \<Longrightarrow> mset (shuffle_from i sd pool) = mset pool"
proof (induction i arbitrary: sd pool)
  case (Suc i)
  obtain j sd' where j: "draw_index sd (Suc i + 1) = (j, sd')" by force
  then have "j < Suc i + 1" using draw_index_less [of "Suc i + 1" sd] by simp
  then have "mset (pool[Suc i := pool ! j, j := pool ! Suc i]) = mset pool"
    using Suc.prems by (intro mset_swap) simp_all
  moreover have "mset (shuffle_from i sd' (pool[Suc i := pool ! j, j := pool ! Suc i])) = mset (pool[Suc i := pool ! j, j := pool ! Suc i])"
    using Suc by (intro Suc.IH) simp
  ultimately show ?case using j by simp
qed simp

lemma numbered_fields:
  "map rr_registrationId (numbered regs) = map sr_id regs"
  "map rr_rank (numbered regs) = map int [1..<length regs + 1]"
  by (auto simp: numbered_def intro!: nth_equalityI simp del: upt_Suc)

lemma mset_shuffle: "mset (shuffle_from (length pool - 1) sd pool) = mset pool"
  by (cases "pool = []") (simp_all add: mset_shuffle_from)

text \<open>
  A draw can be replayed: for registrations with distinct ids the random draw depends
  on its stored seed and the draw by rating on the ratings, and neither on the order the
  registrations were read in; both rank every registration once, from 1 without a gap.
\<close>

lemma draws_are_replayable:
  assumes "mset regs = mset regs'" and "distinct (map sr_id regs)"
  shows "rankRandom regs prngSeed = rankRandom regs' prngSeed \<and> rankByRating regs ratings = rankByRating regs' ratings \<and>
    mset (map rr_registrationId (rankRandom regs prngSeed)) = mset (map sr_id regs) \<and>
    map rr_rank (rankRandom regs prngSeed) = map int [1..<length regs + 1] \<and>
    mset (map rr_registrationId (rankByRating regs ratings)) = mset (map sr_id regs) \<and>
    map rr_rank (rankByRating regs ratings) = map int [1..<length regs + 1]"
proof (intro conjI)
  have inj: "a = b" if "a \<in> set regs" "b \<in> set regs" "sr_id a = sr_id b" for a b
    using assms(2) that by (auto simp: distinct_map dest: inj_onD)
  let ?by_id = "\<lambda>a b. byCodepoint (sr_id a) (sr_id b)"
  have "sort_by ?by_id regs = sort_by ?by_id regs'"
    by (rule by_id.sort_by_mset_on [OF assms(1)]) (auto intro: inj dest: codepoint.level_eq)
  then show "rankRandom regs prngSeed = rankRandom regs' prngSeed" by (simp add: rankRandom_def)
  have "sort_by (compareByRating ratings) regs = sort_by (compareByRating ratings) regs'"
    by (rule by_rating.sort_by_mset_on [OF assms(1)]) (auto intro: inj dest: compareByRating_level)
  then show "rankByRating regs ratings = rankByRating regs' ratings" by (simp add: rankByRating_def)
  let ?pool = "shuffle_from (length (sort_by ?by_id regs) - 1) (word_of_int prngSeed) (sort_by ?by_id regs)"
  have pool: "mset ?pool = mset regs" by (simp only: mset_shuffle mset_sort_by)
  show "mset (map rr_registrationId (rankRandom regs prngSeed)) = mset (map sr_id regs)"
    unfolding rankRandom_def Let_def numbered_fields by (simp only: mset_map pool)
  show "map rr_rank (rankRandom regs prngSeed) = map int [1..<length regs + 1]"
    unfolding rankRandom_def Let_def numbered_fields mset_eq_length [OF pool] ..
  show "mset (map rr_registrationId (rankByRating regs ratings)) = mset (map sr_id regs)"
    unfolding rankByRating_def numbered_fields by (simp only: mset_map mset_sort_by)
  show "map rr_rank (rankByRating regs ratings) = map int [1..<length regs + 1]"
    by (simp only: rankByRating_def numbered_fields length_sort_by)
qed

subsection \<open>Placing a ranking\<close>

lemma parse_seed_name [simp]: "parseSeed (Some (''seed '' @ show_nat s)) = Some (int s)"
  by (simp add: parseSeed_def)

lemma parse_other [simp]:
  "parseSeed (Some (''winner of '' @ t)) = None" "parseSeed (Some (''loser of '' @ t)) = None" "parseSeed (Some ''bye'') = None"
  by (simp_all add: parseSeed_def)

definition option_list :: "'a option \<Rightarrow> 'a list" where
  "option_list x = (case x of None \<Rightarrow> [] | Some v \<Rightarrow> [v])"

definition slot_seeds :: "bracket_r1_slot \<Rightarrow> int list" where
  "slot_seeds s = option_list (seedA s) @ option_list (seedB s)"

definition placed :: "slot_seed_update \<Rightarrow> string list" where
  "placed u = option_list (registrationAId u) @ option_list (registrationBId u)"

lemma byRank_numbered:
  assumes "map rr_rank rankings = map int [1..<length rankings + 1]" and "i < length rankings"
  shows "byRank rankings (int i + 1) = Some (rr_registrationId (rankings ! i))"
proof -
  let ?kv = "map (\<lambda>r. (rr_rank r, rr_registrationId r)) rankings"
  have "distinct (map rr_rank rankings)" unfolding assms(1) by (simp add: distinct_map)
  then have "distinct (map fst (rev ?kv))" by (simp add: rev_map [symmetric] comp_def)
  moreover have "rr_rank (rankings ! i) = int i + 1"
    using arg_cong [OF assms(1), of "\<lambda>xs. xs ! i"] assms(2) by (simp del: upt_Suc)
  then have "(int i + 1, rr_registrationId (rankings ! i)) \<in> set (rev ?kv)"
    using assms(2) by (force simp: in_set_conv_nth)
  ultimately show ?thesis by (simp add: byRank_def)
qed

lemma byRank_outside:
  assumes "map rr_rank rankings = map int [1..<length rankings + 1]" and "int (length rankings) < k"
  shows "byRank rankings k = None"
proof -
  have "k \<notin> set (map rr_rank rankings)" unfolding assms(1) using assms(2) by auto
  then show ?thesis by (auto simp: byRank_def map_of_eq_None_iff)
qed

lemma placed_plan:
  "concat (map placed (buildR1SeedingPlan rankings slots)) =
   List.map_filter (byRank rankings) (concat (map slot_seeds slots))"
  by (induction slots)
    (auto simp: buildR1SeedingPlan_def placed_def slot_seeds_def option_list_def map_filter_simps split: option.splits)

lemma mset_map_filter: "mset xs = mset ys \<Longrightarrow> mset (List.map_filter f xs) = mset (List.map_filter f ys)"
  by (simp add: List.map_filter_def mset_filter)

lemma map_filter_ranks:
  assumes "map rr_rank rankings = map int [1..<length rankings + 1]" and "length rankings \<le> m"
  shows "List.map_filter (byRank rankings) (map int [1..<m + 1]) = map rr_registrationId rankings"
proof -
  have split: "[1..<m + 1] = [1..<length rankings + 1] @ [length rankings + 1..<m + 1]"
    using upt_add_eq_append [of 1 "length rankings + 1" "m - length rankings"] assms(2) by (simp del: upt_Suc)
  have shift: "[1..<length rankings + 1] = map Suc [0..<length rankings]" by (simp add: map_Suc_upt)
  have "List.map_filter (byRank rankings) (map int [1..<length rankings + 1]) =
      map (\<lambda>i. rr_registrationId (rankings ! i)) [0..<length rankings]"
  proof -
    have "List.map_filter (byRank rankings) (map int (map Suc is)) = map (\<lambda>i. rr_registrationId (rankings ! i)) is"
      if "\<forall>i \<in> set is. i < length rankings" for "is"
      using that by (induction "is")
        (auto simp: map_filter_simps byRank_numbered [OF assms(1)] add.commute [of 1])
    then show ?thesis unfolding shift by simp
  qed
  moreover have "List.map_filter (byRank rankings) (map int [length rankings + 1..<m + 1]) = []"
    by (auto simp: List.map_filter_def filter_empty_conv byRank_outside [OF assms(1)])
  moreover have "map (\<lambda>i. rr_registrationId (rankings ! i)) [0..<length rankings] = map rr_registrationId rankings"
    by (rule nth_equalityI) simp_all
  ultimately show ?thesis unfolding split map_append by (simp add: List.map_filter_def del: upt_Suc)
qed

text \<open>
  Placing a full ranking on slots whose seeds are 1 to at least its length places every
  ranked fighter once; the seeds beyond the ranking stay empty.
\<close>

lemma plan_places_everybody:
  assumes "map rr_rank rankings = map int [1..<length rankings + 1]" and "length rankings \<le> m"
    and "mset (concat (map slot_seeds slots)) = mset (map int [1..<m + 1])"
  shows "mset (concat (map placed (buildR1SeedingPlan rankings slots))) = mset (map rr_registrationId rankings)"
  unfolding placed_plan mset_map_filter [OF assms(3)] map_filter_ranks [OF assms(1,2)] ..

subsection \<open>Drift\<close>

definition r1_slot_of :: "held_slot \<Rightarrow> bracket_r1_slot" where
  "r1_slot_of s = \<lparr>slot_id = slot_id s, seedA = seedA s, seedB = seedB s\<rparr>"

text \<open>Whether a slot holds on its seeded sides the fighters the ranking puts there.\<close>

definition holds_ranking :: "ranked_registration list \<Rightarrow> held_slot \<Rightarrow> bool" where
  "holds_ranking rankings s \<longleftrightarrow>
     (\<forall>k. seedA s = Some k \<longrightarrow> heldA s = byRank rankings k) \<and> (\<forall>k. seedB s = Some k \<longrightarrow> heldB s = byRank rankings k)"

text \<open>
  The drift report is exact: compared with the plan of the current ranking it lists, in
  the order of the slots, those slots that hold another fighter than the ranking puts there
  on a seeded side, and no others; what advancement wrote on an unseeded side never counts,
  and a bracket filled from the plan reports nothing.
\<close>

lemma drift_report_is_exact:
  assumes "distinct (map slot_id slots)"
  shows "diffR1SeedingPlan (buildR1SeedingPlan rankings (map r1_slot_of slots)) slots =
    map slot_id (filter (\<lambda>s. \<not> holds_ranking rankings s) slots)"
proof -
  have "heldById slots (slot_id s) = Some s" if "s \<in> set slots" for s
  proof -
    have "distinct (map fst (rev (map (\<lambda>s. (slot_id s, s)) slots)))"
      using assms by (simp add: rev_map [symmetric] comp_def)
    then show ?thesis using that by (simp add: heldById_def image_iff)
  qed
  moreover have "drifted \<lparr>slotId = slot_id s, registrationAId = (case seedA s of None \<Rightarrow> None | Some k \<Rightarrow> byRank rankings k),
      registrationBId = (case seedB s of None \<Rightarrow> None | Some k \<Rightarrow> byRank rankings k)\<rparr> s \<longleftrightarrow> \<not> holds_ranking rankings s" for s
    by (auto simp: drifted_def holds_ranking_def split: option.splits)
  ultimately have "diffR1SeedingPlan (buildR1SeedingPlan rankings (map r1_slot_of xs)) slots =
      map slot_id (filter (\<lambda>s. \<not> holds_ranking rankings s) xs)" if "set xs \<subseteq> set slots" for xs
    using that by (induction xs) (auto simp: diffR1SeedingPlan_def buildR1SeedingPlan_def r1_slot_of_def)
  then show ?thesis by simp
qed

subsection \<open>Three registrations\<close>

end
