(* ===== verification/Swiss_Tiebreaks.thy ===== *)
theory Swiss_Tiebreaks
  imports Standings
begin

section \<open>The tiebreaks of a Swiss phase\<close>

text \<open>
  \<open>packages/rules/src/results/swiss-tiebreaks.ts\<close>, with the keys of \<open>ranking.ts\<close> as the
  strings they are. A \<open>Map\<close> is its lookup function, filled in the order of the records;
  points are rationals.
\<close>

datatype swiss_outcome = Win | Draw | Loss

record swiss_bout =
  opponentId :: string
  outcome :: swiss_outcome

record swiss_result_record =
  sr_registrationId :: string
  swissPts :: rat
  bouts :: "swiss_bout list"

record opponent_tiebreaks =
  buchholz :: rat
  buchholzCut1 :: rat
  sonnebornBerger :: rat
  opponentWinPct :: rat

text \<open>\<open>Math.round(value * 100) / 100\<close>: halves round up.\<close>

definition round2 :: "rat \<Rightarrow> rat" where
  "round2 v = of_int \<lfloor>v * 100 + 1 / 2\<rfloor> / 100"

definition pointsOf :: "swiss_result_record list \<Rightarrow> string \<Rightarrow> rat" where
  "pointsOf records i = or_else (map_of (rev (map (\<lambda>r. (sr_registrationId r, swissPts r)) records)) i) 0"

definition boutsOf :: "swiss_result_record list \<Rightarrow> string \<Rightarrow> swiss_bout list" where
  "boutsOf records i = or_else (map_of (rev (map (\<lambda>r. (sr_registrationId r, bouts r)) records)) i) []"

definition minimum :: "rat list \<Rightarrow> rat" where
  "minimum xs = fold min (tl xs) (hd xs)"

text \<open>What one bout adds to the Sonneborn-Berger sum.\<close>

definition weighted :: "swiss_outcome \<Rightarrow> rat \<Rightarrow> rat" where
  "weighted o' p = (case o' of Win \<Rightarrow> p | Draw \<Rightarrow> p / 2 | Loss \<Rightarrow> 0)"

definition winsIn :: "swiss_bout list \<Rightarrow> nat" where
  "winsIn bs = length (filter (\<lambda>b. outcome b = Win) bs)"

definition tiebreaksOf :: "swiss_result_record list \<Rightarrow> swiss_result_record \<Rightarrow> opponent_tiebreaks" where
  "tiebreaksOf records record' =
     (let opponentPoints = map (\<lambda>b. pointsOf records (opponentId b)) (bouts record');
          bh = sum_list opponentPoints;
          cut = (if opponentPoints = [] then 0 else bh - minimum opponentPoints);
          sb = sum_list (map (\<lambda>b. weighted (outcome b) (pointsOf records (opponentId b))) (bouts record'));
          opponentWins = sum_list (map (\<lambda>b. winsIn (boutsOf records (opponentId b))) (bouts record'));
          opponentBouts = sum_list (map (\<lambda>b. length (boutsOf records (opponentId b))) (bouts record'))
      in \<lparr>buchholz = bh, buchholzCut1 = cut, sonnebornBerger = round2 sb,
          opponentWinPct = round2 (if opponentBouts = 0 then 0 else of_nat opponentWins / of_nat opponentBouts)\<rparr>)"

definition opponentTiebreaks :: "swiss_result_record list \<Rightarrow> string \<Rightarrow> opponent_tiebreaks option" where
  "opponentTiebreaks records i =
     map_of (rev (map (\<lambda>r. (sr_registrationId r, tiebreaksOf records r)) records)) i"

subsection \<open>Head to head\<close>

definition boutValue :: "swiss_outcome \<Rightarrow> int" where
  "boutValue o' = (case o' of Win \<Rightarrow> 1 | Draw \<Rightarrow> 0 | Loss \<Rightarrow> -1)"

definition netWithin :: "string list \<Rightarrow> swiss_result_record \<Rightarrow> int" where
  "netWithin block r =
     sum_list (map (\<lambda>b. boutValue (outcome b)) (filter (\<lambda>b. List.member block (opponentId b)) (bouts r)))"

definition headToHeadWithin :: "string list \<Rightarrow> swiss_result_record list \<Rightarrow> string \<Rightarrow> int option" where
  "headToHeadWithin block records i =
     map_of (rev (map (\<lambda>r. (sr_registrationId r, netWithin block r))
       (filter (\<lambda>r. List.member block (sr_registrationId r)) records))) i"

subsection \<open>The ranking chain\<close>

datatype swiss_rank_by = SwissPts | RulesetScore

definition directionFor :: "string \<Rightarrow> ranking_direction" where
  "directionFor k = (if k = ''hitsReceived'' \<or> k = ''doubles'' then Asc else Desc)"

text \<open>The splicing loop, the filter with its set of keys seen, and the last resort.\<close>

fun spliced :: "string list \<Rightarrow> ranking_rule list \<Rightarrow> ranking_rule list" where
  "spliced [] rulesetChain = []"
| "spliced (k # ks) rulesetChain =
     (if k = ''rulesetChain'' then rulesetChain @ spliced ks rulesetChain
      else \<lparr>rule_key = k, direction = directionFor k\<rparr> # spliced ks rulesetChain)"

fun dropRepeats :: "string list \<Rightarrow> ranking_rule list \<Rightarrow> ranking_rule list" where
  "dropRepeats seen [] = []"
| "dropRepeats seen (r # rules) =
     (if List.member seen (rule_key r) then dropRepeats seen rules
      else r # dropRepeats (rule_key r # seen) rules)"

definition buildSwissRankingChain ::
    "swiss_rank_by \<Rightarrow> string list \<Rightarrow> ranking_rule list \<Rightarrow> ranking_rule list" where
  "buildSwissRankingChain rankBy tiebreakChain rulesetChain =
     (let primary = \<lparr>rule_key = (if rankBy = RulesetScore then ''score'' else ''swissPts''), direction = Desc\<rparr>;
          deduped = dropRepeats [rule_key primary] (spliced tiebreakChain rulesetChain);
          fallback = (if rankBy = RulesetScore then ''swissPts'' else ''score'')
      in primary # deduped
         @ (if List.member (rule_key primary # map rule_key deduped) fallback then []
            else [\<lparr>rule_key = fallback, direction = Desc\<rparr>]))"

subsection \<open>The chain\<close>

lemma dropRepeats_keys:
  "distinct (map rule_key (dropRepeats seen rules))"
  "set (map rule_key (dropRepeats seen rules)) = set (map rule_key rules) - set seen"
  by (induction seen rules rule: dropRepeats.induct) (auto simp: )

text \<open>The first occurrence of a key survives, with its direction.\<close>

lemma dropRepeats_first:
  assumes "k \<notin> set seen"
  shows "find (\<lambda>r. rule_key r = k) (dropRepeats seen rules) = find (\<lambda>r. rule_key r = k) rules"
  using assms by (induction seen rules rule: dropRepeats.induct) (auto simp: )

text \<open>
  The Swiss chain is well formed: its first key is the primary one, no key stands in it
  twice, it holds both the Swiss points and the score, every tiebreak the organiser chose
  and every key of the ruleset's chain where that is spliced in, and of a key chosen twice
  the first rule is the one that ranks.
\<close>

lemma swiss_chain_is_well_formed:
  "rule_key (hd (buildSwissRankingChain rankBy chain rulesetChain)) = (if rankBy = RulesetScore then ''score'' else ''swissPts'') \<and>
   distinct (map rule_key (buildSwissRankingChain rankBy chain rulesetChain)) \<and>
   set (map rule_key (buildSwissRankingChain rankBy chain rulesetChain)) =
     {''score'', ''swissPts''} \<union> set (map rule_key (spliced chain rulesetChain)) \<and>
   find (\<lambda>r. rule_key r = k) (tl (buildSwissRankingChain rankBy chain rulesetChain)) =
     (if k = rule_key (hd (buildSwissRankingChain rankBy chain rulesetChain)) then None
      else find (\<lambda>r. rule_key r = k)
        (spliced chain rulesetChain @ [\<lparr>rule_key = (if rankBy = RulesetScore then ''swissPts'' else ''score''), direction = Desc\<rparr>]))"
proof -
  let ?p = "if rankBy = RulesetScore then ''score'' else ''swissPts''"
  let ?f = "if rankBy = RulesetScore then ''swissPts'' else ''score''"
  let ?d = "dropRepeats [?p] (spliced chain rulesetChain)"
  have chain: "buildSwissRankingChain rankBy chain rulesetChain = \<lparr>rule_key = ?p, direction = Desc\<rparr> # ?d @
      (if ?f \<in> set (?p # map rule_key ?d) then [] else [\<lparr>rule_key = ?f, direction = Desc\<rparr>])"
    by (simp add: buildSwissRankingChain_def Let_def )
  note keys = dropRepeats_keys [of "[?p]" "spliced chain rulesetChain"]
  have none: "find (\<lambda>r. rule_key r = q) rs = None \<longleftrightarrow> q \<notin> set (map rule_key rs)" for q rs
    by (auto simp: find_None_iff)
  have app: "find P (xs @ ys) = (case find P xs of None \<Rightarrow> find P ys | Some x \<Rightarrow> Some x)" for P and xs ys :: "ranking_rule list"
    by (induction xs) auto
  have tl: "find (\<lambda>r. rule_key r = k) (?d @ (if ?f \<in> set (?p # map rule_key ?d) then [] else [\<lparr>rule_key = ?f, direction = Desc\<rparr>])) =
     (if k = ?p then None else find (\<lambda>r. rule_key r = k) (spliced chain rulesetChain @ [\<lparr>rule_key = ?f, direction = Desc\<rparr>]))"
  proof (cases "k = ?p")
    case True
    have "?f \<noteq> ?p" by simp
    moreover have "find (\<lambda>r. rule_key r = k) ?d = None" using keys(2) True unfolding none by simp
    ultimately show ?thesis using True by (simp add: app)
  next
    case False
    then have d: "find (\<lambda>r. rule_key r = k) ?d = find (\<lambda>r. rule_key r = k) (spliced chain rulesetChain)"
      by (intro dropRepeats_first) simp
    show ?thesis
    proof (cases "find (\<lambda>r. rule_key r = k) ?d")
      case None
      then have "k \<notin> set (map rule_key ?d)" by (rule none [THEN iffD1])
      then have "?f = k \<Longrightarrow> ?f \<notin> set (?p # map rule_key ?d)" using False by simp
      then show ?thesis using None False d by (simp only: app) auto
    next
      case (Some r)
      then show ?thesis using False d by (simp add: app)
    qed
  qed
  have distinct: "distinct (map rule_key (buildSwissRankingChain rankBy chain rulesetChain))"
    unfolding chain using keys by simp
  have all: "set (map rule_key (buildSwissRankingChain rankBy chain rulesetChain)) =
     {''score'', ''swissPts''} \<union> set (map rule_key (spliced chain rulesetChain))"
    unfolding chain using keys(2) by (cases rankBy) auto
  show ?thesis using tl distinct all unfolding chain by simp
qed

subsection \<open>Head to head cancels out\<close>

text \<open>
  The bouts are consistent: a record is there once, and a bout between two members of the
  block stands in both records with the opposite outcome.
\<close>

definition opposite :: "swiss_outcome \<Rightarrow> swiss_outcome" where
  "opposite o' = (case o' of Win \<Rightarrow> Loss | Draw \<Rightarrow> Draw | Loss \<Rightarrow> Win)"

lemma boutValue_opposite [simp]: "boutValue (opposite o') = - boutValue o'"
  by (cases o') (simp_all add: opposite_def boutValue_def)

definition boutList :: "swiss_result_record list \<Rightarrow> (string \<times> string \<times> swiss_outcome) list" where
  "boutList records = concat (map (\<lambda>r. map (\<lambda>b. (sr_registrationId r, opponentId b, outcome b)) (bouts r)) records)"

definition mirrored :: "swiss_result_record list \<Rightarrow> bool" where
  "mirrored records \<longleftrightarrow>
     mset (map (\<lambda>(a, b, o'). (b, a, opposite o')) (boutList records)) = mset (boutList records)"

definition inBlock :: "string list \<Rightarrow> string \<times> string \<times> swiss_outcome \<Rightarrow> bool" where
  "inBlock block p \<longleftrightarrow> fst p \<in> set block \<and> fst (snd p) \<in> set block"

definition netOf :: "string list \<Rightarrow> (string \<times> string \<times> swiss_outcome) list \<Rightarrow> int" where
  "netOf block L = sum_list (map (\<lambda>p. boutValue (snd (snd p))) (filter (inBlock block) L))"

lemma netOf_append [simp]: "netOf block (xs @ ys) = netOf block xs + netOf block ys"
  by (simp add: netOf_def)

lemma netOf_record:
  "netOf block (map (\<lambda>b. (i, opponentId b, outcome b)) bs) =
   (if i \<in> set block then sum_list (map (\<lambda>b. boutValue (outcome b)) (filter (\<lambda>b. opponentId b \<in> set block) bs)) else 0)"
  by (induction bs) (auto simp: netOf_def inBlock_def)

lemma netOf_flipped: "netOf block (map (\<lambda>(a, b, o'). (b, a, opposite o')) L) = - netOf block L"
  by (induction L) (auto simp: netOf_def inBlock_def)

lemma netOf_cong: "mset xs = mset ys \<Longrightarrow> netOf block xs = netOf block ys"
  unfolding netOf_def by (simp flip: sum_mset_sum_list)

lemma netWithin_sum:
  "sum_list (map (netWithin block) (filter (\<lambda>r. sr_registrationId r \<in> set block) records)) =
   netOf block (boutList records)"
proof (induction records)
  case (Cons r records)
  have "boutList (r # records) = map (\<lambda>b. (sr_registrationId r, opponentId b, outcome b)) (bouts r) @ boutList records"
    by (simp add: boutList_def)
  then show ?case using Cons by (simp add: netOf_record netWithin_def)
qed (simp add: boutList_def netOf_def)

text \<open>
  Head to head is a zero-sum measure: inside a tied block the nets of its members add up
  to zero, because every bout between two of them counts once for one and once against the
  other, whatever bouts they had outside the block.
\<close>

lemma head_to_head_cancels:
  assumes "mirrored records"
  shows "sum_list (map (netWithin block) (filter (\<lambda>r. List.member block (sr_registrationId r)) records)) = 0"
  using netOf_cong [OF assms [unfolded mirrored_def], of block]
  by (simp add: netWithin_sum netOf_flipped)

end
