(* ===== verification/Bracket_Advance.thy ===== *)
theory Bracket_Advance
  imports Domain Double_Elim R1_Seeding
begin

section \<open>The advance of a bracket\<close>

text \<open>
  The bracket part of \<open>apps/api/src/modules/phases\<close>: the references of \<open>bracket-refs.ts\<close>,
  the advance of \<open>bracket-advance.service.ts\<close>, the rows of bouts of \<open>bracket-match-sync.ts\<close>,
  \<open>bracket-downstream.ts\<close>, and the seeding of \<open>populateBracket\<close>. The tables of one phase are
  lists of rows. A write of the database succeeds and touches the rows its filter names; the
  id it gives a new bout is the parameter \<open>new_id\<close>. Ids are not empty.
\<close>

record phase_config =
  autoAdvance :: "bool option"
  cfg_grandFinalReset :: "bool option"
  cfg_wbRounds :: "nat option"
  cfg_lbRounds :: "nat option"
  cfg_bracketSize :: "nat option"
  cfg_fighterCount :: "nat option"
  cfg_secondChanceTarget :: "second_chance_target option"
  cfg_bronzeMatch :: "bool option"
  cfg_repechageEntrySize :: "nat option"
  cfg_repechageEntryRound :: "nat option"

record slot_row =
  row_id :: string
  row_round :: nat
  row_position :: nat
  a_ref :: string
  b_ref :: string
  b_type :: source_type
  reg_a :: "string option"
  reg_b :: "string option"

record bout_row =
  bout_id :: string
  bout_slot :: "string option"
  bout_red :: "string option"
  bout_blue :: "string option"
  bout_winner :: "string option"
  bout_status :: match_status
  bout_startedAt :: "timestamp option"

record bracket_db =
  ph_type :: string
  ph_config :: phase_config
  ph_slots :: "slot_row list"
  ph_bouts :: "bout_row list"

subsection \<open>References\<close>

definition buildSelfRef :: "nat \<Rightarrow> nat \<Rightarrow> string \<Rightarrow> phase_config \<Rightarrow> string" where
  "buildSelfRef rnd pos phaseType config =
     (if phaseType = ''single_elim'' then ''R'' @ show_nat rnd @ ''P'' @ show_nat pos
      else (let wb = or_else (cfg_wbRounds config) 0; lb = or_else (cfg_lbRounds config) 0 in
        if rnd \<le> wb then ''WBR'' @ show_nat rnd @ ''P'' @ show_nat pos
        else if rnd \<le> wb + lb then ''LBR'' @ show_nat (rnd - wb) @ ''P'' @ show_nat pos
        else if rnd = wb + lb + 1 then ''GF''
        else ''GFRESET''))"

definition resolveLoser :: "string \<Rightarrow> string option \<Rightarrow> string option \<Rightarrow> string option" where
  "resolveLoser winner red blue =
     (if red = Some winner then blue else if blue = Some winner then red else None)"

definition isGrandFinalWithReset :: "string \<Rightarrow> phase_config \<Rightarrow> nat \<Rightarrow> bool" where
  "isGrandFinalWithReset phaseType config rnd \<longleftrightarrow>
     phaseType = ''double_elim'' \<and> cfg_grandFinalReset config = Some True \<and>
     rnd = or_else (cfg_wbRounds config) 0 + or_else (cfg_lbRounds config) 0 + 1"

definition grandFinalEndsBracket :: "string \<Rightarrow> phase_config \<Rightarrow> slot_row \<Rightarrow> string option \<Rightarrow> bool" where
  "grandFinalEndsBracket phaseType config s winner \<longleftrightarrow>
     isGrandFinalWithReset phaseType config (row_round s) \<and> winner \<noteq> None \<and> winner = reg_a s"

definition selfRef :: "bracket_db \<Rightarrow> slot_row \<Rightarrow> string" where
  "selfRef db s = buildSelfRef (row_round s) (row_position s) (ph_type db) (ph_config db)"

definition winnerRef :: "string \<Rightarrow> string" where
  "winnerRef self = ''winner of '' @ self"

definition loserRef :: "string \<Rightarrow> string" where
  "loserRef self = ''loser of '' @ self"

text \<open>The filter of the query for the slots a match feeds.\<close>

definition fed_by :: "string \<Rightarrow> slot_row \<Rightarrow> bool" where
  "fed_by self s \<longleftrightarrow>
     a_ref s = winnerRef self \<or> b_ref s = winnerRef self \<or> a_ref s = loserRef self \<or> b_ref s = loserRef self"

subsection \<open>The row of a slot's bout\<close>

definition hasBeenFought :: "match_status \<Rightarrow> timestamp option \<Rightarrow> bool" where
  "hasBeenFought status startedAt \<longleftrightarrow> startedAt \<noteq> None \<or> status \<in> {MRunning, MPaused, MCompleted}"

definition loadSlotMatch :: "bout_row list \<Rightarrow> string \<Rightarrow> bout_row option" where
  "loadSlotMatch bs sid = find (\<lambda>m. bout_slot m = Some sid \<and> bout_status m \<noteq> MVoided) bs"

datatype on_started = Skip | Throw

datatype slot_error = AlreadyStarted string | SlotNotFound string | R1AlreadyStarted "string list"

text \<open>Only \<open>bracket_slot_id\<close>, the pairing, the status and the start of a bout matter here.\<close>

definition insertMatchForSlot :: "(bout_row list \<Rightarrow> string) \<Rightarrow> slot_row \<Rightarrow> bout_row list \<Rightarrow> bout_row list" where
  "insertMatchForSlot new_id s bs =
     bs @ [\<lparr>bout_id = new_id bs, bout_slot = Some (row_id s), bout_red = reg_a s, bout_blue = reg_b s,
            bout_winner = None, bout_status = Scheduled, bout_startedAt = None\<rparr>]"

definition syncMatchToSlot ::
    "(bout_row list \<Rightarrow> string) \<Rightarrow> on_started \<Rightarrow> slot_row \<Rightarrow> bout_row list \<Rightarrow> slot_error + bout_row list" where
  "syncMatchToSlot new_id onStarted s bs =
     (if b_type s = ByeSource then Inr bs
      else case loadSlotMatch bs (row_id s) of
        Some m \<Rightarrow>
          if hasBeenFought (bout_status m) (bout_startedAt m)
          then (if onStarted = Throw then Inl (AlreadyStarted (bout_id m)) else Inr bs)
          else Inr (map (\<lambda>m'. if bout_id m' = bout_id m
                             then m'\<lparr>bout_red := reg_a s, bout_blue := reg_b s\<rparr> else m') bs)
      | None \<Rightarrow>
          if reg_a s = None \<or> reg_b s = None then Inr bs
          else Inr (insertMatchForSlot new_id s bs))"

definition assertSlotMatchRewritable :: "bout_row list \<Rightarrow> string \<Rightarrow> slot_error + unit" where
  "assertSlotMatchRewritable bs sid =
     (case loadSlotMatch bs sid of
        Some m \<Rightarrow> if hasBeenFought (bout_status m) (bout_startedAt m) then Inl (AlreadyStarted (bout_id m)) else Inr ()
      | None \<Rightarrow> Inr ())"

subsection \<open>Feeding the slots downstream\<close>

definition advance_side :: "string \<Rightarrow> string \<Rightarrow> string option \<Rightarrow> string \<Rightarrow> string option \<Rightarrow> string option" where
  "advance_side self winner loser r cur =
     (if r = winnerRef self \<and> cur = None then Some winner
      else if r = loserRef self \<and> loser \<noteq> None \<and> cur = None then loser
      else cur)"

definition advance_row :: "string \<Rightarrow> string \<Rightarrow> string option \<Rightarrow> slot_row \<Rightarrow> slot_row" where
  "advance_row self winner loser s =
     s\<lparr>reg_a := advance_side self winner loser (a_ref s) (reg_a s),
       reg_b := advance_side self winner loser (b_ref s) (reg_b s)\<rparr>"

text \<open>With \<open>Skip\<close> the sync never refuses.\<close>

definition sync_skipping :: "(bout_row list \<Rightarrow> string) \<Rightarrow> slot_row \<Rightarrow> bout_row list \<Rightarrow> bout_row list" where
  "sync_skipping new_id s bs = (case syncMatchToSlot new_id Skip s bs of Inl _ \<Rightarrow> bs | Inr bs' \<Rightarrow> bs')"

definition advanceFromSlot ::
    "(bout_row list \<Rightarrow> string) \<Rightarrow> string \<Rightarrow> string \<Rightarrow> string option \<Rightarrow> bracket_db \<Rightarrow> bracket_db" where
  "advanceFromSlot new_id self winner loser db =
     (let downstream = map (advance_row self winner loser) (filter (fed_by self) (ph_slots db))
      in db\<lparr>ph_slots := map (\<lambda>s. if fed_by self s then advance_row self winner loser s else s) (ph_slots db),
            ph_bouts := fold (sync_skipping new_id) downstream (ph_bouts db)\<rparr>)"

subsection \<open>Taking a result back\<close>

definition loadMatch :: "bracket_db \<Rightarrow> string \<Rightarrow> bout_row option" where
  "loadMatch db mid = find (\<lambda>m. bout_id m = mid) (ph_bouts db)"

definition loadSlot :: "bracket_db \<Rightarrow> string \<Rightarrow> slot_row option" where
  "loadSlot db sid = find (\<lambda>s. row_id s = sid) (ph_slots db)"

text \<open>The slot of a bout; none for a bout of a pool or a bout that does not exist.\<close>

definition slotOfMatch :: "bracket_db \<Rightarrow> string \<Rightarrow> slot_row option" where
  "slotOfMatch db mid =
     (case loadMatch db mid of None \<Rightarrow> None
      | Some m \<Rightarrow> (case bout_slot m of None \<Rightarrow> None | Some sid \<Rightarrow> loadSlot db sid))"

definition downstreamSlots :: "bracket_db \<Rightarrow> string \<Rightarrow> (string \<times> slot_row list) option" where
  "downstreamSlots db mid =
     (case slotOfMatch db mid of None \<Rightarrow> None
      | Some s \<Rightarrow> Some (selfRef db s, filter (fed_by (selfRef db s)) (ph_slots db)))"

definition findDownstreamMatchIds :: "bracket_db \<Rightarrow> string \<Rightarrow> string list" where
  "findDownstreamMatchIds db mid =
     (case downstreamSlots db mid of None \<Rightarrow> []
      | Some (self, ss) \<Rightarrow>
          map bout_id (filter (\<lambda>m. case bout_slot m of None \<Rightarrow> False | Some sid \<Rightarrow> sid \<in> set (map row_id ss)) (ph_bouts db)))"

definition clear_row :: "string \<Rightarrow> slot_row \<Rightarrow> slot_row" where
  "clear_row self s =
     s\<lparr>reg_a := (if a_ref s = winnerRef self \<or> a_ref s = loserRef self then None else reg_a s),
       reg_b := (if b_ref s = winnerRef self \<or> b_ref s = loserRef self then None else reg_b s)\<rparr>"

definition clearFedSides :: "string \<Rightarrow> slot_row list \<Rightarrow> bracket_db \<Rightarrow> bracket_db" where
  "clearFedSides self ss db =
     db\<lparr>ph_slots := map (\<lambda>s. if row_id s \<in> set (map row_id ss) then clear_row self s else s) (ph_slots db)\<rparr>"

definition clearDownstreamOf :: "bracket_db \<Rightarrow> string \<Rightarrow> bracket_db" where
  "clearDownstreamOf db mid =
     (case downstreamSlots db mid of None \<Rightarrow> db | Some (self, ss) \<Rightarrow> clearFedSides self ss db)"

text \<open>The rows \<open>deleteUnplayedSlotMatch\<close> drops, one slot after the other.\<close>

definition unplayed_of :: "string \<Rightarrow> bout_row \<Rightarrow> bool" where
  "unplayed_of sid m \<longleftrightarrow> bout_slot m = Some sid \<and> bout_status m = Scheduled \<and> bout_startedAt m = None"

definition deleteUnplayedSlotMatch :: "string \<Rightarrow> bout_row list \<Rightarrow> bout_row list" where
  "deleteUnplayedSlotMatch sid bs = filter (\<lambda>m. bout_id m \<notin> set (map bout_id (filter (unplayed_of sid) bs))) bs"

definition retractGrandFinalReset :: "bracket_db \<Rightarrow> string \<Rightarrow> bracket_db" where
  "retractGrandFinalReset db mid =
     (case downstreamSlots db mid of None \<Rightarrow> db
      | Some (self, ss) \<Rightarrow>
          (let db' = clearFedSides self ss db
           in db'\<lparr>ph_bouts := fold deleteUnplayedSlotMatch (map row_id ss) (ph_bouts db')\<rparr>))"

subsection \<open>The service\<close>

text \<open>What a finished bout hands on, once its slot is known.\<close>

definition advanceMatch :: "(bout_row list \<Rightarrow> string) \<Rightarrow> bracket_db \<Rightarrow> bout_row \<Rightarrow> string \<Rightarrow> slot_row \<Rightarrow> bracket_db" where
  "advanceMatch new_id db m winner s =
     (if autoAdvance (ph_config db) = Some False then db
      else if grandFinalEndsBracket (ph_type db) (ph_config db) s (bout_winner m) then retractGrandFinalReset db (bout_id m)
      else advanceFromSlot new_id (selfRef db s) winner
             (resolveLoser winner (case reg_a s of None \<Rightarrow> bout_red m | Some r \<Rightarrow> Some r)
                                  (case reg_b s of None \<Rightarrow> bout_blue m | Some r \<Rightarrow> Some r)) db)"

definition onMatchCompleted :: "(bout_row list \<Rightarrow> string) \<Rightarrow> bracket_db \<Rightarrow> string \<Rightarrow> bracket_db" where
  "onMatchCompleted new_id db mid =
     (case loadMatch db mid of
        None \<Rightarrow> db
      | Some m \<Rightarrow>
          (case bout_winner m of
             None \<Rightarrow> db
           | Some winner \<Rightarrow>
               (case slotOfMatch db mid of None \<Rightarrow> db | Some s \<Rightarrow> advanceMatch new_id db m winner s)))"

definition asksForGrandFinalReset :: "bracket_db \<Rightarrow> string \<Rightarrow> bool" where
  "asksForGrandFinalReset db mid \<longleftrightarrow>
     (case slotOfMatch db mid of None \<Rightarrow> False
      | Some s \<Rightarrow> isGrandFinalWithReset (ph_type db) (ph_config db) (row_round s) \<and>
          \<not> grandFinalEndsBracket (ph_type db) (ph_config db) s
              (case loadMatch db mid of None \<Rightarrow> None | Some m \<Rightarrow> bout_winner m))"

text \<open>The byes are read once, then advanced one after the other.\<close>

definition advance_bye :: "(bout_row list \<Rightarrow> string) \<Rightarrow> slot_row \<Rightarrow> bracket_db \<Rightarrow> bracket_db" where
  "advance_bye new_id s db =
     (case reg_a s of None \<Rightarrow> db | Some r \<Rightarrow> advanceFromSlot new_id (selfRef db s) r None db)"

definition advanceByeSlots :: "(bout_row list \<Rightarrow> string) \<Rightarrow> bracket_db \<Rightarrow> bracket_db" where
  "advanceByeSlots new_id db =
     fold (advance_bye new_id) (filter (\<lambda>s. b_type s = ByeSource \<and> reg_a s \<noteq> None) (ph_slots db)) db"

text \<open>A side that is left out is \<open>None\<close>, a side set to nobody is \<open>Some None\<close>.\<close>

definition override_row :: "string option option \<Rightarrow> string option option \<Rightarrow> slot_row \<Rightarrow> slot_row" where
  "override_row ra rb s = s\<lparr>reg_a := or_else ra (reg_a s), reg_b := or_else rb (reg_b s)\<rparr>"

definition overrideSlot ::
    "(bout_row list \<Rightarrow> string) \<Rightarrow> string \<Rightarrow> string option option \<Rightarrow> string option option \<Rightarrow> bracket_db
     \<Rightarrow> slot_error + bracket_db" where
  "overrideSlot new_id sid ra rb db =
     (if ra = None \<and> rb = None then Inr db
      else case assertSlotMatchRewritable (ph_bouts db) sid of
        Inl e \<Rightarrow> Inl e
      | Inr _ \<Rightarrow>
          (case loadSlot db sid of
             None \<Rightarrow> Inl (SlotNotFound sid)
           | Some s \<Rightarrow>
               (case syncMatchToSlot new_id Throw (override_row ra rb s) (ph_bouts db) of
                  Inl e \<Rightarrow> Inl e
                | Inr bs \<Rightarrow>
                    Inr (db\<lparr>ph_slots := map (\<lambda>s. if row_id s = sid then override_row ra rb s else s) (ph_slots db),
                            ph_bouts := bs\<rparr>))))"

subsection \<open>Seeding the drawn bracket\<close>

definition by_place :: "slot_row \<Rightarrow> slot_row \<Rightarrow> int" where
  "by_place = then_by (\<lambda>a b. int (row_round a) - int (row_round b)) (\<lambda>a b. int (row_position a) - int (row_position b))"

interpretation place_order: comparator by_place
  unfolding by_place_def by (rule then_by_comparator) (unfold_locales, simp_all)+

definition seed_rows :: "bracket_db \<Rightarrow> slot_row list" where
  "seed_rows db = sort_by by_place (filter (\<lambda>s. row_round s \<in> {0, 1}) (ph_slots db))"

definition r1_slot_of_row :: "slot_row \<Rightarrow> bracket_r1_slot" where
  "r1_slot_of_row s = \<lparr>slot_id = row_id s, seedA = parseSeed (Some (a_ref s)), seedB = parseSeed (Some (b_ref s))\<rparr>"

definition blocking_bouts :: "bracket_db \<Rightarrow> bout_row list" where
  "blocking_bouts db =
     filter (\<lambda>m. (case bout_slot m of None \<Rightarrow> False | Some sid \<Rightarrow> sid \<in> set (map row_id (seed_rows db)))
                 \<and> bout_status m \<noteq> Scheduled \<and> bout_status m \<noteq> MVoided) (ph_bouts db)"

text \<open>The sides that are known go into the row of the bout; a missing row is made of two known sides.\<close>

definition seed_bout :: "(bout_row list \<Rightarrow> string) \<Rightarrow> slot_seed_update \<Rightarrow> bout_row list \<Rightarrow> bout_row list" where
  "seed_bout new_id u bs =
     (if registrationAId u = None \<and> registrationBId u = None then bs
      else case find (\<lambda>m. bout_slot m = Some (slotId u)) bs of
        Some m \<Rightarrow>
          map (\<lambda>m'. if bout_id m' = bout_id m
                    then m'\<lparr>bout_red := (case registrationAId u of None \<Rightarrow> bout_red m' | Some r \<Rightarrow> Some r),
                            bout_blue := (case registrationBId u of None \<Rightarrow> bout_blue m' | Some r \<Rightarrow> Some r)\<rparr>
                    else m') bs
      | None \<Rightarrow>
          if registrationAId u \<noteq> None \<and> registrationBId u \<noteq> None
          then bs @ [\<lparr>bout_id = new_id bs, bout_slot = Some (slotId u), bout_red = registrationAId u,
                      bout_blue = registrationBId u, bout_winner = None, bout_status = Scheduled, bout_startedAt = None\<rparr>]
          else bs)"

definition seed_slot :: "slot_seed_update \<Rightarrow> bracket_db \<Rightarrow> bracket_db" where
  "seed_slot u db =
     db\<lparr>ph_slots := map (\<lambda>s. if row_id s = slotId u
                           then s\<lparr>reg_a := registrationAId u, reg_b := registrationBId u\<rparr> else s) (ph_slots db)\<rparr>"

text \<open>The loop over the plan: first the slot of an entry is written, then its bout.\<close>

definition seed_update :: "(bout_row list \<Rightarrow> string) \<Rightarrow> slot_seed_update \<Rightarrow> bracket_db \<Rightarrow> bracket_db" where
  "seed_update new_id u db = (let db' = seed_slot u db in db'\<lparr>ph_bouts := seed_bout new_id u (ph_bouts db')\<rparr>)"

definition populateBracket ::
    "(bout_row list \<Rightarrow> string) \<Rightarrow> ranked_registration list \<Rightarrow> bracket_db \<Rightarrow> slot_error + bracket_db" where
  "populateBracket new_id rankings db =
     (if blocking_bouts db \<noteq> [] then Inl (R1AlreadyStarted (map bout_id (blocking_bouts db)))
      else Inr (advanceByeSlots new_id
             (fold (seed_update new_id) (buildR1SeedingPlan rankings (map r1_slot_of_row (seed_rows db))) db)))"

end
