(* ===== verification/Bracket_Play.thy ===== *)
theory Bracket_Play
  imports Bracket_Advance
begin

section \<open>Playing a bracket\<close>

text \<open>
  The runs of a bracket: bouts with both fighters known are fought in any order and with any
  winner, and each result is handed to \<open>onMatchCompleted\<close>. The lemmas hold for every table of
  slots whose references are \<open>well_fed\<close>; \<open>Bracket_Generation\<close> shows that of the generators.
\<close>

definition side_ref :: "slot_row \<Rightarrow> bool \<Rightarrow> string" where
  "side_ref s home = (if home then a_ref s else b_ref s)"

definition side_reg :: "slot_row \<Rightarrow> bool \<Rightarrow> string option" where
  "side_reg s home = (if home then reg_a s else reg_b s)"

text \<open>A slot without its fighters.\<close>

definition skeleton :: "slot_row \<Rightarrow> slot_row" where
  "skeleton s = s\<lparr>reg_a := None, reg_b := None\<rparr>"

lemma skeleton_simps [simp]:
  "row_id (skeleton s) = row_id s" "row_round (skeleton s) = row_round s" "row_position (skeleton s) = row_position s"
  "a_ref (skeleton s) = a_ref s" "b_ref (skeleton s) = b_ref s" "b_type (skeleton s) = b_type s"
  by (simp_all add: skeleton_def)

definition is_seed_ref :: "string \<Rightarrow> bool" where
  "is_seed_ref r \<longleftrightarrow> (\<exists>k. r = ''seed '' @ show_nat k)"

definition self_of :: "string \<Rightarrow> phase_config \<Rightarrow> slot_row \<Rightarrow> string" where
  "self_of ty cfg s = buildSelfRef (row_round s) (row_position s) ty cfg"

lemma self_of_skeleton [simp]: "self_of ty cfg (skeleton s) = self_of ty cfg s"
  by (simp add: self_of_def)

definition feeders :: "slot_row list \<Rightarrow> string list" where
  "feeders rows = concat (map (\<lambda>s. [a_ref s, b_ref s]) rows)"

text \<open>
  Slots are told apart by their id and by their reference; a side is a seed of one of the
  first two rounds, or the winner or the loser of a slot of an earlier round; no seed, no winner and
  no loser is referred to twice; there are no byes.
\<close>

definition well_fed :: "string \<Rightarrow> phase_config \<Rightarrow> slot_row list \<Rightarrow> bool" where
  "well_fed ty cfg rows \<longleftrightarrow>
     distinct (map row_id rows) \<and> distinct (map (self_of ty cfg) rows) \<and> distinct (feeders rows) \<and>
     list_all (\<lambda>t. b_type t \<noteq> ByeSource) rows \<and> autoAdvance cfg \<noteq> Some False \<and>
     (\<forall>t \<in> set rows. \<forall>home. is_seed_ref (side_ref t home) \<and> row_round t \<le> 1 \<or>
        (\<exists>s \<in> set rows. row_round s < row_round t \<and>
           (side_ref t home = winnerRef (self_of ty cfg s) \<or> side_ref t home = loserRef (self_of ty cfg s))))"

lemma refs_apart [simp]:
  "winnerRef x = winnerRef y \<longleftrightarrow> x = y" "loserRef x = loserRef y \<longleftrightarrow> x = y"
  "winnerRef x \<noteq> loserRef y" "loserRef y \<noteq> winnerRef x"
  "\<not> is_seed_ref (winnerRef x)" "\<not> is_seed_ref (loserRef x)"
  by (simp_all add: winnerRef_def loserRef_def is_seed_ref_def)

subsection \<open>The state of a bout\<close>

definition boutOf :: "bout_row list \<Rightarrow> slot_row \<Rightarrow> bout_row option" where
  "boutOf bs s = find (\<lambda>m. bout_slot m = Some (row_id s)) bs"

definition winnerOf :: "bout_row list \<Rightarrow> slot_row \<Rightarrow> string option" where
  "winnerOf bs s = (case boutOf bs s of None \<Rightarrow> None | Some m \<Rightarrow> bout_winner m)"

definition ended :: "bracket_db \<Rightarrow> slot_row \<Rightarrow> bool" where
  "ended db s \<longleftrightarrow> grandFinalEndsBracket (ph_type db) (ph_config db) s (winnerOf (ph_bouts db) s)"

text \<open>What the bouts say about the fighters of a side.\<close>

definition fed_value :: "bracket_db \<Rightarrow> slot_row \<Rightarrow> bool \<Rightarrow> string option" where
  "fed_value db s won =
     (case winnerOf (ph_bouts db) s of
        None \<Rightarrow> None
      | Some w \<Rightarrow> if ended db s then None
          else if won then Some w else resolveLoser w (reg_a s) (reg_b s))"

definition unfought :: "bout_row \<Rightarrow> bool" where
  "unfought m \<longleftrightarrow> bout_status m = Scheduled \<and> bout_startedAt m = None \<and> bout_winner m = None"

definition bout_sane :: "slot_row \<Rightarrow> bout_row \<Rightarrow> bool" where
  "bout_sane s m \<longleftrightarrow>
     bout_red m = reg_a s \<and> bout_blue m = reg_b s \<and>
     (unfought m \<or>
      bout_status m = MCompleted \<and> reg_a s \<noteq> None \<and> reg_b s \<noteq> None \<and>
      bout_winner m \<noteq> None \<and> bout_winner m \<in> {reg_a s, reg_b s})"

text \<open>
  The bouts describe the slots; the bouts of the slots \<open>rest\<close> may still have to be synced.
\<close>

definition bouts_ok :: "slot_row list \<Rightarrow> string set \<Rightarrow> bout_row list \<Rightarrow> bool" where
  "bouts_ok rows rest bs \<longleftrightarrow>
     distinct (map bout_id bs) \<and> distinct (map bout_slot bs) \<and>
     (\<forall>m \<in> set bs. \<exists>s \<in> set rows. bout_slot m = Some (row_id s) \<and> (bout_sane s m \<or> row_id s \<in> rest \<and> unfought m)) \<and>
     (\<forall>s \<in> set rows. reg_a s \<noteq> None \<and> reg_b s \<noteq> None \<longrightarrow> boutOf bs s \<noteq> None \<or> row_id s \<in> rest)"

text \<open>The sides hold what the seeding and the results put there.\<close>

definition sides_fed :: "(string \<Rightarrow> string option) \<Rightarrow> bracket_db \<Rightarrow> bool" where
  "sides_fed seeded db \<longleftrightarrow>
     (\<forall>t \<in> set (ph_slots db). \<forall>home.
        (is_seed_ref (side_ref t home) \<longrightarrow> side_reg t home = seeded (side_ref t home)) \<and>
        (\<forall>s \<in> set (ph_slots db).
           (side_ref t home = winnerRef (selfRef db s) \<longrightarrow> side_reg t home = fed_value db s True) \<and>
           (side_ref t home = loserRef (selfRef db s) \<longrightarrow> side_reg t home = fed_value db s False)))"

text \<open>No fighter stands in two places of the bouts still to be fought.\<close>

definition places_apart :: "bracket_db \<Rightarrow> bool" where
  "places_apart db \<longleftrightarrow>
     (\<forall>t \<in> set (ph_slots db). \<forall>u \<in> set (ph_slots db). \<forall>h k.
        winnerOf (ph_bouts db) t = None \<and> winnerOf (ph_bouts db) u = None \<and>
        side_reg t h \<noteq> None \<and> side_reg t h = side_reg u k \<longrightarrow> row_id t = row_id u \<and> h = k)"

definition bracket_inv :: "string \<Rightarrow> phase_config \<Rightarrow> slot_row list \<Rightarrow> (string \<Rightarrow> string option) \<Rightarrow> bracket_db \<Rightarrow> bool" where
  "bracket_inv ty cfg rows seeded db \<longleftrightarrow>
     ph_type db = ty \<and> ph_config db = cfg \<and> map skeleton (ph_slots db) = map skeleton rows \<and>
     bouts_ok (ph_slots db) {} (ph_bouts db) \<and> sides_fed seeded db \<and> places_apart db"

subsection \<open>Runs\<close>

text \<open>The row of a bout that has been fought.\<close>

definition finish_bout :: "string \<Rightarrow> string \<Rightarrow> timestamp \<Rightarrow> bracket_db \<Rightarrow> bracket_db" where
  "finish_bout mid w t db =
     db\<lparr>ph_bouts := map (\<lambda>m. if bout_id m = mid
        then m\<lparr>bout_status := MCompleted, bout_winner := Some w, bout_startedAt := Some t\<rparr> else m) (ph_bouts db)\<rparr>"

inductive bout_step :: "(bout_row list \<Rightarrow> string) \<Rightarrow> bracket_db \<Rightarrow> bracket_db \<Rightarrow> bool" for new_id where
  fought: "m \<in> set (ph_bouts db) \<Longrightarrow> bout_status m = Scheduled \<Longrightarrow> bout_red m = Some x \<Longrightarrow> bout_blue m = Some y \<Longrightarrow>
    w = x \<or> w = y \<Longrightarrow> bout_step new_id db (onMatchCompleted new_id (finish_bout (bout_id m) w t db) (bout_id m))"

inductive bout_run :: "(bout_row list \<Rightarrow> string) \<Rightarrow> bracket_db \<Rightarrow> nat \<Rightarrow> bracket_db \<Rightarrow> bool" for new_id where
  start: "bout_run new_id db 0 db"
| more: "bout_run new_id db k db' \<Longrightarrow> bout_step new_id db' db'' \<Longrightarrow> bout_run new_id db (Suc k) db''"

text \<open>The database gives a new row an id no row has.\<close>

definition fresh_ids :: "(bout_row list \<Rightarrow> string) \<Rightarrow> bool" where
  "fresh_ids new_id \<longleftrightarrow> (\<forall>bs. new_id bs \<notin> set (map bout_id bs))"

definition decided :: "bracket_db \<Rightarrow> nat" where
  "decided db = length (filter (\<lambda>s. winnerOf (ph_bouts db) s \<noteq> None) (ph_slots db))"

subsection \<open>The bouts follow the slots\<close>

lemma boutOf_Some:
  assumes "distinct (map bout_slot bs)"
  shows "boutOf bs s = Some m \<longleftrightarrow> m \<in> set bs \<and> bout_slot m = Some (row_id s)"
proof
  assume "boutOf bs s = Some m"
  then show "m \<in> set bs \<and> bout_slot m = Some (row_id s)"
    by (auto simp: boutOf_def find_Some_iff)
next
  assume m: "m \<in> set bs \<and> bout_slot m = Some (row_id s)"
  then obtain m' where m': "boutOf bs s = Some m'" by (cases "boutOf bs s") (auto simp: boutOf_def find_None_iff)
  then have "m' \<in> set bs" "bout_slot m' = Some (row_id s)" by (auto simp: boutOf_def find_Some_iff)
  then have "m' = m" using m assms inj_onD [of bout_slot "set bs" m' m] by (simp add: distinct_map)
  then show "boutOf bs s = Some m" using m' by simp
qed

lemma boutOf_None: "boutOf bs s = None \<longleftrightarrow> (\<forall>m \<in> set bs. bout_slot m \<noteq> Some (row_id s))"
  by (auto simp: boutOf_def find_None_iff)

lemma boutOf_map:
  assumes "\<And>m. bout_slot (f m) = bout_slot m"
  shows "boutOf (map f bs) s = map_option f (boutOf bs s)"
  by (induction bs) (simp_all add: boutOf_def assms)

lemma same_row: "distinct (map row_id rows) \<Longrightarrow> s \<in> set rows \<Longrightarrow> t \<in> set rows \<Longrightarrow> row_id s = row_id t \<Longrightarrow> s = t"
  by (simp add: distinct_map inj_on_def)

lemma bouts_okD:
  assumes "bouts_ok rows rest bs" and "distinct (map row_id rows)" and "s \<in> set rows" and "boutOf bs s = Some m"
  shows "bout_sane s m \<or> row_id s \<in> rest \<and> unfought m"
proof -
  have "m \<in> set bs" "bout_slot m = Some (row_id s)" using assms(1,4) boutOf_Some by (auto simp: bouts_ok_def)
  then obtain t where t: "t \<in> set rows" "row_id t = row_id s" "bout_sane t m \<or> row_id t \<in> rest \<and> unfought m"
    using assms(1) by (auto simp: bouts_ok_def)
  then show ?thesis using same_row [OF assms(2,3) t(1)] by simp
qed

lemma bouts_ok_mono: "bouts_ok rows rest bs \<Longrightarrow> rest \<subseteq> rest' \<Longrightarrow> bouts_ok rows rest' bs"
  unfolding bouts_ok_def by blast

text \<open>The three ways a sync goes: the bout has been fought, is there, or is missing.\<close>

lemma bouts_ok_done:
  assumes "bouts_ok rows rest bs" and "distinct (map row_id rows)" and "t \<in> set rows"
    and "boutOf bs t = Some m" and "bout_sane t m"
  shows "bouts_ok rows (rest - {row_id t}) bs"
proof -
  have slots: "distinct (map bout_slot bs)" using assms(1) by (simp add: bouts_ok_def)
  have "\<exists>s \<in> set rows. bout_slot m' = Some (row_id s) \<and> (bout_sane s m' \<or> row_id s \<in> rest - {row_id t} \<and> unfought m')"
    if "m' \<in> set bs" for m'
  proof -
    obtain s where s: "s \<in> set rows" "bout_slot m' = Some (row_id s)" "bout_sane s m' \<or> row_id s \<in> rest \<and> unfought m'"
      using assms(1) \<open>m' \<in> set bs\<close> by (auto simp: bouts_ok_def)
    show ?thesis
    proof (cases "row_id s = row_id t")
      case True
      then have "boutOf bs t = Some m'" using s \<open>m' \<in> set bs\<close> slots by (simp add: boutOf_Some)
      then show ?thesis using assms(3-5) s True by auto
    qed (use s in auto)
  qed
  moreover have "boutOf bs s \<noteq> None \<or> row_id s \<in> rest - {row_id t}"
    if "s \<in> set rows" "reg_a s \<noteq> None" "reg_b s \<noteq> None" for s
    using assms that same_row [OF assms(2) that(1) assms(3)] by (auto simp: bouts_ok_def)
  ultimately show ?thesis using assms(1) by (auto simp: bouts_ok_def)
qed

lemma bouts_ok_update:
  assumes "bouts_ok rows rest bs" and "distinct (map row_id rows)" and "t \<in> set rows"
    and "boutOf bs t = Some m" and "unfought m"
  shows "bouts_ok rows (rest - {row_id t})
    (map (\<lambda>m'. if bout_id m' = bout_id m then m'\<lparr>bout_red := reg_a t, bout_blue := reg_b t\<rparr> else m') bs)"
    (is "bouts_ok rows _ (map ?f bs)")
proof -
  have keep: "bout_id (?f m') = bout_id m'" "bout_slot (?f m') = bout_slot m'" for m' by simp_all
  have slots: "distinct (map bout_slot bs)" "distinct (map bout_id bs)" using assms(1) by (simp_all add: bouts_ok_def)
  have m: "m \<in> set bs" using assms(4) slots by (simp add: boutOf_Some)
  have same: "bout_id m' = bout_id m \<longleftrightarrow> m' = m" if "m' \<in> set bs" for m'
    using that m slots(2) inj_onD [of bout_id "set bs" m' m] by (auto simp: distinct_map)
  have "bouts_ok rows rest (map ?f bs)"
  proof -
    have each: "\<exists>s \<in> set rows. bout_slot (?f m') = Some (row_id s) \<and> (bout_sane s (?f m') \<or> row_id s \<in> rest \<and> unfought (?f m'))"
      if "m' \<in> set bs" for m'
    proof (cases "m' = m")
      case True
      have "bout_sane t (?f m)" using assms(5) by (simp add: bout_sane_def unfought_def)
      moreover have "bout_slot (?f m) = Some (row_id t)" using assms(4) slots by (simp add: boutOf_Some)
      ultimately show ?thesis using True assms(3) by blast
    next
      case False
      then show ?thesis using same [OF that] assms(1) that by (auto simp: bouts_ok_def)
    qed
    have ids: "map bout_id (map ?f bs) = map bout_id bs" "map bout_slot (map ?f bs) = map bout_slot bs"
      by (simp_all add: comp_def)
    have "boutOf (map ?f bs) s = map_option ?f (boutOf bs s)" for s by (rule boutOf_map) simp
    then have there: "boutOf (map ?f bs) s \<noteq> None \<longleftrightarrow> boutOf bs s \<noteq> None" for s by simp
    show ?thesis
      unfolding bouts_ok_def ids there
    proof (intro conjI slots)
      show "\<forall>m' \<in> set (map ?f bs). \<exists>s \<in> set rows. bout_slot m' = Some (row_id s) \<and> (bout_sane s m' \<or> row_id s \<in> rest \<and> unfought m')"
        unfolding set_map using each by blast
    qed (use assms(1) in \<open>simp add: bouts_ok_def\<close>)
  qed
  then show ?thesis
  proof (rule bouts_ok_done [OF _ assms(2,3)])
    show "boutOf (map ?f bs) t = Some (?f m)" using assms(4) by (simp add: boutOf_map)
    show "bout_sane t (?f m)" using assms(5) by (simp add: bout_sane_def unfought_def)
  qed
qed

lemma bouts_ok_insert:
  assumes "bouts_ok rows rest bs" and "distinct (map row_id rows)" and "t \<in> set rows"
    and "boutOf bs t = None" and "fresh_ids new_id"
  shows "bouts_ok rows (rest - {row_id t}) (insertMatchForSlot new_id t bs)"
proof -
  have "bouts_ok rows rest (insertMatchForSlot new_id t bs)"
    using assms(1,3,4,5)
    by (auto simp: bouts_ok_def insertMatchForSlot_def fresh_ids_def boutOf_None bout_sane_def unfought_def Bex_def)
  then show ?thesis
  proof (rule bouts_ok_done [OF _ assms(2,3)])
    show "boutOf (insertMatchForSlot new_id t bs) t = Some \<lparr>bout_id = new_id bs, bout_slot = Some (row_id t),
        bout_red = reg_a t, bout_blue = reg_b t, bout_winner = None, bout_status = Scheduled, bout_startedAt = None\<rparr>"
      using assms(4) by (simp add: boutOf_def insertMatchForSlot_def find_append)
  qed (simp add: bout_sane_def unfought_def)
qed

lemma bouts_ok_waiting:
  assumes "bouts_ok rows rest bs" and "distinct (map row_id rows)" and "t \<in> set rows"
    and "boutOf bs t = None" and "reg_a t = None \<or> reg_b t = None"
  shows "bouts_ok rows (rest - {row_id t}) bs"
proof -
  have "row_id s \<noteq> row_id t" if "m \<in> set bs" "bout_slot m = Some (row_id s)" for s m
    using assms(4) that by (auto simp: boutOf_None)
  moreover have "row_id s \<noteq> row_id t" if "s \<in> set rows" "reg_a s \<noteq> None" "reg_b s \<noteq> None" for s
    using assms(5) same_row [OF assms(2) that(1) assms(3)] that by auto
  ultimately show ?thesis using assms(1) unfolding bouts_ok_def by (simp only: insert_iff Diff_iff empty_iff) blast
qed


lemma winnerOf_sync:
  assumes "\<And>m. bout_slot (f m) = bout_slot m" and "\<And>m. bout_winner (f m) = bout_winner m"
  shows "winnerOf (map f bs) s = winnerOf bs s"
  by (simp add: winnerOf_def boutOf_map assms(1) assms(2) split: option.split)

lemma sync_skipping_result:
  assumes ok: "bouts_ok rows rest bs" and ids: "distinct (map row_id rows)" and t: "t \<in> set rows"
    and bye: "b_type t \<noteq> ByeSource" and fresh: "fresh_ids new_id"
  shows "bouts_ok rows (rest - {row_id t}) (sync_skipping new_id t bs)"
    and "winnerOf (sync_skipping new_id t bs) s = winnerOf bs s"
proof -
  have "bout_status m \<noteq> MVoided" if "m \<in> set bs" for m
    using ok that by (auto simp: bouts_ok_def bout_sane_def unfought_def)
  then have load: "loadSlotMatch bs (row_id t) = boutOf bs t"
    unfolding loadSlotMatch_def boutOf_def by (induction bs) auto
  have "bouts_ok rows (rest - {row_id t}) (sync_skipping new_id t bs) \<and> winnerOf (sync_skipping new_id t bs) s = winnerOf bs s"
  proof (cases "boutOf bs t")
    case (Some m)
    note sane = bouts_okD [OF ok ids t Some]
    show ?thesis
    proof (cases "unfought m")
      case True
      then have "sync_skipping new_id t bs =
          map (\<lambda>m'. if bout_id m' = bout_id m then m'\<lparr>bout_red := reg_a t, bout_blue := reg_b t\<rparr> else m') bs"
        using Some bye by (simp add: sync_skipping_def syncMatchToSlot_def load unfought_def hasBeenFought_def)
      then show ?thesis using bouts_ok_update [OF ok ids t Some True] by (simp add: winnerOf_sync)
    next
      case False
      then have "sync_skipping new_id t bs = bs"
        using Some bye sane by (simp add: sync_skipping_def syncMatchToSlot_def load bout_sane_def hasBeenFought_def)
      then show ?thesis using bouts_ok_done [OF ok ids t Some] sane False by simp
    qed
  next
    case None
    show ?thesis
    proof (cases "reg_a t = None \<or> reg_b t = None")
      case True
      then have "sync_skipping new_id t bs = bs"
        using None bye by (simp add: sync_skipping_def syncMatchToSlot_def load)
      then show ?thesis using bouts_ok_waiting [OF ok ids t None True] by simp
    next
      case False
      then have "sync_skipping new_id t bs = insertMatchForSlot new_id t bs"
        using None bye by (auto simp: sync_skipping_def syncMatchToSlot_def load)
      moreover have "winnerOf (insertMatchForSlot new_id t bs) s = winnerOf bs s"
        using None by (auto simp: winnerOf_def boutOf_def insertMatchForSlot_def find_append split: option.split)
      ultimately show ?thesis using bouts_ok_insert [OF ok ids t None fresh] by simp
    qed
  qed
  then show "bouts_ok rows (rest - {row_id t}) (sync_skipping new_id t bs)"
    and "winnerOf (sync_skipping new_id t bs) s = winnerOf bs s" by auto
qed

lemma fold_sync_result:
  assumes "bouts_ok rows (set (map row_id ts)) bs" and "distinct (map row_id rows)" and "set ts \<subseteq> set rows"
    and "list_all (\<lambda>t. b_type t \<noteq> ByeSource) ts" and "fresh_ids new_id"
  shows "bouts_ok rows {} (fold (sync_skipping new_id) ts bs) \<and>
    (\<forall>s. winnerOf (fold (sync_skipping new_id) ts bs) s = winnerOf bs s)"
  using assms
proof (induction ts arbitrary: bs)
  case (Cons t ts)
  have "set (map row_id (t # ts)) - {row_id t} \<subseteq> set (map row_id ts)" by auto
  note step = sync_skipping_result [OF Cons.prems(1,2) _ _ Cons.prems(5), of t]
  have t: "t \<in> set rows" "b_type t \<noteq> ByeSource" using Cons.prems by simp_all
  have "bouts_ok rows (set (map row_id ts)) (sync_skipping new_id t bs)"
    using step(1) [OF t] by (rule bouts_ok_mono) auto
  from Cons.IH [OF this Cons.prems(2) _ _ Cons.prems(5)] show ?case
    using Cons.prems(3,4) step(2) [OF t] by simp
qed simp

text \<open>Deleting the unplayed bout of a slot that waits for a fighter.\<close>

lemma delete_result:
  assumes "bouts_ok rows {} bs" and "distinct (map row_id rows)" and "t \<in> set rows" and "reg_a t = None \<or> reg_b t = None"
  shows "bouts_ok rows {} (deleteUnplayedSlotMatch (row_id t) bs) \<and>
    (\<forall>s \<in> set rows. winnerOf (deleteUnplayedSlotMatch (row_id t) bs) s = winnerOf bs s)"
proof -
  have slots: "distinct (map bout_slot bs)" "distinct (map bout_id bs)" using assms(1) by (simp_all add: bouts_ok_def)
  let ?bs = "filter (\<lambda>m. bout_slot m \<noteq> Some (row_id t)) bs"
  have unf: "unfought m" if "m \<in> set bs" "bout_slot m = Some (row_id t)" for m
  proof -
    have "boutOf bs t = Some m" using that slots by (simp add: boutOf_Some)
    then show ?thesis using bouts_okD [OF assms(1,2,3)] assms(4) by (auto simp: bout_sane_def)
  qed
  have del: "deleteUnplayedSlotMatch (row_id t) bs = ?bs"
    unfolding deleteUnplayedSlotMatch_def
  proof (rule filter_cong [OF refl])
    fix m assume m: "m \<in> set bs"
    have "bout_id m = bout_id m' \<Longrightarrow> m' = m" if "m' \<in> set bs" for m'
      using that m slots(2) inj_onD [of bout_id "set bs" m' m] by (auto simp: distinct_map)
    then show "(bout_id m \<notin> set (map bout_id (filter (unplayed_of (row_id t)) bs))) = (bout_slot m \<noteq> Some (row_id t))"
      using m unf [OF m] by (auto simp: unplayed_of_def unfought_def)
  qed
  have "boutOf ?bs s = (if row_id s = row_id t then None else boutOf bs s)" for s
    unfolding boutOf_def by (induction bs) auto
  note bout = this
  have other: "row_id s \<noteq> row_id t" if "s \<in> set rows" "reg_a s \<noteq> None \<and> reg_b s \<noteq> None" for s
    using same_row [OF assms(2) that(1) assms(3)] that(2) assms(4) by metis
  have "bouts_ok rows {} ?bs"
    unfolding bouts_ok_def
  proof (intro conjI ballI impI)
    show "distinct (map bout_id ?bs)" "distinct (map bout_slot ?bs)" using slots by (simp_all add: distinct_map_filter)
    show "\<exists>s \<in> set rows. bout_slot m = Some (row_id s) \<and> (bout_sane s m \<or> row_id s \<in> {} \<and> unfought m)" if "m \<in> set ?bs" for m
      using assms(1) that by (auto simp: bouts_ok_def)
    show "boutOf ?bs s \<noteq> None \<or> row_id s \<in> {}" if "s \<in> set rows" "reg_a s \<noteq> None \<and> reg_b s \<noteq> None" for s
      using assms(1) that other [OF that] by (auto simp: bouts_ok_def bout)
  qed
  moreover have "winnerOf ?bs s = winnerOf bs s" if "s \<in> set rows" for s
  proof (cases "row_id s = row_id t")
    case True
    have "winnerOf bs s = None"
      unfolding winnerOf_def using True unf by (auto simp: boutOf_Some [OF slots(1)] unfought_def split: option.split)
    then show ?thesis using True by (simp add: winnerOf_def bout)
  qed (simp add: winnerOf_def bout)
  ultimately show ?thesis unfolding del by blast
qed

subsection \<open>One bout\<close>

text \<open>What feeding a result does to a row: a reference to it is filled in, the rest stays.\<close>

lemma advance_row_static [simp]:
  "row_id (advance_row self w l s) = row_id s" "row_round (advance_row self w l s) = row_round s"
  "row_position (advance_row self w l s) = row_position s" "b_type (advance_row self w l s) = b_type s"
  "a_ref (advance_row self w l s) = a_ref s" "b_ref (advance_row self w l s) = b_ref s"
  "side_ref (advance_row self w l s) h = side_ref s h" "skeleton (advance_row self w l s) = skeleton s"
  by (simp_all add: advance_row_def side_ref_def skeleton_def)

lemma advance_row_reg: "side_reg (advance_row self w l s) h = advance_side self w l (side_ref s h) (side_reg s h)"
  by (simp add: side_reg_def side_ref_def advance_row_def)

lemma fed_by_side: "fed_by self s \<longleftrightarrow> (\<exists>h. side_ref s h = winnerRef self \<or> side_ref s h = loserRef self)"
  by (auto simp: fed_by_def side_ref_def)

lemma advance_row_unfed: "\<not> fed_by self s \<Longrightarrow> advance_row self w l s = s"
  by (cases s) (simp add: fed_by_def advance_row_def advance_side_def)

lemma reg_side: "reg_a s = side_reg s True" "reg_b s = side_reg s False"
  by (simp_all add: side_reg_def)

lemma side_known: "(reg_a s \<noteq> None \<and> reg_b s \<noteq> None) \<longleftrightarrow> (\<forall>h. side_reg s h \<noteq> None)"
  by (auto simp: side_reg_def)

lemma advance_row_known: "reg_a s \<noteq> None \<Longrightarrow> reg_b s \<noteq> None \<Longrightarrow> advance_row self w l s = s"
  by (cases s) (auto simp: advance_row_def advance_side_def)

lemma advance_slots: "ph_slots (advanceFromSlot new_id self w l db) = map (advance_row self w l) (ph_slots db)"
  by (auto simp: advanceFromSlot_def Let_def advance_row_unfed)

lemma skeleton_eqD:
  assumes "map skeleton xs = map skeleton ys"
  shows "map row_id xs = map row_id ys" and "map b_type xs = map b_type ys"
    and "map (self_of ty cfg) xs = map (self_of ty cfg) ys" and "feeders xs = feeders ys"
    and "map row_round xs = map row_round ys"
proof -
  have f: "map (f \<circ> skeleton) xs = map (f \<circ> skeleton) ys" for f :: "slot_row \<Rightarrow> 'a"
    using arg_cong [OF assms, of "map f"] by simp
  show "map row_id xs = map row_id ys" "map b_type xs = map b_type ys" "map row_round xs = map row_round ys"
    "map (self_of ty cfg) xs = map (self_of ty cfg) ys"
    using f [of row_id] f [of b_type] f [of "self_of ty cfg"] f [of row_round] by (simp_all add: comp_def)
  have "map (\<lambda>s. [a_ref s, b_ref s]) xs = map (\<lambda>s. [a_ref s, b_ref s]) ys"
    using f [of "\<lambda>s. [a_ref s, b_ref s]"] by (simp add: comp_def)
  then show "feeders xs = feeders ys" by (simp add: feeders_def)
qed

lemma well_fed_skeleton:
  assumes "map skeleton xs = map skeleton ys" and "well_fed ty cfg xs"
  shows "well_fed ty cfg ys"
proof -
  note eq = skeleton_eqD [OF assms(1)]
  have all: "(\<forall>t \<in> set ys. P (skeleton t)) \<longleftrightarrow> (\<forall>t \<in> set xs. P (skeleton t))"
    and ex: "(\<exists>t \<in> set ys. P (skeleton t)) \<longleftrightarrow> (\<exists>t \<in> set xs. P (skeleton t))" for P
    using arg_cong [OF assms(1), of set] by (auto simp: image_iff) (metis imageI image_iff)+
  have sr: "side_ref (skeleton t) h = side_ref t h" for t h by (simp add: side_ref_def)
  let ?P = "\<lambda>t. \<forall>home. is_seed_ref (side_ref t home) \<and> row_round t \<le> 1 \<or>
        (\<exists>s \<in> set xs. row_round s < row_round t \<and>
           (side_ref t home = winnerRef (self_of ty cfg s) \<or> side_ref t home = loserRef (self_of ty cfg s)))"
  let ?Q = "\<lambda>t. \<forall>home. is_seed_ref (side_ref t home) \<and> row_round t \<le> 1 \<or>
        (\<exists>s \<in> set ys. row_round s < row_round t \<and>
           (side_ref t home = winnerRef (self_of ty cfg s) \<or> side_ref t home = loserRef (self_of ty cfg s)))"
  have "?P t = ?Q t" for t
    using ex [of "\<lambda>s. row_round s < row_round t \<and> (side_ref t home = winnerRef (self_of ty cfg s) \<or> side_ref t home = loserRef (self_of ty cfg s))" for home]
    by simp
  then have "(\<forall>t \<in> set ys. ?Q t) \<longleftrightarrow> (\<forall>t \<in> set xs. ?P t)"
    using all [of ?P] by (simp add: sr)
  moreover have "list_all (\<lambda>t. b_type t \<noteq> ByeSource) zs \<longleftrightarrow> list_all (\<lambda>b. b \<noteq> ByeSource) (map b_type zs)" for zs
    by (induction zs) simp_all
  then have "list_all (\<lambda>t. b_type t \<noteq> ByeSource) xs \<longleftrightarrow> list_all (\<lambda>t. b_type t \<noteq> ByeSource) ys"
    using eq(2) by metis
  ultimately show ?thesis using assms(2) eq unfolding well_fed_def by simp
qed

text \<open>What a well-fed table gives: the row a reference means, and the one place that refers to it.\<close>

lemma well_fed_self: "well_fed ty cfg rows \<Longrightarrow> s \<in> set rows \<Longrightarrow> t \<in> set rows \<Longrightarrow> self_of ty cfg s = self_of ty cfg t \<Longrightarrow> s = t"
  by (simp add: well_fed_def distinct_map inj_on_def)

lemma well_fed_ref:
  assumes "well_fed ty cfg rows" and "t \<in> set rows"
  obtains "is_seed_ref (side_ref t h)" "row_round t \<le> 1"
  | s where "s \<in> set rows" "row_round s < row_round t" "side_ref t h = winnerRef (self_of ty cfg s)"
  | s where "s \<in> set rows" "row_round s < row_round t" "side_ref t h = loserRef (self_of ty cfg s)"
  using assms unfolding well_fed_def by blast

lemma concat_pairs_once:
  assumes "distinct (concat (map (\<lambda>s. [f s, g s]) xs))" and "t \<in> set xs" and "u \<in> set xs" and "distinct xs"
    and "(if h then f t else g t) = r" and "(if k then f u else g u) = r"
  shows "t = u \<and> h = k"
  using assms by (induction xs) (auto split: if_splits)

lemma well_fed_once:
  assumes "well_fed ty cfg rows" and "t \<in> set rows" and "u \<in> set rows" and "side_ref t h = side_ref u k"
  shows "t = u \<and> h = k"
proof (rule concat_pairs_once [of a_ref b_ref rows])
  show "distinct (concat (map (\<lambda>s. [a_ref s, b_ref s]) rows))" using assms(1) by (simp add: well_fed_def feeders_def)
  show "distinct rows" using assms(1) by (auto simp: well_fed_def distinct_map)
  show "(if h then a_ref t else b_ref t) = side_ref t h" by (simp add: side_ref_def)
  show "(if k then a_ref u else b_ref u) = side_ref t h" using assms(4) by (simp add: side_ref_def)
qed (use assms in simp_all)

text \<open>
  The effect of a bout on the tables, without the code in between: slot \<open>s\<close>, whose fighters
  are \<open>w\<close> and \<open>l\<close>, is won by \<open>w\<close>.
\<close>

definition ends_here :: "bracket_db \<Rightarrow> slot_row \<Rightarrow> string \<Rightarrow> bool" where
  "ends_here db s w \<longleftrightarrow> grandFinalEndsBracket (ph_type db) (ph_config db) s (Some w)"

definition won :: "bracket_db \<Rightarrow> slot_row \<Rightarrow> string \<Rightarrow> string \<Rightarrow> bracket_db \<Rightarrow> bool" where
  "won db s w l db' \<longleftrightarrow>
     s \<in> set (ph_slots db) \<and> winnerOf (ph_bouts db) s = None \<and>
     (\<exists>h. side_reg s h = Some w \<and> side_reg s (\<not> h) = Some l) \<and> resolveLoser w (reg_a s) (reg_b s) = Some l \<and>
     ph_type db' = ph_type db \<and> ph_config db' = ph_config db \<and>
     ph_slots db' = (if ends_here db s w then ph_slots db
                     else map (advance_row (selfRef db s) w (Some l)) (ph_slots db)) \<and>
     bouts_ok (ph_slots db') {} (ph_bouts db') \<and>
     (\<forall>u \<in> set (ph_slots db). winnerOf (ph_bouts db') u = (if row_id u = row_id s then Some w else winnerOf (ph_bouts db) u))"

lemma finish_bout_result:
  fixes t :: timestamp
  assumes "bouts_ok rows {} bs" and "distinct (map row_id rows)" and "s \<in> set rows" and "boutOf bs s = Some m"
    and "unfought m" and "bout_sane s m" and "reg_a s \<noteq> None" and "reg_b s \<noteq> None" and "Some w \<in> {reg_a s, reg_b s}"
  defines "bs' \<equiv> map (\<lambda>m'. if bout_id m' = bout_id m
      then m'\<lparr>bout_status := MCompleted, bout_winner := Some w, bout_startedAt := Some t\<rparr> else m') bs"
  shows "bouts_ok rows {} bs'" and "winnerOf bs' u = (if row_id u = row_id s then Some w else winnerOf bs u)"
proof -
  let ?f = "\<lambda>m'. if bout_id m' = bout_id m
      then m'\<lparr>bout_status := MCompleted, bout_winner := Some w, bout_startedAt := Some t\<rparr> else m'"
  have slots: "distinct (map bout_slot bs)" "distinct (map bout_id bs)" using assms(1) by (simp_all add: bouts_ok_def)
  have m: "m \<in> set bs" "bout_slot m = Some (row_id s)" using assms(4) slots by (simp_all add: boutOf_Some)
  have same: "bout_id m' = bout_id m \<longleftrightarrow> m' = m" if "m' \<in> set bs" for m'
    using that m slots(2) inj_onD [of bout_id "set bs" m' m] by (auto simp: distinct_map)
  have bout: "boutOf bs' v = map_option ?f (boutOf bs v)" for v unfolding bs'_def by (rule boutOf_map) simp
  then have there: "boutOf bs' v \<noteq> None \<longleftrightarrow> boutOf bs v \<noteq> None" for v by simp
  have ids: "map bout_id bs' = map bout_id bs" "map bout_slot bs' = map bout_slot bs"
    by (simp_all add: bs'_def comp_def)
  show "bouts_ok rows {} bs'"
    unfolding bouts_ok_def ids there
  proof (intro conjI slots)
    have "\<exists>v \<in> set rows. bout_slot (?f m') = Some (row_id v) \<and> (bout_sane v (?f m') \<or> row_id v \<in> {} \<and> unfought (?f m'))"
      if "m' \<in> set bs" for m'
    proof (cases "m' = m")
      case True
      have "bout_sane s (?f m)" using assms(6-9) by (auto simp: bout_sane_def)
      then show ?thesis using True m assms(3) by (auto intro: bexI [of _ s])
    next
      case False
      then show ?thesis using same [OF that] assms(1) that by (auto simp: bouts_ok_def)
    qed
    then show "\<forall>m' \<in> set bs'. \<exists>v \<in> set rows. bout_slot m' = Some (row_id v) \<and> (bout_sane v m' \<or> row_id v \<in> {} \<and> unfought m')"
      unfolding bs'_def set_map by blast
  qed (use assms(1) in \<open>simp add: bouts_ok_def\<close>)
  show "winnerOf bs' u = (if row_id u = row_id s then Some w else winnerOf bs u)"
  proof (cases "row_id u = row_id s")
    case True
    then have "boutOf bs u = Some m" using m slots by (simp add: boutOf_Some)
    then show ?thesis using True by (simp add: winnerOf_def bout)
  next
    case False
    then have "boutOf bs u \<noteq> Some m" using m slots by (simp add: boutOf_Some)
    then have "bout_id m' \<noteq> bout_id m" if "boutOf bs u = Some m'" for m'
      using that same [of m'] slots by (auto simp: boutOf_Some)
    then show ?thesis using False by (auto simp: winnerOf_def bout split: option.split)
  qed
qed

lemma bouts_after_advance:
  fixes w l self :: string
  assumes ok: "bouts_ok (ph_slots db) {} (ph_bouts db)" and wf: "well_fed (ph_type db) (ph_config db) (ph_slots db)"
    and fresh: "fresh_ids new_id"
    and open_sides: "\<And>t. t \<in> set (ph_slots db) \<Longrightarrow> fed_by self t \<Longrightarrow> reg_a t = None \<or> reg_b t = None"
  defines "db' \<equiv> advanceFromSlot new_id self w (Some l) db"
  shows "bouts_ok (ph_slots db') {} (ph_bouts db') \<and> (\<forall>u. winnerOf (ph_bouts db') u = winnerOf (ph_bouts db) u)"
proof -
  let ?adv = "advance_row self w (Some l)"
  let ?ts = "map ?adv (filter (fed_by self) (ph_slots db))"
  have slots: "ph_slots db' = map ?adv (ph_slots db)" by (simp add: db'_def advance_slots)
  have bouts: "ph_bouts db' = fold (sync_skipping new_id) ?ts (ph_bouts db)" by (simp add: db'_def advanceFromSlot_def Let_def)
  have ids: "distinct (map row_id (ph_slots db'))" using wf by (simp add: slots comp_def well_fed_def)
  have bye: "list_all (\<lambda>t. b_type t \<noteq> ByeSource) ?ts" using wf by (auto simp: well_fed_def list_all_iff)
  have "bouts_ok (ph_slots db') (set (map row_id ?ts)) (ph_bouts db)"
    unfolding bouts_ok_def
  proof (intro conjI ballI impI)
    fix m assume m: "m \<in> set (ph_bouts db)"
    then obtain t where t: "t \<in> set (ph_slots db)" "bout_slot m = Some (row_id t)" "bout_sane t m"
      using ok by (auto simp: bouts_ok_def)
    show "\<exists>u \<in> set (ph_slots db'). bout_slot m = Some (row_id u) \<and> (bout_sane u m \<or> row_id u \<in> set (map row_id ?ts) \<and> unfought m)"
    proof (rule bexI [of _ "?adv t"])
      show "?adv t \<in> set (ph_slots db')" using t(1) by (simp add: slots)
      show "bout_slot m = Some (row_id (?adv t)) \<and> (bout_sane (?adv t) m \<or> row_id (?adv t) \<in> set (map row_id ?ts) \<and> unfought m)"
        using t open_sides [OF t(1)] by (cases "fed_by self t") (auto simp: advance_row_unfed bout_sane_def)
    qed
  next
    fix u assume u: "u \<in> set (ph_slots db')" "reg_a u \<noteq> None \<and> reg_b u \<noteq> None"
    then obtain t where t: "t \<in> set (ph_slots db)" "u = ?adv t" by (auto simp: slots)
    have "boutOf (ph_bouts db) u = boutOf (ph_bouts db) t" by (simp add: boutOf_def t(2))
    then show "boutOf (ph_bouts db) u \<noteq> None \<or> row_id u \<in> set (map row_id ?ts)"
      using t u ok by (cases "fed_by self t") (auto simp: advance_row_unfed bouts_ok_def)
  qed (use ok in \<open>simp_all add: bouts_ok_def\<close>)
  moreover have "set ?ts \<subseteq> set (ph_slots db')" by (auto simp: slots)
  ultimately show ?thesis
    unfolding bouts using fold_sync_result [OF _ ids _ bye fresh] by blast
qed

text \<open>Retracting a reset that was not made leaves the slots as they are.\<close>

lemma bouts_after_retract:
  assumes "bouts_ok rows {} bs" and "distinct (map row_id rows)" and "set ts \<subseteq> set rows"
    and "\<And>t. t \<in> set ts \<Longrightarrow> reg_a t = None \<or> reg_b t = None"
  shows "bouts_ok rows {} (fold deleteUnplayedSlotMatch (map row_id ts) bs) \<and>
    (\<forall>u \<in> set rows. winnerOf (fold deleteUnplayedSlotMatch (map row_id ts) bs) u = winnerOf bs u)"
  using assms
proof (induction ts arbitrary: bs)
  case (Cons t ts)
  have "t \<in> set rows" "reg_a t = None \<or> reg_b t = None" using Cons.prems(3,4) by auto
  note del = delete_result [OF Cons.prems(1,2) this]
  have "bouts_ok rows {} (deleteUnplayedSlotMatch (row_id t) bs)" using del ..
  from Cons.IH [OF this Cons.prems(2)] show ?case using Cons.prems(3,4) del by auto
qed simp

lemma clear_row_open:
  assumes "\<And>h. side_ref s h = winnerRef self \<or> side_ref s h = loserRef self \<Longrightarrow> side_reg s h = None"
  shows "clear_row self s = s"
  using assms [of True] assms [of False] by (cases s) (auto simp: clear_row_def side_ref_def side_reg_def)

lemma bracket_invD:
  assumes "bracket_inv ty cfg rows seeded db" and "well_fed ty cfg rows"
  shows "ph_type db = ty" "ph_config db = cfg" "map skeleton (ph_slots db) = map skeleton rows"
    "bouts_ok (ph_slots db) {} (ph_bouts db)" "sides_fed seeded db" "places_apart db"
    "well_fed (ph_type db) (ph_config db) (ph_slots db)" "distinct (map row_id (ph_slots db))"
proof -
  show *: "ph_type db = ty" "ph_config db = cfg" "map skeleton (ph_slots db) = map skeleton rows"
    "bouts_ok (ph_slots db) {} (ph_bouts db)" "sides_fed seeded db" "places_apart db"
    using assms(1) by (simp_all add: bracket_inv_def)
  show "well_fed (ph_type db) (ph_config db) (ph_slots db)"
    using well_fed_skeleton [OF *(3) [symmetric] assms(2)] * by simp
  then show "distinct (map row_id (ph_slots db))" by (simp add: well_fed_def)
qed

lemma bout_step_won:
  assumes inv: "bracket_inv ty cfg rows seeded db" and wf: "well_fed ty cfg rows" and fresh: "fresh_ids new_id"
    and step: "bout_step new_id db db'"
  shows "\<exists>s w l. won db s w l db'"
  using step
proof cases
  case (fought m x y w t)
  note inv = bracket_invD [OF inv wf]
  note ok = inv(4)
  have slots: "distinct (map bout_slot (ph_bouts db))" "distinct (map bout_id (ph_bouts db))"
    using ok by (simp_all add: bouts_ok_def)
  obtain s where s: "s \<in> set (ph_slots db)" "bout_slot m = Some (row_id s)" "bout_sane s m"
    using ok fought(2) by (auto simp: bouts_ok_def)
  have regs: "reg_a s = Some x" "reg_b s = Some y" and unf: "unfought m"
    using s(3) fought(3-5) by (auto simp: bout_sane_def)
  have bout: "boutOf (ph_bouts db) s = Some m" using s fought(2) slots by (simp add: boutOf_Some)
  define l where "l = (if w = x then y else x)"
  have loser: "resolveLoser w (reg_a s) (reg_b s) = Some l" using regs fought(6) by (auto simp: resolveLoser_def l_def)
  let ?db1 = "finish_bout (bout_id m) w t db"
  have db1: "ph_slots ?db1 = ph_slots db" "ph_type ?db1 = ph_type db" "ph_config ?db1 = ph_config db"
    by (simp_all add: finish_bout_def)
  have fin: "bouts_ok (ph_slots db) {} (ph_bouts ?db1)"
    "winnerOf (ph_bouts ?db1) u = (if row_id u = row_id s then Some w else winnerOf (ph_bouts db) u)" for u
  proof -
    have "reg_a s \<noteq> None" "reg_b s \<noteq> None" "Some w \<in> {reg_a s, reg_b s}" using regs fought(6) by auto
    note fin = finish_bout_result [OF ok inv(8) s(1) bout unf s(3) this, where t = t]
    show "bouts_ok (ph_slots db) {} (ph_bouts ?db1)"
      "winnerOf (ph_bouts ?db1) u = (if row_id u = row_id s then Some w else winnerOf (ph_bouts db) u)" for u
      unfolding finish_bout_def using fin by simp_all
  qed
  let ?m = "m\<lparr>bout_status := MCompleted, bout_winner := Some w, bout_startedAt := Some t\<rparr>"
  have load: "loadMatch ?db1 (bout_id m) = Some ?m"
    unfolding loadMatch_def finish_bout_def
    by (simp add: find_map_key [where f = bout_id] find_key [OF slots(2) fought(2)])
  have loads: "loadSlot ?db1 (row_id s) = Some s"
    unfolding loadSlot_def db1 by (rule find_key [OF inv(8) s(1)])
  have slot: "slotOfMatch ?db1 (bout_id m) = Some s" using load loads s(2) by (simp add: slotOfMatch_def)
  have self: "selfRef ?db1 u = selfRef db u" for u by (simp add: selfRef_def db1)
  have none: "winnerOf (ph_bouts db) s = None" using bout unf by (simp add: winnerOf_def unfought_def)
  have open_side: "side_reg t h = None" if "t \<in> set (ph_slots db)"
    "side_ref t h = winnerRef (selfRef db s) \<or> side_ref t h = loserRef (selfRef db s)" for t h
  proof -
    have "fed_value db s won = None" for won using none by (simp add: fed_value_def)
    then show ?thesis using inv(5) that s(1) unfolding sides_fed_def by metis
  qed
  have fed_open: "reg_a t = None \<or> reg_b t = None" if "t \<in> set (ph_slots db)" "fed_by (selfRef db s) t" for t
  proof -
    note fed = that
    obtain h where "side_ref t h = winnerRef (selfRef db s) \<or> side_ref t h = loserRef (selfRef db s)"
      using fed(2) unfolding fed_by_side by blast
    from open_side [OF fed(1) this] show ?thesis by (cases h) (simp_all add: side_reg_def)
  qed
  have auto: "autoAdvance (ph_config db) \<noteq> Some False" using inv(7) by (simp add: well_fed_def)
  have handed: "onMatchCompleted new_id ?db1 (bout_id m) =
      (if ends_here db s w then retractGrandFinalReset ?db1 (bout_id m)
       else advanceFromSlot new_id (selfRef db s) w (Some l) ?db1)"
    using load slot auto regs loser
    by (simp add: onMatchCompleted_def advanceMatch_def db1 self ends_here_def)
  have "won db s w l db'"
  proof (cases "ends_here db s w")
    case True
    let ?ts = "filter (fed_by (selfRef db s)) (ph_slots db)"
    have "clearFedSides (selfRef db s) ?ts ?db1 = ?db1"
    proof -
      have "clear_row (selfRef db s) t = t" if "t \<in> set (ph_slots db)" for t
        by (rule clear_row_open) (use open_side [OF that] in blast)
      then show ?thesis by (simp add: clearFedSides_def db1 map_idI)
    qed
    then have retract: "retractGrandFinalReset ?db1 (bout_id m) =
        ?db1\<lparr>ph_bouts := fold deleteUnplayedSlotMatch (map row_id ?ts) (ph_bouts ?db1)\<rparr>"
      using slot by (simp add: retractGrandFinalReset_def downstreamSlots_def self db1 Let_def)
    have "bouts_ok (ph_slots db) {} (fold deleteUnplayedSlotMatch (map row_id ?ts) (ph_bouts ?db1)) \<and>
        (\<forall>u \<in> set (ph_slots db). winnerOf (fold deleteUnplayedSlotMatch (map row_id ?ts) (ph_bouts ?db1)) u = winnerOf (ph_bouts ?db1) u)"
      by (rule bouts_after_retract [OF fin(1) inv(8)]) (use fed_open in auto)
    then show ?thesis
      using True s(1) none loser regs fought(6) unfolding fought(1) handed if_P [OF True] retract won_def
      by (auto simp: db1 fin(2) side_reg_def l_def)
  next
    case False
    have ok1: "bouts_ok (ph_slots ?db1) {} (ph_bouts ?db1)" and wf1: "well_fed (ph_type ?db1) (ph_config ?db1) (ph_slots ?db1)"
      using fin(1) inv(7) by (simp_all add: db1)
    note adv = bouts_after_advance [OF ok1 wf1 fresh, of "selfRef db s" w l]
    have "bouts_ok (ph_slots (advanceFromSlot new_id (selfRef db s) w (Some l) ?db1)) {} (ph_bouts (advanceFromSlot new_id (selfRef db s) w (Some l) ?db1)) \<and>
      (\<forall>u. winnerOf (ph_bouts (advanceFromSlot new_id (selfRef db s) w (Some l) ?db1)) u = winnerOf (ph_bouts ?db1) u)"
      by (rule adv) (use fed_open db1 in auto)
    moreover have "ph_type (advanceFromSlot new_id (selfRef db s) w (Some l) ?db1) = ph_type db"
      "ph_config (advanceFromSlot new_id (selfRef db s) w (Some l) ?db1) = ph_config db"
      by (simp_all add: advanceFromSlot_def Let_def db1)
    ultimately show ?thesis
      using False s(1) none loser regs fought(6) unfolding fought(1) handed if_not_P [OF False] won_def
      by (auto simp: db1 fin(2) side_reg_def l_def advance_slots)
  qed
  then show ?thesis by blast
qed

subsection \<open>The invariant of a run\<close>

text \<open>What a side holds after the bout: the two fighters where they are referred to, or what it held.\<close>

lemma won_known:
  assumes "won db s w l db'"
  shows "reg_a s \<noteq> None" and "reg_b s \<noteq> None"
  using assms by (auto simp: won_def side_reg_def split: if_splits)

lemma won_side:
  assumes inv: "bracket_inv ty cfg rows seeded db" and wf: "well_fed ty cfg rows" and won: "won db s w l db'"
    and t: "t \<in> set (ph_slots db)" and f: "f = (if ends_here db s w then t else advance_row (selfRef db s) w (Some l) t)"
  shows "side_reg f h =
    (if side_ref t h = winnerRef (selfRef db s) then (if ends_here db s w then None else Some w)
     else if side_ref t h = loserRef (selfRef db s) then (if ends_here db s w then None else Some l)
     else side_reg t h)"
proof -
  note inv = bracket_invD [OF inv wf]
  have "fed_value db s b = None" for b using won by (simp add: won_def fed_value_def)
  then have "side_reg t h = None" if "side_ref t h = winnerRef (selfRef db s) \<or> side_ref t h = loserRef (selfRef db s)"
    using inv(5) t won that unfolding sides_fed_def won_def by metis
  then show ?thesis unfolding f by (auto simp: advance_row_reg advance_side_def)
qed

lemma won_regs:
  assumes "won db s w l db'" and "t \<in> set (ph_slots db)" and "reg_a t \<noteq> None" and "reg_b t \<noteq> None"
  shows "t \<in> set (ph_slots db')"
  using assms advance_row_known [OF assms(3,4)] by (auto simp: won_def image_iff) (metis)

lemma decided_known:
  assumes "bouts_ok (ph_slots db) {} (ph_bouts db)" and "distinct (map row_id (ph_slots db))" and "t \<in> set (ph_slots db)"
    and "winnerOf (ph_bouts db) t \<noteq> None"
  shows "reg_a t \<noteq> None" and "reg_b t \<noteq> None"
proof -
  obtain m where m: "boutOf (ph_bouts db) t = Some m" "bout_winner m \<noteq> None"
    using assms(4) by (auto simp: winnerOf_def split: option.splits)
  have "bout_sane t m" using bouts_okD [OF assms(1-3) m(1)] by simp
  then show "reg_a t \<noteq> None" "reg_b t \<noteq> None" using m(2) by (auto simp: bout_sane_def unfought_def)
qed

lemma won_fed_value:
  assumes inv: "bracket_inv ty cfg rows seeded db" and wf: "well_fed ty cfg rows" and won: "won db s w l db'"
    and t: "t \<in> set (ph_slots db)" and f: "f = (if ends_here db s w then t else advance_row (selfRef db s) w (Some l) t)"
  shows "fed_value db' f b =
    (if t = s then (if ends_here db s w then None else if b then Some w else Some l) else fed_value db t b)"
proof -
  note inv = bracket_invD [OF inv wf]
  have id: "row_id f = row_id t" "row_round f = row_round t" by (auto simp: f)
  have win: "winnerOf (ph_bouts db') f = (if row_id t = row_id s then Some w else winnerOf (ph_bouts db) t)"
    using won t by (simp add: won_def winnerOf_def boutOf_def id)
  have same: "ph_type db' = ph_type db" "ph_config db' = ph_config db" using won by (simp_all add: won_def)
  show ?thesis
  proof (cases "t = s")
    case True
    then have "f = s" using advance_row_known [OF won_known [OF won]] by (simp add: f)
    then show ?thesis using True win won by (simp add: fed_value_def ended_def ends_here_def same won_def)
  next
    case False
    then have other: "row_id t \<noteq> row_id s" using same_row [OF inv(8) t] won by (auto simp: won_def)
    show ?thesis
    proof (cases "winnerOf (ph_bouts db) t")
      case None
      then show ?thesis using False other win by (simp add: fed_value_def)
    next
      case (Some v)
      then have "reg_a t \<noteq> None" "reg_b t \<noteq> None" using decided_known [OF inv(4,8) t] by simp_all
      then have "f = t" using advance_row_known by (simp add: f)
      then show ?thesis using False other win Some by (simp add: fed_value_def ended_def same)
    qed
  qed
qed

lemma won_sides_fed:
  assumes inv: "bracket_inv ty cfg rows seeded db" and wf: "well_fed ty cfg rows" and won: "won db s w l db'"
  shows "sides_fed seeded db'"
proof -
  note facts = bracket_invD [OF inv wf]
  define adv where "adv t = (if ends_here db s w then t else advance_row (selfRef db s) w (Some l) t)" for t
  have "adv = (if ends_here db s w then (\<lambda>t. t) else advance_row (selfRef db s) w (Some l))" by (auto simp: adv_def fun_eq_iff)
  moreover have "ph_slots db' = (if ends_here db s w then ph_slots db else map (advance_row (selfRef db s) w (Some l)) (ph_slots db))"
    using won by (simp add: won_def)
  ultimately have slots: "ph_slots db' = map adv (ph_slots db)" by simp
  have self: "selfRef db' (adv t) = selfRef db t" for t using won by (simp add: won_def selfRef_def adv_def)
  have ref: "side_ref (adv t) h = side_ref t h" for t h by (simp add: adv_def)
  have inj: "selfRef db t = selfRef db u \<longleftrightarrow> t = u" if "t \<in> set (ph_slots db)" "u \<in> set (ph_slots db)" for t u
    using well_fed_self [OF facts(7) that] by (auto simp: self_of_def selfRef_def)
  have s: "s \<in> set (ph_slots db)" using won by (simp add: won_def)
  show ?thesis
    unfolding sides_fed_def slots set_map ball_simps self ref
  proof (intro ballI allI conjI impI)
    fix t h assume t: "t \<in> set (ph_slots db)"
    note side = won_side [OF inv wf won t adv_def, of h]
    show "side_reg (adv t) h = seeded (side_ref t h)" if "is_seed_ref (side_ref t h)"
    proof -
      have "side_reg t h = seeded (side_ref t h)" using facts(5) t that by (simp add: sides_fed_def)
      then show ?thesis using side that by auto
    qed
    fix u assume u: "u \<in> set (ph_slots db)"
    note fv = won_fed_value [OF inv wf won u adv_def]
    have old: "side_ref t h = winnerRef (selfRef db u) \<Longrightarrow> side_reg t h = fed_value db u True"
      "side_ref t h = loserRef (selfRef db u) \<Longrightarrow> side_reg t h = fed_value db u False"
      using facts(5) t u by (auto simp: sides_fed_def)
    show "side_reg (adv t) h = fed_value db' (adv u) True" if "side_ref t h = winnerRef (selfRef db u)"
      using side fv [of True] old(1) that inj [OF u s] by simp
    show "side_reg (adv t) h = fed_value db' (adv u) False" if "side_ref t h = loserRef (selfRef db u)"
      using side fv [of False] old(2) that inj [OF u s] by simp
  qed
qed

lemma places_apartD:
  assumes "places_apart db" and "t \<in> set (ph_slots db)" and "u \<in> set (ph_slots db)"
    and "winnerOf (ph_bouts db) t = None" and "winnerOf (ph_bouts db) u = None"
    and "side_reg t h = Some x" and "side_reg u k = Some x"
  shows "row_id t = row_id u \<and> h = k"
  using assms unfolding places_apart_def by (metis option.distinct(1))

lemma won_places_apart:
  assumes inv: "bracket_inv ty cfg rows seeded db" and wf: "well_fed ty cfg rows" and won: "won db s w l db'"
  shows "places_apart db'"
proof -
  note facts = bracket_invD [OF inv wf]
  define adv where "adv = (if ends_here db s w then (\<lambda>t. t) else advance_row (selfRef db s) w (Some l))"
  have adv: "adv t = (if ends_here db s w then t else advance_row (selfRef db s) w (Some l) t)" for t by (simp add: adv_def)
  have slots: "ph_slots db' = map adv (ph_slots db)" using won by (simp add: won_def adv_def)
  have s: "s \<in> set (ph_slots db)" "winnerOf (ph_bouts db) s = None" using won by (simp_all add: won_def)
  obtain hw where hw: "side_reg s hw = Some w" "side_reg s (\<not> hw) = Some l" using won by (auto simp: won_def)
  have wl: "w \<noteq> l" using places_apartD [OF facts(6) s(1,1,2,2) hw(1), of "\<not> hw"] hw(2) by auto
  have undecided: "t \<noteq> s \<and> winnerOf (ph_bouts db) t = None"
    if "t \<in> set (ph_slots db)" "winnerOf (ph_bouts db') (adv t) = None" for t
  proof -
    have "winnerOf (ph_bouts db') (adv t) = winnerOf (ph_bouts db') t" by (simp add: winnerOf_def boutOf_def adv)
    then show ?thesis using won that by (auto simp: won_def split: if_splits)
  qed
  have held: "(side_ref t h = winnerRef (selfRef db s) \<and> x = w) \<or> (side_ref t h = loserRef (selfRef db s) \<and> x = l) \<or>
      side_reg t h = Some x \<and> x \<noteq> w \<and> x \<noteq> l"
    if t: "t \<in> set (ph_slots db)" "winnerOf (ph_bouts db') (adv t) = None" "side_reg (adv t) h = Some x" for t h x
  proof -
    have "side_reg t h = Some x \<Longrightarrow> x \<noteq> w \<and> x \<noteq> l"
    proof -
      assume "side_reg t h = Some x"
      then show ?thesis
        using undecided [OF t(1,2)] places_apartD [OF facts(6) t(1) s(1) _ s(2), of h x] hw
          same_row [OF facts(8) t(1) s(1)] by metis
    qed
    then show ?thesis
      using won_side [OF inv wf won t(1) adv, of h] t(3) by (auto split: if_splits)
  qed
  have "row_id t = row_id u \<and> h = k"
    if t: "t \<in> set (ph_slots db)" "winnerOf (ph_bouts db') (adv t) = None" "side_reg (adv t) h = Some x"
      and u: "u \<in> set (ph_slots db)" "winnerOf (ph_bouts db') (adv u) = None" "side_reg (adv u) k = Some x" for t u h k x
    using held [OF t] held [OF u]
  proof (elim disjE conjE)
    assume "side_ref t h = winnerRef (selfRef db s)" "side_ref u k = winnerRef (selfRef db s)"
    then show ?thesis using well_fed_once [OF facts(7) t(1) u(1), of h k] by simp
  next
    assume "side_ref t h = loserRef (selfRef db s)" "side_ref u k = loserRef (selfRef db s)"
    then show ?thesis using well_fed_once [OF facts(7) t(1) u(1), of h k] by simp
  next
    assume "side_reg t h = Some x" "side_reg u k = Some x"
    then show ?thesis
      using places_apartD [OF facts(6) t(1) u(1), of h x k] undecided [OF t(1,2)] undecided [OF u(1,2)] by simp
  qed (use wl in auto)
  moreover have "row_id (adv t) = row_id t" for t by (simp add: adv)
  ultimately show ?thesis
    unfolding places_apart_def slots by (auto split: option.splits) (metis option.exhaust)+
qed

lemma bout_step_inv:
  assumes "bracket_inv ty cfg rows seeded db" and "well_fed ty cfg rows" and "fresh_ids new_id"
    and "bout_step new_id db db'"
  shows "bracket_inv ty cfg rows seeded db' \<and> decided db' = Suc (decided db)"
proof -
  obtain s w l where won: "won db s w l db'" using bout_step_won [OF assms] by blast
  note facts = bracket_invD [OF assms(1,2)]
  let ?adv = "advance_row (selfRef db s) w (Some l)"
  have "map skeleton (ph_slots db') = map skeleton (ph_slots db)"
    using won by (cases "ends_here db s w") (simp_all add: won_def comp_def)
  then have "map skeleton (ph_slots db') = map skeleton rows" using facts(3) by simp
  moreover have "ph_type db' = ty" "ph_config db' = cfg" using won facts(1,2) by (simp_all add: won_def)
  moreover have "bouts_ok (ph_slots db') {} (ph_bouts db')" using won unfolding won_def by blast
  ultimately have inv: "bracket_inv ty cfg rows seeded db'"
    unfolding bracket_inv_def using won_sides_fed [OF assms(1,2) won] won_places_apart [OF assms(1,2) won] by blast
  have once: "length (filter (\<lambda>t. P t \<or> t = s) xs) = Suc (length (filter P xs))"
    if "distinct xs" "s \<in> set xs" "\<not> P s" for xs P
    using that by (induction xs) (auto intro!: arg_cong [of _ _ length] filter_cong)
  have eq: "winnerOf (ph_bouts db') t \<noteq> None \<longleftrightarrow> winnerOf (ph_bouts db) t \<noteq> None \<or> t = s"
    if "t \<in> set (ph_slots db)" for t
    using won that same_row [OF facts(8) that] by (auto simp: won_def)
  have adv: "winnerOf (ph_bouts db') (?adv t) = winnerOf (ph_bouts db') t" for t by (simp add: winnerOf_def boutOf_def)
  have "decided db' = length (filter (\<lambda>t. winnerOf (ph_bouts db') t \<noteq> None) (ph_slots db))"
  proof (cases "ends_here db s w")
    case True
    then show ?thesis using won by (simp add: won_def decided_def)
  next
    case False
    then have "ph_slots db' = map ?adv (ph_slots db)" using won by (simp add: won_def)
    then show ?thesis by (simp add: decided_def filter_map comp_def adv)
  qed
  also have "\<dots> = length (filter (\<lambda>t. winnerOf (ph_bouts db) t \<noteq> None \<or> t = s) (ph_slots db))"
    using eq by (simp cong: filter_cong)
  also have "\<dots> = Suc (decided db)"
    unfolding decided_def using once [of "ph_slots db" "\<lambda>t. winnerOf (ph_bouts db) t \<noteq> None"] won facts(8)
    by (simp add: won_def distinct_map)
  finally show ?thesis using inv by simp
qed

text \<open>A run decides one bout a step, so it is no longer than the bracket has slots.\<close>

lemma bout_run_inv:
  assumes "bout_run new_id db k db'" and "bracket_inv ty cfg rows seeded db" and "well_fed ty cfg rows" and "fresh_ids new_id"
  shows "bracket_inv ty cfg rows seeded db' \<and> decided db' = k + decided db"
  using assms
proof (induction rule: bout_run.induct)
  case (more db k db' db'')
  then show ?case using bout_step_inv [of ty cfg rows seeded db' new_id db''] by simp
qed simp

lemma decided_le: "decided db \<le> length (ph_slots db)"
  by (simp add: decided_def)

text \<open>
  Where no bout can be fought every slot is decided, except those after a final that ended
  the bracket: a slot of lowest round that is still open would have both its fighters.
\<close>

lemma stuck_decided:
  assumes inv: "bracket_inv ty cfg rows seeded db" and wf: "well_fed ty cfg rows"
    and seeds: "\<And>r. is_seed_ref r \<Longrightarrow> r \<in> set (concat (map (\<lambda>s. [a_ref s, b_ref s]) (ph_slots db))) \<Longrightarrow> seeded r \<noteq> None"
    and stuck: "\<not> (\<exists>db'. bout_step new_id db db')"
    and t: "t \<in> set (ph_slots db)"
  shows "winnerOf (ph_bouts db) t \<noteq> None \<or> (\<exists>s \<in> set (ph_slots db). ended db s \<and> row_round s < row_round t)"
  using t
proof (induction "row_round t" arbitrary: t rule: less_induct)
  case less
  note facts = bracket_invD [OF inv wf]
  show ?case
  proof (rule ccontr)
    assume open_slot: "\<not> ?thesis"
    have known: "side_reg t h \<noteq> None" for h
    proof (rule well_fed_ref [OF facts(7) less.prems, of h])
      assume seed: "is_seed_ref (side_ref t h)"
      have "side_ref t h \<in> set (concat (map (\<lambda>s. [a_ref s, b_ref s]) (ph_slots db)))"
        using less.prems by (auto simp: side_ref_def intro!: bexI [of _ t])
      then show ?thesis using seeds [OF seed] facts(5) less.prems seed by (simp add: sides_fed_def)
    next
      fix s assume s: "s \<in> set (ph_slots db)" "row_round s < row_round t"
      then have win: "winnerOf (ph_bouts db) s \<noteq> None" and e: "\<not> ended db s"
        using less.hyps [OF s(2,1)] open_slot less_trans by blast+
      { assume "side_ref t h = winnerRef (self_of (ph_type db) (ph_config db) s)"
        then have "side_reg t h = fed_value db s True"
          using facts(5) less.prems s(1) by (simp add: sides_fed_def self_of_def selfRef_def)
        then show ?thesis using win e by (auto simp: fed_value_def) }
      { assume "side_ref t h = loserRef (self_of (ph_type db) (ph_config db) s)"
        then have "side_reg t h = fed_value db s False"
          using facts(5) less.prems s(1) by (simp add: sides_fed_def self_of_def selfRef_def)
        moreover obtain m where "boutOf (ph_bouts db) s = Some m" "bout_winner m \<noteq> None"
          using win by (auto simp: winnerOf_def split: option.splits)
        moreover from this have "bout_sane s m" using bouts_okD [OF facts(4,8) s(1)] by simp
        ultimately show ?thesis using win e
          by (auto simp: fed_value_def winnerOf_def bout_sane_def unfought_def resolveLoser_def) }
    qed
    then have "reg_a t \<noteq> None \<and> reg_b t \<noteq> None" unfolding side_known by (intro allI)
    then have "boutOf (ph_bouts db) t \<noteq> None" using facts(4) less.prems unfolding bouts_ok_def by blast
    then obtain m where m: "boutOf (ph_bouts db) t = Some m" by blast
    have "bout_winner m = None" using open_slot m by (simp add: winnerOf_def)
    moreover have sane: "bout_sane t m" using bouts_okD [OF facts(4,8) less.prems m] by simp
    ultimately have "unfought m" by (auto simp: bout_sane_def)
    moreover obtain x y where "bout_red m = Some x" "bout_blue m = Some y"
      using known [of True] known [of False] sane by (auto simp: bout_sane_def side_reg_def)
    moreover have "m \<in> set (ph_bouts db)" using m facts(4) by (simp add: boutOf_Some bouts_ok_def)
    ultimately show False using stuck bout_step.fought [of m db x y x] by (auto simp: unfought_def)
  qed
qed

subsection \<open>The drawn bracket\<close>

definition seeded_by :: "ranked_registration list \<Rightarrow> string \<Rightarrow> string option" where
  "seeded_by rankings r = (case parseSeed (Some r) of None \<Rightarrow> None | Some k \<Rightarrow> byRank rankings k)"

text \<open>The tables as the generation leaves them: nobody drawn, a blank bout for every slot of the draw.\<close>

definition blank_table :: "bracket_db \<Rightarrow> bool" where
  "blank_table db \<longleftrightarrow>
     list_all (\<lambda>s. reg_a s = None \<and> reg_b s = None) (ph_slots db) \<and>
     distinct (map bout_id (ph_bouts db)) \<and> distinct (map bout_slot (ph_bouts db)) \<and>
     (\<forall>m \<in> set (ph_bouts db). unfought m \<and> bout_red m = None \<and> bout_blue m = None \<and>
        (\<exists>s \<in> set (ph_slots db). bout_slot m = Some (row_id s))) \<and>
     (\<forall>s \<in> set (seed_rows db). boutOf (ph_bouts db) s \<noteq> None)"

text \<open>The loop over the plan. \<open>rows\<close> are the slots it ends with, \<open>rest\<close> those it has not come to.\<close>

definition seeding_ok :: "slot_row list \<Rightarrow> string set \<Rightarrow> bout_row list \<Rightarrow> bool" where
  "seeding_ok rows rest bs \<longleftrightarrow>
     distinct (map bout_id bs) \<and> distinct (map bout_slot bs) \<and>
     (\<forall>m \<in> set bs. unfought m \<and> (\<exists>s \<in> set rows. bout_slot m = Some (row_id s) \<and>
        (if row_id s \<in> rest then bout_red m = None \<and> bout_blue m = None
         else bout_red m = reg_a s \<and> bout_blue m = reg_b s))) \<and>
     (\<forall>s \<in> set rows. reg_a s \<noteq> None \<or> reg_b s \<noteq> None \<longrightarrow> boutOf bs s \<noteq> None)"

lemma seed_bout_ok:
  assumes ok: "seeding_ok rows rest bs" and ids: "distinct (map row_id rows)" and t: "t \<in> set rows" "row_id t \<in> rest"
    and u: "slotId u = row_id t" "registrationAId u = reg_a t" "registrationBId u = reg_b t"
  shows "seeding_ok rows (rest - {row_id t}) (seed_bout new_id u bs)"
proof (cases "reg_a t = None \<and> reg_b t = None")
  case True
  have "\<exists>s \<in> set rows. bout_slot m = Some (row_id s) \<and>
        (if row_id s \<in> rest - {row_id t} then bout_red m = None \<and> bout_blue m = None
         else bout_red m = reg_a s \<and> bout_blue m = reg_b s)" if m: "m \<in> set bs" for m
  proof -
    obtain s where s: "s \<in> set rows" "bout_slot m = Some (row_id s)"
      "if row_id s \<in> rest then bout_red m = None \<and> bout_blue m = None else bout_red m = reg_a s \<and> bout_blue m = reg_b s"
      using ok m unfolding seeding_ok_def by blast
    show ?thesis
      using s t True same_row [OF ids s(1) t(1)] by (intro bexI [OF _ s(1)]) (auto split: if_splits)
  qed
  then show ?thesis using ok True u by (simp add: seeding_ok_def seed_bout_def)
next
  case False
  have slots: "distinct (map bout_slot bs)" "distinct (map bout_id bs)" using ok by (simp_all add: seeding_ok_def)
  obtain m where m: "boutOf bs t = Some m" using ok t False by (auto simp: seeding_ok_def)
  then have mem: "m \<in> set bs" "bout_slot m = Some (row_id t)" using slots by (simp_all add: boutOf_Some)
  let ?f = "\<lambda>m'. if bout_id m' = bout_id m
      then m'\<lparr>bout_red := (case reg_a t of None \<Rightarrow> bout_red m' | Some r \<Rightarrow> Some r),
              bout_blue := (case reg_b t of None \<Rightarrow> bout_blue m' | Some r \<Rightarrow> Some r)\<rparr> else m'"
  have sb: "seed_bout new_id u bs = map ?f bs"
    using m False u by (auto simp: seed_bout_def boutOf_def)
  have same: "bout_id m' = bout_id m \<longleftrightarrow> m' = m" if "m' \<in> set bs" for m'
    using that mem slots(2) inj_onD [of bout_id "set bs" m' m] by (auto simp: distinct_map)
  have blank: "bout_red m = None" "bout_blue m = None" "unfought m"
  proof -
    obtain s where s: "s \<in> set rows" "bout_slot m = Some (row_id s)"
      "if row_id s \<in> rest then bout_red m = None \<and> bout_blue m = None else bout_red m = reg_a s \<and> bout_blue m = reg_b s"
      using ok mem(1) unfolding seeding_ok_def by blast
    then show "bout_red m = None" "bout_blue m = None" using mem(2) t(2) by auto
    show "unfought m" using ok mem(1) by (simp add: seeding_ok_def)
  qed
  have ids': "map bout_id (map ?f bs) = map bout_id bs" "map bout_slot (map ?f bs) = map bout_slot bs"
    by (simp_all add: comp_def)
  have "boutOf (map ?f bs) s = map_option ?f (boutOf bs s)" for s by (rule boutOf_map) simp
  then have there: "boutOf (map ?f bs) s \<noteq> None \<longleftrightarrow> boutOf bs s \<noteq> None" for s by simp
  have "unfought (?f m') \<and> (\<exists>s \<in> set rows. bout_slot (?f m') = Some (row_id s) \<and>
        (if row_id s \<in> rest - {row_id t} then bout_red (?f m') = None \<and> bout_blue (?f m') = None
         else bout_red (?f m') = reg_a s \<and> bout_blue (?f m') = reg_b s))" if m': "m' \<in> set bs" for m'
  proof (cases "m' = m")
    case True
    then show ?thesis using t(1) mem(2) blank by (auto simp: unfought_def intro!: bexI [of _ t] split: option.split)
  next
    case False
    obtain s where s: "s \<in> set rows" "bout_slot m' = Some (row_id s)"
      "if row_id s \<in> rest then bout_red m' = None \<and> bout_blue m' = None else bout_red m' = reg_a s \<and> bout_blue m' = reg_b s"
      and un: "unfought m'"
      using ok m' unfolding seeding_ok_def by blast
    have "row_id s \<noteq> row_id t"
      using False m' mem s(2) slots(1) inj_onD [of bout_slot "set bs" m' m] by (auto simp: distinct_map)
    then show ?thesis using s un same [OF m'] False by auto
  qed
  then show ?thesis
    using ok unfolding sb seeding_ok_def ids' there set_map ball_simps by blast
qed

lemma seed_bouts_ok:
  assumes "seeding_ok rows rest bs" and "distinct (map row_id rows)" and "set ts \<subseteq> set rows" and "distinct (map row_id ts)"
    and "set (map row_id ts) \<subseteq> rest"
  shows "seeding_ok rows (rest - set (map row_id ts))
    (fold (seed_bout new_id) (map (\<lambda>t. \<lparr>slotId = row_id t, registrationAId = reg_a t, registrationBId = reg_b t\<rparr>) ts) bs)"
  using assms
proof (induction ts arbitrary: rest bs)
  case (Cons t ts)
  have "seeding_ok rows (rest - {row_id t})
      (seed_bout new_id \<lparr>slotId = row_id t, registrationAId = reg_a t, registrationBId = reg_b t\<rparr> bs)"
    using Cons.prems by (intro seed_bout_ok) auto
  moreover have "set ts \<subseteq> set rows" "distinct (map row_id ts)" using Cons.prems(3,4) by simp_all
  moreover have "set (map row_id ts) \<subseteq> rest - {row_id t}"
  proof -
    have "row_id t \<notin> set (map row_id ts)" "set (map row_id ts) \<subseteq> rest" using Cons.prems(4,5) by simp_all
    then show ?thesis by blast
  qed
  ultimately show ?case using Cons.IH [OF _ Cons.prems(2)] by (simp add: Diff_insert2 [of rest "row_id t" "row_id ` set ts"])
qed simp

lemma fold_seed_update:
  "fold (seed_update new_id) us db =
   db\<lparr>ph_slots := map (fold (\<lambda>u s. if row_id s = slotId u then s\<lparr>reg_a := registrationAId u, reg_b := registrationBId u\<rparr> else s) us) (ph_slots db),
      ph_bouts := fold (seed_bout new_id) us (ph_bouts db)\<rparr>"
  by (induction us arbitrary: db) (simp_all add: seed_update_def seed_slot_def Let_def comp_def)

text \<open>A ranking of everybody: the ranks are 1, 2, \<dots> and nobody stands in it twice.\<close>

definition full_ranking :: "nat \<Rightarrow> ranked_registration list \<Rightarrow> bool" where
  "full_ranking n rankings \<longleftrightarrow>
     length rankings = n \<and> map rr_rank rankings = map int [1..<n + 1] \<and> distinct (map rr_registrationId rankings)"

definition seeded_row :: "ranked_registration list \<Rightarrow> slot_row \<Rightarrow> slot_row" where
  "seeded_row rankings s = s\<lparr>reg_a := seeded_by rankings (a_ref s), reg_b := seeded_by rankings (b_ref s)\<rparr>"

lemma seeded_row_simps [simp]:
  "row_id (seeded_row rk s) = row_id s" "row_round (seeded_row rk s) = row_round s" "skeleton (seeded_row rk s) = skeleton s"
  "a_ref (seeded_row rk s) = a_ref s" "b_ref (seeded_row rk s) = b_ref s" "b_type (seeded_row rk s) = b_type s"
  "side_ref (seeded_row rk s) h = side_ref s h" "side_reg (seeded_row rk s) h = seeded_by rk (side_ref s h)"
  by (simp_all add: seeded_row_def skeleton_def side_ref_def side_reg_def)

lemma seeded_by_feeder [simp]: "seeded_by rk (winnerRef x) = None" "seeded_by rk (loserRef x) = None"
  unfolding seeded_by_def winnerRef_def loserRef_def parse_other by simp_all

lemma seeded_by_once:
  assumes "full_ranking n rk" and "is_seed_ref r" and "is_seed_ref r'" and "seeded_by rk r = Some x" and "seeded_by rk r' = Some x"
  shows "r = r'"
proof -
  obtain k k' where k: "r = ''seed '' @ show_nat k" "r' = ''seed '' @ show_nat k'" using assms(2,3) by (auto simp: is_seed_ref_def)
  have rank: "rr_rank (rk ! i) = int i + 1" if "i < length rk" for i
  proof -
    have "map rr_rank rk ! i = map int [1..<n + 1] ! i" using assms(1) by (simp add: full_ranking_def)
    then show ?thesis using that assms(1) by (simp add: full_ranking_def del: upt_Suc)
  qed
  have mem: "\<exists>i < length rk. j = int i + 1 \<and> x = rr_registrationId (rk ! i)" if "byRank rk j = Some x" for j
  proof -
    have "(j, x) \<in> set (map (\<lambda>r. (rr_rank r, rr_registrationId r)) rk)"
      using map_of_SomeD that by (fastforce simp: byRank_def)
    then obtain i where "i < length rk" "j = rr_rank (rk ! i)" "x = rr_registrationId (rk ! i)"
      by (auto simp: in_set_conv_nth)
    then show ?thesis using rank by auto
  qed
  have "byRank rk (int k) = Some x" "byRank rk (int k') = Some x" using assms(4,5) unfolding seeded_by_def k parse_seed_name by simp_all
  then obtain i i' where i: "i < length rk" "int k = int i + 1" "x = rr_registrationId (rk ! i)"
    and i': "i' < length rk" "int k' = int i' + 1" "x = rr_registrationId (rk ! i')"
    using mem by blast
  have "distinct (map rr_registrationId rk)" using assms(1) by (simp add: full_ranking_def)
  then have "i = i'" using i i' by (simp add: distinct_conv_nth) metis
  then show ?thesis using i i' k by simp
qed

lemma fold_seed_row:
  assumes "distinct (map row_id us)"
  shows "fold (\<lambda>u s. if row_id s = slotId u then s\<lparr>reg_a := registrationAId u, reg_b := registrationBId u\<rparr> else s)
      (map (\<lambda>t. \<lparr>slotId = row_id t, registrationAId = ra t, registrationBId = rb t\<rparr>) us) s =
    (case find (\<lambda>t. row_id t = row_id s) us of None \<Rightarrow> s | Some t \<Rightarrow> s\<lparr>reg_a := ra t, reg_b := rb t\<rparr>)"
  using assms
proof (induction us arbitrary: s)
  case (Cons u us)
  have none: "find (\<lambda>t. row_id t = row_id u) us = None" using Cons.prems by (auto simp: find_None_iff image_iff dest: sym)
  show ?case using Cons none by (cases "row_id s = row_id u") auto
qed simp


text \<open>The plan for the seed rows writes exactly the seeded rows.\<close>

lemma populated_slots:
  assumes "well_fed ty cfg (ph_slots db)" and "blank_table db"
  shows "map (fold (\<lambda>u s. if row_id s = slotId u then s\<lparr>reg_a := registrationAId u, reg_b := registrationBId u\<rparr> else s)
      (buildR1SeedingPlan rk (map r1_slot_of_row (seed_rows db)))) (ph_slots db) = map (seeded_row rk) (ph_slots db)"
proof (rule map_cong [OF refl])
  fix s assume s: "s \<in> set (ph_slots db)"
  have ids: "distinct (map row_id (ph_slots db))" using assms(1) by (simp add: well_fed_def)
  then have seeds: "distinct (map row_id (seed_rows db))" by (simp add: seed_rows_def distinct_map_sort_by distinct_map_filter)
  have plan: "buildR1SeedingPlan rk (map r1_slot_of_row us) =
      map (\<lambda>t. \<lparr>slotId = row_id t, registrationAId = seeded_by rk (a_ref t), registrationBId = seeded_by rk (b_ref t)\<rparr>) us" for us
    by (simp add: buildR1SeedingPlan_def r1_slot_of_row_def seeded_by_def)
  have blank: "reg_a s = None" "reg_b s = None" using assms(2) s by (simp_all add: blank_table_def list_all_iff)
  show "fold (\<lambda>u s. if row_id s = slotId u then s\<lparr>reg_a := registrationAId u, reg_b := registrationBId u\<rparr> else s)
      (buildR1SeedingPlan rk (map r1_slot_of_row (seed_rows db))) s = seeded_row rk s"
  proof (cases "row_round s \<in> {0, 1}")
    case True
    then have "s \<in> set (seed_rows db)" using s by (simp add: seed_rows_def)
    then have f: "find (\<lambda>t. row_id t = row_id s) (seed_rows db) = Some s" by (rule find_key [OF seeds])
    show ?thesis unfolding plan fold_seed_row [OF seeds] f by (simp add: seeded_row_def)
  next
    case False
    have "side_ref s h \<in> range winnerRef \<union> range loserRef" for h
      using False by (rule_tac well_fed_ref [OF assms(1) s, of h]) auto
    then have "seeded_by rk (side_ref s h) = None" for h
      using seeded_by_feeder by (metis Un_iff rangeE)
    from this [of True] this [of False] have none: "seeded_row rk s = s"
      using blank by (cases s) (simp add: seeded_row_def side_ref_def)
    have "row_id t \<noteq> row_id s" if "t \<in> set (seed_rows db)" for t
    proof
      assume "row_id t = row_id s"
      moreover have "t \<in> set (ph_slots db)" using that by (simp add: seed_rows_def)
      ultimately have "t = s" using same_row [OF ids _ s] by blast
      then show False using that False by (simp add: seed_rows_def)
    qed
    then have "find (\<lambda>t. row_id t = row_id s) (seed_rows db) = None" by (simp add: find_None_iff)
    then show ?thesis unfolding plan fold_seed_row [OF seeds] none by simp
  qed
qed

lemma blank_seeding_ok:
  assumes "blank_table db" and "well_fed ty cfg (ph_slots db)"
  shows "seeding_ok (map (seeded_row rk) (ph_slots db)) (set (map row_id (ph_slots db))) (ph_bouts db)"
  unfolding seeding_ok_def
proof (intro conjI ballI impI)
  fix m assume m: "m \<in> set (ph_bouts db)"
  show "unfought m" using assms(1) m by (simp add: blank_table_def)
  have "bout_red m = None" "bout_blue m = None" "\<exists>s \<in> set (ph_slots db). bout_slot m = Some (row_id s)"
    using assms(1) m by (simp_all add: blank_table_def)
  then show "\<exists>s \<in> set (map (seeded_row rk) (ph_slots db)). bout_slot m = Some (row_id s) \<and>
      (if row_id s \<in> set (map row_id (ph_slots db)) then bout_red m = None \<and> bout_blue m = None
       else bout_red m = reg_a s \<and> bout_blue m = reg_b s)"
    by auto
next
  fix s' assume s': "s' \<in> set (map (seeded_row rk) (ph_slots db))" "reg_a s' \<noteq> None \<or> reg_b s' \<noteq> None"
  then obtain s where s: "s \<in> set (ph_slots db)" "s' = seeded_row rk s" by auto
  obtain h where h: "seeded_by rk (side_ref s h) \<noteq> None"
    using s'(2) unfolding s(2) seeded_row_def by (auto simp: side_ref_def split: if_splits) (metis)+
  have "row_round s \<le> 1"
    using h by (rule_tac well_fed_ref [OF assms(2) s(1), of h]) auto
  then have "s \<in> set (seed_rows db)" using s(1) by (auto simp: seed_rows_def)
  then have "boutOf (ph_bouts db) s \<noteq> None" using assms(1) by (simp add: blank_table_def)
  then show "boutOf (ph_bouts db) s' \<noteq> None" by (simp add: boutOf_def s(2))
qed (use assms(1) in \<open>simp_all add: blank_table_def\<close>)

lemma seeding_plan:
  "buildR1SeedingPlan rk (map r1_slot_of_row us) =
   map (\<lambda>t. \<lparr>slotId = row_id t, registrationAId = reg_a t, registrationBId = reg_b t\<rparr>) (map (seeded_row rk) us)"
  by (simp add: buildR1SeedingPlan_def r1_slot_of_row_def seeded_by_def seeded_row_def)

lemma populate_result:
  assumes wf: "well_fed ty cfg (ph_slots db)" and blank: "blank_table db"
  obtains bs where "populateBracket new_id rk db = Inr (db\<lparr>ph_slots := map (seeded_row rk) (ph_slots db), ph_bouts := bs\<rparr>)"
    and "seeding_ok (map (seeded_row rk) (ph_slots db)) (set (map row_id (ph_slots db)) - set (map row_id (seed_rows db))) bs"
proof -
  let ?rows = "map (seeded_row rk) (ph_slots db)"
  let ?ts = "map (seeded_row rk) (seed_rows db)"
  let ?plan = "buildR1SeedingPlan rk (map r1_slot_of_row (seed_rows db))"
  define bs where "bs = fold (seed_bout new_id) ?plan (ph_bouts db)"
  have ids: "distinct (map row_id (ph_slots db))" using wf by (simp add: well_fed_def)
  have blocking: "blocking_bouts db = []"
    using blank by (auto simp: blocking_bouts_def blank_table_def unfought_def filter_empty_conv)
  have "\<forall>s \<in> set (ph_slots db). b_type s \<noteq> ByeSource" using wf by (simp add: well_fed_def list_all_iff)
  then have byes: "filter (\<lambda>s. b_type s = ByeSource \<and> reg_a s \<noteq> None) ?rows = []" by (simp add: filter_empty_conv)
  have "populateBracket new_id rk db = Inr (db\<lparr>ph_slots := ?rows, ph_bouts := bs\<rparr>)"
    using blocking byes unfolding populateBracket_def fold_seed_update populated_slots [OF wf blank] bs_def
    by (simp add: advanceByeSlots_def)
  moreover have "seeding_ok ?rows (set (map row_id (ph_slots db)) - set (map row_id ?ts)) bs"
    unfolding bs_def seeding_plan
  proof (rule seed_bouts_ok)
    show "seeding_ok ?rows (set (map row_id (ph_slots db))) (ph_bouts db)" by (rule blank_seeding_ok [OF blank wf])
    show "distinct (map row_id ?rows)" using ids by (simp add: comp_def)
    show "set ?ts \<subseteq> set ?rows" by (auto simp: seed_rows_def)
    show "distinct (map row_id ?ts)" using ids by (simp add: comp_def seed_rows_def distinct_map_sort_by distinct_map_filter)
    show "set (map row_id ?ts) \<subseteq> set (map row_id (ph_slots db))" by (auto simp: seed_rows_def)
  qed
  then have "seeding_ok ?rows (set (map row_id (ph_slots db)) - set (map row_id (seed_rows db))) bs" by (simp add: comp_def image_comp)
  ultimately show ?thesis using that by blast
qed

text \<open>The rows that are not drawn wait for two fighters.\<close>

lemma seeded_row_undrawn:
  assumes "well_fed ty cfg rows" and "s \<in> set rows" and "\<not> row_round s \<le> 1"
  shows "reg_a (seeded_row rk s) = None" and "reg_b (seeded_row rk s) = None"
proof -
  have "seeded_by rk (side_ref s h) = None" for h
    by (rule well_fed_ref [OF assms(1,2), of h]) (use assms(3) in auto)
  from this [of True] this [of False] show "reg_a (seeded_row rk s) = None" and "reg_b (seeded_row rk s) = None"
    by (simp_all add: seeded_row_def side_ref_def)
qed

lemma seeded_bouts_ok:
  assumes wf: "well_fed ty cfg rows" and sd: "seeding_ok (map (seeded_row rk) rows) rest bs"
    and rest: "\<And>s. s \<in> set rows \<Longrightarrow> row_id s \<in> rest \<Longrightarrow> \<not> row_round s \<le> 1"
  shows "bouts_ok (map (seeded_row rk) rows) {} bs" and "winnerOf bs s = None"
proof -
  have "bout_sane (seeded_row rk s) m"
    if "s \<in> set rows" "unfought m" "if row_id s \<in> rest then bout_red m = None \<and> bout_blue m = None
      else bout_red m = reg_a (seeded_row rk s) \<and> bout_blue m = reg_b (seeded_row rk s)" for s m
    using that rest [OF that(1)] seeded_row_undrawn [OF wf that(1)] by (auto simp: bout_sane_def split: if_splits)
  then have "\<exists>s \<in> set (map (seeded_row rk) rows). bout_slot m = Some (row_id s) \<and> bout_sane s m" if "m \<in> set bs" for m
    using sd that unfolding seeding_ok_def set_map bex_simps seeded_row_simps by metis
  then show "bouts_ok (map (seeded_row rk) rows) {} bs" using sd by (auto simp: bouts_ok_def seeding_ok_def)
  show "winnerOf bs s = None"
    using sd by (auto simp: winnerOf_def seeding_ok_def unfought_def boutOf_Some split: option.split)
qed

text \<open>Drawing a blank bracket from a full ranking starts the invariant of the runs.\<close>

lemma populate_inv:
  assumes wf: "well_fed (ph_type db) (ph_config db) (ph_slots db)" and blank: "blank_table db" and full: "full_ranking n rk"
  shows "\<exists>db'. populateBracket new_id rk db = Inr db' \<and> decided db' = 0 \<and>
    bracket_inv (ph_type db) (ph_config db) (ph_slots db) (seeded_by rk) db'"
proof -
  obtain bs where pop: "populateBracket new_id rk db = Inr (db\<lparr>ph_slots := map (seeded_row rk) (ph_slots db), ph_bouts := bs\<rparr>)"
    and sd: "seeding_ok (map (seeded_row rk) (ph_slots db)) (set (map row_id (ph_slots db)) - set (map row_id (seed_rows db))) bs"
    by (rule populate_result [OF wf blank])
  let ?db = "db\<lparr>ph_slots := map (seeded_row rk) (ph_slots db), ph_bouts := bs\<rparr>"
  have "\<not> row_round s \<le> 1" if "s \<in> set (ph_slots db)" "row_id s \<in> set (map row_id (ph_slots db)) - set (map row_id (seed_rows db))" for s
    using that by (auto simp: seed_rows_def)
  note bouts = seeded_bouts_ok [OF wf sd this]
  have none: "winnerOf bs s = None" for s using bouts by blast
  have fv: "fed_value ?db s b = None" for s b by (simp add: fed_value_def none)
  have fed: "sides_fed (seeded_by rk) ?db"
    by (auto simp: sides_fed_def fv)
  have "places_apart ?db"
  proof -
    have seed: "is_seed_ref (side_ref t h)" if "t \<in> set (ph_slots db)" "seeded_by rk (side_ref t h) = Some x" for t h x
      by (rule well_fed_ref [OF wf that(1), of h]) (use that(2) in auto)
    have "row_id t = row_id u \<and> h = k"
      if t: "t \<in> set (ph_slots db)" "seeded_by rk (side_ref t h) = Some x"
        and u: "u \<in> set (ph_slots db)" "seeded_by rk (side_ref u k) = Some x" for t u h k x
      using well_fed_once [OF wf t(1) u(1) seeded_by_once [OF full seed [OF t] seed [OF u] t(2) u(2)]] by simp
    note apart = this
    show ?thesis
      unfolding places_apart_def
    proof (intro ballI allI impI)
      fix t u h k
      assume "t \<in> set (ph_slots ?db)" "u \<in> set (ph_slots ?db)"
        and side: "winnerOf (ph_bouts ?db) t = None \<and> winnerOf (ph_bouts ?db) u = None \<and>
          side_reg t h \<noteq> None \<and> side_reg t h = side_reg u k"
      then obtain t' u' where tu: "t' \<in> set (ph_slots db)" "t = seeded_row rk t'" "u' \<in> set (ph_slots db)" "u = seeded_row rk u'"
        by auto
      obtain x where x: "side_reg t h = Some x" using side by blast
      then have x': "side_reg u k = Some x" using side by simp
      have "row_id t' = row_id u' \<and> h = k"
        by (rule apart [OF tu(1) _ tu(3)]) (use x x' in \<open>simp_all only: tu(2,4) seeded_row_simps\<close>)
      then show "row_id t = row_id u \<and> h = k" by (simp only: tu(2,4) seeded_row_simps)
    qed
  qed
  moreover have "decided ?db = 0" by (simp add: decided_def none)
  ultimately show ?thesis
    using pop bouts fed by (auto simp: bracket_inv_def)
qed

end
