(* ===== verification/Bracket_Generation.thy ===== *)
theory Bracket_Generation
  imports Single_Elim Double_Elim Bracket_Play
begin

section \<open>Generating a bracket\<close>

text \<open>
  \<open>generateBracket\<close> of \<open>phases.service.ts\<close> from its checks to the rows it inserts, with
  \<open>double-elim-config.ts\<close> and \<open>bracket-placeholder-match.ts\<close>, and the theorems that what
  it generates plays out. The ids the database gives the rows of slots and of bouts are the
  parameters \<open>ids\<close> and \<open>bids\<close>. Of \<open>config_json\<close> the model keeps what the advance reads.
\<close>

record double_elim_input =
  dto_grandFinalReset :: "bool option"
  dto_secondChanceTarget :: "second_chance_target option"
  dto_bronzeMatch :: "bool option"
  dto_repechageEntrySize :: "nat option option"

record generate_dto = double_elim_input +
  dto_phaseType :: "string option"
  dto_qualifyCount :: "nat option"
  dto_bracketSize :: "nat option"

datatype generate_error =
    PhaseExists
  | NeedTwoFighters
  | InvalidSingle bracket_error
  | InvalidDouble double_elim_error

subsection \<open>Options of the double elimination\<close>

text \<open>A repechage size that is left out is \<open>None\<close>, one set to \<open>null\<close> is \<open>Some None\<close>.\<close>

definition doubleElimOptionsFromDto :: "'a double_elim_input_scheme \<Rightarrow> nat option \<Rightarrow> double_elim_options" where
  "doubleElimOptionsFromDto dto seats =
     (let target = or_else (dto_secondChanceTarget dto) Gold in
      \<lparr>opt_bracketSize = seats,
       opt_grandFinalReset = (if target = Bronze then None else Some (dto_grandFinalReset dto = Some True)),
       opt_secondChanceTarget = Some target,
       opt_bronzeMatch = (if target = Bronze then Some (or_else (dto_bronzeMatch dto) True) else None),
       opt_repechageEntrySize = or_else (dto_repechageEntrySize dto) None\<rparr>)"

definition doubleElimConfigJson :: "double_elim_bracket \<Rightarrow> phase_config" where
  "doubleElimConfigJson b =
     \<lparr>autoAdvance = Some True, cfg_grandFinalReset = Some (grandFinalReset (db_shape b)),
      cfg_wbRounds = Some (wbRounds (db_shape b)), cfg_lbRounds = Some (lbRounds (db_shape b)),
      cfg_bracketSize = Some (de_bracketSize (db_shape b)), cfg_fighterCount = Some (de_fighterCount (db_shape b)),
      cfg_secondChanceTarget = Some (secondChanceTarget (db_shape b)), cfg_bronzeMatch = Some (bronzeMatch (db_shape b)),
      cfg_repechageEntrySize = Some (repechageEntrySize (db_shape b)),
      cfg_repechageEntryRound = Some (repechageEntryRound (db_shape b))\<rparr>"

definition singleElimConfigJson :: "single_elim_bracket \<Rightarrow> phase_config" where
  "singleElimConfigJson b =
     \<lparr>autoAdvance = Some True, cfg_grandFinalReset = None, cfg_wbRounds = None, cfg_lbRounds = None,
      cfg_bracketSize = Some (bracketSize b), cfg_fighterCount = Some (fighterCount b), cfg_secondChanceTarget = None,
      cfg_bronzeMatch = None, cfg_repechageEntrySize = None, cfg_repechageEntryRound = None\<rparr>"

text \<open>The edits that would reshape the bracket; a size that is null counts as one that is absent.\<close>

datatype structural_field = SecondChanceTarget | BronzeMatch | RepechageEntrySize

definition structuralConfigChanges :: "'a double_elim_input_scheme \<Rightarrow> phase_config \<Rightarrow> structural_field list" where
  "structuralConfigChanges dto config =
     (if dto_secondChanceTarget dto \<noteq> None \<and> dto_secondChanceTarget dto \<noteq> Some (or_else (cfg_secondChanceTarget config) Gold)
      then [SecondChanceTarget] else [])
     @ (if dto_bronzeMatch dto \<noteq> None \<and> dto_bronzeMatch dto \<noteq> Some (or_else (cfg_bronzeMatch config) False)
        then [BronzeMatch] else [])
     @ (if dto_repechageEntrySize dto \<noteq> None \<and> dto_repechageEntrySize dto \<noteq> Some (cfg_repechageEntrySize config)
        then [RepechageEntrySize] else [])"

subsection \<open>The rows\<close>

definition slot_row_of :: "string \<Rightarrow> 'a bracket_slot_scheme \<Rightarrow> slot_row" where
  "slot_row_of sid s =
     \<lparr>row_id = sid, row_round = round s, row_position = position s, a_ref = homeSource s, b_ref = awaySource s,
      b_type = sourceBType s, reg_a = None, reg_b = None\<rparr>"

definition slot_rows_of :: "(nat \<Rightarrow> string) \<Rightarrow> 'a bracket_slot_scheme list \<Rightarrow> slot_row list" where
  "slot_rows_of ids ss = map (\<lambda>(i, s). slot_row_of (ids i) s) (zip [0..<length ss] ss)"

definition placeholderMatchRow :: "string \<Rightarrow> slot_row \<Rightarrow> bout_row" where
  "placeholderMatchRow bid s =
     \<lparr>bout_id = bid, bout_slot = Some (row_id s), bout_red = reg_a s, bout_blue = reg_b s, bout_winner = None,
      bout_status = Scheduled, bout_startedAt = None\<rparr>"

definition createInitialBracketMatches :: "(nat \<Rightarrow> string) \<Rightarrow> slot_row list \<Rightarrow> nat option \<Rightarrow> bout_row list" where
  "createInitialBracketMatches bids rows resetRound =
     (let ready = filter (\<lambda>s. b_type s \<noteq> ByeSource \<and> resetRound \<noteq> Some (row_round s)) rows
      in map (\<lambda>(i, s). placeholderMatchRow (bids i) s) (zip [0..<length ready] ready))"

definition generated_phase ::
    "(nat \<Rightarrow> string) \<Rightarrow> (nat \<Rightarrow> string) \<Rightarrow> string \<Rightarrow> phase_config \<Rightarrow> nat option \<Rightarrow> 'a bracket_slot_scheme list \<Rightarrow> bracket_db" where
  "generated_phase ids bids ty cfg resetRound ss =
     (let rows = slot_rows_of ids ss
      in \<lparr>ph_type = ty, ph_config = cfg, ph_slots = rows, ph_bouts = createInitialBracketMatches bids rows resetRound\<rparr>)"

text \<open>
  \<open>existing\<close>: an elimination phase is there already; \<open>registered\<close>: the registrations that
  count when the request names no number. A forced replacement deletes the old phase first.
\<close>

definition resetRoundOf :: "double_elim_bracket \<Rightarrow> nat option" where
  "resetRoundOf b =
     (if grandFinalReset (db_shape b) then Some (wbRounds (db_shape b) + lbRounds (db_shape b) + 2) else None)"

definition qualifyCountOf :: "nat \<Rightarrow> generate_dto \<Rightarrow> nat" where
  "qualifyCountOf registered dto = (case dto_qualifyCount dto of None \<Rightarrow> registered | Some q \<Rightarrow> if q = 0 then registered else q)"

definition generateBracket ::
    "(nat \<Rightarrow> string) \<Rightarrow> (nat \<Rightarrow> string) \<Rightarrow> bool \<Rightarrow> bool \<Rightarrow> nat \<Rightarrow> generate_dto \<Rightarrow> generate_error + bracket_db" where
  "generateBracket ids bids existing force registered dto =
     (let phaseType = or_else (dto_phaseType dto) ''single_elim'';
          qualifyCount = qualifyCountOf registered dto
      in if existing \<and> \<not> force then Inl PhaseExists
         else if qualifyCount < 2 then Inl NeedTwoFighters
         else if phaseType = ''double_elim'' then
           (case doubleElimBracket qualifyCount (doubleElimOptionsFromDto dto (dto_bracketSize dto)) of
              Inl e \<Rightarrow> Inl (InvalidDouble e)
            | Inr b \<Rightarrow>
                Inr (generated_phase ids bids phaseType (doubleElimConfigJson b) (resetRoundOf b) (db_slots b)))
         else
           (case singleElimBracket qualifyCount (dto_bracketSize dto) of
              Inl e \<Rightarrow> Inl (InvalidSingle e)
            | Inr b \<Rightarrow> Inr (generated_phase ids bids phaseType (singleElimConfigJson b) None (slots b))))"

subsection \<open>The rows and the slots\<close>

lemma rows_map: "(\<And>i s. f (slot_row_of i s) = g s) \<Longrightarrow> map f (slot_rows_of ids ss) = map g ss"
  unfolding slot_rows_of_def by (intro nth_equalityI) auto

lemma rows_of_slot: "s \<in> set ss \<Longrightarrow> \<exists>i. slot_row_of (ids i) s \<in> set (slot_rows_of ids ss)"
  by (force simp: slot_rows_of_def in_set_conv_nth set_zip)

lemma row_fields [simp]:
  "row_round (slot_row_of i s) = round s" "a_ref (slot_row_of i s) = homeSource s" "b_ref (slot_row_of i s) = awaySource s"
  "b_type (slot_row_of i s) = sourceBType s" "reg_a (slot_row_of i s) = None" "reg_b (slot_row_of i s) = None"
  "row_position (slot_row_of i s) = position s" "row_id (slot_row_of i s) = i"
  by (simp_all add: slot_row_of_def)

lemma slot_of_row:
  assumes "t \<in> set (slot_rows_of ids ss)"
  obtains u where "u \<in> set ss" and "t = slot_row_of (row_id t) u" and "reg_a t = None" and "reg_b t = None"
    and "b_type t = sourceBType u"
  using assms by (auto simp: slot_rows_of_def dest: set_zip_rightD)

lemma row_ids: "inj ids \<Longrightarrow> distinct (map row_id (slot_rows_of ids ss))"
proof -
  assume ids: "inj ids"
  have "map row_id (slot_rows_of ids ss) = map ids [0..<length ss]"
    unfolding slot_rows_of_def by (intro nth_equalityI) (simp_all add: slot_row_of_def)
  then show ?thesis using ids by (simp add: distinct_map inj_on_def)
qed

text \<open>The bouts of a fresh phase are blank, and a slot of the draw has one.\<close>

lemma generated_blank:
  assumes ids: "inj ids" and bids: "inj bids" and draw: "\<And>r. resetRound = Some r \<Longrightarrow> 1 < r"
    and byes: "\<And>s. s \<in> set ss \<Longrightarrow> sourceBType s \<noteq> ByeSource"
  shows "blank_table (generated_phase ids bids ty cfg resetRound ss)"
proof -
  let ?rows = "slot_rows_of ids ss"
  define ready where "ready = filter (\<lambda>s. b_type s \<noteq> ByeSource \<and> resetRound \<noteq> Some (row_round s)) ?rows"
  define bs where "bs = map (\<lambda>(i, s). placeholderMatchRow (bids i) s) (zip [0..<length ready] ready)"
  have phase: "generated_phase ids bids ty cfg resetRound ss = \<lparr>ph_type = ty, ph_config = cfg, ph_slots = ?rows, ph_bouts = bs\<rparr>"
    by (simp add: generated_phase_def createInitialBracketMatches_def Let_def ready_def bs_def)
  have bids_of: "map bout_id bs = map bids [0..<length ready]"
    unfolding bs_def by (intro nth_equalityI) (simp_all add: placeholderMatchRow_def)
  have slots_of: "map bout_slot bs = map (\<lambda>s. Some (row_id s)) ready"
    unfolding bs_def by (intro nth_equalityI) (simp_all add: placeholderMatchRow_def)
  have "distinct (map row_id ready)" unfolding ready_def by (rule distinct_map_filter [OF row_ids [OF ids]])
  then have "distinct (map bout_slot bs)" unfolding slots_of by (simp add: distinct_map inj_on_def)
  moreover have "distinct (map bout_id bs)" unfolding bids_of using bids by (simp add: distinct_map inj_on_def)
  moreover have "unfought m \<and> bout_red m = None \<and> bout_blue m = None \<and> (\<exists>s \<in> set ?rows. bout_slot m = Some (row_id s))"
    if mb: "m \<in> set bs" for m
  proof -
    obtain i s where m: "m = placeholderMatchRow (bids i) s" "s \<in> set ready"
      using mb by (auto simp: bs_def dest: set_zip_rightD)
    then have "s \<in> set ?rows" by (simp add: ready_def)
    moreover from this have "reg_a s = None" "reg_b s = None" by (auto elim: slot_of_row)
    ultimately show ?thesis using m by (auto simp: placeholderMatchRow_def unfought_def)
  qed
  moreover have "boutOf bs s \<noteq> None" if s: "s \<in> set ?rows" "row_round s \<in> {0, 1}" for s
  proof -
    have "b_type s \<noteq> ByeSource" using byes by (auto intro: slot_of_row [OF s(1)])
    moreover have "resetRound \<noteq> Some (row_round s)" using draw s(2) by fastforce
    ultimately have "s \<in> set ready" using s(1) by (simp add: ready_def)
    then have "Some (row_id s) \<in> set (map bout_slot bs)" unfolding slots_of by simp
    then show ?thesis by (auto simp: boutOf_None)
  qed
  moreover have "list_all (\<lambda>s. reg_a s = None \<and> reg_b s = None) ?rows"
    by (auto simp: list_all_iff elim: slot_of_row)
  ultimately show ?thesis by (simp add: blank_table_def phase seed_rows_def)
qed

subsection \<open>Names\<close>

text \<open>A number is written without the letter P, so a name is read back in one way.\<close>

lemma show_nat_digit: "c \<in> set (show_nat n) \<Longrightarrow> digit_value c \<noteq> None"
proof (induction n rule: show_nat.induct)
  case (1 n)
  then show ?case by (cases "n < 10") (auto simp: show_nat.simps [of n])
qed

lemma takeWhile_show_nat: "takeWhile (\<lambda>c. digit_value c \<noteq> None) (show_nat r @ CHR ''P'' # xs) = show_nat r"
  using show_nat_digit by (subst takeWhile_append2) (auto simp: digit_value_def)

lemma place_name_inject [simp]:
  "show_nat r @ CHR ''P'' # show_nat p = show_nat r' @ CHR ''P'' # show_nat p' \<longleftrightarrow> r = r' \<and> p = p'"
  by (metis append_same_eq list.inject same_append_eq show_nat_inject takeWhile_show_nat)

abbreviation (input) self_ref :: "string \<Rightarrow> phase_config \<Rightarrow> 'a bracket_slot_scheme \<Rightarrow> string" where
  "self_ref ty cfg s \<equiv> buildSelfRef (round s) (position s) ty cfg"

lemma single_self [simp]: "buildSelfRef r p ''single_elim'' cfg = ''R'' @ show_nat r @ ''P'' @ show_nat p"
  by (simp add: buildSelfRef_def)

text \<open>Two slots are named alike only where they share a round, and a position but in the finals.\<close>

lemma double_self_inject:
  assumes "ty \<noteq> ''single_elim''" and "cfg_wbRounds cfg = Some wb" and "cfg_lbRounds cfg = Some lb"
    and "buildSelfRef r p ty cfg = buildSelfRef r' p' ty cfg" and "r \<le> wb + lb + 2" and "r' \<le> wb + lb + 2"
  shows "r = r' \<and> (p = p' \<or> wb + lb < r)"
  using assms by (auto simp: buildSelfRef_def Let_def or_else_def split: if_splits)

subsection \<open>Every side of a generated bracket is fed\<close>

definition sides :: "'a bracket_slot_scheme \<Rightarrow> string list" where
  "sides s = [homeSource s, awaySource s]"

lemma mset_sides:
  "mset (sides s) = mset (sources_of SeedSource s) + mset (sources_of ByeSource s) + mset (sources_of WinnerOf s) + mset (sources_of LoserOf s)"
  by (cases "sourceAType s"; cases "sourceBType s") (simp_all add: sides_def sources_of_def)

lemma mset_all_sides:
  "mset (concat (map sides ss)) = mset (concat (map (sources_of SeedSource) ss)) + mset (concat (map (sources_of ByeSource) ss)) +
    mset (concat (map (sources_of WinnerOf) ss)) + mset (concat (map (sources_of LoserOf) ss))"
  by (induction ss) (simp_all add: mset_sides)

text \<open>
  What the generators keep of their slots: the seeds are those of the fields, in the first two
  rounds, there are no byes, and a winner or a loser referred to is that of an earlier round.
\<close>

definition sourced :: "string \<Rightarrow> phase_config \<Rightarrow> 'a bracket_slot_scheme \<Rightarrow> bool" where
  "sourced ty cfg s \<longleftrightarrow>
     sources_of SeedSource s = map seedName (entry_seeds s) \<and> (entry_seeds s \<noteq> [] \<longrightarrow> round s \<le> 1) \<and>
     sources_of ByeSource s = [] \<and>
     (\<forall>x \<in> set (sources_of WinnerOf s). \<exists>r < round s. \<exists>p. x = winnerRef (buildSelfRef r p ty cfg)) \<and>
     (\<forall>x \<in> set (sources_of LoserOf s). \<exists>r < round s. \<exists>p. x = loserRef (buildSelfRef r p ty cfg))"

definition named :: "string \<Rightarrow> phase_config \<Rightarrow> 'a bracket_slot_scheme list \<Rightarrow> bool" where
  "named ty cfg ss \<longleftrightarrow>
     distinct (map (self_ref ty cfg) ss) \<and>
     (\<forall>s \<in> set ss. \<forall>t \<in> set ss. \<forall>r p. r < round t \<longrightarrow> self_ref ty cfg s = buildSelfRef r p ty cfg \<longrightarrow> round s = r)"

definition passed_on :: "string \<Rightarrow> phase_config \<Rightarrow> 'a bracket_slot_scheme list \<Rightarrow> bool" where
  "passed_on ty cfg ss \<longleftrightarrow>
     (\<exists>P. mset (concat (map (sources_of WinnerOf) ss)) = mset (map (\<lambda>s. winnerRef (self_ref ty cfg s)) (filter P ss))) \<and>
     (\<exists>P. mset (concat (map (sources_of LoserOf) ss)) = mset (map (\<lambda>s. loserRef (self_ref ty cfg s)) (filter P ss)))"

lemma seedName_seed [simp]: "is_seed_ref (seedName k)"
  by (auto simp: is_seed_ref_def seedName_def)

lemma seed_refs:
  assumes "\<And>s. s \<in> set ss \<Longrightarrow> sourced ty cfg s"
  shows "concat (map (sources_of SeedSource) ss) = map seedName (concat (map entry_seeds ss))"
    and "concat (map (sources_of ByeSource) ss) = []"
  using assms by (induction ss) (simp_all add: sourced_def)

lemma sides_once:
  assumes "\<And>s. s \<in> set ss \<Longrightarrow> sourced ty cfg s" and "distinct (concat (map entry_seeds ss))"
    and "named ty cfg ss" and "passed_on ty cfg ss"
  shows "distinct (concat (map sides ss))"
proof -
  obtain P Q where W: "mset (concat (map (sources_of WinnerOf) ss)) = mset (map (\<lambda>s. winnerRef (self_ref ty cfg s)) (filter P ss))"
    and L: "mset (concat (map (sources_of LoserOf) ss)) = mset (map (\<lambda>s. loserRef (self_ref ty cfg s)) (filter Q ss))"
    using assms(4) by (auto simp: passed_on_def)
  let ?S = "map seedName (concat (map entry_seeds ss))"
    and ?W = "map (\<lambda>s. winnerRef (self_ref ty cfg s)) (filter P ss)" and ?L = "map (\<lambda>s. loserRef (self_ref ty cfg s)) (filter Q ss)"
  have self: "inj_on (self_ref ty cfg) (set ss)" "distinct ss" using assms(3) by (simp_all add: named_def distinct_map)
  have "distinct ?S" using assms(2) by (simp add: distinct_map inj_on_def seedName_def)
  moreover have "distinct ?W" "distinct ?L" using self by (auto simp: distinct_map inj_on_def)
  moreover have "set ?S \<inter> (set ?W \<union> set ?L) = {}" "set ?W \<inter> set ?L = {}"
    by (auto simp: seedName_def winnerRef_def loserRef_def)
  ultimately have "distinct (?S @ ?W @ ?L)" by auto
  moreover have "mset (concat (map sides ss)) = mset (?S @ ?W @ ?L)"
    using seed_refs [where ss = ss and ty = ty and cfg = cfg, OF assms(1)] unfolding mset_all_sides W L by simp
  ultimately show ?thesis using mset_eq_imp_distinct_iff by blast
qed

lemma side_source:
  assumes "r \<in> set (sides s)"
  obtains t where "r \<in> set (sources_of t s)"
  using assms by (auto simp: sides_def sources_of_def split: if_splits)

text \<open>Every side of the bracket is fed, by a seed or from a slot of an earlier round.\<close>

lemma side_fed:
  assumes src: "\<And>s. s \<in> set ss \<Longrightarrow> sourced ty cfg s" and "named ty cfg ss" and "passed_on ty cfg ss"
    and t: "t \<in> set ss" and r: "r \<in> set (sides t)"
  shows "is_seed_ref r \<and> round t \<le> 1 \<or>
    (\<exists>s \<in> set ss. round s < round t \<and> (r = winnerRef (self_ref ty cfg s) \<or> r = loserRef (self_ref ty cfg s)))"
proof -
  have src_t: "sourced ty cfg t" by (rule src [OF t])
  have earlier: "round s < round t" if "s \<in> set ss" "self_ref ty cfg s = buildSelfRef q p ty cfg" "q < round t" for s q p
    using assms(2) t that unfolding named_def by blast
  have fed: "x \<in> set (map (\<lambda>s. f (self_ref ty cfg s)) (filter P ss))"
    if "mset (concat (map (sources_of y) ss)) = mset (map (\<lambda>s. f (self_ref ty cfg s)) (filter P ss))" "x \<in> set (sources_of y t)" for y x f P
  proof -
    have "x \<in> set (concat (map (sources_of y) ss))" using that(2) t by auto
    then show ?thesis by (simp only: mset_eq_setD [OF that(1)])
  qed
  obtain y where y: "r \<in> set (sources_of y t)" by (rule side_source [OF r])
  show ?thesis
  proof (cases y)
    case SeedSource
    then have "r \<in> set (map seedName (entry_seeds t))" using y src_t by (simp add: sourced_def)
    then show ?thesis using src_t by (auto simp: sourced_def)
  next
    case WinnerOf
    obtain q p where q: "q < round t" "r = winnerRef (buildSelfRef q p ty cfg)" using y src_t unfolding WinnerOf sourced_def by blast
    obtain P where "mset (concat (map (sources_of WinnerOf) ss)) = mset (map (\<lambda>s. winnerRef (self_ref ty cfg s)) (filter P ss))"
      using assms(3) by (auto simp: passed_on_def)
    from fed [OF this y [unfolded WinnerOf]] obtain s where s: "s \<in> set ss" "r = winnerRef (self_ref ty cfg s)" by auto
    then have "round s < round t" using q by (intro earlier [OF s(1) _ q(1), of p]) simp
    then show ?thesis using s by blast
  next
    case LoserOf
    obtain q p where q: "q < round t" "r = loserRef (buildSelfRef q p ty cfg)" using y src_t unfolding LoserOf sourced_def by blast
    obtain P where "mset (concat (map (sources_of LoserOf) ss)) = mset (map (\<lambda>s. loserRef (self_ref ty cfg s)) (filter P ss))"
      using assms(3) by (auto simp: passed_on_def)
    from fed [OF this y [unfolded LoserOf]] obtain s where s: "s \<in> set ss" "r = loserRef (self_ref ty cfg s)" by auto
    then have "round s < round t" using q by (intro earlier [OF s(1) _ q(1), of p]) simp
    then show ?thesis using s by blast
  qed (use y src_t in \<open>simp add: sourced_def\<close>)
qed

lemma no_bye_source: "sourced ty cfg s \<Longrightarrow> sourceBType s \<noteq> ByeSource"
  by (auto simp: sourced_def sources_of_def)

lemma generated_well_fed:
  assumes "inj ids" and "autoAdvance cfg \<noteq> Some False" and src: "\<And>s. s \<in> set ss \<Longrightarrow> sourced ty cfg s"
    and "distinct (concat (map entry_seeds ss))" and nm: "named ty cfg ss" and pass: "passed_on ty cfg ss"
  shows "well_fed ty cfg (slot_rows_of ids ss)"
proof -
  let ?rows = "slot_rows_of ids ss"
  have "map (self_of ty cfg) ?rows = map (self_ref ty cfg) ss" by (rule rows_map) (simp add: self_of_def)
  then have "distinct (map (self_of ty cfg) ?rows)" using nm by (simp add: named_def)
  moreover have "map (\<lambda>s. [a_ref s, b_ref s]) ?rows = map sides ss" by (rule rows_map) (simp add: sides_def)
  then have "distinct (feeders ?rows)" using sides_once [OF src assms(4) nm pass] by (simp add: feeders_def)
  moreover have "list_all (\<lambda>t. b_type t \<noteq> ByeSource) ?rows"
    unfolding list_all_iff by (auto elim!: slot_of_row dest: no_bye_source [OF src])
  moreover have "is_seed_ref (side_ref t h) \<and> row_round t \<le> 1 \<or> (\<exists>s \<in> set ?rows. row_round s < row_round t \<and>
      (side_ref t h = winnerRef (self_of ty cfg s) \<or> side_ref t h = loserRef (self_of ty cfg s)))" if t: "t \<in> set ?rows" for t h
  proof -
    obtain u where u: "u \<in> set ss" "t = slot_row_of (row_id t) u" by (rule slot_of_row [OF t])
    have "side_ref t h \<in> set (sides u)" by (subst u(2)) (simp add: side_ref_def sides_def)
    from side_fed [OF src nm pass u(1) this]
    consider "is_seed_ref (side_ref t h)" "round u \<le> 1"
      | s where "s \<in> set ss" "round s < round u" "side_ref t h = winnerRef (self_ref ty cfg s) \<or> side_ref t h = loserRef (self_ref ty cfg s)"
      by blast
    then show ?thesis
    proof cases
      case 1
      then show ?thesis by (subst (2) u(2)) simp
    next
      case (2 s)
      obtain i where i: "slot_row_of (ids i) s \<in> set ?rows" using rows_of_slot [OF 2(1)] by blast
      have "row_round t = round u" by (subst u(2)) simp
      then show ?thesis using 2 i by (intro disjI2 bexI [OF _ i]) (simp add: self_of_def)
    qed
  qed
  ultimately show ?thesis
    using row_ids [OF assms(1)] assms(2) unfolding well_fed_def by blast
qed

subsection \<open>Single elimination\<close>

lemma single_names:
  "winnerName r p = winnerRef (buildSelfRef r p ''single_elim'' cfg)" "loserName r p = loserRef (buildSelfRef r p ''single_elim'' cfg)"
  by (simp_all add: winnerName_def loserName_def winnerRef_def loserRef_def)

lemma single_named:
  assumes "distinct (map (\<lambda>s. (round s, position s)) ss)"
  shows "named ''single_elim'' cfg ss"
  using assms by (auto simp: named_def distinct_map inj_on_def)

lemma earlier_name: "q < r \<Longrightarrow> \<exists>r' < r. \<exists>p'. buildSelfRef q p ty cfg = buildSelfRef r' p' ty cfg"
  by blast

lemma sourced_play_in: "sourced ''single_elim'' cfg (play_in_slot n b p)"
  by (simp add: sourced_def play_in_slot_def Let_def sources_of_def entry_seeds_def)

lemma sourced_later: "2 \<le> r \<Longrightarrow> sourced ''single_elim'' cfg (later_slot r p)"
  unfolding sourced_def by (auto simp: later_slot_def Let_def sources_of_def entry_seeds_def single_names [where cfg = cfg]
      simp del: single_self intro!: earlier_name)

lemma sourced_bronze: "2 \<le> r \<Longrightarrow> sourced ''single_elim'' cfg (bronze_slot r)"
  unfolding sourced_def by (auto simp: bronze_slot_def Let_def sources_of_def entry_seeds_def single_names [where cfg = cfg]
      simp del: single_self intro!: earlier_name)

lemma first_side:
  assumes "legacy \<Longrightarrow> s \<le> n"
  shows "first_round_side legacy h n b s =
    (if h \<and> s > b then (None, winnerName 0 (s - b), WinnerOf) else (Some s, seedName s, SeedSource))"
  using assms by (auto simp: first_round_side_def Let_def)

lemma sourced_first:
  assumes "legacy \<Longrightarrow> home \<le> n \<and> away \<le> n"
  shows "sourced ''single_elim'' cfg (first_round_slot legacy h n b (i, home, away))"
proof -
  have side: "first_round_side legacy h n b home = (if h \<and> home > b then (None, winnerName 0 (home - b), WinnerOf) else (Some home, seedName home, SeedSource))"
    "first_round_side legacy h n b away = (if h \<and> away > b then (None, winnerName 0 (away - b), WinnerOf) else (Some away, seedName away, SeedSource))"
    using assms by (simp_all add: first_side)
  have names: "\<exists>p. winnerName 0 q = winnerRef (buildSelfRef 0 p ''single_elim'' cfg)" for q
    unfolding single_names [where cfg = cfg] by blast
  show ?thesis
    using names unfolding sourced_def first_round_slot_def prod.case side
    by (cases "h \<and> home > b"; cases "h \<and> away > b") (simp_all add: sources_of_def entry_seeds_def del: single_self)
qed

lemma pairs_of_seeds:
  assumes "1 \<le> k" and "(home, away) \<in> set (buildSeedingOrder (2 ^ k))"
  shows "home \<le> 2 ^ k \<and> away \<le> 2 ^ k"
proof -
  obtain j where k: "k = Suc j" using assms(1) by (cases k) auto
  have "set (flatten_pairs (buildSeedingOrder (2 ^ k))) = {1..2 ^ k}"
    unfolding k flatten_seeding_order set_seeds ..
  moreover have "{home, away} \<subseteq> set (flatten_pairs (buildSeedingOrder (2 ^ k)))"
    using assms(2) by (force simp: flatten_pairs_def)
  ultimately show ?thesis by auto
qed

lemma single_sourced:
  assumes "1 \<le> k" and "legacy \<Longrightarrow> n = 2 ^ k" and "s \<in> set (all_slots legacy n p b k)"
  shows "sourced ''single_elim'' cfg s"
proof -
  have four: "4 \<le> (2 :: nat) ^ k \<longleftrightarrow> 2 \<le> k"
    using power_increasing_iff [of "2 :: nat" 2 k] by simp
  consider q where "s = play_in_slot n b q" | x where "s = first_round_slot legacy (p > 0) n b x" "snd x \<in> set (buildSeedingOrder (2 ^ k))"
    | r q where "s = later_slot r q" "2 \<le> r" | "s = bronze_slot k" "2 \<le> k"
    using assms(3) by (auto simp: all_slots_def later_rounds_def four dest: set_zip_rightD split: if_splits)
  then show ?thesis
  proof cases
    case (2 x)
    obtain i home away where x: "x = (i, home, away)" by (cases x)
    have "legacy \<Longrightarrow> home \<le> n \<and> away \<le> n" using 2(2) pairs_of_seeds [OF assms(1), of home away] assms(2) x by simp
    then show ?thesis unfolding 2(1) x by (rule sourced_first)
  qed (simp_all add: sourced_play_in sourced_later sourced_bronze)
qed

text \<open>Adding up the rounds.\<close>

lemma by_round:
  assumes "\<And>s. s \<in> set ss \<Longrightarrow> round s \<le> k"
  shows "mset (concat (map f ss)) = (\<Sum>r \<le> k. mset (concat (map f (filter (\<lambda>s. round s = r) ss))))"
  using assms
proof (induction ss)
  case (Cons s ss)
  have "(\<Sum>r \<le> k. mset (concat (map f (filter (\<lambda>s. round s = r) (s # ss))))) =
      (\<Sum>r \<le> k. (if r = round s then mset (f s) else {#}) + mset (concat (map f (filter (\<lambda>s. round s = r) ss))))"
    by (rule sum.cong) auto
  also have "\<dots> = mset (f s) + mset (concat (map f ss))"
    using Cons by (simp add: sum.distrib)
  finally show ?case by simp
qed simp

lemma single_rounds: "1 \<le> k \<Longrightarrow> s \<in> set (all_slots legacy n p b k) \<Longrightarrow> round s \<le> k"
  by (auto simp: all_slots_def later_rounds_def)

lemma single_winners:
  assumes "1 \<le> k" and "p = 0 \<or> \<not> legacy \<and> p + b = 2 ^ k"
  shows "mset (concat (map (sources_of WinnerOf) (all_slots legacy n p b k))) =
    mset (map (\<lambda>s. winnerName (round s) (position s)) (filter (\<lambda>s. round s < k) (all_slots legacy n p b k)))"
proof -
  let ?ss = "all_slots legacy n p b k"
  let ?name = "\<lambda>s :: bracket_slot. winnerName (round s) (position s)"
  have none: "concat (map (sources_of WinnerOf) (filter (\<lambda>s. round s = 0) ?ss)) = []"
    by (auto simp: slots_of_round(1) [OF assms(1)] play_in_slot_def sources_of_def Let_def)
  have "mset (concat (map (sources_of WinnerOf) ?ss)) =
      (\<Sum>r \<le> k. mset (concat (map (sources_of WinnerOf) (filter (\<lambda>s. round s = r) ?ss))))"
    by (rule by_round) (rule single_rounds [OF assms(1)])
  also have "\<dots> = (\<Sum>r < k. mset (concat (map (sources_of WinnerOf) (filter (\<lambda>s. round s = Suc r) ?ss))))"
    using none by (subst sum.atMost_shift) simp
  also have "\<dots> = (\<Sum>r < k. mset (map ?name (filter (\<lambda>s. round s = r) ?ss)))"
    by (rule sum.cong) (simp_all only: winners_of_round [OF assms] lessThan_iff)
  also have "\<dots> = (\<Sum>r \<le> k. mset (concat (map (\<lambda>s. [?name s]) (filter (\<lambda>s. round s = r) (filter (\<lambda>s. round s < k) ?ss)))))"
  proof -
    have single: "concat (map (\<lambda>s. [f s]) xs) = map f xs" for f :: "bracket_slot \<Rightarrow> string" and xs by (induction xs) simp_all
    have "filter (\<lambda>s. round s = k) (filter (\<lambda>s. round s < k) ?ss) = []" by (simp add: filter_empty_conv)
    moreover have "filter (\<lambda>s. round s = r) (filter (\<lambda>s. round s < k) ?ss) = filter (\<lambda>s. round s = r) ?ss" if "r < k" for r
      using that by (auto intro: filter_cong)
    ultimately show ?thesis unfolding single lessThan_Suc_atMost [symmetric] sum.lessThan_Suc by simp
  qed
  also have "\<dots> = mset (concat (map (\<lambda>s. [?name s]) (filter (\<lambda>s. round s < k) ?ss)))"
    by (rule by_round [symmetric]) simp
  finally show ?thesis by (simp add: concat_map_singleton)
qed

lemma single_passed_on:
  assumes "1 \<le> k" and "p = 0 \<or> \<not> legacy \<and> p + b = 2 ^ k"
  shows "passed_on ''single_elim'' cfg (all_slots legacy n p b k)"
proof -
  let ?ss = "all_slots legacy n p b k"
  have four: "4 \<le> (2 :: nat) ^ k \<longleftrightarrow> 2 \<le> k"
    using power_increasing_iff [of "2 :: nat" 2 k] by simp
  have "\<exists>P. concat (map (sources_of LoserOf) ?ss) = map (\<lambda>s. loserName (round s) (position s)) (filter P ?ss)"
  proof (cases "2 \<le> k")
    case True
    have "[1..<2 ^ (k - (k - 1)) + 1] = [1, 2 :: nat]" using True by (simp add: upt_rec)
    then have "map (\<lambda>s. loserName (round s) (position s)) (filter (\<lambda>s. round s = k - 1) ?ss) = [loserName (k - 1) 1, loserName (k - 1) 2]"
      using places_of_round [of "k - 1" k loserName legacy n p b] True by simp
    then show ?thesis using True unfolding losers_of_all_slots four by metis
  next
    case False
    then show ?thesis unfolding losers_of_all_slots four by (auto intro!: exI [of _ "\<lambda>_. False"])
  qed
  then obtain Q where "concat (map (sources_of LoserOf) ?ss) = map (\<lambda>s. loserName (round s) (position s)) (filter Q ?ss)" ..
  then have "mset (concat (map (sources_of LoserOf) ?ss)) = mset (map (\<lambda>s. loserName (round s) (position s)) (filter Q ?ss))"
    by (rule arg_cong)
  then show ?thesis
    unfolding passed_on_def single_names [where cfg = cfg, symmetric]
    using single_winners [OF assms] by (intro conjI exI)
qed

lemma single_well_fed:
  assumes "singleElimBracket n req = Inr b" and "req = None \<or> req = Some n" and "inj ids"
  shows "well_fed ''single_elim'' (singleElimConfigJson b) (slot_rows_of ids (slots b))"
    and "s \<in> set (slots b) \<Longrightarrow> sourced ''single_elim'' (singleElimConfigJson b) s"
proof -
  obtain k where k: "1 \<le> k" "bracketSize b = 2 ^ k"
    and slots: "slots b = all_slots (req \<noteq> None) n (playInMatchCount b) (byeSeedCount b) k"
    and fit: "playInMatchCount b = 0 \<or> \<not> req \<noteq> None \<and> playInMatchCount b + byeSeedCount b = 2 ^ k"
    by (rule bracket_laid_out_single [OF assms(1)])
  have legacy: "n = 2 ^ k" if "req \<noteq> None"
    using that assms(1,2) k(2) by (auto simp: singleElimBracket_def resolve_size_def Let_def split: if_splits)
  show src: "sourced ''single_elim'' (singleElimConfigJson b) s" if "s \<in> set (slots b)" for s
    using single_sourced [OF k(1) legacy] that unfolding slots by blast
  show "well_fed ''single_elim'' (singleElimConfigJson b) (slot_rows_of ids (slots b))"
  proof (rule generated_well_fed [OF assms(3) _ src])
    show "distinct (concat (map entry_seeds (slots b)))" by (rule single.distinct_entries [OF assms(1)])
    show "named ''single_elim'' (singleElimConfigJson b) (slots b)"
      unfolding slots by (rule single_named) (rule distinct_places [OF k(1)])
    show "passed_on ''single_elim'' (singleElimConfigJson b) (slots b)"
      unfolding slots by (rule single_passed_on [OF k(1) fit])
  qed (simp_all add: singleElimConfigJson_def)
qed

subsection \<open>Double elimination\<close>

abbreviation (input) de_cfg :: "double_elim_bracket \<Rightarrow> phase_config" where
  "de_cfg b \<equiv> doubleElimConfigJson b"

lemma de_self:
  "r \<le> wbRounds (db_shape b) \<Longrightarrow> buildSelfRef r p ''double_elim'' (de_cfg b) = ''WBR'' @ show_nat r @ ''P'' @ show_nat p"
  "1 \<le> q \<Longrightarrow> q \<le> lbRounds (db_shape b) \<Longrightarrow>
    buildSelfRef (wbRounds (db_shape b) + q) p ''double_elim'' (de_cfg b) = ''LBR'' @ show_nat q @ ''P'' @ show_nat p"
  "buildSelfRef (wbRounds (db_shape b) + lbRounds (db_shape b) + 1) p ''double_elim'' (de_cfg b) = ''GF''"
  by (simp_all add: buildSelfRef_def doubleElimConfigJson_def or_else_def)

lemma de_names:
  "r \<le> wbRounds (db_shape b) \<Longrightarrow> wbWinner r p = winnerRef (buildSelfRef r p ''double_elim'' (de_cfg b))"
  "r \<le> wbRounds (db_shape b) \<Longrightarrow> wbLoser r p = loserRef (buildSelfRef r p ''double_elim'' (de_cfg b))"
  "1 \<le> q \<Longrightarrow> q \<le> lbRounds (db_shape b) \<Longrightarrow>
    lbWinner q p = winnerRef (buildSelfRef (wbRounds (db_shape b) + q) p ''double_elim'' (de_cfg b))"
  "''winner of GF'' = winnerRef (buildSelfRef (wbRounds (db_shape b) + lbRounds (db_shape b) + 1) p ''double_elim'' (de_cfg b))"
  "''loser of GF'' = loserRef (buildSelfRef (wbRounds (db_shape b) + lbRounds (db_shape b) + 1) p ''double_elim'' (de_cfg b))"
  by (simp_all only: de_self) (simp_all add: wbWinner_def wbLoser_def lbWinner_def winnerRef_def loserRef_def)

lemma double_slot_cases:
  assumes "laid_out n b k j" and "s \<in> set (db_slots b)"
  obtains (play) q where "s = play_in n (de_byeSeedCount (db_shape b)) q"
  | (wb) r where "1 \<le> r" "r \<le> k" "s \<in> set (wb_row k (de_byeSeedCount (db_shape b)) (de_hasPlayInRound (db_shape b)) r)"
  | (lb) r p where "1 \<le> r" "r \<le> lbRounds (db_shape b)" "s = lb_slot (k + 1 - j) k r p"
  | (final) "s \<in> set (finals_of k (db_shape b))"
  using assms(2) unfolding laid_outD(12) [OF assms(1)] by (auto simp: lb_row_def)

lemma finals_cases:
  assumes "s \<in> set (finals_of k sh)"
  obtains (gf) "slot_section s = GF" "round s = k + lbRounds sh + 1" "position s = 1" "secondChanceTarget sh = Gold"
      "s = de_slot GF (k + lbRounds sh + 1) 1 (None, wbWinner k 1, WinnerOf)
         (None, if lbRounds sh > 0 then lbWinner (lbRounds sh) 1 else wbLoser k 1, if lbRounds sh > 0 then WinnerOf else LoserOf)"
  | (reset) "slot_section s = RESET" "round s = k + lbRounds sh + 2" "position s = 1" "grandFinalReset sh"
      "s = de_slot RESET (k + lbRounds sh + 2) 1 (None, ''loser of GF'', LoserOf) (None, ''winner of GF'', WinnerOf)"
  using assms by (cases "secondChanceTarget sh") (auto simp: buildFinalsSlots_def Let_def de_slot_def split: if_splits)

lemma play_in_fields: "slot_section (play_in n c q) = WB" "round (play_in n c q) = 0" "position (play_in n c q) = q"
  by (simp_all add: play_in_def de_slot_def Let_def)

lemma lb_slot_fields: "slot_section (lb_slot e w r p) = LB" "round (lb_slot e w r p) = w + r" "position (lb_slot e w r p) = p"
  by (simp_all add: lb_slot_def de_slot_def split: prod.split)

text \<open>The generator refers to a slot by the name the advance gives it.\<close>

lemma winner_name_self:
  assumes "laid_out n b k j" and "s \<in> set (db_slots b)" and "goes_on (db_shape b) s"
  shows "winner_name (db_shape b) s = winnerRef (self_ref ''double_elim'' (de_cfg b) s)"
proof -
  note lay = laid_outD [OF assms(1)]
  show ?thesis
    using assms(1,2)
  proof (cases rule: double_slot_cases)
    case (play q)
    then show ?thesis by (simp only: winner_name_def play_in_fields bracket_section.case de_names(1) le0)
  next
    case (wb r)
    then show ?thesis using wb_row_fields [OF wb(3)] lay(4) by (simp only: winner_name_def bracket_section.case de_names(1))
  next
    case (lb r p)
    have "winner_name (db_shape b) s = lbWinner r p" using lb lay(4) by (simp add: winner_name_def lb_slot_fields)
    then show ?thesis using lb lay(4) by (simp only: lb_slot_fields de_names(3))
  next
    case final
    then show ?thesis
    proof (cases rule: finals_cases)
      case gf
      then show ?thesis
        using de_names(4) [of b "position s"] lay(4) by (simp only: winner_name_def bracket_section.case)
    next
      case reset
      then show ?thesis using assms(3) by (simp add: goes_on_def)
    qed
  qed
qed

lemma loser_name_self:
  assumes "laid_out n b k j" and "s \<in> set (db_slots b)" and "drops (db_shape b) s"
  shows "loser_name s = loserRef (self_ref ''double_elim'' (de_cfg b) s)"
proof -
  note lay = laid_outD [OF assms(1)]
  show ?thesis
    using assms(1,2)
  proof (cases rule: double_slot_cases)
    case (play q)
    then show ?thesis by (simp only: loser_name_def play_in_fields if_True refl de_names(2) le0)
  next
    case (wb r)
    then show ?thesis using wb_row_fields [OF wb(3)] lay(4) by (simp only: loser_name_def if_True refl de_names(2))
  next
    case (lb r p)
    then show ?thesis using assms(3) by (simp add: drops_def lb_slot_fields)
  next
    case final
    then show ?thesis
    proof (cases rule: finals_cases)
      case gf
      then show ?thesis
        using de_names(5) [of b "position s"] lay(4) by (simp add: loser_name_def)
    next
      case reset
      then show ?thesis using assms(3) by (simp add: drops_def)
    qed
  qed
qed

lemma double_passed_on:
  assumes "doubleElimBracket n opts = Inr b"
  shows "passed_on ''double_elim'' (de_cfg b) (db_slots b)"
proof -
  obtain k j where laid: "laid_out n b k j" using bracket_laid_out [OF assms] .
  have W: "map (winner_name (db_shape b)) (filter (goes_on (db_shape b)) (db_slots b)) =
      map (\<lambda>s. winnerRef (self_ref ''double_elim'' (de_cfg b) s)) (filter (goes_on (db_shape b)) (db_slots b))"
    by (rule map_cong [OF refl]) (use winner_name_self [OF laid] in simp)
  have L: "map loser_name (filter (drops (db_shape b)) (db_slots b)) =
      map (\<lambda>s. loserRef (self_ref ''double_elim'' (de_cfg b) s)) (filter (drops (db_shape b)) (db_slots b))"
    by (rule map_cong [OF refl]) (use loser_name_self [OF laid] in simp)
  show ?thesis
    using double_winners [OF assms] double_losers [OF assms] unfolding passed_on_def W L by (intro conjI exI)
qed

definition place :: "'a bracket_slot_scheme \<Rightarrow> nat \<times> nat" where
  "place s = (round s, position s)"

lemma distinct_rows:
  assumes "distinct rs" and "inj_on g (set rs)" and "\<And>r. r \<in> set rs \<Longrightarrow> distinct (map position (row r))"
    and "\<And>r s. r \<in> set rs \<Longrightarrow> s \<in> set (row r) \<Longrightarrow> round s = g r"
  shows "distinct (map place (concat (map row rs)))"
  using assms
proof (induction rs)
  case (Cons r rs)
  have "distinct (map place (row r))"
    using Cons.prems(3) [of r] by (auto simp: distinct_map inj_on_def place_def)
  moreover have "distinct (map place (concat (map row rs)))" using Cons by simp
  moreover have "set (map place (row r)) \<inter> set (map place (concat (map row rs))) = {}"
  proof -
    have "g r \<notin> g ` set rs" using Cons.prems(1,2) by (auto simp: inj_on_def)
    moreover have "fst x = g r" if "x \<in> set (map place (row r))" for x
      using that Cons.prems(4) by (auto simp: place_def)
    moreover have "fst x \<in> g ` set rs" if x: "x \<in> set (map place (concat (map row rs)))" for x
    proof -
      obtain q s where "q \<in> set rs" "s \<in> set (row q)" "x = place s" using x by auto
      then show ?thesis using Cons.prems(4) [of q s] by (simp add: place_def)
    qed
    ultimately show ?thesis unfolding disjoint_iff by metis
  qed
  ultimately show ?case by simp
qed simp

lemma places_append:
  assumes "distinct (map place xs)" and "distinct (map place ys)" and "\<And>s. s \<in> set xs \<Longrightarrow> round s \<le> m"
    and "\<And>s. s \<in> set ys \<Longrightarrow> m < round s"
  shows "distinct (map place (xs @ ys))"
proof -
  have "fst x \<le> m" if "x \<in> set (map place xs)" for x using that assms(3) by (auto simp: place_def)
  moreover have "m < fst x" if "x \<in> set (map place ys)" for x using that assms(4) by (auto simp: place_def)
  ultimately have "set (map place xs) \<inter> set (map place ys) = {}" unfolding disjoint_iff by (metis leD)
  then show ?thesis using assms(1,2) by simp
qed

lemma finals_places: "distinct (map place (finals_of k sh))"
  by (simp add: buildFinalsSlots_def Let_def de_slot_def place_def)

lemma double_places:
  assumes "laid_out n b k j"
  shows "distinct (map place (db_slots b))"
proof -
  note lay = laid_outD [OF assms]
  let ?sh = "db_shape b"
  let ?P = "map (play_in n (de_byeSeedCount ?sh)) [1..<n - 2 ^ k + 1]"
    and ?W = "concat (map (wb_row k (de_byeSeedCount ?sh) (de_hasPlayInRound ?sh)) [1..<k + 1])"
    and ?L = "concat (map (lb_row j (k + 1 - j) k) [1..<lbRounds ?sh + 1])" and ?F = "finals_of k ?sh"
  have W: "1 \<le> round s \<and> round s \<le> k" if "s \<in> set ?W" for s using that by (auto dest: wb_row_fields)
  have L: "k < round s \<and> round s \<le> k + lbRounds ?sh" if "s \<in> set ?L" for s
    using that by (auto simp: lb_row_def lb_slot_fields simp del: upt_Suc)
  have F: "k + lbRounds ?sh < round s" if "s \<in> set ?F" for s using that by (auto elim: finals_cases)
  have "distinct (map place ?L)"
    by (rule distinct_rows [where g = "\<lambda>r. k + r"]) (auto simp: lb_row_positions inj_on_def dest: lb_row_fields simp del: upt_Suc)
  then have LF: "distinct (map place (?L @ ?F))" by (rule places_append [OF _ finals_places]) (use L F in blast)+
  have "distinct (map place ?W)"
    by (rule distinct_rows [where g = "\<lambda>r. r"]) (auto simp: wb_row_positions wb_row_fields simp del: upt_Suc)
  then have WLF: "distinct (map place (?W @ ?L @ ?F))"
  proof (rule places_append [OF _ LF, of _ k])
    show "k < round s" if "s \<in> set (?L @ ?F)" for s using that L [of s] F [of s] by (simp only: set_append Un_iff) linarith
  qed (use W in blast)
  have "distinct (map place ?P)" by (auto simp: distinct_map inj_on_def place_def play_in_fields)
  then have "distinct (map place (?P @ ?W @ ?L @ ?F))"
  proof (rule places_append [OF _ WLF, of _ 0])
    show "0 < round s" if "s \<in> set (?W @ ?L @ ?F)" for s
      using that W [of s] L [of s] F [of s] by (simp only: set_append Un_iff) linarith
  qed (auto simp: play_in_fields)
  then show ?thesis unfolding lay(12) .
qed

lemma double_rounds:
  assumes "laid_out n b k j" and "s \<in> set (db_slots b)"
  shows "round s \<le> k + lbRounds (db_shape b) + 2" and "k + lbRounds (db_shape b) < round s \<Longrightarrow> position s = 1"
proof -
  have "round s \<le> k + lbRounds (db_shape b) + 2 \<and> (k + lbRounds (db_shape b) < round s \<longrightarrow> position s = 1)"
    using assms
  proof (cases rule: double_slot_cases)
    case (wb r)
    then show ?thesis using wb_row_fields [OF wb(3)] by simp
  next
    case final
    then show ?thesis by (rule finals_cases) simp_all
  qed (simp_all add: play_in_fields lb_slot_fields)
  then show "round s \<le> k + lbRounds (db_shape b) + 2" and "k + lbRounds (db_shape b) < round s \<Longrightarrow> position s = 1"
    by blast+
qed

lemma double_named:
  assumes "laid_out n b k j"
  shows "named ''double_elim'' (de_cfg b) (db_slots b)"
proof -
  have cfg: "cfg_wbRounds (de_cfg b) = Some k" "cfg_lbRounds (de_cfg b) = Some (lbRounds (db_shape b))"
    using laid_outD(4) [OF assms] by (simp_all add: doubleElimConfigJson_def)
  note inject = double_self_inject [where ty = "''double_elim''", OF _ cfg]
  have "inj_on (self_ref ''double_elim'' (de_cfg b)) (set (db_slots b))"
  proof (rule inj_onI)
    fix s t assume s: "s \<in> set (db_slots b)" "t \<in> set (db_slots b)"
      and eq: "self_ref ''double_elim'' (de_cfg b) s = self_ref ''double_elim'' (de_cfg b) t"
    have "place s = place t"
      using inject [OF _ eq] double_rounds [OF assms s(1)] double_rounds [OF assms s(2)] by (auto simp: place_def)
    then show "s = t" using double_places [OF assms] s by (simp add: distinct_map inj_on_def)
  qed
  moreover have "round s = r"
    if "s \<in> set (db_slots b)" "t \<in> set (db_slots b)" "r < round t" "self_ref ''double_elim'' (de_cfg b) s = buildSelfRef r p ''double_elim'' (de_cfg b)"
    for s t r p
    using inject [OF _ that(4)] double_rounds(1) [OF assms that(1)] double_rounds(1) [OF assms that(2)] that(3) by simp
  moreover have "distinct (db_slots b)" using double_places [OF assms] by (simp add: distinct_map)
  ultimately show ?thesis by (auto simp: named_def distinct_map)
qed

lemma seed_names [simp]: "seedSource = seedName"
  by (simp add: seedSource_def seedName_def fun_eq_iff)

lemma double_sourced:
  assumes "laid_out n b k j" and "s \<in> set (db_slots b)"
  shows "sourced ''double_elim'' (de_cfg b) s"
proof -
  note lay = laid_outD [OF assms(1)]
  let ?cfg = "de_cfg b" and ?lb = "lbRounds (db_shape b)"
  have wbn: "wbWinner r p = winnerRef (buildSelfRef r p ''double_elim'' ?cfg)" "wbLoser r p = loserRef (buildSelfRef r p ''double_elim'' ?cfg)"
    if "r \<le> k" for r p using that de_names(1,2) lay(4) by simp_all
  have lbw: "lbWinner q p = winnerRef (buildSelfRef (k + q) p ''double_elim'' ?cfg)" if "1 \<le> q" "q \<le> ?lb" for q p
    using that de_names(3) lay(4) by simp
  show ?thesis
    using assms
  proof (cases rule: double_slot_cases)
    case (play q)
    then show ?thesis by (simp add: sourced_def play_in_def de_slot_def Let_def sources_of_def entry_seeds_def)
  next
    case (wb r)
    have names: "\<exists>p. wbWinner 0 q = winnerRef (buildSelfRef 0 p ''double_elim'' ?cfg)" for q
      using wbn(1) [of 0 q] by blast
    show ?thesis
    proof (cases "r = 1")
      case True
      then obtain i home away where s: "s = wb_first (de_byeSeedCount (db_shape b)) (de_hasPlayInRound (db_shape b)) (i, home, away)"
        using wb(3) by (auto simp: wb_row_def)
      show ?thesis
        using names unfolding s sourced_def wb_first_def
        by (cases "de_hasPlayInRound (db_shape b) \<and> home > de_byeSeedCount (db_shape b)";
            cases "de_hasPlayInRound (db_shape b) \<and> away > de_byeSeedCount (db_shape b)")
           (simp_all add: wb_first_side_def de_slot_def sources_of_def entry_seeds_def)
    next
      case False
      then obtain p where "s = wb_later r p" using wb(3) by (auto simp: wb_row_def)
      then show ?thesis
        using False wb(1,2) by (auto simp: sourced_def wb_later_def de_slot_def sources_of_def entry_seeds_def wbn intro!: earlier_name)
    qed
  next
    case (lb r p)
    have "k + 1 - j + r div 2 \<le> k" using lay(2,3,13) lb(2) by linarith
    then have loser: "\<exists>q < k + r. \<exists>p. wbLoser (k + 1 - j + r div 2) i = loserRef (buildSelfRef q p ''double_elim'' ?cfg)" for i
      using wbn(2) [of "k + 1 - j + r div 2" i] lb(1) by (intro exI [of _ "k + 1 - j + r div 2"] conjI exI [of _ i]) simp_all
    have first: "\<exists>q < k + r. \<exists>p. wbLoser (k + 1 - j) i = loserRef (buildSelfRef q p ''double_elim'' ?cfg)" for i
      using wbn(2) [of "k + 1 - j" i] lb(1) lay(2,3) by (intro exI [of _ "k + 1 - j"] conjI exI [of _ i]) simp_all
    have winner: "\<exists>q < k + r. \<exists>p. lbWinner (r - 1) i = winnerRef (buildSelfRef q p ''double_elim'' ?cfg)" if "r \<noteq> 1" for i
      using that lbw [of "r - 1" i] lb(1,2) by (intro exI [of _ "k + (r - 1)"] conjI exI [of _ i]) auto
    note fields = sourced_def lb_slot_def lbSources_def de_slot_def sources_of_def entry_seeds_def
    consider "r = 1" | "r \<noteq> 1" "even r" | "r \<noteq> 1" "odd r" by blast
    then show ?thesis
    proof cases
      case 1
      then show ?thesis using first unfolding lb(3) by (simp add: fields)
    next
      case 2
      then show ?thesis using loser winner unfolding lb(3) by (simp add: fields)
    next
      case 3
      then show ?thesis using winner unfolding lb(3) by (simp add: fields)
    qed
  next
    case final
    then show ?thesis
    proof (cases rule: finals_cases)
      case gf
      then show ?thesis
        unfolding gf(5) by (auto simp: sourced_def de_slot_def sources_of_def entry_seeds_def wbn lbw intro!: earlier_name)
    next
      case reset
      then show ?thesis
        unfolding reset(5) using lay(4) de_names(4,5) [of b 1]
        by (auto simp: sourced_def de_slot_def sources_of_def entry_seeds_def intro!: earlier_name)
    qed
  qed
qed

subsection \<open>A generated bracket plays out\<close>

lemma full_ranking_rank:
  assumes "full_ranking m rk" and "1 \<le> e" and "e \<le> m"
  shows "byRank rk (int e) \<noteq> None"
proof -
  have "int e \<in> set (map rr_rank rk)" using assms by (simp add: full_ranking_def del: upt_Suc)
  then have "int e \<in> fst ` set (map (\<lambda>r. (rr_rank r, rr_registrationId r)) rk)" by force
  then show ?thesis by (simp add: byRank_def map_of_eq_None_iff image_image)
qed

text \<open>
  What the generation promises the advance: every side is fed, the seeds are the field, and
  the one slot without a bout is not drawn. The runs of the bracket follow from it.
\<close>

locale advancing_bracket = bracket_generator generate slots_of
  for generate :: "nat \<Rightarrow> 'o \<Rightarrow> 'e + 'b" and slots_of :: "'b \<Rightarrow> 'a bracket_slot_scheme list" +
  fixes admissible :: "nat \<Rightarrow> 'o \<Rightarrow> bool" and ty :: string and cfg_of :: "'b \<Rightarrow> phase_config" and reset_of :: "'b \<Rightarrow> nat option"
  assumes fed: "generate n opts = Inr b \<Longrightarrow> admissible n opts \<Longrightarrow> inj ids \<Longrightarrow> well_fed ty (cfg_of b) (slot_rows_of ids (slots_of b))"
    and sources: "generate n opts = Inr b \<Longrightarrow> admissible n opts \<Longrightarrow> s \<in> set (slots_of b) \<Longrightarrow> sourced ty (cfg_of b) s"
    and late: "generate n opts = Inr b \<Longrightarrow> reset_of b = Some r \<Longrightarrow> 1 < r"
begin

abbreviation phase_of :: "(nat \<Rightarrow> string) \<Rightarrow> (nat \<Rightarrow> string) \<Rightarrow> 'b \<Rightarrow> bracket_db" where
  "phase_of ids bids b \<equiv> generated_phase ids bids ty (cfg_of b) (reset_of b) (slots_of b)"

lemma drawn:
  assumes "generate n opts = Inr b" and "admissible n opts" and "inj ids" and "inj bids" and "full_ranking m rk"
  shows "\<exists>db. populateBracket new_id rk (phase_of ids bids b) = Inr db \<and> decided db = 0 \<and>
    bracket_inv ty (cfg_of b) (slot_rows_of ids (slots_of b)) (seeded_by rk) db"
proof -
  let ?db = "phase_of ids bids b"
  have db: "ph_type ?db = ty" "ph_config ?db = cfg_of b" "ph_slots ?db = slot_rows_of ids (slots_of b)"
    by (simp_all add: generated_phase_def Let_def)
  have "well_fed (ph_type ?db) (ph_config ?db) (ph_slots ?db)" unfolding db by (rule fed [OF assms(1-3)])
  moreover have "blank_table ?db"
    using late [OF assms(1)] no_bye_source [OF sources [OF assms(1,2)]] by (intro generated_blank [OF assms(3,4)])
  ultimately show ?thesis using populate_inv [OF _ _ assms(5), of ?db] unfolding db by blast
qed

lemma seeds_known:
  assumes "generate n opts = Inr b" and "admissible n opts" and "full_ranking m rk" and "n \<le> m"
    and "is_seed_ref r" and "r \<in> set (feeders (slot_rows_of ids (slots_of b)))"
  shows "seeded_by rk r \<noteq> None"
proof -
  have "map (\<lambda>s. [a_ref s, b_ref s]) (slot_rows_of ids (slots_of b)) = map sides (slots_of b)"
    by (rule rows_map) (simp add: sides_def)
  then obtain s where s: "s \<in> set (slots_of b)" "r \<in> set (sides s)" using assms(6) by (auto simp: feeders_def)
  then obtain t where t: "r \<in> set (sources_of t s)" by (elim side_source)
  have src: "sourced ty (cfg_of b) s" by (rule sources [OF assms(1,2) s(1)])
  then have "t = SeedSource" using t assms(5) by (cases t) (auto simp: sourced_def)
  then obtain e where e: "e \<in> set (entry_seeds s)" "r = seedName e" using t src by (auto simp: sourced_def)
  then have "1 \<le> e \<and> e \<le> m" using entrants_of_slot [OF assms(1) s(1)] assms(4) by auto
  then have "byRank rk (int e) \<noteq> None" using full_ranking_rank [OF assms(3)] by simp
  then show ?thesis unfolding seeded_by_def e(2) seedName_def parse_seed_name by simp
qed

lemma plays_out:
  assumes gen: "generate n opts = Inr b" and adm: "admissible n opts" and ids: "inj ids" and bids: "inj bids"
    and rk: "full_ranking m rk" and n: "n \<le> m" and fresh: "fresh_ids new_id"
    and pop: "populateBracket new_id rk (phase_of ids bids b) = Inr db" and run: "bout_run new_id db k db'"
  shows "bracket_inv ty (cfg_of b) (slot_rows_of ids (slots_of b)) (seeded_by rk) db'"
    and "decided db' = k" and "k \<le> length (slots_of b)" and "length (ph_slots db') = length (slots_of b)"
    and "\<not> (\<exists>db''. bout_step new_id db' db'') \<Longrightarrow> t \<in> set (ph_slots db') \<Longrightarrow>
      winnerOf (ph_bouts db') t \<noteq> None \<or> (\<exists>s \<in> set (ph_slots db'). ended db' s \<and> row_round s < row_round t)"
proof -
  let ?rows = "slot_rows_of ids (slots_of b)"
  have wf: "well_fed ty (cfg_of b) ?rows" by (rule fed [OF gen adm ids])
  have "bracket_inv ty (cfg_of b) ?rows (seeded_by rk) db" "decided db = 0"
    using drawn [OF gen adm ids bids rk, of new_id] pop by auto
  then show inv: "bracket_inv ty (cfg_of b) ?rows (seeded_by rk) db'" and "decided db' = k"
    using bout_run_inv [OF run _ wf fresh] by auto
  note facts = bracket_invD [OF inv wf]
  show len: "length (ph_slots db') = length (slots_of b)"
    using map_eq_imp_length_eq [OF facts(3)] by (simp add: slot_rows_of_def)
  then show "k \<le> length (slots_of b)" using decided_le [of db'] \<open>decided db' = k\<close> by simp
  have "feeders (ph_slots db') = feeders ?rows" by (rule skeleton_eqD(4) [OF facts(3)])
  then have "seeded_by rk r \<noteq> None" if "is_seed_ref r" "r \<in> set (concat (map (\<lambda>s. [a_ref s, b_ref s]) (ph_slots db')))" for r
    using seeds_known [OF gen adm rk n that(1)] that(2) by (simp add: feeders_def)
  then show "\<not> (\<exists>db''. bout_step new_id db' db'') \<Longrightarrow> t \<in> set (ph_slots db') \<Longrightarrow>
      winnerOf (ph_bouts db') t \<noteq> None \<or> (\<exists>s \<in> set (ph_slots db'). ended db' s \<and> row_round s < row_round t)"
    using stuck_decided [OF inv wf] by blast
qed

end

lemma double_well_fed:
  assumes "doubleElimBracket n opts = Inr b" and "inj ids"
  shows "well_fed ''double_elim'' (de_cfg b) (slot_rows_of ids (db_slots b))"
proof -
  obtain k j where laid: "laid_out n b k j" using bracket_laid_out [OF assms(1)] .
  show ?thesis
  proof (rule generated_well_fed [OF assms(2) _ double_sourced [OF laid]])
    show "distinct (concat (map entry_seeds (db_slots b)))" by (rule double.distinct_entries [OF assms(1)])
    show "autoAdvance (de_cfg b) \<noteq> Some False" by (simp add: doubleElimConfigJson_def)
  qed (assumption | rule double_named [OF laid] double_passed_on [OF assms(1)])+
qed

lemma double_reset_late:
  assumes "doubleElimBracket n opts = Inr b" and "resetRoundOf b = Some r"
  shows "1 < r"
  using assms(2) by (auto simp: resetRoundOf_def split: if_splits)

text \<open>The default size, or the number of fighters as an explicit one: no byes.\<close>

definition without_byes :: "nat \<Rightarrow> nat option \<Rightarrow> bool" where
  "without_byes n req \<longleftrightarrow> req = None \<or> req = Some n"

interpretation single_phase: advancing_bracket singleElimBracket slots without_byes "''single_elim''" singleElimConfigJson "\<lambda>_. None"
proof unfold_locales
  have "inj show_nat" by (simp add: inj_def)
  then show "sourced ''single_elim'' (singleElimConfigJson b) s" if "singleElimBracket n req = Inr b" "without_byes n req" "s \<in> set (slots b)" for n req b s
    using single_well_fed(2) [OF that(1)] that(2,3) unfolding without_byes_def by blast
qed (simp_all add: without_byes_def single_well_fed)

interpretation double_phase: advancing_bracket doubleElimBracket db_slots "\<lambda>_ _. True" "''double_elim''" doubleElimConfigJson resetRoundOf
proof unfold_locales
  show "sourced ''double_elim'' (de_cfg b) s" if "doubleElimBracket n opts = Inr b" "s \<in> set (db_slots b)" for n opts b s
    using bracket_laid_out [OF that(1)] double_sourced that(2) by metis
  show "1 < r" if "doubleElimBracket n opts = Inr b" "resetRoundOf b = Some r" for n opts b r
    by (rule double_reset_late [OF that])
qed (rule double_well_fed)

text \<open>What a successful generation returns.\<close>

lemma generated_single:
  assumes "generateBracket ids bids existing force registered dto = Inr db" and "ph_type db = ''single_elim''"
  obtains b where "singleElimBracket (qualifyCountOf registered dto) (dto_bracketSize dto) = Inr b"
    and "db = single_phase.phase_of ids bids b"
  using assms by (auto simp: generateBracket_def Let_def generated_phase_def split: if_splits sum.splits)

lemma generated_double:
  assumes "generateBracket ids bids existing force registered dto = Inr db" and "ph_type db = ''double_elim''"
  obtains b opts where "doubleElimBracket (qualifyCountOf registered dto) opts = Inr b"
    and "db = double_phase.phase_of ids bids b"
  using assms by (auto simp: generateBracket_def Let_def generated_phase_def split: if_splits sum.splits)

lemma all_decided: "decided db = length (ph_slots db) \<longleftrightarrow> (\<forall>t \<in> set (ph_slots db). winnerOf (ph_bouts db) t \<noteq> None)"
proof -
  have "length (filter P xs) = length xs \<longleftrightarrow> (\<forall>x \<in> set xs. P x)" for P and xs :: "slot_row list"
  proof (induction xs)
    case (Cons x xs)
    moreover have "length (filter P xs) \<noteq> Suc (length xs)" using length_filter_le [of P xs] by linarith
    ultimately show ?case by simp
  qed simp
  then show ?thesis by (simp add: decided_def)
qed

lemma single_next:
  assumes b: "singleElimBracket n req = Inr b" and adm: "without_byes n req" and ids: "inj ids" and bids: "inj bids"
    and fresh: "fresh_ids new_id" and rk: "full_ranking m rk" and n: "n \<le> m"
    and pop: "populateBracket new_id rk (single_phase.phase_of ids bids b) = Inr drawn" and run: "bout_run new_id drawn k played"
    and more: "k < length (slots b)"
  shows "\<exists>next. bout_step new_id played next"
proof -
  note res = single_phase.plays_out [OF b adm ids bids rk n fresh pop run]
  have "\<not> ended played s" for s
    using res(1) by (simp add: ended_def grandFinalEndsBracket_def isGrandFinalWithReset_def bracket_inv_def)
  then show ?thesis using res(5) all_decided [of played] more unfolding res(2,4) by (metis less_irrefl)
qed


text \<open>
  C2. A double elimination plays out, with either podium, any repechage and the reset of the
  grand final: no fighter ever stands in two open places, every bout decides exactly one
  slot, and where no bout can be fought any more every slot has its winner, except the reset
  after a grand final that its first side has won.
\<close>

theorem double_bracket_plays_out:
  assumes "generateBracket ids bids existing force registered dto = Inr db" and "ph_type db = ''double_elim''"
    and "inj ids" and "inj bids" and "fresh_ids new_id" and "full_ranking m rk" and "qualifyCountOf registered dto \<le> m"
  shows "\<exists>drawn. populateBracket new_id rk db = Inr drawn \<and>
    (\<forall>k played. bout_run new_id drawn k played \<longrightarrow>
       places_apart played \<and> decided played = k \<and> k \<le> length (ph_slots db) \<and>
       (\<not> (\<exists>next. bout_step new_id played next) \<longrightarrow>
          (\<forall>t \<in> set (ph_slots played). winnerOf (ph_bouts played) t \<noteq> None \<or>
             (\<exists>gf \<in> set (ph_slots played). row_round gf < row_round t \<and>
                isGrandFinalWithReset ''double_elim'' (ph_config db) (row_round gf) \<and>
                winnerOf (ph_bouts played) gf \<noteq> None \<and> winnerOf (ph_bouts played) gf = reg_a gf))))"
proof (rule generated_double [OF assms(1,2)])
  fix b opts assume b: "doubleElimBracket (qualifyCountOf registered dto) opts = Inr b"
    and db: "db = double_phase.phase_of ids bids b"
  have len: "length (ph_slots db) = length (db_slots b)" and cfg: "ph_config db = doubleElimConfigJson b"
    by (simp_all add: db generated_phase_def Let_def slot_rows_of_def)
  obtain drawn where pop: "populateBracket new_id rk db = Inr drawn"
    using double_phase.drawn [OF b TrueI assms(3,4,6)] unfolding db by blast
  have "places_apart played \<and> decided played = k \<and> k \<le> length (ph_slots db) \<and> (\<not> (\<exists>next. bout_step new_id played next) \<longrightarrow>
      (\<forall>t \<in> set (ph_slots played). winnerOf (ph_bouts played) t \<noteq> None \<or>
         (\<exists>gf \<in> set (ph_slots played). row_round gf < row_round t \<and>
            isGrandFinalWithReset ''double_elim'' (ph_config db) (row_round gf) \<and>
            winnerOf (ph_bouts played) gf \<noteq> None \<and> winnerOf (ph_bouts played) gf = reg_a gf)))"
    if run: "bout_run new_id drawn k played" for k played
  proof -
    note res = double_phase.plays_out [OF b TrueI assms(3,4,6,7,5) pop [unfolded db] run]
    have ended: "ended played gf \<longleftrightarrow> isGrandFinalWithReset ''double_elim'' (ph_config db) (row_round gf) \<and>
        winnerOf (ph_bouts played) gf \<noteq> None \<and> winnerOf (ph_bouts played) gf = reg_a gf" for gf
      using res(1) by (simp add: ended_def grandFinalEndsBracket_def bracket_inv_def cfg)
    show ?thesis using res(1-3) res(5) unfolding ended bracket_inv_def len by blast
  qed
  then show ?thesis using pop by blast
qed

subsection \<open>Brackets of three\<close>

definition three_dto :: "string \<Rightarrow> generate_dto" where
  "three_dto ty = \<lparr>dto_grandFinalReset = Some True, dto_secondChanceTarget = None, dto_bronzeMatch = None,
     dto_repechageEntrySize = None, dto_phaseType = Some ty, dto_qualifyCount = Some 3, dto_bracketSize = None\<rparr>"

definition concat_ids :: "bout_row list \<Rightarrow> string" where
  "concat_ids bs = ''n'' @ concat (map bout_id bs)"

lemma fresh_concat_ids: "fresh_ids concat_ids"
proof -
  have "length (bout_id m) < length (concat_ids bs)" if "m \<in> set bs" for m bs
    using that by (induction bs) (auto simp: concat_ids_def)
  then show ?thesis by (fastforce simp: fresh_ids_def)
qed

lemma inj_show_nat: "inj show_nat"
  by (simp add: inj_def)

definition xyz :: "ranked_registration list" where
  "xyz = [\<lparr>rr_rank = 1, rr_registrationId = ''x''\<rparr>, \<lparr>rr_rank = 2, rr_registrationId = ''y''\<rparr>, \<lparr>rr_rank = 3, rr_registrationId = ''z''\<rparr>]"

lemma full_xyz: "full_ranking 3 xyz"
  by (simp add: full_ranking_def xyz_def upt_rec)

lemma qualify_three [simp]: "qualifyCountOf 3 (three_dto ty) = 3"
  by (simp add: qualifyCountOf_def three_dto_def)

lemma size_of_3: "highestPowerOf2Below 3 = 2" "isPowerOf2 3 = False" "isPowerOf2 2" "log2 2 = 1"
  using log2_power [of 1] by (simp_all add: highestPowerOf2Below_def doubleBelow.simps isPowerOf2_def)

lemma three_generated:
  obtains db where "generateBracket show_nat show_nat False False 3 (three_dto ''single_elim'') = Inr db"
    and "ph_type db = ''single_elim''" and "length (ph_slots db) = 2"
proof -
  have "\<exists>b. singleElimBracket 3 None = Inr b \<and> length (slots b) = 2"
    by (simp_all add: singleElimBracket_def resolve_size_def size_of_3 MAX_SINGLE_ELIM_BRACKET_SIZE_def Let_def
        later_rounds_def length_seeding_order [of 1, simplified])
  then obtain b where b: "singleElimBracket 3 None = Inr b" "length (slots b) = 2" by blast
  have dto: "or_else (dto_phaseType (three_dto ''single_elim'')) ''single_elim'' = ''single_elim''"
    "dto_bracketSize (three_dto ''single_elim'') = None"
    by (simp_all add: three_dto_def or_else_def)
  show ?thesis
  proof (rule that [of "single_phase.phase_of show_nat show_nat b"])
    show "generateBracket show_nat show_nat False False 3 (three_dto ''single_elim'') = Inr (single_phase.phase_of show_nat show_nat b)"
      unfolding generateBracket_def Let_def dto qualify_three b by simp
  qed (simp_all add: generated_phase_def Let_def slot_rows_of_def b(2))
qed


lemma three_generated_double:
  obtains db where "generateBracket show_nat show_nat False False 3 (three_dto ''double_elim'') = Inr db"
    and "ph_type db = ''double_elim''"
proof -
  have "\<exists>b. doubleElimBracket 3 (doubleElimOptionsFromDto (three_dto ''double_elim'') None) = Inr b"
    by (simp add: doubleElimBracket_def resolveDoubleElimShape_def doubleElimOptionsFromDto_def three_dto_def
        resolveBracketSize_def size_of_3 MAX_DOUBLE_ELIM_BRACKET_SIZE_def rejectInapplicableOptions_def
        resolveRepechageEntrySize_def resolveLbRounds_def or_else_def Let_def)
  then obtain b where b: "doubleElimBracket 3 (doubleElimOptionsFromDto (three_dto ''double_elim'') None) = Inr b" by blast
  show ?thesis
  proof (rule that [of "double_phase.phase_of show_nat show_nat b"])
    have dto: "or_else (dto_phaseType (three_dto ''double_elim'')) ''single_elim'' = ''double_elim''"
      "dto_bracketSize (three_dto ''double_elim'') = None"
      by (simp_all add: three_dto_def or_else_def)
    show "generateBracket show_nat show_nat False False 3 (three_dto ''double_elim'') = Inr (double_phase.phase_of show_nat show_nat b)"
      unfolding generateBracket_def Let_def dto qualify_three b by simp
  qed (simp add: generated_phase_def Let_def)
qed

theorem double_bracket_plays_out_witness:
  "\<exists>db drawn. generateBracket show_nat show_nat False False 3 (three_dto ''double_elim'') = Inr db \<and>
    populateBracket concat_ids xyz db = Inr drawn \<and>
    (\<forall>k played. bout_run concat_ids drawn k played \<longrightarrow> places_apart played \<and> decided played = k)"
proof (rule three_generated_double)
  fix db assume db: "generateBracket show_nat show_nat False False 3 (three_dto ''double_elim'') = Inr db"
    "ph_type db = ''double_elim''"
  have "qualifyCountOf 3 (three_dto ''double_elim'') \<le> 3" by simp
  from double_bracket_plays_out [OF db inj_show_nat inj_show_nat fresh_concat_ids full_xyz this]
  show ?thesis using db(1) by blast
qed

end
