(* ===== verification/Bracket_Edit.thy ===== *)
theory Bracket_Edit
  imports Bracket_Generation
begin

section \<open>Editing a generated bracket\<close>

text \<open>
  \<open>editBracketConfig\<close> and \<open>syncGrandFinalResetSlot\<close> of \<open>phases.service.ts\<close>, and the rules of
  \<open>dto/double-elim-podium.ts\<close> on the options of a request. A deleted slot leaves its bouts
  behind without a slot, as the foreign key of migration 0073 has it. The role of the
  caller and the audit log are not modelled.
\<close>

datatype podium_issue = BronzeMatchInGold | ResetInBronze | OnlyForDoubleElim structural_field

definition refineDoubleElimPodium :: "string option \<Rightarrow> 'a double_elim_input_scheme \<Rightarrow> podium_issue list" where
  "refineDoubleElimPodium phaseType v =
     (let target = or_else (dto_secondChanceTarget v) Gold in
      (if target = Gold \<and> dto_bronzeMatch v \<noteq> None then [BronzeMatchInGold] else [])
      @ (if target = Bronze \<and> dto_grandFinalReset v = Some True then [ResetInBronze] else [])
      @ (if phaseType = Some ''single_elim'' then
           (if dto_secondChanceTarget v \<noteq> None then [OnlyForDoubleElim SecondChanceTarget] else [])
           @ (if dto_bronzeMatch v \<noteq> None then [OnlyForDoubleElim BronzeMatch] else [])
           @ (if dto_repechageEntrySize v \<noteq> None then [OnlyForDoubleElim RepechageEntrySize] else [])
         else []))"

datatype edit_error =
    NotABracketPhase
  | MatchCompleted
  | NotDoubleElim
  | ReshapesBracket "structural_field list"
  | RegenerationFailed double_elim_error

definition delete_slots :: "(slot_row \<Rightarrow> bool) \<Rightarrow> bracket_db \<Rightarrow> bracket_db" where
  "delete_slots P db =
     (let gone = map row_id (filter P (ph_slots db))
      in db\<lparr>ph_slots := filter (\<lambda>s. \<not> P s) (ph_slots db),
            ph_bouts := map (\<lambda>m. if \<exists>sid \<in> set gone. bout_slot m = Some sid then m\<lparr>bout_slot := None\<rparr> else m) (ph_bouts db)\<rparr>)"

text \<open>The config, read as the options of a request with the reset on.\<close>

definition options_of_config :: "phase_config \<Rightarrow> double_elim_input" where
  "options_of_config config =
     \<lparr>dto_grandFinalReset = Some True, dto_secondChanceTarget = cfg_secondChanceTarget config,
      dto_bronzeMatch = cfg_bronzeMatch config, dto_repechageEntrySize = Some (cfg_repechageEntrySize config)\<rparr>"

definition syncGrandFinalResetSlot ::
    "string \<Rightarrow> phase_config \<Rightarrow> bool \<Rightarrow> bracket_db \<Rightarrow> double_elim_error + bracket_db" where
  "syncGrandFinalResetSlot new_sid config enabled db =
     (case (cfg_wbRounds config, cfg_lbRounds config) of
        (Some wb, Some lb) \<Rightarrow>
          (let resetRound = wb + lb + 2 in
           if \<not> enabled then Inr (delete_slots (\<lambda>s. row_round s = resetRound) db)
           else if list_ex (\<lambda>s. row_round s = resetRound) (ph_slots db) then Inr db
           else (case (cfg_fighterCount config, cfg_bracketSize config) of
             (Some fc, Some sz) \<Rightarrow>
               (case doubleElimBracket fc (doubleElimOptionsFromDto (options_of_config config) (Some sz)) of
                  Inl e \<Rightarrow> Inl e
                | Inr regenerated \<Rightarrow>
                    (case find (\<lambda>s. slot_section s = RESET) (db_slots regenerated) of
                       None \<Rightarrow> Inr db
                     | Some reset \<Rightarrow> Inr (db\<lparr>ph_slots := ph_slots db @ [slot_row_of new_sid reset]\<rparr>)))
           | _ \<Rightarrow> Inr db))
      | _ \<Rightarrow> Inr db)"

definition editBracketConfig :: "string \<Rightarrow> 'a double_elim_input_scheme \<Rightarrow> bracket_db \<Rightarrow> edit_error + bracket_db" where
  "editBracketConfig new_sid dto db =
     (let config = ph_config db in
      if ph_type db \<noteq> ''single_elim'' \<and> ph_type db \<noteq> ''double_elim'' then Inl NotABracketPhase
      else if list_ex (\<lambda>m. bout_status m = MCompleted) (ph_bouts db) then Inl MatchCompleted
      else if (dto_grandFinalReset dto \<noteq> None \<or> dto_secondChanceTarget dto \<noteq> None \<or> dto_bronzeMatch dto \<noteq> None \<or>
               dto_repechageEntrySize dto \<noteq> None) \<and> ph_type db \<noteq> ''double_elim'' then Inl NotDoubleElim
      else if structuralConfigChanges dto config \<noteq> [] then Inl (ReshapesBracket (structuralConfigChanges dto config))
      else (case dto_grandFinalReset dto of
        None \<Rightarrow> Inr db
      | Some on \<Rightarrow>
          (case syncGrandFinalResetSlot new_sid config on db of
             Inl e \<Rightarrow> Inl (RegenerationFailed e)
           | Inr db' \<Rightarrow> Inr (db'\<lparr>ph_config := config\<lparr>cfg_grandFinalReset := Some on\<rparr>\<rparr>))))"

subsection \<open>Generating once more\<close>

text \<open>The stored shape generates the same bracket again, with the reset on in gold mode.\<close>

definition with_reset :: "double_elim_shape \<Rightarrow> double_elim_shape" where
  "with_reset sh = sh\<lparr>grandFinalReset := (secondChanceTarget sh = Gold)\<rparr>"

lemma resolved_again:
  assumes "resolveDoubleElimShape n opts = Inr sh"
    and "opts' = \<lparr>opt_bracketSize = Some (de_bracketSize sh),
      opt_grandFinalReset = (if secondChanceTarget sh = Bronze then None else Some True),
      opt_secondChanceTarget = Some (secondChanceTarget sh),
      opt_bronzeMatch = (if secondChanceTarget sh = Bronze then Some (bronzeMatch sh) else None),
      opt_repechageEntrySize = Some (repechageEntrySize sh)\<rparr>"
  shows "resolveDoubleElimShape n opts' = Inr (with_reset sh)"
proof (rule resolved_fields [OF assms(1)])
  fix b r lb target bronze
  assume n: "2 \<le> n" and b: "resolveBracketSize n opts = Inr b" "b \<le> MAX_DOUBLE_ELIM_BRACKET_SIZE"
    and r: "resolveRepechageEntrySize b opts = Inr r" and lb: "resolveLbRounds r target bronze = Inr lb"
    and bronze: "bronze = (if target = Bronze then or_else (opt_bronzeMatch opts) True else False)"
    and sh: "sh = \<lparr>de_bracketSize = b, de_fighterCount = n, de_playInMatchCount = n - b,
      de_hasPlayInRound = (n - b > 0), de_byeSeedCount = (if n - b > 0 then b - (n - b) else 0),
      wbRounds = log2 b, lbRounds = lb, secondChanceTarget = target, bronzeMatch = bronze,
      repechageEntrySize = r, repechageEntryRound = log2 b + 1 - log2 r,
      grandFinalReset = (target = Gold \<and> opt_grandFinalReset opts = Some True)\<rparr>"
  obtain k where k: "1 \<le> k" "b = 2 ^ k" "2 ^ k \<le> n" "n \<le> 2 * 2 ^ k" using resolved_size [OF b(1) n] by blast
  obtain j where j: "1 \<le> j" "j \<le> k" "r = 2 ^ j" using resolved_repechage [of k opts r] r k by auto
  have two: "2 \<le> b" "2 \<le> r" "r \<le> b" and pow: "isPowerOf2 b" "isPowerOf2 r"
    using k(1,2) j self_le_power [of 2 k] self_le_power [of 2 j] by (auto simp: isPowerOf2_iff)
  have size: "resolveBracketSize n opts' = Inr b"
    using k(2-4) two pow by (simp add: resolveBracketSize_def assms(2) sh not_less)
  have rep: "resolveRepechageEntrySize b opts' = Inr r"
    using two pow by (simp add: resolveRepechageEntrySize_def assms(2) sh not_less)
  have reject: "rejectInapplicableOptions target opts' = Inr ()"
    by (cases target) (simp_all add: rejectInapplicableOptions_def assms(2) sh)
  have bronze': "(if target = Bronze then or_else (opt_bronzeMatch opts') True else False) = bronze"
    by (simp add: assms(2) sh bronze or_else_def)
  have target: "or_else (opt_secondChanceTarget opts') Gold = target" by (simp add: assms(2) sh or_else_def)
  have reset: "(target = Gold \<and> opt_grandFinalReset opts' = Some True) = (target = Gold)"
    by (cases target) (simp_all add: assms(2) sh)
  show ?thesis
    using n b(2) by (simp add: resolveDoubleElimShape_def size target reject rep Let_def bronze' lb reset with_reset_def not_less)
       (simp add: sh)
qed

lemma regenerated:
  assumes "doubleElimBracket n opts = Inr b"
  obtains b' where "doubleElimBracket n (doubleElimOptionsFromDto (options_of_config (doubleElimConfigJson b)) (Some (de_bracketSize (db_shape b)))) = Inr b'"
    and "db_shape b' = with_reset (db_shape b)"
    and "secondChanceTarget (db_shape b) = Gold \<Longrightarrow> \<not> grandFinalReset (db_shape b) \<Longrightarrow>
      \<exists>reset. db_slots b' = db_slots b @ [reset] \<and> slot_section reset = RESET \<and>
        round reset = wbRounds (db_shape b) + lbRounds (db_shape b) + 2 \<and> sourceBType reset = WinnerOf"
proof -
  obtain sh where sh: "resolveDoubleElimShape n opts = Inr sh" "db_shape b = sh"
    using assms by (auto simp: doubleElimBracket_def split: sum.splits)
  let ?opts = "doubleElimOptionsFromDto (options_of_config (doubleElimConfigJson b)) (Some (de_bracketSize (db_shape b)))"
  have again: "resolveDoubleElimShape n ?opts = Inr (with_reset sh)"
    by (rule resolved_again [OF sh(1)])
       (simp add: doubleElimOptionsFromDto_def options_of_config_def doubleElimConfigJson_def sh(2) or_else_def)
  obtain b' where b': "doubleElimBracket n ?opts = Inr b'" by (simp add: doubleElimBracket_def again)
  then have shape: "db_shape b' = with_reset sh" by (auto simp: doubleElimBracket_def again)
  have "\<exists>reset. db_slots b' = db_slots b @ [reset] \<and> slot_section reset = RESET \<and>
      round reset = wbRounds sh + lbRounds sh + 2 \<and> sourceBType reset = WinnerOf"
    if "secondChanceTarget sh = Gold" "\<not> grandFinalReset sh"
    using b' assms that unfolding doubleElimBracket_def again sh(1)
    by (auto simp: with_reset_def buildFinalsSlots_def Let_def de_slot_def)
  then show ?thesis by (intro that [OF b']) (simp_all add: shape sh(2))
qed

lemma no_reset_slot:
  assumes "doubleElimBracket n opts = Inr b" and "\<not> grandFinalReset (db_shape b)" and "s \<in> set (db_slots b)"
  shows "round s \<noteq> wbRounds (db_shape b) + lbRounds (db_shape b) + 2" and "slot_section s \<noteq> RESET"
proof -
  obtain k j where laid: "laid_out n b k j" using bracket_laid_out [OF assms(1)] .
  have k: "wbRounds (db_shape b) = k" by (rule laid_outD(4) [OF laid])
  have "round s \<noteq> k + lbRounds (db_shape b) + 2 \<and> slot_section s \<noteq> RESET"
    using laid assms(3)
  proof (cases rule: double_slot_cases)
    case (final)
    then show ?thesis using assms(2) by (elim finals_cases) simp_all
  next
    case (wb q)
    then have "round s = q" "slot_section s = WB" by (simp_all add: wb_row_fields)
    then show ?thesis using wb(2) by simp
  qed (simp_all add: play_in_fields lb_slot_fields)
  then show "round s \<noteq> wbRounds (db_shape b) + lbRounds (db_shape b) + 2" and "slot_section s \<noteq> RESET" by (simp_all add: k)
qed

lemma rows_append:
  "slot_rows_of ids (ss @ [x]) = slot_rows_of ids ss @ [slot_row_of (ids (length ss)) x]"
  by (simp add: slot_rows_of_def)

text \<open>The reset slot is the last of its bracket and has no bout: adding it changes only the slots.\<close>

lemma reset_phase:
  assumes "round x = r" and "\<And>s. s \<in> set ss \<Longrightarrow> round s \<noteq> r"
  shows "generated_phase ids bids ty cfg (Some r) (ss @ [x]) =
    (generated_phase ids bids ty cfg' None ss)\<lparr>ph_slots := slot_rows_of ids ss @ [slot_row_of (ids (length ss)) x], ph_config := cfg\<rparr>"
proof -
  have "r \<noteq> row_round t" if "t \<in> set (slot_rows_of ids ss)" for t
    by (rule slot_of_row [OF that]) (metis assms(2) row_fields(1))
  then have "filter (\<lambda>s. b_type s \<noteq> ByeSource \<and> Some r \<noteq> Some (row_round s)) (slot_rows_of ids (ss @ [x])) =
      filter (\<lambda>s. b_type s \<noteq> ByeSource) (slot_rows_of ids ss)"
    by (simp add: rows_append assms(1) cong: filter_cong)
  then show ?thesis by (simp add: generated_phase_def Let_def createInitialBracketMatches_def rows_append)
qed

subsection \<open>Switching the reset\<close>

definition reset_edit :: "bool \<Rightarrow> double_elim_input" where
  "reset_edit on =
     \<lparr>dto_grandFinalReset = Some on, dto_secondChanceTarget = None, dto_bronzeMatch = None, dto_repechageEntrySize = None\<rparr>"

lemma reset_is_not_structural [simp]: "structuralConfigChanges (reset_edit on) config = []"
  by (simp add: structuralConfigChanges_def reset_edit_def)

lemma generated_bouts_open:
  "m \<in> set (ph_bouts (generated_phase ids bids ty cfg r ss)) \<Longrightarrow> bout_status m = Scheduled"
  by (auto simp: generated_phase_def Let_def createInitialBracketMatches_def placeholderMatchRow_def)

lemma edit_reset:
  assumes "ph_type db = ''double_elim''" and "\<And>m. m \<in> set (ph_bouts db) \<Longrightarrow> bout_status m = Scheduled"
  shows "editBracketConfig sid (reset_edit on) db =
    (case syncGrandFinalResetSlot sid (ph_config db) on db of
       Inl e \<Rightarrow> Inl (RegenerationFailed e)
     | Inr db' \<Rightarrow> Inr (db'\<lparr>ph_config := (ph_config db)\<lparr>cfg_grandFinalReset := Some on\<rparr>\<rparr>))"
proof -
  have "\<not> list_ex (\<lambda>m. bout_status m = MCompleted) (ph_bouts db)" using assms(2) by (auto simp: list_ex_iff)
  then show ?thesis using assms(1) by (simp add: editBracketConfig_def Let_def) (simp add: reset_edit_def)
qed

lemma edit_reset_ok:
  assumes "ph_type db = ''double_elim''" and "\<And>m. m \<in> set (ph_bouts db) \<Longrightarrow> bout_status m = Scheduled"
    and "syncGrandFinalResetSlot sid (ph_config db) on db = Inr db1"
  shows "editBracketConfig sid (reset_edit on) db = Inr (db1\<lparr>ph_config := (ph_config db)\<lparr>cfg_grandFinalReset := Some on\<rparr>\<rparr>)"
  by (simp add: edit_reset [OF assms(1,2)] assms(3))

lemma delete_untouched:
  assumes "\<And>m. m \<in> set (ph_bouts db) \<Longrightarrow> \<not> (\<exists>s \<in> set (ph_slots db). P s \<and> bout_slot m = Some (row_id s))"
  shows "delete_slots P db = db\<lparr>ph_slots := filter (\<lambda>s. \<not> P s) (ph_slots db)\<rparr>"
proof -
  have "map (\<lambda>m. if \<exists>sid \<in> set (map row_id (filter P (ph_slots db))). bout_slot m = Some sid then m\<lparr>bout_slot := None\<rparr> else m)
      (ph_bouts db) = ph_bouts db"
    using assms by (intro map_idI) auto
  then show ?thesis unfolding delete_slots_def Let_def by simp
qed

lemma generated_bout_slot:
  assumes "m \<in> set (ph_bouts (generated_phase ids bids ty cfg (Some r) ss))"
  obtains s where "s \<in> set (slot_rows_of ids ss)" and "bout_slot m = Some (row_id s)" and "row_round s \<noteq> r"
  using assms by (auto simp: generated_phase_def Let_def createInitialBracketMatches_def placeholderMatchRow_def dest!: set_zip_rightD)

lemma generated_fields [simp]:
  "ph_type (generated_phase ids bids ty cfg r ss) = ty" "ph_config (generated_phase ids bids ty cfg r ss) = cfg"
  "ph_slots (generated_phase ids bids ty cfg r ss) = slot_rows_of ids ss"
  by (simp_all add: generated_phase_def Let_def)

lemma slot_rows_length: "length (slot_rows_of ids ss) = length ss"
  by (simp add: slot_rows_of_def)

lemma drop_reset:
  assumes "inj ids" and "round x = r" and "\<And>s. s \<in> set ss \<Longrightarrow> round s \<noteq> r"
  shows "delete_slots (\<lambda>s. row_round s = r) (generated_phase ids bids ty cfg (Some r) (ss @ [x])) =
    (generated_phase ids bids ty cfg' None ss)\<lparr>ph_config := cfg\<rparr>"
proof -
  let ?db = "generated_phase ids bids ty cfg (Some r) (ss @ [x])"
  have ids: "distinct (map row_id (slot_rows_of ids (ss @ [x])))" by (rule row_ids [OF assms(1)])
  have "\<not> (\<exists>s \<in> set (ph_slots ?db). row_round s = r \<and> bout_slot m = Some (row_id s))" if "m \<in> set (ph_bouts ?db)" for m
    by (rule generated_bout_slot [OF that]) (metis generated_fields(3) ids option.inject same_row)
  then have "delete_slots (\<lambda>s. row_round s = r) ?db = ?db\<lparr>ph_slots := filter (\<lambda>s. row_round s \<noteq> r) (ph_slots ?db)\<rparr>"
    by (rule delete_untouched)
  moreover have "row_round t \<noteq> r" if "t \<in> set (slot_rows_of ids ss)" for t
    by (rule slot_of_row [OF that]) (metis assms(3) row_fields(1))
  then have "filter (\<lambda>s. row_round s \<noteq> r) (slot_rows_of ids ss) = slot_rows_of ids ss" by (auto intro!: filter_True)
  ultimately show ?thesis
    using assms(2) reset_phase [OF assms(2,3), where ids = ids and bids = bids and ty = ty and cfg = cfg and cfg' = cfg'] by (simp add: rows_append)
qed

lemma resolved_with_reset:
  assumes "resolveDoubleElimShape n opts = Inr sh" and "secondChanceTarget sh = Gold"
  shows "resolveDoubleElimShape n (opts\<lparr>opt_grandFinalReset := Some True\<rparr>) = Inr (with_reset sh)"
proof (rule resolved_fields [OF assms(1)])
  let ?opts = "opts\<lparr>opt_grandFinalReset := Some True\<rparr>"
  fix b r lb target bronze
  assume n: "2 \<le> n" and b: "resolveBracketSize n opts = Inr b" "b \<le> MAX_DOUBLE_ELIM_BRACKET_SIZE"
    and r: "resolveRepechageEntrySize b opts = Inr r" and lb: "resolveLbRounds r target bronze = Inr lb"
    and ok: "rejectInapplicableOptions target opts = Inr ()"
    and target: "target = or_else (opt_secondChanceTarget opts) Gold"
    and bronze: "bronze = (if target = Bronze then or_else (opt_bronzeMatch opts) True else False)"
    and sh: "sh = \<lparr>de_bracketSize = b, de_fighterCount = n, de_playInMatchCount = n - b,
      de_hasPlayInRound = (n - b > 0), de_byeSeedCount = (if n - b > 0 then b - (n - b) else 0),
      wbRounds = log2 b, lbRounds = lb, secondChanceTarget = target, bronzeMatch = bronze,
      repechageEntrySize = r, repechageEntryRound = log2 b + 1 - log2 r,
      grandFinalReset = (target = Gold \<and> opt_grandFinalReset opts = Some True)\<rparr>"
  have gold: "target = Gold" "bronze = False" "or_else (opt_secondChanceTarget opts) Gold = Gold" using assms(2) target bronze sh by simp_all
  have "resolveBracketSize n ?opts = Inr b" "resolveRepechageEntrySize b ?opts = Inr r" "rejectInapplicableOptions Gold ?opts = Inr ()"
    using b(1) r ok gold(1) by (simp_all add: resolveBracketSize_def resolveRepechageEntrySize_def rejectInapplicableOptions_def split: if_splits)
  then show ?thesis
    using n b(2) lb gold by (simp add: resolveDoubleElimShape_def Let_def with_reset_def sh not_less)
qed

lemma options_with_reset:
  "or_else (dto_secondChanceTarget dto) Gold = Gold \<Longrightarrow>
    doubleElimOptionsFromDto (dto\<lparr>dto_grandFinalReset := Some True\<rparr>) seats =
    (doubleElimOptionsFromDto dto seats)\<lparr>opt_grandFinalReset := Some True\<rparr>"
  by (simp add: doubleElimOptionsFromDto_def Let_def)

lemma same_shape_same_bracket:
  "resolveDoubleElimShape n opts = resolveDoubleElimShape n opts' \<Longrightarrow> doubleElimBracket n opts = doubleElimBracket n opts'"
  by (simp add: doubleElimBracket_def)

lemma sync_off:
  "cfg_wbRounds config = Some wb \<Longrightarrow> cfg_lbRounds config = Some lb \<Longrightarrow>
    syncGrandFinalResetSlot sid config False db = Inr (delete_slots (\<lambda>s. row_round s = wb + lb + 2) db)"
  by (simp add: syncGrandFinalResetSlot_def Let_def)

lemma sync_on:
  assumes "doubleElimBracket n opts = Inr b" and "secondChanceTarget (db_shape b) = Gold" and "\<not> grandFinalReset (db_shape b)"
    and "\<And>s. s \<in> set (ph_slots db) \<Longrightarrow> row_round s \<noteq> wbRounds (db_shape b) + lbRounds (db_shape b) + 2"
    and "cfg_fighterCount (doubleElimConfigJson b) = Some n"
    and "doubleElimBracket n (doubleElimOptionsFromDto (options_of_config (doubleElimConfigJson b)) (Some (de_bracketSize (db_shape b)))) = Inr b'"
    and "db_slots b' = db_slots b @ [reset]" and "slot_section reset = RESET" and "\<And>s. s \<in> set (db_slots b) \<Longrightarrow> slot_section s \<noteq> RESET"
  shows "syncGrandFinalResetSlot sid (doubleElimConfigJson b) True db = Inr (db\<lparr>ph_slots := ph_slots db @ [slot_row_of sid reset]\<rparr>)"
proof -
  have "find (\<lambda>s. slot_section s = RESET) (db_slots b') = Some reset"
  proof -
    have "find (\<lambda>s. slot_section s = RESET) (db_slots b) = None" using assms(9) by (auto simp: find_None_iff)
    then show ?thesis unfolding assms(7) using assms(8) by (simp add: find_append)
  qed
  moreover have "\<not> list_ex (\<lambda>s. row_round s = wbRounds (db_shape b) + lbRounds (db_shape b) + 2) (ph_slots db)"
    using assms(4) by (auto simp: list_ex_iff)
  moreover have "cfg_wbRounds (doubleElimConfigJson b) = Some (wbRounds (db_shape b))"
    "cfg_lbRounds (doubleElimConfigJson b) = Some (lbRounds (db_shape b))"
    "cfg_bracketSize (doubleElimConfigJson b) = Some (de_bracketSize (db_shape b))"
    by (simp_all add: doubleElimConfigJson_def)
  ultimately show ?thesis using assms(5,6) by (simp add: syncGrandFinalResetSlot_def Let_def)
qed

lemma reset_on_and_off:
  assumes b: "doubleElimBracket n opts = Inr b" and gold: "secondChanceTarget (db_shape b) = Gold" "\<not> grandFinalReset (db_shape b)"
    and ids: "inj ids"
  obtains b' where "resolveDoubleElimShape n (opts\<lparr>opt_grandFinalReset := Some True\<rparr>) = Inr (db_shape b')"
    and "doubleElimBracket n (opts\<lparr>opt_grandFinalReset := Some True\<rparr>) = Inr b'"
    and "editBracketConfig (ids (length (db_slots b))) (reset_edit True) (double_phase.phase_of ids bids b) = Inr (double_phase.phase_of ids bids b')"
    and "\<And>sid. editBracketConfig sid (reset_edit False) (double_phase.phase_of ids bids b') = Inr (double_phase.phase_of ids bids b)"
proof -
  obtain sh where sh: "resolveDoubleElimShape n opts = Inr sh" "db_shape b = sh"
    using b by (auto simp: doubleElimBracket_def split: sum.splits)
  let ?r = "wbRounds sh + lbRounds sh + 2"
  let ?db = "double_phase.phase_of ids bids b"
  have n: "de_fighterCount sh = n" using resolved_shape [OF sh(1)] by blast
  have none: "resetRoundOf b = None" using gold(2) by (simp add: resetRoundOf_def)
  obtain b' reset where b': "doubleElimBracket n (doubleElimOptionsFromDto (options_of_config (doubleElimConfigJson b)) (Some (de_bracketSize sh))) = Inr b'"
    and shape: "db_shape b' = with_reset sh" and slots: "db_slots b' = db_slots b @ [reset]"
    and reset: "slot_section reset = RESET" "round reset = ?r"
    using regenerated [OF b] gold unfolding sh(2) by metis
  have resolved: "resolveDoubleElimShape n (opts\<lparr>opt_grandFinalReset := Some True\<rparr>) = Inr (with_reset sh)"
    using resolved_with_reset [OF sh(1)] gold(1) by (simp add: sh(2))
  then have again: "doubleElimBracket n (opts\<lparr>opt_grandFinalReset := Some True\<rparr>) = Inr b'"
    using b' shape by (auto simp: doubleElimBracket_def split: sum.splits)
  have cfg: "doubleElimConfigJson b' = (doubleElimConfigJson b)\<lparr>cfg_grandFinalReset := Some True\<rparr>" "resetRoundOf b' = Some ?r"
    using gold(1) by (simp_all add: doubleElimConfigJson_def shape with_reset_def sh(2) resetRoundOf_def)
  have rounds: "round s \<noteq> ?r" "slot_section s \<noteq> RESET" if "s \<in> set (db_slots b)" for s
    using no_reset_slot [OF b gold(2) that] by (simp_all add: sh(2))
  let ?db' = "double_phase.phase_of ids bids b'"
  have on: "syncGrandFinalResetSlot (ids (length (db_slots b))) (ph_config ?db) True ?db =
      Inr (?db\<lparr>ph_slots := slot_rows_of ids (db_slots b) @ [slot_row_of (ids (length (db_slots b))) reset]\<rparr>)"
  proof -
    have "row_round s \<noteq> ?r" if "s \<in> set (ph_slots ?db)" for s
      using that unfolding generated_fields by (elim slot_of_row) (metis rounds(1) row_fields(1))
    then show ?thesis
      using sync_on [OF b gold _ _ _ slots reset(1) rounds(2), of ?db] b' n by (simp add: sh(2) doubleElimConfigJson_def)
  qed
  have off: "syncGrandFinalResetSlot sid (ph_config ?db') False ?db' = Inr (?db\<lparr>ph_config := doubleElimConfigJson b'\<rparr>)" for sid
    using drop_reset [OF ids reset(2) rounds(1), of "db_slots b" bids _ _ "doubleElimConfigJson b"]
    by (subst sync_off) (simp_all add: cfg slots none, simp_all add: doubleElimConfigJson_def sh(2))
  have "?db' = ?db\<lparr>ph_slots := slot_rows_of ids (db_slots b) @ [slot_row_of (ids (length (db_slots b))) reset], ph_config := doubleElimConfigJson b'\<rparr>"
    unfolding slots cfg(2) none by (rule reset_phase [OF reset(2) rounds(1)])
  then have "editBracketConfig (ids (length (db_slots b))) (reset_edit True) ?db = Inr ?db'"
    using edit_reset_ok [OF generated_fields(1) generated_bouts_open on] by (simp add: cfg(1))
  moreover have "editBracketConfig sid (reset_edit False) ?db' = Inr ?db" for sid
  proof -
    have "?db\<lparr>ph_config := (doubleElimConfigJson b)\<lparr>cfg_grandFinalReset := Some False\<rparr>\<rparr> = ?db"
      using gold(2) by (simp add: generated_phase_def Let_def doubleElimConfigJson_def)
    then show ?thesis using edit_reset_ok [OF generated_fields(1) generated_bouts_open off] by (simp add: cfg(1))
  qed
  ultimately show ?thesis using that again resolved shape by metis
qed

lemma shape_target:
  "resolveDoubleElimShape n opts = Inr sh \<Longrightarrow> secondChanceTarget sh = or_else (opt_secondChanceTarget opts) Gold"
  by (erule resolved_fields) simp

text \<open>
  C4. The reset of the grand final can be switched on and off after the generation. Switching
  it on in a generated double elimination for gold gives, slot for slot and bout for bout, the
  bracket that a generation with the reset gives, and switching it off again gives back the
  bracket there was.
\<close>

theorem reset_switches_on_and_off:
  assumes "generateBracket ids bids existing force registered dto = Inr db" and "ph_type db = ''double_elim''"
    and "cfg_secondChanceTarget (ph_config db) = Some Gold" and "cfg_grandFinalReset (ph_config db) = Some False" and "inj ids"
  shows "\<exists>db'. editBracketConfig (ids (length (ph_slots db))) (reset_edit True) db = Inr db' \<and>
    generateBracket ids bids existing force registered (dto\<lparr>dto_grandFinalReset := Some True\<rparr>) = Inr db' \<and>
    editBracketConfig sid (reset_edit False) db' = Inr db"
proof -
  let ?n = "qualifyCountOf registered dto" and ?opts = "doubleElimOptionsFromDto dto (dto_bracketSize dto)"
  obtain b where b: "doubleElimBracket ?n ?opts = Inr b" and db: "db = double_phase.phase_of ids bids b"
    using assms(1,2) by (auto simp: generateBracket_def Let_def split: if_splits sum.splits)
  have ty: "or_else (dto_phaseType dto) ''single_elim'' = ''double_elim''"
    using assms(1,2) by (auto simp: generateBracket_def Let_def split: if_splits sum.splits)
  have gold: "secondChanceTarget (db_shape b) = Gold" "\<not> grandFinalReset (db_shape b)"
    using assms(3,4) by (simp_all add: db doubleElimConfigJson_def)
  have "resolveDoubleElimShape ?n ?opts = Inr (db_shape b)" using b by (auto simp: doubleElimBracket_def split: sum.splits)
  then have "or_else (dto_secondChanceTarget dto) Gold = Gold"
    using shape_target gold(1) by (fastforce simp: doubleElimOptionsFromDto_def Let_def or_else_def)
  note opts = options_with_reset [OF this]
  obtain b' where b': "doubleElimBracket ?n (?opts\<lparr>opt_grandFinalReset := Some True\<rparr>) = Inr b'"
    and on: "editBracketConfig (ids (length (db_slots b))) (reset_edit True) db = Inr (double_phase.phase_of ids bids b')"
    and off: "editBracketConfig sid (reset_edit False) (double_phase.phase_of ids bids b') = Inr db"
    using reset_on_and_off [OF b gold assms(5), of bids] unfolding db by metis
  have "generateBracket ids bids existing force registered (dto\<lparr>dto_grandFinalReset := Some True\<rparr>) = Inr (double_phase.phase_of ids bids b')"
    using assms(1) ty b' opts by (auto simp: generateBracket_def Let_def qualifyCountOf_def split: if_splits)
  then show ?thesis using on off by (auto simp: db slot_rows_length)
qed

subsection \<open>What an edit refuses and what it keeps\<close>

definition touches_podium :: "'a double_elim_input_scheme \<Rightarrow> bool" where
  "touches_podium dto \<longleftrightarrow>
     dto_grandFinalReset dto \<noteq> None \<or> dto_secondChanceTarget dto \<noteq> None \<or> dto_bronzeMatch dto \<noteq> None \<or> dto_repechageEntrySize dto \<noteq> None"

text \<open>The slot an edit may add or take.\<close>

definition reset_row :: "phase_config \<Rightarrow> slot_row \<Rightarrow> bool" where
  "reset_row config s \<longleftrightarrow>
     (case (cfg_wbRounds config, cfg_lbRounds config) of (Some wb, Some lb) \<Rightarrow> row_round s = wb + lb + 2 | _ \<Rightarrow> False)"

definition keeps_bracket :: "bracket_db \<Rightarrow> bracket_db \<Rightarrow> bool" where
  "keeps_bracket db db' \<longleftrightarrow>
     ph_type db' = ph_type db \<and>
     filter (\<lambda>s. \<not> reset_row (ph_config db) s) (ph_slots db') = filter (\<lambda>s. \<not> reset_row (ph_config db) s) (ph_slots db) \<and>
     (\<exists>f. ph_bouts db' = map f (ph_bouts db) \<and>
        (\<forall>m. f m = m \<or> f m = m\<lparr>bout_slot := None\<rparr> \<and> bout_slot m \<in> Some ` row_id ` {s \<in> set (ph_slots db). reset_row (ph_config db) s}))"

lemma keeps_slots:
  assumes "ph_slots db' = ph_slots db @ extra" and "ph_bouts db' = ph_bouts db" and "ph_type db' = ph_type db"
    and "\<forall>s \<in> set extra. reset_row (ph_config db) s"
  shows "keeps_bracket db db'"
  unfolding keeps_bracket_def using assms by (auto intro!: exI [of _ "\<lambda>m. m"] simp: filter_empty_conv)

lemma keeps_delete:
  assumes "\<And>s. P s \<longleftrightarrow> reset_row (ph_config db) s" and "ph_slots db' = ph_slots (delete_slots P db)"
    and "ph_bouts db' = ph_bouts (delete_slots P db)" and "ph_type db' = ph_type db"
  shows "keeps_bracket db db'"
proof -
  let ?f = "\<lambda>m. if \<exists>sid \<in> set (map row_id (filter P (ph_slots db))). bout_slot m = Some sid then m\<lparr>bout_slot := None\<rparr> else m"
  have "ph_bouts db' = map ?f (ph_bouts db)" by (simp add: assms(3) delete_slots_def Let_def)
  moreover have "?f m = m \<or> ?f m = m\<lparr>bout_slot := None\<rparr> \<and> bout_slot m \<in> Some ` row_id ` {s \<in> set (ph_slots db). reset_row (ph_config db) s}" for m
    using assms(1) by auto
  moreover have "filter (\<lambda>s. \<not> reset_row (ph_config db) s) (ph_slots db') = filter (\<lambda>s. \<not> reset_row (ph_config db) s) (ph_slots db)"
    using assms(1) by (simp add: assms(2) delete_slots_def Let_def)
  ultimately show ?thesis unfolding keeps_bracket_def using assms(4) by blast
qed

lemma same_flag: "\<exists>flag. config = config\<lparr>cfg_grandFinalReset := flag\<rparr>"
  by (rule exI [of _ "cfg_grandFinalReset config"]) simp

lemma sync_generated:
  assumes b: "doubleElimBracket n opts = Inr b" and cfg: "ph_config db = (doubleElimConfigJson b)\<lparr>cfg_grandFinalReset := flag\<rparr>"
  obtains db' where "syncGrandFinalResetSlot sid (ph_config db) on db = Inr db'" and "keeps_bracket db db'"
proof (cases on)
  case False
  have "syncGrandFinalResetSlot sid (ph_config db) False db =
      Inr (delete_slots (\<lambda>s. row_round s = wbRounds (db_shape b) + lbRounds (db_shape b) + 2) db)"
    by (rule sync_off) (simp_all add: cfg doubleElimConfigJson_def)
  moreover have "keeps_bracket db (delete_slots (\<lambda>s. row_round s = wbRounds (db_shape b) + lbRounds (db_shape b) + 2) db)"
    by (rule keeps_delete [OF _ refl refl]) (simp_all add: reset_row_def cfg doubleElimConfigJson_def delete_slots_def Let_def)
  ultimately show ?thesis using that False by simp
next
  case True
  obtain sh where sh: "resolveDoubleElimShape n opts = Inr sh" "db_shape b = sh"
    using b by (auto simp: doubleElimBracket_def split: sum.splits)
  have n: "de_fighterCount sh = n" using resolved_shape [OF sh(1)] by blast
  obtain b' where b': "doubleElimBracket n (doubleElimOptionsFromDto (options_of_config (doubleElimConfigJson b)) (Some (de_bracketSize sh))) = Inr b'"
    and shape: "db_shape b' = with_reset sh"
    using regenerated [OF b] unfolding sh(2) by metis
  have opts: "options_of_config (ph_config db) = options_of_config (doubleElimConfigJson b)" by (simp add: cfg options_of_config_def)
  have row: "reset_row (ph_config db) (slot_row_of sid s)" if "s \<in> set (db_slots b')" "slot_section s = RESET" for s
  proof -
    obtain k j where laid: "laid_out n b' k j" using bracket_laid_out [OF b'] .
    have "round s = k + lbRounds (db_shape b') + 2"
      using laid that(1)
    proof (cases rule: double_slot_cases)
      case (final)
      then show ?thesis using that(2) by (elim finals_cases) simp_all
    qed (use that(2) in \<open>simp_all add: play_in_fields lb_slot_fields wb_row_fields\<close>)
    moreover have "k = wbRounds sh" "lbRounds (db_shape b') = lbRounds sh"
      using laid_outD(4) [OF laid] shape by (simp_all add: with_reset_def)
    ultimately show ?thesis by (simp add: reset_row_def cfg doubleElimConfigJson_def sh(2))
  qed
  show ?thesis
  proof (cases "list_ex (\<lambda>s. row_round s = wbRounds sh + lbRounds sh + 2) (ph_slots db)")
    case True
    then have "syncGrandFinalResetSlot sid (ph_config db) on db = Inr db"
      using \<open>on\<close> by (simp add: syncGrandFinalResetSlot_def cfg doubleElimConfigJson_def sh(2) Let_def)
    then show ?thesis by (rule that) (rule keeps_slots [of _ _ "[]"], simp_all)
  next
    case False
    define found where "found = find (\<lambda>s. slot_section s = RESET) (db_slots b')"
    have "syncGrandFinalResetSlot sid (ph_config db) on db =
        Inr (case found of None \<Rightarrow> db | Some reset \<Rightarrow> db\<lparr>ph_slots := ph_slots db @ [slot_row_of sid reset]\<rparr>)"
      unfolding syncGrandFinalResetSlot_def opts using \<open>on\<close> False b' n
      by (simp add: cfg doubleElimConfigJson_def sh(2) Let_def found_def split: option.split)
    then show ?thesis
    proof (rule that)
      show "keeps_bracket db (case found of None \<Rightarrow> db | Some reset \<Rightarrow> db\<lparr>ph_slots := ph_slots db @ [slot_row_of sid reset]\<rparr>)"
      proof (cases found)
        case None
        then show ?thesis by (simp add: keeps_slots [of _ _ "[]"])
      next
        case (Some reset)
        then have "reset_row (ph_config db) (slot_row_of sid reset)" using row by (auto simp: found_def find_Some_iff)
        then show ?thesis using Some by (simp add: keeps_slots [of _ _ "[slot_row_of sid reset]"])
      qed
    qed
  qed
qed


subsection \<open>A bracket of three, edited\<close>

definition gold_dto :: "generate_dto" where
  "gold_dto = (three_dto ''double_elim'')\<lparr>dto_grandFinalReset := None\<rparr>"

lemma gold_generated:
  obtains db where "generateBracket show_nat show_nat False False 3 gold_dto = Inr db" and "ph_type db = ''double_elim''"
    and "cfg_secondChanceTarget (ph_config db) = Some Gold" and "cfg_grandFinalReset (ph_config db) = Some False"
proof -
  have "\<exists>b. doubleElimBracket 3 (doubleElimOptionsFromDto gold_dto None) = Inr b \<and>
      secondChanceTarget (db_shape b) = Gold \<and> \<not> grandFinalReset (db_shape b)"
    by (simp add: doubleElimBracket_def resolveDoubleElimShape_def doubleElimOptionsFromDto_def gold_dto_def three_dto_def
        resolveBracketSize_def size_of_3 MAX_DOUBLE_ELIM_BRACKET_SIZE_def rejectInapplicableOptions_def
        resolveRepechageEntrySize_def resolveLbRounds_def or_else_def Let_def)
  then obtain b where b: "doubleElimBracket 3 (doubleElimOptionsFromDto gold_dto None) = Inr b"
    and gold: "secondChanceTarget (db_shape b) = Gold" "\<not> grandFinalReset (db_shape b)" by blast
  have dto: "or_else (dto_phaseType gold_dto) ''single_elim'' = ''double_elim''" "dto_bracketSize gold_dto = None"
      "qualifyCountOf 3 gold_dto = 3"
    by (simp_all add: gold_dto_def three_dto_def or_else_def qualifyCountOf_def)
  have "generateBracket show_nat show_nat False False 3 gold_dto = Inr (double_phase.phase_of show_nat show_nat b)"
    unfolding generateBracket_def Let_def dto b by simp
  then show ?thesis by (rule that) (simp_all add: doubleElimConfigJson_def gold)
qed

theorem reset_switches_on_and_off_witness:
  "\<exists>db db'. generateBracket show_nat show_nat False False 3 gold_dto = Inr db \<and>
    editBracketConfig (show_nat (length (ph_slots db))) (reset_edit True) db = Inr db' \<and>
    editBracketConfig [] (reset_edit False) db' = Inr db"
proof (rule gold_generated)
  fix db assume db: "generateBracket show_nat show_nat False False 3 gold_dto = Inr db" "ph_type db = ''double_elim''"
    "cfg_secondChanceTarget (ph_config db) = Some Gold" "cfg_grandFinalReset (ph_config db) = Some False"
  show ?thesis using reset_switches_on_and_off [OF db inj_show_nat, of "[]"] db(1) by blast
qed


end
