(* ===== verification/Final_Ranking.thy ===== *)
theory Final_Ranking
  imports Double_Elim Standings
begin

section \<open>The final ranking\<close>

text \<open>
  \<open>packages/types/src/final-ranking-core.ts\<close>, \<open>final-ranking.ts\<close> and
  \<open>final-ranking-double-elim.ts\<close>: the places of a tournament, from the slots of its bracket
  and the scores of its pools. Scores of a pool are rationals, a score that is not finite is
  \<open>None\<close>. The order of names, \<open>localeCompare\<close>, depends on the locale data of the host and is
  the parameter \<open>collate\<close>. The set of the fighters already placed is that of the entries.
\<close>

record ranking_slot =
  rs_id :: string
  rs_round :: nat
  rs_position :: nat
  rs_status :: string
  rs_red :: "string option"
  rs_blue :: "string option"
  rs_redName :: "string option"
  rs_blueName :: "string option"
  rs_redClub :: "string option"
  rs_blueClub :: "string option"
  rs_redScore :: "int option"
  rs_blueScore :: "int option"
  rs_winner :: "string option"

record ranking_side =
  sd_id :: string
  sd_name :: string
  sd_club :: "string option"

record pool_entry = ranking_side +
  pe_poolScore :: "rat option"

datatype result_kind = Champion | RunnerUp | Third | Fourth | RoundKind | PoolKind | SwissKind

datatype elim_section = WBExit | LBExit | PlayInExit

record final_entry =
  fe_place :: nat
  fe_id :: string
  fe_name :: string
  fe_club :: "string option"
  fe_poolScore :: "rat option"
  fe_kind :: result_kind
  fe_round :: "nat option"
  fe_section :: "elim_section option"

datatype shape_type = SingleShape | DoubleShape | SwissShape

record bracket_shape =
  sh_type :: shape_type
  sh_wbRounds :: "nat option"
  sh_lbRounds :: "nat option"
  sh_target :: second_chance_target
  sh_bronzeMatch :: "bool option"
  sh_entryRound :: "nat option"

subsection \<open>Who won\<close>

text \<open>A string that is null or empty is falsy.\<close>

definition truthy :: "string option \<Rightarrow> bool" where
  "truthy x \<longleftrightarrow> x \<noteq> None \<and> x \<noteq> Some []"

definition winnerLoser :: "ranking_slot \<Rightarrow> (ranking_side \<times> ranking_side) option" where
  "winnerLoser s =
     (if rs_status s \<noteq> ''completed'' then None
      else if \<not> truthy (rs_red s) \<or> \<not> truthy (rs_blue s) \<or> \<not> truthy (rs_redName s) \<or> \<not> truthy (rs_blueName s) then None
      else (let red = \<lparr>sd_id = the (rs_red s), sd_name = the (rs_redName s), sd_club = rs_redClub s\<rparr>;
                blue = \<lparr>sd_id = the (rs_blue s), sd_name = the (rs_blueName s), sd_club = rs_blueClub s\<rparr>
            in if rs_winner s = Some (sd_id red) then Some (red, blue)
               else if rs_winner s = Some (sd_id blue) then Some (blue, red)
               else (case (rs_redScore s, rs_blueScore s) of
                       (Some r, Some b) \<Rightarrow>
                         if r = b then None else if r > b then Some (red, blue) else Some (blue, red)
                     | _ \<Rightarrow> None)))"

subsection \<open>The accumulator\<close>

record ranking =
  rk_scores :: "string \<Rightarrow> rat option"
  rk_entries :: "final_entry list"

definition new_ranking :: "pool_entry list \<Rightarrow> ranking" where
  "new_ranking poolEntries =
     \<lparr>rk_scores = map_of (rev (List.map_filter (\<lambda>e. map_option (\<lambda>x. (sd_id e, x)) (pe_poolScore e)) poolEntries)),
      rk_entries = []\<rparr>"

definition has :: "ranking \<Rightarrow> string \<Rightarrow> bool" where
  "has r x \<longleftrightarrow> x \<in> set (map fe_id (rk_entries r))"

definition push :: "'a ranking_side_scheme \<Rightarrow> result_kind \<Rightarrow> nat option \<Rightarrow> elim_section option \<Rightarrow> ranking \<Rightarrow> ranking" where
  "push sd k rnd sec r =
     (if has r (sd_id sd) then r
      else r\<lparr>rk_entries := rk_entries r @
        [\<lparr>fe_place = length (rk_entries r) + 1, fe_id = sd_id sd, fe_name = sd_name sd, fe_club = sd_club sd,
          fe_poolScore = rk_scores r (sd_id sd), fe_kind = k, fe_round = rnd, fe_section = sec\<rparr>]\<rparr>)"

text \<open>A missing score counts as negative infinity.\<close>

definition scoreOrder :: "rat option \<Rightarrow> rat option \<Rightarrow> rat" where
  "scoreOrder na nb =
     (case na of
        None \<Rightarrow> (case nb of None \<Rightarrow> 0 | Some _ \<Rightarrow> 1)
      | Some x \<Rightarrow> (case nb of None \<Rightarrow> -1 | Some y \<Rightarrow> y - x))"

definition byPoolScore ::
    "(string \<Rightarrow> string \<Rightarrow> rat) \<Rightarrow> ranking \<Rightarrow> 'a ranking_side_scheme \<Rightarrow> 'a ranking_side_scheme \<Rightarrow> rat" where
  "byPoolScore collate r =
     then_by (\<lambda>a b. scoreOrder (rk_scores r (sd_id a)) (rk_scores r (sd_id b))) (\<lambda>a b. collate (sd_name a) (sd_name b))"

text \<open>One loser of a round; the next place decides whether it is on the podium.\<close>

definition round_kind :: "bool \<Rightarrow> nat \<Rightarrow> result_kind" where
  "round_kind podiumKinds nextPlace =
     (if podiumKinds \<and> nextPlace = 3 then Third else if podiumKinds \<and> nextPlace = 4 then Fourth else RoundKind)"

definition push_loser :: "nat option \<Rightarrow> elim_section option \<Rightarrow> bool \<Rightarrow> ranking_side \<Rightarrow> ranking \<Rightarrow> ranking" where
  "push_loser rnd sec podiumKinds sd r =
     push sd (round_kind podiumKinds (length (rk_entries r) + 1)) rnd sec r"

definition pushRound ::
    "(string \<Rightarrow> string \<Rightarrow> rat) \<Rightarrow> ranking_side list \<Rightarrow> nat option \<Rightarrow> elim_section option \<Rightarrow> bool \<Rightarrow> ranking \<Rightarrow> ranking" where
  "pushRound collate losers rnd sec podiumKinds r =
     fold (push_loser rnd sec podiumKinds) (sort_by (byPoolScore collate r) losers) r"

text \<open>The map from rounds to losers, in the order its keys were set.\<close>

fun add_loser :: "nat \<Rightarrow> ranking_side \<Rightarrow> (nat \<times> ranking_side list) list \<Rightarrow> (nat \<times> ranking_side list) list" where
  "add_loser k x [] = [(k, [x])]"
| "add_loser k x ((k', g) # rest) = (if k = k' then (k', g @ [x]) # rest else (k', g) # add_loser k x rest)"

definition lose_step :: "ranking \<Rightarrow> ranking_slot \<Rightarrow> (nat \<times> ranking_side list) list \<Rightarrow> (nat \<times> ranking_side list) list" where
  "lose_step r s out =
     (case winnerLoser s of None \<Rightarrow> out
      | Some (w, l) \<Rightarrow> if has r (sd_id l) then out else add_loser (rs_round s) l out)"

definition losersByRound :: "ranking_slot list \<Rightarrow> ranking \<Rightarrow> (nat \<times> ranking_side list) list" where
  "losersByRound ss r = fold (lose_step r) ss []"

text \<open>The rounds from the deepest to the first, each pushed with its losers.\<close>

definition rounds_desc :: "(nat \<times> ranking_side list) list \<Rightarrow> nat list" where
  "rounds_desc byRound = sort_by (\<lambda>a b. int b - int a) (map fst byRound)"

definition pushRounds ::
    "(string \<Rightarrow> string \<Rightarrow> rat) \<Rightarrow> (nat \<Rightarrow> nat) \<Rightarrow> elim_section option \<Rightarrow> bool \<Rightarrow> (nat \<times> ranking_side list) list \<Rightarrow> ranking \<Rightarrow> ranking" where
  "pushRounds collate number sec podiumKinds byRound r =
     fold (\<lambda>rnd. pushRound collate (or_else (map_of byRound rnd) []) (Some (number rnd)) sec podiumKinds)
       (rounds_desc byRound) r"

subsection \<open>Single elimination\<close>

definition maxRoundOf :: "ranking_slot list \<Rightarrow> nat" where
  "maxRoundOf ss = fold (\<lambda>s m. max m (rs_round s)) ss 0"

definition bronzeSlotOf :: "ranking_slot list \<Rightarrow> string option \<Rightarrow> ranking_slot option" where
  "bronzeSlotOf ss bronzeSlotId =
     (if truthy bronzeSlotId then find (\<lambda>s. rs_id s = the bronzeSlotId) ss
      else find (\<lambda>s. rs_round s = maxRoundOf ss \<and> rs_position s = 2) ss)"

definition mainSlotsOf :: "ranking_slot list \<Rightarrow> string option \<Rightarrow> ranking_slot list" where
  "mainSlotsOf ss bronzeSlotId =
     (case bronzeSlotOf ss bronzeSlotId of None \<Rightarrow> ss | Some b \<Rightarrow> filter (\<lambda>s. rs_id s \<noteq> rs_id b) ss)"

definition finalSlotOf :: "ranking_slot list \<Rightarrow> ranking_slot list \<Rightarrow> ranking_slot option" where
  "finalSlotOf ss mainSlots =
     (case find (\<lambda>s. rs_round s = maxRoundOf ss \<and> rs_position s = 1) mainSlots of
        Some s \<Rightarrow> Some s
      | None \<Rightarrow> find (\<lambda>s. rs_round s = maxRoundOf ss) mainSlots)"

definition place_pair :: "result_kind \<Rightarrow> result_kind \<Rightarrow> ranking_side \<times> ranking_side \<Rightarrow> ranking \<Rightarrow> ranking" where
  "place_pair k k' wl r = push (snd wl) k' None None (push (fst wl) k None None r)"

definition orderSingleElim ::
    "(string \<Rightarrow> string \<Rightarrow> rat) \<Rightarrow> ranking_slot list \<Rightarrow> string option \<Rightarrow> ranking \<Rightarrow> ranking option" where
  "orderSingleElim collate ss bronzeSlotId r =
     (let mainSlots = mainSlotsOf ss bronzeSlotId in
      case Option.bind (finalSlotOf ss mainSlots) winnerLoser of
        None \<Rightarrow> None
      | Some finalWl \<Rightarrow>
          (let r1 = place_pair Champion RunnerUp finalWl r;
               r2 = (case Option.bind (bronzeSlotOf ss bronzeSlotId) winnerLoser of
                       None \<Rightarrow> r1 | Some wl \<Rightarrow> place_pair Third Fourth wl r1);
               byRound = losersByRound (filter (\<lambda>s. rs_round s \<noteq> maxRoundOf ss) mainSlots) r2
           in Some (pushRounds collate (\<lambda>n. n) None False byRound r2)))"

subsection \<open>Double elimination\<close>

record elim_layout =
  ly_wbRounds :: nat
  ly_lbRounds :: nat
  ly_isBronze :: bool
  ly_bronzeMatch :: bool
  ly_entryRound :: nat
  ly_lastLbRound :: nat

definition readLayout :: "bracket_shape \<Rightarrow> elim_layout" where
  "readLayout sh =
     (let wb = or_else (sh_wbRounds sh) 0; lb = or_else (sh_lbRounds sh) 0; bronze = (sh_target sh = Bronze)
      in \<lparr>ly_wbRounds = wb, ly_lbRounds = lb, ly_isBronze = bronze,
          ly_bronzeMatch = (if bronze then sh_bronzeMatch sh \<noteq> Some False else False),
          ly_entryRound = or_else (sh_entryRound sh) 1, ly_lastLbRound = wb + lb\<rparr>)"

definition slotAt :: "ranking_slot list \<Rightarrow> nat \<Rightarrow> ranking_slot option" where
  "slotAt ss rnd = find (\<lambda>s. rs_round s = rnd \<and> rs_position s = 1) ss"

definition decidingSlot :: "ranking_slot list \<Rightarrow> elim_layout \<Rightarrow> ranking_slot option" where
  "decidingSlot ss ly =
     (if ly_isBronze ly then slotAt ss (ly_wbRounds ly)
      else (let gfRound = ly_lastLbRound ly + 1 in
            case slotAt ss (gfRound + 1) of
              Some reset \<Rightarrow> if winnerLoser reset \<noteq> None then Some reset else slotAt ss gfRound
            | None \<Rightarrow> slotAt ss gfRound))"

definition placeTitle :: "ranking_slot list \<Rightarrow> elim_layout \<Rightarrow> ranking \<Rightarrow> ranking option" where
  "placeTitle ss ly r =
     (case Option.bind (decidingSlot ss ly) winnerLoser of
        None \<Rightarrow> None | Some wl \<Rightarrow> Some (place_pair Champion RunnerUp wl r))"

definition push_survivor :: "ranking_side \<Rightarrow> ranking \<Rightarrow> ranking" where
  "push_survivor sd r = push sd (if length (rk_entries r) = 2 then Third else Fourth) None None r"

definition placeBronzePodium ::
    "(string \<Rightarrow> string \<Rightarrow> rat) \<Rightarrow> ranking_slot list \<Rightarrow> elim_layout \<Rightarrow> ranking \<Rightarrow> ranking" where
  "placeBronzePodium collate ss ly r =
     (if \<not> ly_isBronze ly then r
      else (let lastRound = filter (\<lambda>s. rs_round s = ly_lastLbRound ly) ss in
        if ly_bronzeMatch ly then
          (case lastRound of
             [] \<Rightarrow> r
           | s # _ \<Rightarrow> (case winnerLoser s of None \<Rightarrow> r | Some wl \<Rightarrow> place_pair Third Fourth wl r))
        else fold push_survivor
               (sort_by (byPoolScore collate r) (List.map_filter (\<lambda>s. map_option fst (winnerLoser s)) lastRound)) r))"

definition placeLosersBracket ::
    "(string \<Rightarrow> string \<Rightarrow> rat) \<Rightarrow> ranking_slot list \<Rightarrow> elim_layout \<Rightarrow> ranking \<Rightarrow> ranking" where
  "placeLosersBracket collate ss ly r =
     pushRounds collate (\<lambda>n. n - ly_wbRounds ly) (Some LBExit) (\<not> ly_isBronze ly)
       (losersByRound (filter (\<lambda>s. rs_round s > ly_wbRounds ly \<and> rs_round s \<le> ly_lastLbRound ly) ss) r) r"

definition placePreCutoffWinners ::
    "(string \<Rightarrow> string \<Rightarrow> rat) \<Rightarrow> ranking_slot list \<Rightarrow> elim_layout \<Rightarrow> ranking \<Rightarrow> ranking" where
  "placePreCutoffWinners collate ss ly r =
     (if ly_entryRound ly \<le> 1 then r
      else pushRounds collate (\<lambda>n. n) (Some WBExit) False
             (losersByRound (filter (\<lambda>s. rs_round s \<ge> 1 \<and> rs_round s < ly_entryRound ly) ss) r) r)"

definition placePlayIn :: "(string \<Rightarrow> string \<Rightarrow> rat) \<Rightarrow> ranking_slot list \<Rightarrow> ranking \<Rightarrow> ranking" where
  "placePlayIn collate ss r =
     fold (\<lambda>sd. push sd RoundKind (Some 0) (Some PlayInExit))
       (sort_by (byPoolScore collate r) (or_else (map_of (losersByRound (filter (\<lambda>s. rs_round s = 0) ss) r) 0) [])) r"

definition orderDoubleElim ::
    "(string \<Rightarrow> string \<Rightarrow> rat) \<Rightarrow> ranking_slot list \<Rightarrow> bracket_shape \<Rightarrow> ranking \<Rightarrow> ranking option" where
  "orderDoubleElim collate ss sh r =
     (let ly = readLayout sh in
      case placeTitle ss ly r of
        None \<Rightarrow> None
      | Some r1 \<Rightarrow>
          Some (placePlayIn collate ss (placePreCutoffWinners collate ss ly
            (placeLosersBracket collate ss ly (placeBronzePodium collate ss ly r1)))))"

subsection \<open>The ranking\<close>

definition swissResultKind :: "nat \<Rightarrow> result_kind" where
  "swissResultKind placedSoFar =
     (if placedSoFar = 0 then Champion else if placedSoFar = 1 then RunnerUp else if placedSoFar = 2 then Third
      else if placedSoFar = 3 then Fourth else SwissKind)"

definition orderSwiss :: "pool_entry list \<Rightarrow> ranking \<Rightarrow> final_entry list" where
  "orderSwiss standings r =
     rk_entries (fold (\<lambda>e r. push e (swissResultKind (length (rk_entries r))) None None r) standings r)"

definition in_bracket :: "ranking_slot list \<Rightarrow> string \<Rightarrow> bool" where
  "in_bracket ss x \<longleftrightarrow> x \<noteq> [] \<and> list_ex (\<lambda>s. rs_red s = Some x \<or> rs_blue s = Some x) ss"

definition computeFinalRanking ::
    "(string \<Rightarrow> string \<Rightarrow> rat) \<Rightarrow> ranking_slot list \<Rightarrow> pool_entry list \<Rightarrow> string option \<Rightarrow> bracket_shape option \<Rightarrow> final_entry list" where
  "computeFinalRanking collate ss poolEntries bronzeSlotId shape =
     (let r = new_ranking poolEntries in
      if map_option sh_type shape = Some SwissShape then orderSwiss poolEntries r
      else (let decided =
              (case shape of
                 None \<Rightarrow> orderSingleElim collate ss bronzeSlotId r
               | Some sh \<Rightarrow> if sh_type sh = DoubleShape then orderDoubleElim collate ss sh r
                            else orderSingleElim collate ss bronzeSlotId r)
            in case decided of
                 None \<Rightarrow> []
               | Some r' \<Rightarrow>
                   rk_entries (fold (\<lambda>e. push e PoolKind None None)
                     (sort_by (byPoolScore collate r')
                       (filter (\<lambda>e. \<not> in_bracket ss (sd_id e) \<and> \<not> has r' (sd_id e)) poolEntries)) r')))"

text \<open>The shape of a bracket as \<open>getTournamentBracket\<close> returns it; anything unknown is single elimination and gold.\<close>

record bracket_payload =
  bp_phaseType :: "string option"
  bp_wbRounds :: "nat option"
  bp_lbRounds :: "nat option"
  bp_target :: "string option"
  bp_bronzeMatch :: "bool option"
  bp_entryRound :: "nat option"

definition rankingBracketShape :: "bracket_payload \<Rightarrow> bracket_shape" where
  "rankingBracketShape b =
     \<lparr>sh_type = (if bp_phaseType b = Some ''double_elim'' then DoubleShape
                else if bp_phaseType b = Some ''swiss'' then SwissShape else SingleShape),
      sh_wbRounds = bp_wbRounds b, sh_lbRounds = bp_lbRounds b,
      sh_target = (if bp_target b = Some ''bronze'' then Bronze else Gold),
      sh_bronzeMatch = bp_bronzeMatch b, sh_entryRound = bp_entryRound b\<rparr>"

subsection \<open>Places\<close>

text \<open>What an operation appends to the ranking.\<close>

definition grown :: "ranking \<Rightarrow> ranking \<Rightarrow> final_entry list \<Rightarrow> bool" where
  "grown r r' es \<longleftrightarrow> rk_scores r' = rk_scores r \<and> rk_entries r' = rk_entries r @ es"

lemma grown_refl: "grown r r []"
  by (simp add: grown_def)

lemma grown_trans: "grown r r' es \<Longrightarrow> grown r' r'' fs \<Longrightarrow> grown r r'' (es @ fs)"
  by (simp add: grown_def)

text \<open>The places count from 1 and nobody has two of them.\<close>

definition ranked :: "ranking \<Rightarrow> bool" where
  "ranked r \<longleftrightarrow>
     map fe_place (rk_entries r) = [1..<length (rk_entries r) + 1] \<and> distinct (map fe_id (rk_entries r)) \<and>
     (\<forall>e \<in> set (rk_entries r). fe_poolScore e = rk_scores r (fe_id e))"

definition entry_of :: "'a ranking_side_scheme \<Rightarrow> result_kind \<Rightarrow> nat option \<Rightarrow> elim_section option \<Rightarrow> ranking \<Rightarrow> final_entry" where
  "entry_of sd k rnd sec r =
     \<lparr>fe_place = length (rk_entries r) + 1, fe_id = sd_id sd, fe_name = sd_name sd, fe_club = sd_club sd,
      fe_poolScore = rk_scores r (sd_id sd), fe_kind = k, fe_round = rnd, fe_section = sec\<rparr>"

lemma push_grown: "grown r (push sd k rnd sec r) (if has r (sd_id sd) then [] else [entry_of sd k rnd sec r])"
  by (simp add: grown_def push_def entry_of_def)

lemma ranked_push: "ranked r \<Longrightarrow> ranked (push sd k rnd sec r)"
  by (auto simp: ranked_def push_def has_def)

lemma ranked_new: "ranked (new_ranking pes)"
  by (simp add: ranked_def new_ranking_def)

lemma ranked_fold: "(\<And>x r. ranked r \<Longrightarrow> ranked (f x r)) \<Longrightarrow> ranked r \<Longrightarrow> ranked (fold f xs r)"
  by (induction xs arbitrary: r) auto

lemma ranked_place_pair: "ranked r \<Longrightarrow> ranked (place_pair k k' wl r)"
  by (simp add: place_pair_def ranked_push)

lemma ranked_pushRounds: "ranked r \<Longrightarrow> ranked (pushRounds collate num sec p groups r)"
  unfolding pushRounds_def pushRound_def push_loser_def by (intro ranked_fold ranked_push)

lemma ranked_bronze_podium: "ranked r \<Longrightarrow> ranked (placeBronzePodium collate ss ly r)"
  unfolding placeBronzePodium_def Let_def push_survivor_def
  by (auto intro!: ranked_fold ranked_push ranked_place_pair split: list.split option.split)

lemma ranked_single: "ranked r \<Longrightarrow> orderSingleElim collate ss b r = Some r' \<Longrightarrow> ranked r'"
  by (auto simp: orderSingleElim_def Let_def split: option.splits intro!: ranked_pushRounds ranked_place_pair)

lemma ranked_double: "ranked r \<Longrightarrow> orderDoubleElim collate ss sh r = Some r' \<Longrightarrow> ranked r'"
  by (auto simp: orderDoubleElim_def Let_def placeTitle_def placePlayIn_def placePreCutoffWinners_def placeLosersBracket_def
      split: option.splits intro!: ranked_fold ranked_push ranked_pushRounds ranked_bronze_podium ranked_place_pair)

definition decided_ranking ::
    "(string \<Rightarrow> string \<Rightarrow> rat) \<Rightarrow> ranking_slot list \<Rightarrow> pool_entry list \<Rightarrow> string option \<Rightarrow> bracket_shape option \<Rightarrow> ranking option" where
  "decided_ranking collate ss pes b shape =
     (case shape of
        None \<Rightarrow> orderSingleElim collate ss b (new_ranking pes)
      | Some sh \<Rightarrow> if sh_type sh = DoubleShape then orderDoubleElim collate ss sh (new_ranking pes)
                   else orderSingleElim collate ss b (new_ranking pes))"

definition pool_tail :: "(string \<Rightarrow> string \<Rightarrow> rat) \<Rightarrow> ranking_slot list \<Rightarrow> pool_entry list \<Rightarrow> ranking \<Rightarrow> pool_entry list" where
  "pool_tail collate ss pes r =
     sort_by (byPoolScore collate r) (filter (\<lambda>e. \<not> in_bracket ss (sd_id e) \<and> \<not> has r (sd_id e)) pes)"

lemma final_ranking_bracket:
  "map_option sh_type shape \<noteq> Some SwissShape \<Longrightarrow> computeFinalRanking collate ss pes b shape =
    (case decided_ranking collate ss pes b shape of None \<Rightarrow> []
     | Some r \<Rightarrow> rk_entries (fold (\<lambda>e. push e PoolKind None None) (pool_tail collate ss pes r) r))"
  by (simp only: computeFinalRanking_def decided_ranking_def pool_tail_def Let_def if_False)

lemma ranked_decided: "decided_ranking collate ss pes b shape = Some r \<Longrightarrow> ranked r"
  by (auto simp: decided_ranking_def split: option.splits if_splits intro: ranked_single ranked_double ranked_new)

lemma final_ranking_ranked:
  obtains r where "ranked r" and "computeFinalRanking collate ss pes b shape = rk_entries r"
proof (cases "map_option sh_type shape = Some SwissShape")
  case True
  then have eq: "computeFinalRanking collate ss pes b shape =
      rk_entries (fold (\<lambda>e r. push e (swissResultKind (length (rk_entries r))) None None r) pes (new_ranking pes))"
    by (simp add: computeFinalRanking_def orderSwiss_def)
  have rk: "ranked (fold (\<lambda>e r. push e (swissResultKind (length (rk_entries r))) None None r) pes (new_ranking pes))"
    by (rule ranked_fold [OF ranked_push ranked_new])
  show ?thesis by (rule that [OF rk eq])
next
  case False
  note eq = final_ranking_bracket [OF False]
  show ?thesis
  proof (cases "decided_ranking collate ss pes b shape")
    case None
    then have "computeFinalRanking collate ss pes b shape = rk_entries (new_ranking [])"
      using eq by (simp add: new_ranking_def)
    then show ?thesis by (rule that [OF ranked_new])
  next
    case (Some r)
    have "ranked (fold (\<lambda>e. push e PoolKind None None) (pool_tail collate ss pes r) r)"
      by (rule ranked_fold [OF ranked_push ranked_decided [OF Some]])
    moreover have "computeFinalRanking collate ss pes b shape = rk_entries (fold (\<lambda>e. push e PoolKind None None) (pool_tail collate ss pes r) r)"
      using eq Some by simp
    ultimately show ?thesis by (rule that)
  qed
qed

text \<open>
  C6. The places of a final ranking are 1, 2, 3 and so on without a gap or a shared place, and
  nobody has two of them, in single elimination, double elimination and Swiss.
\<close>

theorem places_without_gap:
  "map fe_place (computeFinalRanking collate ss pes b shape) = [1..<length (computeFinalRanking collate ss pes b shape) + 1] \<and>
   distinct (map fe_id (computeFinalRanking collate ss pes b shape))"
  by (rule final_ranking_ranked [of collate ss pes b shape]) (simp add: ranked_def)

subsection \<open>Who is listed\<close>

text \<open>An entry of the bracket: its fighter stands in a slot, and its kind is not that of the tail.\<close>

definition bracket_entry :: "ranking_slot list \<Rightarrow> final_entry \<Rightarrow> bool" where
  "bracket_entry ss e \<longleftrightarrow> in_bracket ss (fe_id e) \<and> fe_kind e \<notin> {PoolKind, SwissKind}"

definition from_bracket :: "ranking_slot list \<Rightarrow> ranking \<Rightarrow> bool" where
  "from_bracket ss r \<longleftrightarrow> list_all (bracket_entry ss) (rk_entries r)"

lemma winnerLoser_in:
  assumes "winnerLoser s = Some (w, l)" and "s \<in> set ss"
  shows "in_bracket ss (sd_id w)" and "in_bracket ss (sd_id l)"
proof -
  have "{sd_id w, sd_id l} \<subseteq> {the (rs_red s), the (rs_blue s)} \<and> truthy (rs_red s) \<and> truthy (rs_blue s)"
    using assms(1) by (auto simp: winnerLoser_def Let_def split: if_splits option.splits)
  then have "x \<in> {sd_id w, sd_id l} \<Longrightarrow> x \<noteq> [] \<and> (rs_red s = Some x \<or> rs_blue s = Some x)" for x
    by (auto simp: truthy_def)
  then show "in_bracket ss (sd_id w)" and "in_bracket ss (sd_id l)"
    using assms(2) by (auto simp: in_bracket_def list_ex_iff)
qed

lemma from_push: "from_bracket ss r \<Longrightarrow> in_bracket ss (sd_id sd) \<Longrightarrow> k \<notin> {PoolKind, SwissKind} \<Longrightarrow> from_bracket ss (push sd k rnd sec r)"
  by (simp add: from_bracket_def push_def bracket_entry_def)

lemma from_fold: "(\<And>x r. x \<in> set xs \<Longrightarrow> from_bracket ss r \<Longrightarrow> from_bracket ss (f x r)) \<Longrightarrow> from_bracket ss r \<Longrightarrow> from_bracket ss (fold f xs r)"
  by (induction xs arbitrary: r) auto

lemma from_place_pair:
  "from_bracket ss r \<Longrightarrow> winnerLoser s = Some wl \<Longrightarrow> s \<in> set ss \<Longrightarrow> {k, k'} \<inter> {PoolKind, SwissKind} = {} \<Longrightarrow> from_bracket ss (place_pair k k' wl r)"
  by (cases wl) (auto simp: place_pair_def intro!: from_push dest: winnerLoser_in)

text \<open>The groups of losers hold the losers of slots, under the round of the slot.\<close>

definition losers_of :: "ranking_slot list \<Rightarrow> (nat \<times> ranking_side list) list \<Rightarrow> bool" where
  "losers_of ss groups \<longleftrightarrow>
     distinct (map fst groups) \<and>
     (\<forall>(n, g) \<in> set groups. \<forall>l \<in> set g. \<exists>s \<in> set ss. \<exists>w. rs_round s = n \<and> winnerLoser s = Some (w, l))"

lemma add_loser_keys: "fst ` set (add_loser k x groups) = insert k (fst ` set groups)"
  by (induction k x groups rule: add_loser.induct) auto

lemma add_loser_distinct: "distinct (map fst groups) \<Longrightarrow> distinct (map fst (add_loser k x groups))"
  by (induction k x groups rule: add_loser.induct) (auto simp: add_loser_keys)

lemma add_loser_groups: "(n, g) \<in> set (add_loser k x groups) \<Longrightarrow> l \<in> set g \<Longrightarrow> (\<exists>g'. (n, g') \<in> set groups \<and> l \<in> set g') \<or> n = k \<and> l = x"
  by (induction k x groups rule: add_loser.induct) (auto split: if_splits)

lemma losers_of_fold:
  assumes "losers_of ss groups" and "set xs \<subseteq> set ss"
  shows "losers_of ss (fold (lose_step r) xs groups)"
  using assms
proof (induction xs arbitrary: groups)
  case (Cons s xs)
  have "losers_of ss (lose_step r s groups)"
  proof (cases "winnerLoser s")
    case (Some wl)
    obtain w l where wl: "wl = (w, l)" by (cases wl)
    have "losers_of ss (add_loser (rs_round s) l groups)"
      unfolding losers_of_def
    proof (intro conjI ballI)
      show "distinct (map fst (add_loser (rs_round s) l groups))"
        using Cons.prems(1) by (simp add: losers_of_def add_loser_distinct)
      fix p assume p: "p \<in> set (add_loser (rs_round s) l groups)"
      obtain n g where ng: "p = (n, g)" by (cases p)
      have "\<exists>s \<in> set ss. \<exists>w. rs_round s = n \<and> winnerLoser s = Some (w, l')" if "l' \<in> set g" for l'
        using add_loser_groups [OF p [unfolded ng] that]
      proof
        assume "\<exists>g'. (n, g') \<in> set groups \<and> l' \<in> set g'"
        then show ?thesis using Cons.prems(1) by (fastforce simp: losers_of_def)
      next
        assume "n = rs_round s \<and> l' = l"
        then show ?thesis using Some wl Cons.prems(2) by auto
      qed
      then show "case p of (n, g) \<Rightarrow> \<forall>l \<in> set g. \<exists>s \<in> set ss. \<exists>w. rs_round s = n \<and> winnerLoser s = Some (w, l)"
        by (simp add: ng)
    qed
    then show ?thesis using Some wl Cons.prems(1) by (simp add: lose_step_def)
  qed (use Cons.prems in \<open>simp add: lose_step_def\<close>)
  then show ?case using Cons by simp
qed simp

lemma losers_by_round: "losers_of ss (losersByRound ss r)"
  unfolding losersByRound_def by (rule losers_of_fold) (simp_all add: losers_of_def)

lemma group_loser:
  assumes "l \<in> set (or_else (map_of (losersByRound ss r) n) [])"
  obtains s w where "s \<in> set ss" and "rs_round s = n" and "winnerLoser s = Some (w, l)"
proof -
  obtain g where "map_of (losersByRound ss r) n = Some g" "l \<in> set g"
    using assms by (cases "map_of (losersByRound ss r) n") auto
  then have "(n, g) \<in> set (losersByRound ss r)" "l \<in> set g" by (simp_all add: map_of_SomeD)
  then show ?thesis using losers_by_round [of ss r] that by (fastforce simp: losers_of_def)
qed

lemma from_pushRound:
  assumes "from_bracket ss r" and "\<And>l. l \<in> set losers \<Longrightarrow> in_bracket ss (sd_id l)"
  shows "from_bracket ss (pushRound collate losers rnd sec p r)"
  unfolding pushRound_def push_loser_def
  by (rule from_fold [OF _ assms(1)], rule from_push) (auto simp: assms(2) round_kind_def)

lemma group_in:
  assumes "set ss' \<subseteq> set ss" and "l \<in> set (or_else (map_of (losersByRound ss' r) n) [])"
  shows "in_bracket ss (sd_id l)"
proof (rule group_loser [OF assms(2)])
  fix s w assume "s \<in> set ss'" "winnerLoser s = Some (w, l)"
  then show ?thesis using assms(1) winnerLoser_in(2) by blast
qed

lemma from_pushRounds:
  assumes "from_bracket ss r" and "set ss' \<subseteq> set ss"
  shows "from_bracket ss (pushRounds collate num sec p (losersByRound ss' r0) r)"
  unfolding pushRounds_def by (rule from_fold [OF _ assms(1)], rule from_pushRound) (auto dest: group_in [OF assms(2)])

lemma find_in: "find P xs = Some x \<Longrightarrow> x \<in> set xs"
  by (auto simp: find_Some_iff)

text \<open>The steps of the two orderings.\<close>

lemma single_result:
  assumes "orderSingleElim collate ss b r = Some r'"
  obtains f wl r1 r2 where "finalSlotOf ss (mainSlotsOf ss b) = Some f" and "winnerLoser f = Some wl"
    and "r1 = place_pair Champion RunnerUp wl r"
    and "r2 = (case Option.bind (bronzeSlotOf ss b) winnerLoser of None \<Rightarrow> r1 | Some wl \<Rightarrow> place_pair Third Fourth wl r1)"
    and "r' = pushRounds collate (\<lambda>n. n) None False (losersByRound (filter (\<lambda>s. rs_round s \<noteq> maxRoundOf ss) (mainSlotsOf ss b)) r2) r2"
proof -
  obtain f wl where f: "finalSlotOf ss (mainSlotsOf ss b) = Some f" "winnerLoser f = Some wl"
    using assms by (cases "finalSlotOf ss (mainSlotsOf ss b)") (auto simp: orderSingleElim_def Let_def split: option.splits)
  show ?thesis
    by (rule that [OF f refl refl]) (use assms f in \<open>simp add: orderSingleElim_def Let_def eq_commute\<close>)
qed

lemma double_result:
  assumes "orderDoubleElim collate ss sh r = Some r'"
  obtains f wl r1 where "decidingSlot ss (readLayout sh) = Some f" and "winnerLoser f = Some wl"
    and "r1 = place_pair Champion RunnerUp wl r"
    and "r' = placePlayIn collate ss (placePreCutoffWinners collate ss (readLayout sh)
      (placeLosersBracket collate ss (readLayout sh) (placeBronzePodium collate ss (readLayout sh) r1)))"
proof -
  obtain f wl where f: "decidingSlot ss (readLayout sh) = Some f" "winnerLoser f = Some wl"
    using assms by (cases "decidingSlot ss (readLayout sh)") (auto simp: orderDoubleElim_def placeTitle_def Let_def split: option.splits)
  show ?thesis
    by (rule that [OF f refl]) (use assms f in \<open>simp add: orderDoubleElim_def placeTitle_def Let_def\<close>)
qed

lemma from_single:
  assumes "from_bracket ss r" and "orderSingleElim collate ss b r = Some r'"
  shows "from_bracket ss r'"
proof (rule single_result [OF assms(2)])
  fix f wl r1 r2
  assume f: "finalSlotOf ss (mainSlotsOf ss b) = Some f" "winnerLoser f = Some wl" and r1_eq: "r1 = place_pair Champion RunnerUp wl r"
    and r2_eq: "r2 = (case Option.bind (bronzeSlotOf ss b) winnerLoser of None \<Rightarrow> r1 | Some wl \<Rightarrow> place_pair Third Fourth wl r1)"
    and r': "r' = pushRounds collate (\<lambda>n. n) None False (losersByRound (filter (\<lambda>s. rs_round s \<noteq> maxRoundOf ss) (mainSlotsOf ss b)) r2) r2"
  have main: "set (mainSlotsOf ss b) \<subseteq> set ss" by (auto simp: mainSlotsOf_def split: option.splits)
  have "f \<in> set ss" using f(1) main find_in by (fastforce simp: finalSlotOf_def split: option.splits)
  then have r1: "from_bracket ss r1" unfolding r1_eq by (intro from_place_pair [OF assms(1) f(2)]) simp_all
  have "s \<in> set ss" if "bronzeSlotOf ss b = Some s" for s using that find_in by (fastforce simp: bronzeSlotOf_def split: if_splits)
  then have r2: "from_bracket ss r2"
    unfolding r2_eq by (cases "bronzeSlotOf ss b") (auto simp: r1 split: option.split intro: from_place_pair [OF r1])
  have "set (filter (\<lambda>s. rs_round s \<noteq> maxRoundOf ss) (mainSlotsOf ss b)) \<subseteq> set ss" using main by auto
  then show ?thesis unfolding r' by (rule from_pushRounds [OF r2])
qed

lemma from_bronze_podium:
  assumes "from_bracket ss r"
  shows "from_bracket ss (placeBronzePodium collate ss ly r)"
proof -
  let ?last = "filter (\<lambda>s. rs_round s = ly_lastLbRound ly) ss"
  have "from_bracket ss (fold push_survivor (sort_by (byPoolScore collate r) (List.map_filter (\<lambda>s. map_option fst (winnerLoser s)) ?last)) r)"
  proof (rule from_fold [OF _ assms])
    fix sd r' assume sd: "sd \<in> set (sort_by (byPoolScore collate r) (List.map_filter (\<lambda>s. map_option fst (winnerLoser s)) ?last))"
      and r': "from_bracket ss r'"
    then obtain s wl where s: "s \<in> set ss" "winnerLoser s = Some wl" "sd = fst wl"
      by (auto simp: List.map_filter_def)
    then have "in_bracket ss (sd_id sd)" using winnerLoser_in(1) by (cases wl) auto
    then show "from_bracket ss (push_survivor sd r')" unfolding push_survivor_def by (intro from_push r') auto
  qed
  moreover have "s \<in> set ss" if "?last = s # rest" for s rest
    using that by (metis filter_is_subset list.set_intros(1) subsetD)
  ultimately show ?thesis
    using assms unfolding placeBronzePodium_def Let_def
    by (auto split: list.split option.split intro!: from_place_pair)
qed

lemma from_double:
  assumes "from_bracket ss r" and "orderDoubleElim collate ss sh r = Some r'"
  shows "from_bracket ss r'"
proof (rule double_result [OF assms(2)])
  let ?ly = "readLayout sh"
  fix f wl r1
  assume f: "decidingSlot ss ?ly = Some f" "winnerLoser f = Some wl" and r1_eq: "r1 = place_pair Champion RunnerUp wl r"
    and r': "r' = placePlayIn collate ss (placePreCutoffWinners collate ss ?ly
      (placeLosersBracket collate ss ?ly (placeBronzePodium collate ss ?ly r1)))"
  have "f \<in> set ss" using f(1) find_in by (fastforce simp: decidingSlot_def slotAt_def Let_def split: option.splits if_splits)
  then have r1: "from_bracket ss r1" unfolding r1_eq by (intro from_place_pair [OF assms(1) f(2)]) simp_all
  have "from_bracket ss (placeLosersBracket collate ss ?ly (placeBronzePodium collate ss ?ly r1))" (is "from_bracket ss ?r2")
    unfolding placeLosersBracket_def by (rule from_pushRounds [OF from_bronze_podium [OF r1]]) auto
  then have "from_bracket ss (placePreCutoffWinners collate ss ?ly ?r2)"
    unfolding placePreCutoffWinners_def by (auto intro: from_pushRounds)
  then show ?thesis
    unfolding r' placePlayIn_def
    by (rule from_fold [rotated]) (rule from_push, assumption, auto dest: group_in [rotated])
qed

text \<open>The tail of the ranking: everybody of the pools who stands in no slot.\<close>

lemma tail_result:
  assumes "\<And>e. e \<in> set es \<Longrightarrow> \<not> in_bracket ss (sd_id e)"
  shows "\<exists>ys. rk_entries (fold (\<lambda>e. push e PoolKind None None) es r) = rk_entries r @ ys \<and>
    (\<forall>y \<in> set ys. \<not> in_bracket ss (fe_id y) \<and> fe_kind y = PoolKind) \<and>
    (\<forall>e \<in> set es. sd_id e \<in> set (map fe_id (rk_entries r @ ys)))"
  using assms
proof (induction es arbitrary: r)
  case (Cons e es)
  obtain ys where ys: "rk_entries (fold (\<lambda>e. push e PoolKind None None) es (push e PoolKind None None r)) =
      rk_entries (push e PoolKind None None r) @ ys"
    "\<forall>y \<in> set ys. \<not> in_bracket ss (fe_id y) \<and> fe_kind y = PoolKind"
    "\<forall>e' \<in> set es. sd_id e' \<in> set (map fe_id (rk_entries (push e PoolKind None None r) @ ys))"
    using Cons.IH [of "push e PoolKind None None r"] Cons.prems by auto
  let ?new = "if has r (sd_id e) then [] else [entry_of e PoolKind None None r]"
  have new: "rk_entries (push e PoolKind None None r) = rk_entries r @ ?new" using push_grown [of r e PoolKind None None] by (simp only: grown_def)
  have "sd_id e \<in> set (map fe_id (rk_entries r @ ?new))" by (auto simp: has_def entry_of_def)
  moreover have "\<forall>y \<in> set ?new. \<not> in_bracket ss (fe_id y) \<and> fe_kind y = PoolKind" using Cons.prems by (simp add: entry_of_def)
  ultimately show ?case using ys unfolding new by (intro exI [of _ "?new @ ys"]) auto
qed simp

text \<open>The block of the bracket and the block of the pools.\<close>

lemma ranking_split:
  assumes "map_option sh_type shape \<noteq> Some SwissShape" and "decided_ranking collate ss pes b shape = Some r"
  obtains ys where "computeFinalRanking collate ss pes b shape = rk_entries r @ ys"
    and "\<forall>e \<in> set (rk_entries r). in_bracket ss (fe_id e) \<and> fe_kind e \<noteq> PoolKind"
    and "\<forall>y \<in> set ys. \<not> in_bracket ss (fe_id y) \<and> fe_kind y = PoolKind"
    and "\<forall>p \<in> set pes. \<not> in_bracket ss (sd_id p) \<longrightarrow> sd_id p \<in> set (map fe_id ys)"
proof -
  have eq: "computeFinalRanking collate ss pes b shape = rk_entries (fold (\<lambda>e. push e PoolKind None None) (pool_tail collate ss pes r) r)"
    using final_ranking_bracket [OF assms(1)] assms(2) by simp
  have "from_bracket ss (new_ranking pes)" by (simp add: from_bracket_def new_ranking_def)
  then have "from_bracket ss r"
    using assms(2) by (auto simp: decided_ranking_def split: option.splits if_splits intro: from_single from_double)
  then have xs: "\<forall>e \<in> set (rk_entries r). in_bracket ss (fe_id e) \<and> fe_kind e \<noteq> PoolKind"
    by (auto simp: from_bracket_def bracket_entry_def list_all_iff)
  have mem: "e \<in> set (pool_tail collate ss pes r) \<longleftrightarrow> e \<in> set pes \<and> \<not> in_bracket ss (sd_id e) \<and> \<not> has r (sd_id e)" for e
    by (auto simp: pool_tail_def)
  obtain ys where ys: "computeFinalRanking collate ss pes b shape = rk_entries r @ ys"
    "\<forall>y \<in> set ys. \<not> in_bracket ss (fe_id y) \<and> fe_kind y = PoolKind"
    "\<forall>e \<in> set (pool_tail collate ss pes r). sd_id e \<in> set (map fe_id (rk_entries r @ ys))"
    using tail_result [of "pool_tail collate ss pes r" ss r] mem unfolding eq by blast
  have "sd_id p \<in> set (map fe_id ys)" if p: "p \<in> set pes" "\<not> in_bracket ss (sd_id p)" for p
  proof -
    have out: "sd_id p \<notin> set (map fe_id (rk_entries r))" using xs p(2) by auto
    then have "p \<in> set (pool_tail collate ss pes r)" using p mem by (simp add: has_def)
    then show ?thesis using ys(3) out by auto
  qed
  then show ?thesis using that ys(1,2) xs by blast
qed


subsection \<open>Deeper is higher\<close>

text \<open>Of two fighters placed by their round: the section, then the round, then the score of the pools.\<close>

definition section_rank :: "elim_section option \<Rightarrow> nat" where
  "section_rank sec = (case sec of None \<Rightarrow> 0 | Some LBExit \<Rightarrow> 1 | Some WBExit \<Rightarrow> 2 | Some PlayInExit \<Rightarrow> 3)"

definition deeper :: "final_entry \<Rightarrow> final_entry \<Rightarrow> bool" where
  "deeper a b \<longleftrightarrow>
     section_rank (fe_section a) < section_rank (fe_section b) \<or>
     fe_section a = fe_section b \<and>
       (the (fe_round b) < the (fe_round a) \<or>
        fe_round a = fe_round b \<and> scoreOrder (fe_poolScore a) (fe_poolScore b) \<le> 0)"

lemma score_comparator: "comparator (\<lambda>a b. scoreOrder (f a) (f b))"
proof
  show "scoreOrder (f a) (f b) \<le> 0 \<longleftrightarrow> 0 \<le> scoreOrder (f b) (f a)" for a b
    by (simp add: scoreOrder_def split: option.split)
  show "scoreOrder (f a) (f c) \<le> 0" if "scoreOrder (f a) (f b) \<le> 0" "scoreOrder (f b) (f c) \<le> 0" for a b c
    using that by (simp add: scoreOrder_def split: option.splits)
qed

lemma pool_score_comparator:
  assumes "comparator collate"
  shows "comparator (byPoolScore collate r)"
proof -
  have "comparator (\<lambda>a b. collate (sd_name a) (sd_name b))"
  proof
    show "collate (sd_name a) (sd_name b) \<le> 0 \<longleftrightarrow> 0 \<le> collate (sd_name b) (sd_name a)" for a b
      by (rule comparator.flip [OF assms])
    show "collate (sd_name a) (sd_name c) \<le> 0" if "collate (sd_name a) (sd_name b) \<le> 0" "collate (sd_name b) (sd_name c) \<le> 0" for a b c
      using that by (rule comparator.trans [OF assms])
  qed
  then show ?thesis unfolding byPoolScore_def by (rule then_by_comparator [OF score_comparator])
qed

lemma sorted_by_score:
  assumes "comparator collate"
  shows "sorted_wrt (\<lambda>a b. scoreOrder (rk_scores r (sd_id a)) (rk_scores r (sd_id b)) \<le> 0) (sort_by (byPoolScore collate r) xs)"
  by (rule sorted_wrt_mono_rel [OF _ comparator.sorted_sort_by [OF pool_score_comparator [OF assms]]])
     (auto simp: byPoolScore_def then_by_def split: if_splits)

text \<open>Pushing a sorted group appends entries of its round and section in the order of their score.\<close>

lemma push_group:
  assumes "sorted_wrt (\<lambda>a b. scoreOrder (sc (sd_id a)) (sc (sd_id b)) \<le> 0) xs" and "rk_scores r = sc"
    and f: "\<And>x r. \<exists>k. f x r = push x k rnd sec r"
  shows "\<exists>es. grown r (fold f xs r) es \<and>
    (\<forall>e \<in> set es. fe_round e = rnd \<and> fe_section e = sec \<and> fe_poolScore e = sc (fe_id e) \<and> fe_id e \<in> sd_id ` set xs) \<and>
    sorted_wrt (\<lambda>a b. scoreOrder (fe_poolScore a) (fe_poolScore b) \<le> 0) es"
  using assms(1,2)
proof (induction xs arbitrary: r)
  case Nil
  then show ?case by (auto intro!: exI [of _ "[]"] simp: grown_refl)
next
  case (Cons x xs)
  obtain k where k: "f x r = push x k rnd sec r" using f by blast
  let ?new = "if has r (sd_id x) then [] else [entry_of x k rnd sec r]"
  have new: "grown r (f x r) ?new" unfolding k by (rule push_grown)
  then have sc: "rk_scores (f x r) = sc" using Cons.prems(2) by (simp add: grown_def)
  obtain es where es: "grown (f x r) (fold f xs (f x r)) es"
    "\<forall>e \<in> set es. fe_round e = rnd \<and> fe_section e = sec \<and> fe_poolScore e = sc (fe_id e) \<and> fe_id e \<in> sd_id ` set xs"
    "sorted_wrt (\<lambda>a b. scoreOrder (fe_poolScore a) (fe_poolScore b) \<le> 0) es"
    using Cons.IH [OF _ sc] Cons.prems(1) by auto
  have "scoreOrder (sc (sd_id x)) (fe_poolScore e) \<le> 0" if "e \<in> set es" for e
    using es(2) that Cons.prems(1) by auto
  then have "sorted_wrt (\<lambda>a b. scoreOrder (fe_poolScore a) (fe_poolScore b) \<le> 0) (?new @ es)"
    using es(3) Cons.prems(2) by (simp add: entry_of_def)
  moreover have "\<forall>e \<in> set (?new @ es). fe_round e = rnd \<and> fe_section e = sec \<and> fe_poolScore e = sc (fe_id e) \<and> fe_id e \<in> sd_id ` set (x # xs)"
    using es(2) Cons.prems(2) by (auto simp: entry_of_def)
  moreover have "grown r (fold f (x # xs) r) (?new @ es)" using grown_trans [OF new es(1)] by simp
  ultimately show ?case by blast
qed

lemma pushRound_grown:
  assumes "comparator collate"
  shows "\<exists>es. grown r (pushRound collate losers rnd sec p r) es \<and> (\<forall>e \<in> set es. fe_round e = rnd \<and> fe_section e = sec) \<and> sorted_wrt deeper es"
proof -
  obtain es where es: "grown r (pushRound collate losers rnd sec p r) es" "\<forall>e \<in> set es. fe_round e = rnd \<and> fe_section e = sec"
    "sorted_wrt (\<lambda>a b. scoreOrder (fe_poolScore a) (fe_poolScore b) \<le> 0) es"
    using push_group [OF sorted_by_score [OF assms] refl, of "push_loser rnd sec p"] unfolding pushRound_def push_loser_def by blast
  have "sorted_wrt deeper es" by (rule sorted_wrt_mono_rel [OF _ es(3)]) (use es(2) in \<open>auto simp: deeper_def\<close>)
  then show ?thesis using es by blast
qed

lemma pushRounds_list:
  assumes "comparator collate" and "sorted_wrt (\<lambda>a b. number b < number a) ns"
  shows "\<exists>es. grown r (fold (\<lambda>n. pushRound collate (g n) (Some (number n)) sec p) ns r) es \<and>
    (\<forall>e \<in> set es. fe_section e = sec \<and> fe_round e \<in> Some ` number ` set ns) \<and> sorted_wrt deeper es"
  using assms(2)
proof (induction ns arbitrary: r)
  case Nil
  then show ?case by (auto intro!: exI [of _ "[]"] simp: grown_refl)
next
  case (Cons n ns)
  obtain es where es: "grown r (pushRound collate (g n) (Some (number n)) sec p r) es"
    "\<forall>e \<in> set es. fe_round e = Some (number n) \<and> fe_section e = sec" "sorted_wrt deeper es"
    using pushRound_grown [OF assms(1)] by blast
  obtain fs where fs: "grown (pushRound collate (g n) (Some (number n)) sec p r)
      (fold (\<lambda>n. pushRound collate (g n) (Some (number n)) sec p) ns (pushRound collate (g n) (Some (number n)) sec p r)) fs"
    "\<forall>e \<in> set fs. fe_section e = sec \<and> fe_round e \<in> Some ` number ` set ns" "sorted_wrt deeper fs"
    using Cons.IH [of "pushRound collate (g n) (Some (number n)) sec p r"] Cons.prems by auto
  have "deeper a b" if "a \<in> set es" "b \<in> set fs" for a b
    using es(2) fs(2) that Cons.prems by (auto simp: deeper_def)
  then have "sorted_wrt deeper (es @ fs)" using es(3) fs(3) by (simp add: sorted_wrt_append)
  then show ?case using grown_trans [OF es(1) fs(1)] es(2) fs(2) by (intro exI [of _ "es @ fs"]) auto
qed

lemma rounds_desc_sorted:
  assumes "distinct (map fst groups)"
  shows "sorted_wrt (\<lambda>a b. b < a) (rounds_desc groups)"
proof -
  have "comparator (\<lambda>a b. int b - int a)" by unfold_locales auto
  then have "sorted_wrt (\<lambda>a b. int b - int a \<le> 0) (rounds_desc groups)"
    unfolding rounds_desc_def by (rule comparator.sorted_sort_by)
  moreover have "distinct (rounds_desc groups)" using assms by (simp add: rounds_desc_def)
  ultimately show ?thesis by (auto simp: sorted_wrt_iff_nth_less distinct_conv_nth intro: le_neq_implies_less)
qed

lemma losers_rounds:
  assumes "n \<in> set (rounds_desc (losersByRound ss r))"
  shows "n \<in> rs_round ` set ss"
proof -
  have "fst ` set (fold (lose_step r) xs groups) \<subseteq> fst ` set groups \<union> rs_round ` set xs" for xs groups
  proof (induction xs arbitrary: groups)
    case (Cons s xs)
    have "fst ` set (lose_step r s groups) \<subseteq> insert (rs_round s) (fst ` set groups)"
      by (auto simp: lose_step_def add_loser_keys split: option.split)
    then show ?case using Cons.IH [of "lose_step r s groups"] unfolding fold_simps list.set image_insert by blast
  qed simp
  from this [of ss "[]"] show ?thesis using assms by (auto simp: rounds_desc_def losersByRound_def)
qed

lemma pushRounds_grown:
  assumes "comparator collate" and "\<And>a b. a \<in> rs_round ` set ss \<Longrightarrow> b < a \<Longrightarrow> b \<in> rs_round ` set ss \<Longrightarrow> number b < number a"
  shows "\<exists>es. grown r (pushRounds collate number sec p (losersByRound ss r') r) es \<and>
    (\<forall>e \<in> set es. fe_section e = sec) \<and> sorted_wrt deeper es"
proof -
  have "distinct (map fst (losersByRound ss r'))" using losers_by_round [of ss r'] by (simp add: losers_of_def)
  note sorted = rounds_desc_sorted [OF this]
  have "sorted_wrt (\<lambda>a b. number b < number a) (rounds_desc (losersByRound ss r'))"
  proof (rule sorted_wrt_mono_rel [OF _ sorted])
    fix a b assume "a \<in> set (rounds_desc (losersByRound ss r'))" "b \<in> set (rounds_desc (losersByRound ss r'))" "b < a"
    then show "number b < number a" by (intro assms(2) losers_rounds)
  qed
  from pushRounds_list [OF assms(1) this, where r = r and sec = sec and p = p and g = "\<lambda>n. or_else (map_of (losersByRound ss r') n) []"]
  show ?thesis unfolding pushRounds_def by blast
qed

text \<open>The podium and the tail hold nobody placed by a round.\<close>

abbreviation by_round :: "final_entry list \<Rightarrow> final_entry list" where
  "by_round es \<equiv> filter (\<lambda>e. fe_kind e = RoundKind) es"

lemma push_no_round: "k \<noteq> RoundKind \<Longrightarrow> by_round (rk_entries (push sd k rnd sec r)) = by_round (rk_entries r)"
  by (simp add: push_def)

lemma fold_no_round:
  "(\<And>x r. by_round (rk_entries (f x r)) = by_round (rk_entries r)) \<Longrightarrow> by_round (rk_entries (fold f xs r)) = by_round (rk_entries r)"
  by (induction xs arbitrary: r) simp_all

lemma pair_no_round: "k \<noteq> RoundKind \<Longrightarrow> k' \<noteq> RoundKind \<Longrightarrow> by_round (rk_entries (place_pair k k' wl r)) = by_round (rk_entries r)"
  by (simp add: place_pair_def push_no_round)

lemma podium_no_round: "by_round (rk_entries (placeBronzePodium collate ss ly r)) = by_round (rk_entries r)"
proof -
  have "by_round (rk_entries (fold push_survivor xs r)) = by_round (rk_entries r)" for xs
    by (rule fold_no_round) (simp add: push_survivor_def push_no_round)
  then show ?thesis
    unfolding placeBronzePodium_def Let_def by (auto simp: pair_no_round split: list.split option.split)
qed

lemma single_by_round:
  assumes "comparator collate" and "orderSingleElim collate ss b (new_ranking pes) = Some r"
  shows "sorted_wrt deeper (by_round (rk_entries r))"
proof (rule single_result [OF assms(2)])
  fix f wl r1 r2
  assume "r1 = place_pair Champion RunnerUp wl (new_ranking pes)"
    and "r2 = (case Option.bind (bronzeSlotOf ss b) winnerLoser of None \<Rightarrow> r1 | Some wl \<Rightarrow> place_pair Third Fourth wl r1)"
    and r: "r = pushRounds collate (\<lambda>n. n) None False (losersByRound (filter (\<lambda>s. rs_round s \<noteq> maxRoundOf ss) (mainSlotsOf ss b)) r2) r2"
  then have r2: "by_round (rk_entries r2) = []" by (simp add: pair_no_round new_ranking_def split: option.split)
  obtain es where es: "grown r2 r es" "sorted_wrt deeper es"
    using pushRounds_grown [OF assms(1), where number = "\<lambda>n. n" and sec = None and p = False and r = r2 and r' = r2
        and ss = "filter (\<lambda>s. rs_round s \<noteq> maxRoundOf ss) (mainSlotsOf ss b)"] unfolding r by auto
  then show ?thesis using r2 by (simp add: grown_def sorted_wrt_filter)
qed

lemma losers_grown:
  assumes "comparator collate"
  shows "\<exists>es. grown r (placeLosersBracket collate ss ly r) es \<and> (\<forall>e \<in> set es. fe_section e = Some LBExit) \<and> sorted_wrt deeper es"
  unfolding placeLosersBracket_def by (rule pushRounds_grown [OF assms]) auto

lemma cutoff_grown:
  assumes "comparator collate"
  shows "\<exists>es. grown r (placePreCutoffWinners collate ss ly r) es \<and> (\<forall>e \<in> set es. fe_section e = Some WBExit) \<and> sorted_wrt deeper es"
proof (cases "ly_entryRound ly \<le> 1")
  case True
  then show ?thesis by (auto simp: placePreCutoffWinners_def grown_refl intro!: exI [of _ "[]"])
next
  case False
  then show ?thesis
    unfolding placePreCutoffWinners_def if_not_P [OF False] by (intro pushRounds_grown [OF assms]) auto
qed

lemma play_in_grown:
  assumes "comparator collate"
  shows "\<exists>es. grown r (placePlayIn collate ss r) es \<and> (\<forall>e \<in> set es. fe_section e = Some PlayInExit) \<and> sorted_wrt deeper es"
proof -
  let ?f = "\<lambda>sd. push sd RoundKind (Some 0) (Some PlayInExit)"
  have f: "\<exists>k. ?f x r = push x k (Some 0) (Some PlayInExit) r" for x r by blast
  obtain es where es: "grown r (placePlayIn collate ss r) es" "\<forall>e \<in> set es. fe_round e = Some 0 \<and> fe_section e = Some PlayInExit"
    "sorted_wrt (\<lambda>a b. scoreOrder (fe_poolScore a) (fe_poolScore b) \<le> 0) es"
    using push_group [OF sorted_by_score [OF assms] refl f] unfolding placePlayIn_def by blast
  have "sorted_wrt deeper es" by (rule sorted_wrt_mono_rel [OF _ es(3)]) (use es(2) in \<open>auto simp: deeper_def\<close>)
  then show ?thesis using es by blast
qed

lemma double_by_round:
  assumes "comparator collate" and "orderDoubleElim collate ss sh (new_ranking pes) = Some r"
  shows "sorted_wrt deeper (by_round (rk_entries r))"
proof (rule double_result [OF assms(2)])
  let ?ly = "readLayout sh"
  fix f wl r1
  assume r1_eq: "r1 = place_pair Champion RunnerUp wl (new_ranking pes)"
    and r: "r = placePlayIn collate ss (placePreCutoffWinners collate ss ?ly
      (placeLosersBracket collate ss ?ly (placeBronzePodium collate ss ?ly r1)))"
  have r1: "by_round (rk_entries r1) = []" by (simp add: r1_eq pair_no_round new_ranking_def)
  define r2 where "r2 = placeBronzePodium collate ss ?ly r1"
  define r3 where "r3 = placeLosersBracket collate ss ?ly r2"
  define r4 where "r4 = placePreCutoffWinners collate ss ?ly r3"
  obtain es where es: "grown r2 r3 es" "\<forall>e \<in> set es. fe_section e = Some LBExit" "sorted_wrt deeper es"
    using losers_grown [OF assms(1)] unfolding r3_def by blast
  obtain fs where fs: "grown r3 r4 fs" "\<forall>e \<in> set fs. fe_section e = Some WBExit" "sorted_wrt deeper fs"
    using cutoff_grown [OF assms(1)] unfolding r4_def by blast
  have "r = placePlayIn collate ss r4" by (simp add: r r4_def r3_def r2_def)
  then obtain gs where gs: "grown r4 r gs" "\<forall>e \<in> set gs. fe_section e = Some PlayInExit" "sorted_wrt deeper gs"
    using play_in_grown [OF assms(1)] by blast
  have "sorted_wrt deeper (es @ fs @ gs)"
    using es(2,3) fs(2,3) gs(2,3) by (auto simp: sorted_wrt_append deeper_def section_rank_def)
  moreover have "rk_entries r = rk_entries r2 @ es @ fs @ gs" using es(1) fs(1) gs(1) by (simp add: grown_def)
  moreover have "by_round (rk_entries r2) = []" using r1 by (simp add: r2_def podium_no_round)
  ultimately show ?thesis using sorted_wrt_filter by (simp del: filter_append add: filter_append [of _ "rk_entries r2"])
qed

text \<open>
  Whoever went further stands higher. Among the fighters placed by the round they went out
  in, those of the losers bracket come before those a cutoff eliminated in the winners
  bracket, and those before the losers of the play-in; within a section a later round comes
  before an earlier one, and within a round the better score of the pools comes first. The
  order of names need only be a consistent total preorder.
\<close>

lemma deeper_exits_stand_higher:
  assumes "comparator collate"
  shows "sorted_wrt deeper (filter (\<lambda>e. fe_kind e = RoundKind) (computeFinalRanking collate ss pes b shape))"
proof (cases "map_option sh_type shape = Some SwissShape")
  case True
  have "by_round (orderSwiss pes (new_ranking pes)) = by_round (rk_entries (new_ranking pes))"
    unfolding orderSwiss_def by (rule fold_no_round) (simp add: push_no_round swissResultKind_def)
  then show ?thesis using True by (simp add: computeFinalRanking_def new_ranking_def)
next
  case False
  note eq = final_ranking_bracket [OF False]
  have tail: "by_round (rk_entries (fold (\<lambda>e. push e PoolKind None None) es r)) = by_round (rk_entries r)" for es :: "pool_entry list" and r
    by (rule fold_no_round) (simp add: push_no_round)
  show ?thesis
    using eq [of collate ss pes b] single_by_round [OF assms] double_by_round [OF assms]
    by (auto simp: tail decided_ranking_def split: option.splits if_splits)
qed

subsection \<open>Nobody is left out\<close>

lemma has_push [simp]: "has (push sd k rnd sec r) x \<longleftrightarrow> has r x \<or> x = sd_id sd"
  by (auto simp: has_def push_def)

lemma has_fold:
  assumes "\<And>y r. has (f y r) x \<longleftrightarrow> has r x \<or> P y"
  shows "has (fold f ys r) x \<longleftrightarrow> has r x \<or> (\<exists>y \<in> set ys. P y)"
  using assms by (induction ys arbitrary: r) auto

lemma has_place_pair [simp]: "has (place_pair k k' wl r) x \<longleftrightarrow> has r x \<or> x = sd_id (fst wl) \<or> x = sd_id (snd wl)"
  by (auto simp: place_pair_def)

lemma has_pushRound: "has (pushRound collate ls rnd sec p r) x \<longleftrightarrow> has r x \<or> (\<exists>l \<in> set ls. x = sd_id l)"
  unfolding pushRound_def by (subst has_fold [where P = "\<lambda>l. x = sd_id l"]) (simp_all add: push_loser_def)

definition grouped :: "(nat \<times> ranking_side list) list \<Rightarrow> nat \<Rightarrow> ranking_side \<Rightarrow> bool" where
  "grouped groups n l \<longleftrightarrow> (\<exists>g. (n, g) \<in> set groups \<and> l \<in> set g)"

lemma has_pushRounds:
  assumes "distinct (map fst groups)"
  shows "has (pushRounds collate num sec p groups r) x \<longleftrightarrow> has r x \<or> (\<exists>n l. grouped groups n l \<and> x = sd_id l)"
proof -
  have "set (rounds_desc groups) = fst ` set groups" by (simp add: rounds_desc_def)
  then have "has (pushRounds collate num sec p groups r) x \<longleftrightarrow>
      has r x \<or> (\<exists>n \<in> fst ` set groups. \<exists>l \<in> set (or_else (map_of groups n) []). x = sd_id l)"
    unfolding pushRounds_def
    by (subst has_fold [where P = "\<lambda>n. \<exists>l \<in> set (or_else (map_of groups n) []). x = sd_id l"]) (simp_all add: has_pushRound)
  moreover have "or_else (map_of groups n) [] = g" if "(n, g) \<in> set groups" for n g
    using map_of_is_SomeI [OF assms that] by simp
  ultimately show ?thesis unfolding grouped_def by force
qed

text \<open>The groups hold every loser that has no place yet.\<close>

lemma add_loser_in: "\<exists>g. (k, g) \<in> set (add_loser k x groups) \<and> x \<in> set g"
  by (induction k x groups rule: add_loser.induct) auto

lemma add_loser_keeps: "(n, g) \<in> set groups \<Longrightarrow> l \<in> set g \<Longrightarrow> \<exists>g'. (n, g') \<in> set (add_loser k x groups) \<and> l \<in> set g'"
proof (induction k x groups rule: add_loser.induct)
  case (2 k x k' g' rest)
  then show ?case by (cases "k = k'") auto
qed simp

lemma grouped_step: "grouped groups n l \<Longrightarrow> grouped (lose_step r s groups) n l"
  unfolding grouped_def lose_step_def using add_loser_keeps by (auto split: option.split)

lemma grouped_fold: "grouped groups n l \<Longrightarrow> grouped (fold (lose_step r) ss groups) n l"
  by (induction ss arbitrary: groups) (simp_all add: grouped_step)

lemma loser_grouped:
  assumes "s \<in> set ss" and "winnerLoser s = Some (w, l)" and "\<not> has r (sd_id l)"
  shows "grouped (fold (lose_step r) ss groups) (rs_round s) l"
  using assms(1)
proof (induction ss arbitrary: groups)
  case (Cons t ss)
  show ?case
  proof (cases "t = s")
    case True
    have "grouped (lose_step r s groups) (rs_round s) l"
      using assms(2,3) add_loser_in by (simp add: lose_step_def grouped_def)
    then show ?thesis using True by (simp add: grouped_fold)
  qed (use Cons in auto)
qed simp

lemma has_losers:
  "has (pushRounds collate num sec p (losersByRound ss r) r) x \<longleftrightarrow>
    has r x \<or> (\<exists>s \<in> set ss. \<exists>w l. winnerLoser s = Some (w, l) \<and> sd_id l = x)"
proof -
  have groups: "losers_of ss (losersByRound ss r)" by (rule losers_by_round)
  then have "distinct (map fst (losersByRound ss r))" by (simp add: losers_of_def)
  note pushed = has_pushRounds [OF this, of collate num sec p r x]
  have source: "\<exists>s \<in> set ss. \<exists>w. winnerLoser s = Some (w, l)" if "grouped (losersByRound ss r) n l" for n l
    using groups that unfolding losers_of_def grouped_def by blast
  have "grouped (losersByRound ss r) (rs_round s) l" if "s \<in> set ss" "winnerLoser s = Some (w, l)" "\<not> has r (sd_id l)" for s w l
    using loser_grouped [OF that] by (simp add: losersByRound_def)
  then show ?thesis unfolding pushed using source by blast
qed

lemma has_play_in:
  "has (placePlayIn collate ss r) x \<longleftrightarrow>
    has r x \<or> (\<exists>s \<in> set ss. rs_round s = 0 \<and> (\<exists>w l. winnerLoser s = Some (w, l) \<and> sd_id l = x))"
proof -
  let ?ss = "filter (\<lambda>s. rs_round s = 0) ss"
  let ?groups = "losersByRound ?ss r"
  have listed: "has (placePlayIn collate ss r) x \<longleftrightarrow> has r x \<or> (\<exists>l \<in> set (or_else (map_of ?groups 0) []). x = sd_id l)"
    unfolding placePlayIn_def by (subst has_fold [where P = "\<lambda>l. x = sd_id l"]) simp_all
  show ?thesis
  proof
    assume "has (placePlayIn collate ss r) x"
    then show "has r x \<or> (\<exists>s \<in> set ss. rs_round s = 0 \<and> (\<exists>w l. winnerLoser s = Some (w, l) \<and> sd_id l = x))"
      unfolding listed by (elim disjE bexE, simp, elim group_loser) auto
  next
    assume right: "has r x \<or> (\<exists>s \<in> set ss. rs_round s = 0 \<and> (\<exists>w l. winnerLoser s = Some (w, l) \<and> sd_id l = x))"
    have "(\<exists>l \<in> set (or_else (map_of ?groups 0) []). x = sd_id l)"
      if s: "s \<in> set ss" "rs_round s = 0" "winnerLoser s = Some (w, l)" "sd_id l = x" "\<not> has r x" for s w l
    proof -
      have "grouped ?groups 0 l" using loser_grouped [of s ?ss w l r "[]"] s by (simp add: losersByRound_def)
      then obtain g where g: "(0, g) \<in> set ?groups" "l \<in> set g" by (auto simp: grouped_def)
      have "distinct (map fst ?groups)" using losers_by_round [of ?ss r] by (simp add: losers_of_def)
      then have "map_of ?groups 0 = Some g" using g(1) by (rule map_of_is_SomeI)
      then show ?thesis using g(2) s(4) by auto
    qed
    then show "has (placePlayIn collate ss r) x" unfolding listed using right by blast
  qed
qed

text \<open>The winner and the loser of a slot.\<close>

definition fought_in :: "ranking_slot option \<Rightarrow> string \<Rightarrow> bool" where
  "fought_in s x \<longleftrightarrow> (\<exists>wl. Option.bind s winnerLoser = Some wl \<and> x \<in> {sd_id (fst wl), sd_id (snd wl)})"

definition lost_in :: "ranking_slot \<Rightarrow> string \<Rightarrow> bool" where
  "lost_in s x \<longleftrightarrow> (\<exists>w l. winnerLoser s = Some (w, l) \<and> sd_id l = x)"

lemma new_has [simp]: "\<not> has (new_ranking pes) x"
  by (simp add: has_def new_ranking_def)

lemma single_lists:
  assumes "orderSingleElim collate ss b (new_ranking pes) = Some r"
  shows "has r x \<longleftrightarrow> fought_in (finalSlotOf ss (mainSlotsOf ss b)) x \<or> fought_in (bronzeSlotOf ss b) x \<or>
    (\<exists>s \<in> set (mainSlotsOf ss b). rs_round s \<noteq> maxRoundOf ss \<and> lost_in s x)"
  by (rule single_result [OF assms])
     (auto simp: has_losers fought_in_def lost_in_def split: option.splits)

lemma has_podium:
  "has (placeBronzePodium collate ss ly r) x \<longleftrightarrow> has r x \<or> ly_isBronze ly \<and>
    (let lastRound = filter (\<lambda>s. rs_round s = ly_lastLbRound ly) ss in
     if ly_bronzeMatch ly then lastRound \<noteq> [] \<and> fought_in (Some (hd lastRound)) x
     else (\<exists>s \<in> set lastRound. \<exists>w l. winnerLoser s = Some (w, l) \<and> sd_id w = x))"
proof -
  have "has (fold push_survivor (sort_by c (List.map_filter (\<lambda>s. map_option fst (winnerLoser s)) ls)) r) x \<longleftrightarrow>
      has r x \<or> (\<exists>s \<in> set ls. \<exists>w l. winnerLoser s = Some (w, l) \<and> sd_id w = x)" for c :: "ranking_side \<Rightarrow> ranking_side \<Rightarrow> rat" and ls
  proof -
    have "l \<in> set (List.map_filter (\<lambda>s. map_option fst (winnerLoser s)) ls) \<longleftrightarrow> (\<exists>s \<in> set ls. \<exists>l'. winnerLoser s = Some (l, l'))" for l
      by (force simp: List.map_filter_def)
    then show ?thesis by (subst has_fold [where P = "\<lambda>sd. x = sd_id sd"]) (simp add: push_survivor_def, auto)
  qed
  then show ?thesis
    unfolding placeBronzePodium_def Let_def by (auto simp: fought_in_def split: list.split option.split)
qed

lemma has_cutoff:
  "has (placePreCutoffWinners collate ss ly r) x \<longleftrightarrow>
    has r x \<or> (\<exists>s \<in> set ss. 1 \<le> rs_round s \<and> rs_round s < ly_entryRound ly \<and> (\<exists>w l. winnerLoser s = Some (w, l) \<and> sd_id l = x))"
  by (auto simp: placePreCutoffWinners_def has_losers)

lemma double_lists:
  assumes "orderDoubleElim collate ss sh (new_ranking pes) = Some r"
  shows "has r x \<longleftrightarrow> fought_in (decidingSlot ss (readLayout sh)) x \<or>
    ly_isBronze (readLayout sh) \<and>
      (let lastRound = filter (\<lambda>s. rs_round s = ly_lastLbRound (readLayout sh)) ss in
       if ly_bronzeMatch (readLayout sh) then lastRound \<noteq> [] \<and> fought_in (Some (hd lastRound)) x
       else (\<exists>s \<in> set lastRound. \<exists>w l. winnerLoser s = Some (w, l) \<and> sd_id w = x)) \<or>
    (\<exists>s \<in> set ss. lost_in s x \<and>
       (ly_wbRounds (readLayout sh) < rs_round s \<and> rs_round s \<le> ly_lastLbRound (readLayout sh) \<or>
        1 \<le> rs_round s \<and> rs_round s < ly_entryRound (readLayout sh) \<or> rs_round s = 0))"
proof (rule double_result [OF assms])
  let ?ly = "readLayout sh"
  fix f wl r1
  assume f: "decidingSlot ss ?ly = Some f" "winnerLoser f = Some wl" and r1: "r1 = place_pair Champion RunnerUp wl (new_ranking pes)"
    and r: "r = placePlayIn collate ss (placePreCutoffWinners collate ss ?ly (placeLosersBracket collate ss ?ly (placeBronzePodium collate ss ?ly r1)))"
  have title: "has r1 x \<longleftrightarrow> fought_in (decidingSlot ss ?ly) x" by (auto simp: r1 fought_in_def f)
  have losers: "has (placeLosersBracket collate ss ?ly r) x \<longleftrightarrow> has r x \<or> (\<exists>s \<in> set ss. ly_wbRounds ?ly < rs_round s \<and>
      rs_round s \<le> ly_lastLbRound ?ly \<and> (\<exists>w l. winnerLoser s = Some (w, l) \<and> sd_id l = x))" for r
    by (auto simp: placeLosersBracket_def has_losers)
  show ?thesis unfolding r has_play_in has_cutoff losers has_podium title lost_in_def by blast
qed

text \<open>The champion is the winner of the slot that decides.\<close>

definition extends :: "ranking \<Rightarrow> ranking \<Rightarrow> bool" where
  "extends r r' \<longleftrightarrow> (\<exists>es. grown r r' es)"

lemma extends_refl [intro]: "extends r r"
  unfolding extends_def using grown_refl by blast

lemma extends_trans: "extends r r' \<Longrightarrow> extends r' r'' \<Longrightarrow> extends r r''"
  unfolding extends_def using grown_trans by blast

lemma extends_push [intro]: "extends r (push sd k rnd sec r)"
  unfolding extends_def using push_grown by blast

lemma extends_fold: "(\<And>x r. extends r (f x r)) \<Longrightarrow> extends r (fold f xs r)"
proof (induction xs arbitrary: r)
  case (Cons x xs)
  then show ?case using extends_trans [of r "f x r"] by simp
qed auto

lemma extends_place_pair [intro]: "extends r (place_pair k k' wl r)"
  unfolding place_pair_def by (rule extends_trans) (rule extends_push)+

lemma extends_pushRounds [intro]: "extends r (pushRounds collate num sec p groups r)"
  unfolding pushRounds_def pushRound_def push_loser_def by (intro extends_fold extends_push)

lemma extends_podium [intro]: "extends r (placeBronzePodium collate ss ly r)"
  unfolding placeBronzePodium_def Let_def push_survivor_def
  by (auto split: list.split option.split intro!: extends_fold)

lemma champion_first:
  assumes "extends (place_pair Champion RunnerUp wl (new_ranking pes)) r"
  shows "\<exists>e rest. rk_entries r = e # rest \<and> fe_id e = sd_id (fst wl)"
  using assms by (auto simp: extends_def grown_def place_pair_def push_def new_ranking_def has_def)

lemma single_champion:
  assumes "orderSingleElim collate ss b (new_ranking pes) = Some r"
  shows "\<exists>f wl e rest. finalSlotOf ss (mainSlotsOf ss b) = Some f \<and> winnerLoser f = Some wl \<and>
    rk_entries r = e # rest \<and> fe_id e = sd_id (fst wl)"
proof (rule single_result [OF assms])
  fix f wl r1 r2
  assume f: "finalSlotOf ss (mainSlotsOf ss b) = Some f" "winnerLoser f = Some wl"
    and r1: "r1 = place_pair Champion RunnerUp wl (new_ranking pes)"
    and r2: "r2 = (case Option.bind (bronzeSlotOf ss b) winnerLoser of None \<Rightarrow> r1 | Some wl \<Rightarrow> place_pair Third Fourth wl r1)"
    and r: "r = pushRounds collate (\<lambda>n. n) None False (losersByRound (filter (\<lambda>s. rs_round s \<noteq> maxRoundOf ss) (mainSlotsOf ss b)) r2) r2"
  have "extends r1 r2" unfolding r2 by (auto split: option.split)
  moreover have "extends r2 r" unfolding r by (rule extends_pushRounds)
  ultimately have "extends r1 r" by (rule extends_trans)
  then show ?thesis using f champion_first unfolding r1 by blast
qed

lemma double_champion:
  assumes "orderDoubleElim collate ss sh (new_ranking pes) = Some r"
  shows "\<exists>f wl e rest. decidingSlot ss (readLayout sh) = Some f \<and> winnerLoser f = Some wl \<and>
    rk_entries r = e # rest \<and> fe_id e = sd_id (fst wl)"
proof (rule double_result [OF assms])
  let ?ly = "readLayout sh"
  fix f wl r1
  assume f: "decidingSlot ss ?ly = Some f" "winnerLoser f = Some wl" and r1: "r1 = place_pair Champion RunnerUp wl (new_ranking pes)"
    and r: "r = placePlayIn collate ss (placePreCutoffWinners collate ss ?ly (placeLosersBracket collate ss ?ly (placeBronzePodium collate ss ?ly r1)))"
  have cutoff: "extends r (placePreCutoffWinners collate ss ?ly r)" for r
    unfolding placePreCutoffWinners_def by auto
  have "extends r1 (placeLosersBracket collate ss ?ly (placeBronzePodium collate ss ?ly r1))"
    unfolding placeLosersBracket_def by (rule extends_trans [OF extends_podium extends_pushRounds])
  moreover have "extends r (placePlayIn collate ss r)" for r
    unfolding placePlayIn_def by (intro extends_fold extends_push)
  ultimately have "extends r1 r" unfolding r by (meson cutoff extends_trans)
  then show ?thesis using f champion_first unfolding r1 by blast
qed

subsection \<open>A small bracket\<close>

text \<open>Four fighters: the semi-finals and the final; nobody fought for the third place, and one more fought in the pools only.\<close>

definition fought_slot :: "string \<Rightarrow> nat \<Rightarrow> nat \<Rightarrow> string \<Rightarrow> string \<Rightarrow> ranking_slot" where
  "fought_slot sid r p winner loser =
     \<lparr>rs_id = sid, rs_round = r, rs_position = p, rs_status = ''completed'', rs_red = Some winner, rs_blue = Some loser,
      rs_redName = Some winner, rs_blueName = Some loser, rs_redClub = None, rs_blueClub = None,
      rs_redScore = None, rs_blueScore = None, rs_winner = Some winner\<rparr>"

definition four_slots :: "ranking_slot list" where
  "four_slots = [fought_slot ''s1'' 1 1 ''a'' ''d'', fought_slot ''s2'' 1 2 ''b'' ''c'', fought_slot ''f'' 2 1 ''a'' ''b'']"

definition five_entries :: "pool_entry list" where
  "five_entries = map (\<lambda>(x, sc). \<lparr>sd_id = x, sd_name = x, sd_club = None, pe_poolScore = sc\<rparr>)
     [(''a'', Some 9), (''b'', Some 8), (''c'', Some 5), (''d'', Some 7), (''e'', None)]"

lemma bracket_of_four:
  "map (\<lambda>e. (fe_id e, fe_kind e)) (computeFinalRanking byCodepoint four_slots five_entries None None) =
   [(''a'', Champion), (''b'', RunnerUp), (''d'', RoundKind), (''c'', RoundKind), (''e'', PoolKind)]"
  by code_simp


end
