(* ===== verification/Bracket_Result.thy ===== *)
theory Bracket_Result
  imports Bracket_Edit Final_Ranking
begin

section \<open>From the bouts to the podium\<close>

text \<open>
  What becomes of a bracket once it has been fought: the slots as \<open>getTournamentBracket\<close>
  (\<open>phases.service.ts\<close>) returns them and \<open>tournament-placement.service.ts\<close> hands them to
  the final ranking, and the placements of a tournament. Names, clubs and scores stand in
  tables the bracket does not keep: they are the parameter \<open>people\<close>.
\<close>

record people =
  fighter_name :: "string \<Rightarrow> string option"
  club_name :: "string \<Rightarrow> string option"
  red_score :: "string \<Rightarrow> int option"
  blue_score :: "string \<Rightarrow> int option"

definition status_text :: "match_status \<Rightarrow> string" where
  "status_text st =
     (case st of Scheduled \<Rightarrow> ''scheduled'' | MRunning \<Rightarrow> ''running'' | MPaused \<Rightarrow> ''paused''
      | MCompleted \<Rightarrow> ''completed'' | MVoided \<Rightarrow> ''voided'')"

text \<open>The map from slots to bouts; of two bouts of a slot the later one stays.\<close>

definition matchBySlot :: "bout_row list \<Rightarrow> string \<Rightarrow> bout_row option" where
  "matchBySlot bs sid = map_of (rev (map (\<lambda>m. (bout_slot m, m)) bs)) (Some sid)"

definition registered_as :: "(string \<Rightarrow> string option) \<Rightarrow> string option \<Rightarrow> string option" where
  "registered_as f x = (if truthy x then f (the x) else None)"

definition enriched_slot :: "people \<Rightarrow> bout_row list \<Rightarrow> slot_row \<Rightarrow> ranking_slot" where
  "enriched_slot ppl bs s =
     (let m = matchBySlot bs (row_id s) in
      \<lparr>rs_id = row_id s, rs_round = row_round s, rs_position = row_position s,
       rs_status = (case m of None \<Rightarrow> ''scheduled'' | Some m \<Rightarrow> status_text (bout_status m)),
       rs_red = reg_a s, rs_blue = reg_b s,
       rs_redName = registered_as (fighter_name ppl) (reg_a s), rs_blueName = registered_as (fighter_name ppl) (reg_b s),
       rs_redClub = registered_as (club_name ppl) (reg_a s), rs_blueClub = registered_as (club_name ppl) (reg_b s),
       rs_redScore = Option.bind m (\<lambda>m. red_score ppl (bout_id m)),
       rs_blueScore = Option.bind m (\<lambda>m. blue_score ppl (bout_id m)),
       rs_winner = Option.bind m bout_winner\<rparr>)"

definition bracket_view :: "people \<Rightarrow> bracket_db \<Rightarrow> ranking_slot list" where
  "bracket_view ppl db =
     map (enriched_slot ppl (ph_bouts db)) (sort_by (\<lambda>a b. int (row_round a) - int (row_round b)) (ph_slots db))"

definition bracket_payload_of :: "bracket_db \<Rightarrow> bracket_payload" where
  "bracket_payload_of db =
     \<lparr>bp_phaseType = Some (ph_type db), bp_wbRounds = cfg_wbRounds (ph_config db), bp_lbRounds = cfg_lbRounds (ph_config db),
      bp_target = Some (case or_else (cfg_secondChanceTarget (ph_config db)) Gold of Gold \<Rightarrow> ''gold'' | Bronze \<Rightarrow> ''bronze''),
      bp_bronzeMatch = Some (or_else (cfg_bronzeMatch (ph_config db)) False),
      bp_entryRound = Some (or_else (cfg_repechageEntryRound (ph_config db)) 1)\<rparr>"

subsection \<open>Placements\<close>

text \<open>A row of the pool standings; a score or a rank that is not finite is \<open>None\<close>.\<close>

record placement_row =
  pr_registrationId :: string
  pr_displayName :: string
  pr_club :: "string option"
  pr_score :: "rat option"
  pr_rank :: "int option"

record placement =
  pl_registrationId :: string
  pl_place :: int
  pl_kind :: result_kind
  pl_totalRanked :: nat

definition pool_entry_of :: "placement_row \<Rightarrow> pool_entry" where
  "pool_entry_of r =
     \<lparr>sd_id = pr_registrationId r, sd_name = pr_displayName r, sd_club = pr_club r, pe_poolScore = pr_score r\<rparr>"

definition placements_of :: "final_entry list \<Rightarrow> placement list" where
  "placements_of es =
     map (\<lambda>e. \<lparr>pl_registrationId = fe_id e, pl_place = int (fe_place e), pl_kind = fe_kind e, pl_totalRanked = length es\<rparr>) es"

record swiss_phase =
  sw_finalized :: bool
  sw_roundCount :: nat
  sw_roundsCompleted :: nat
  sw_rows :: "placement_row list"

definition swissPlacements :: "(string \<Rightarrow> string \<Rightarrow> rat) \<Rightarrow> swiss_phase option \<Rightarrow> placement list option" where
  "swissPlacements collate phase =
     (case phase of
        None \<Rightarrow> None
      | Some s \<Rightarrow>
          if \<not> (sw_finalized s \<or> sw_roundCount s > 0 \<and> sw_roundsCompleted s \<ge> sw_roundCount s) \<or> sw_rows s = [] then None
          else (let entries = map (\<lambda>r. (pool_entry_of r)\<lparr>pe_poolScore := None\<rparr>) (sw_rows s);
                    shape = \<lparr>sh_type = SwissShape, sh_wbRounds = None, sh_lbRounds = None, sh_target = Gold,
                      sh_bronzeMatch = None, sh_entryRound = None\<rparr>;
                    ranking = computeFinalRanking collate [] entries None (Some shape)
                in if ranking = [] then None else Some (placements_of ranking)))"

text \<open>
  \<open>None\<close> is a tournament that is not decided. The bracket is \<open>None\<close> where there is none;
  \<open>fullyPlayed\<close> says that no bout is left to be fought.
\<close>

definition getTournamentPlacements ::
    "(string \<Rightarrow> string \<Rightarrow> rat) \<Rightarrow> people \<Rightarrow> placement_row list \<Rightarrow> bracket_db option \<Rightarrow> swiss_phase option \<Rightarrow> bool
     \<Rightarrow> placement list option" where
  "getTournamentPlacements collate ppl rows bracket swiss fullyPlayed =
     (let entries = map pool_entry_of rows;
          ranking = (case bracket of
              None \<Rightarrow> []
            | Some db \<Rightarrow>
                if ph_slots db = [] then []
                else computeFinalRanking collate (bracket_view ppl db) entries None
                       (Some (rankingBracketShape (bracket_payload_of db))))
      in if ranking \<noteq> [] then Some (placements_of ranking)
         else if (\<exists>db. bracket = Some db \<and> ph_slots db \<noteq> []) then None
         else case swissPlacements collate swiss of
           Some ps \<Rightarrow> Some ps
         | None \<Rightarrow>
             if \<not> fullyPlayed then None
             else (let ranked = sort_by (\<lambda>a b. the (pr_rank a) - the (pr_rank b)) (filter (\<lambda>r. pr_rank r \<noteq> None) rows)
                   in if ranked = [] then None
                      else Some (map (\<lambda>r. \<lparr>pl_registrationId = pr_registrationId r, pl_place = the (pr_rank r),
                                           pl_kind = PoolKind, pl_totalRanked = length ranked\<rparr>) ranked)))"

subsection \<open>Who won a slot\<close>

text \<open>Every fighter of the bracket has an id and a name.\<close>

definition known :: "people \<Rightarrow> bracket_db \<Rightarrow> bool" where
  "known ppl db \<longleftrightarrow> (\<forall>s \<in> set (ph_slots db). \<forall>h x. side_reg s h = Some x \<longrightarrow> x \<noteq> [] \<and> truthy (fighter_name ppl x))"

definition stands :: "bracket_db \<Rightarrow> string \<Rightarrow> slot_row \<Rightarrow> bool" where
  "stands db x s \<longleftrightarrow> s \<in> set (ph_slots db) \<and> (reg_a s = Some x \<or> reg_b s = Some x)"

lemma stands_side: "stands db x s \<longleftrightarrow> s \<in> set (ph_slots db) \<and> (\<exists>h. side_reg s h = Some x)"
  by (auto simp: stands_def side_reg_def split: if_splits)

lemma slot_bout:
  assumes "distinct (map bout_slot bs)"
  shows "matchBySlot bs (row_id s) = boutOf bs s"
proof -
  have "map_of (map (\<lambda>m. (bout_slot m, m)) bs) k = find (\<lambda>m. bout_slot m = k) bs" for k by (induction bs) auto
  moreover have "map_of (rev (map (\<lambda>m. (bout_slot m, m)) bs)) = map_of (map (\<lambda>m. (bout_slot m, m)) bs)"
    using assms by (intro map_of_inject_set [THEN iffD2]) (simp_all add: comp_def rev_map [symmetric])
  ultimately show ?thesis by (simp add: matchBySlot_def boutOf_def)
qed

lemma enriched_fields [simp]:
  "rs_id (enriched_slot ppl bs s) = row_id s" "rs_round (enriched_slot ppl bs s) = row_round s"
  "rs_position (enriched_slot ppl bs s) = row_position s" "rs_red (enriched_slot ppl bs s) = reg_a s"
  "rs_blue (enriched_slot ppl bs s) = reg_b s"
  by (simp_all add: enriched_slot_def Let_def)

lemma set_bracket_view: "set (bracket_view ppl db) = enriched_slot ppl (ph_bouts db) ` set (ph_slots db)"
  by (simp add: bracket_view_def)

lemma status_completed: "status_text st = ''completed'' \<longleftrightarrow> st = MCompleted"
  by (cases st) (simp_all add: status_text_def)

text \<open>A decided slot has a winner and a loser, its two fighters.\<close>

lemma decided_slot:
  assumes ok: "bouts_ok (ph_slots db) {} (ph_bouts db)" and ids: "distinct (map row_id (ph_slots db))" and kn: "known ppl db"
    and s: "s \<in> set (ph_slots db)" and w: "winnerOf (ph_bouts db) s = Some w"
  obtains W L where "winnerLoser (enriched_slot ppl (ph_bouts db) s) = Some (W, L)" and "sd_id W = w"
    and "resolveLoser w (reg_a s) (reg_b s) = Some (sd_id L)" and "{reg_a s, reg_b s} = {Some w, Some (sd_id L)}"
proof -
  obtain m where m: "boutOf (ph_bouts db) s = Some m" "bout_winner m = Some w"
    using w by (auto simp: winnerOf_def split: option.splits)
  have "bout_sane s m" using bouts_okD [OF ok ids s m(1)] m(2) by auto
  then have sane: "bout_status m = MCompleted" "reg_a s \<noteq> None" "reg_b s \<noteq> None" "Some w \<in> {reg_a s, reg_b s}"
    using m(2) by (auto simp: bout_sane_def unfought_def)
  obtain x y where xy: "reg_a s = Some x" "reg_b s = Some y" using sane(2,3) by blast
  have names: "truthy (Some x)" "truthy (Some y)" "truthy (fighter_name ppl x)" "truthy (fighter_name ppl y)"
    using kn s xy unfolding known_def side_reg_def by (simp_all add: truthy_def) metis+
  have match: "matchBySlot (ph_bouts db) (row_id s) = Some m"
    using slot_bout [of "ph_bouts db" s] ok m(1) by (simp add: bouts_ok_def)
  have "\<exists>W L. winnerLoser (enriched_slot ppl (ph_bouts db) s) = Some (W, L) \<and> sd_id W = w \<and>
      resolveLoser w (reg_a s) (reg_b s) = Some (sd_id L) \<and> {reg_a s, reg_b s} = {Some w, Some (sd_id L)}"
    using names sane(1,4) xy m(2)
    by (auto simp: winnerLoser_def enriched_slot_def match Let_def status_completed registered_as_def resolveLoser_def)
  then show ?thesis using that by blast
qed

lemma decided_lost:
  assumes "bouts_ok (ph_slots db) {} (ph_bouts db)" and "distinct (map row_id (ph_slots db))" and "known ppl db"
    and "stands db x s" and "winnerOf (ph_bouts db) s = Some w" and "x \<noteq> w"
  shows "lost_in (enriched_slot ppl (ph_bouts db) s) x"
proof -
  have s: "s \<in> set (ph_slots db)" "Some x \<in> {reg_a s, reg_b s}" using assms(4) by (auto simp: stands_def)
  obtain W L where "winnerLoser (enriched_slot ppl (ph_bouts db) s) = Some (W, L)" "{reg_a s, reg_b s} = {Some w, Some (sd_id L)}"
    by (rule decided_slot [OF assms(1-3) s(1) assms(5)])
  then show ?thesis using s(2) assms(6) by (auto simp: lost_in_def)
qed

lemma decided_fought:
  assumes "bouts_ok (ph_slots db) {} (ph_bouts db)" and "distinct (map row_id (ph_slots db))" and "known ppl db"
    and "stands db x s" and "winnerOf (ph_bouts db) s \<noteq> None"
  shows "fought_in (Some (enriched_slot ppl (ph_bouts db) s)) x"
proof -
  have s: "s \<in> set (ph_slots db)" "Some x \<in> {reg_a s, reg_b s}" using assms(4) by (auto simp: stands_def)
  obtain w where w: "winnerOf (ph_bouts db) s = Some w" using assms(5) by auto
  obtain W L where "winnerLoser (enriched_slot ppl (ph_bouts db) s) = Some (W, L)" "sd_id W = w" "{reg_a s, reg_b s} = {Some w, Some (sd_id L)}"
    by (rule decided_slot [OF assms(1-3) s(1) w])
  then show ?thesis using s(2) by (auto simp: fought_in_def)
qed

subsection \<open>Who stands in the bracket\<close>

lemma winner_stands:
  assumes "bouts_ok (ph_slots db) {} (ph_bouts db)" and "distinct (map row_id (ph_slots db))" and "s \<in> set (ph_slots db)"
    and "winnerOf (ph_bouts db) s = Some w"
  shows "stands db w s"
proof -
  obtain m where m: "boutOf (ph_bouts db) s = Some m" "bout_winner m = Some w"
    using assms(4) by (auto simp: winnerOf_def split: option.splits)
  have "bout_sane s m" using bouts_okD [OF assms(1-3) m(1)] by auto
  then show ?thesis using m(2) assms(3) by (auto simp: bout_sane_def unfought_def stands_def)
qed

text \<open>Everybody in the bracket was drawn into it.\<close>

lemma stands_drawn:
  assumes inv: "bracket_inv ty cfg rows seeded db" and wf: "well_fed ty cfg rows" and "stands db x s"
  shows "\<exists>t \<in> set (ph_slots db). \<exists>h. is_seed_ref (side_ref t h) \<and> seeded (side_ref t h) = Some x"
  using assms(3)
proof (induction "row_round s" arbitrary: s rule: less_induct)
  case less
  note facts = bracket_invD [OF inv wf]
  obtain h where s: "s \<in> set (ph_slots db)" "side_reg s h = Some x" using less.prems by (auto simp: stands_side)
  show ?case
  proof (rule well_fed_ref [OF facts(7) s(1), of h])
    assume "is_seed_ref (side_ref s h)"
    then show ?thesis using facts(5) s by (auto simp: sides_fed_def)
  next
    fix t assume t: "t \<in> set (ph_slots db)" "row_round t < row_round s" "side_ref s h = winnerRef (self_of (ph_type db) (ph_config db) t)"
    then have "fed_value db t True = Some x" using facts(5) s by (auto simp: sides_fed_def selfRef_def self_of_def)
    then have "winnerOf (ph_bouts db) t = Some x" by (auto simp: fed_value_def split: option.splits if_splits)
    then have "stands db x t" by (rule winner_stands [OF facts(4,8) t(1)])
    then show ?thesis using less.hyps t by blast
  next
    fix t assume t: "t \<in> set (ph_slots db)" "row_round t < row_round s" "side_ref s h = loserRef (self_of (ph_type db) (ph_config db) t)"
    then have "fed_value db t False = Some x" using facts(5) s by (auto simp: sides_fed_def selfRef_def self_of_def)
    then have "stands db x t" using t(1) by (auto simp: fed_value_def resolveLoser_def stands_def split: option.splits if_splits)
    then show ?thesis using less.hyps t by blast
  qed
qed

text \<open>Who has won stands in the slot its winner is handed to, and who has lost in the slot of its loser.\<close>

lemma handed_on:
  assumes inv: "bracket_inv ty cfg rows seeded db" and wf: "well_fed ty cfg rows"
    and s: "s \<in> set (ph_slots db)" "winnerOf (ph_bouts db) s = Some w" "\<not> ended db s" and t: "t \<in> set (ph_slots db)"
  shows "side_ref t h = winnerRef (selfRef db s) \<Longrightarrow> stands db w t \<and> row_round s < row_round t"
    and "side_ref t h = loserRef (selfRef db s) \<Longrightarrow> stands db x s \<Longrightarrow> x \<noteq> w \<Longrightarrow> stands db x t \<and> row_round s < row_round t"
proof -
  note facts = bracket_invD [OF inv wf]
  have same: "u = s" if "u \<in> set (ph_slots db)" "self_of (ph_type db) (ph_config db) u = selfRef db s" for u
    using well_fed_self [OF facts(7) that(1) s(1)] that(2) by (simp add: self_of_def selfRef_def)
  have later: "row_round s < row_round t" if "side_ref t h = winnerRef (selfRef db s) \<or> side_ref t h = loserRef (selfRef db s)"
    by (rule well_fed_ref [OF facts(7) t, of h]) (use that same in \<open>auto simp: refs_apart\<close>)
  show "stands db w t \<and> row_round s < row_round t" if "side_ref t h = winnerRef (selfRef db s)"
  proof -
    have "side_reg t h = fed_value db s True" using facts(5) s(1) t that by (auto simp: sides_fed_def)
    then have "side_reg t h = Some w" using s(2,3) by (simp add: fed_value_def)
    then show ?thesis using t later that by (auto simp: stands_side)
  qed
  show "stands db x t \<and> row_round s < row_round t" if "side_ref t h = loserRef (selfRef db s)" "stands db x s" "x \<noteq> w"
  proof -
    have "stands db w s" by (rule winner_stands [OF facts(4,8) s(1,2)])
    then have "resolveLoser w (reg_a s) (reg_b s) = Some x" using that(2,3) by (auto simp: stands_def resolveLoser_def)
    moreover have "side_reg t h = fed_value db s False" using facts(5) s(1) t that(1) by (auto simp: sides_fed_def)
    ultimately have "side_reg t h = Some x" using s(2,3) by (simp add: fed_value_def)
    then show ?thesis using t later that(1) by (auto simp: stands_side)
  qed
qed

lemma last_stand:
  assumes "stands db x s0" and "P s0" and "\<And>s. s \<in> set (ph_slots db) \<Longrightarrow> row_round s \<le> k"
  obtains s where "stands db x s" and "P s" and "\<And>t. stands db x t \<Longrightarrow> P t \<Longrightarrow> row_round t \<le> row_round s"
proof -
  have "\<exists>s. (stands db x s \<and> P s) \<and> (\<forall>t. stands db x t \<and> P t \<longrightarrow> row_round t \<le> row_round s)"
    by (rule ex_has_greatest_nat [where b = "Suc k" and k = s0]) (use assms in \<open>auto simp: stands_def less_Suc_eq_le\<close>)
  then show ?thesis using that by blast
qed

subsection \<open>The ranking of a single elimination\<close>

lemma fold_max_round_up: "m \<le> fold (\<lambda>s m. max m (rs_round s)) ss m"
proof (induction ss arbitrary: m)
  case (Cons s ss)
  show ?case using order_trans [OF max.cobounded1 Cons.IH] by simp
qed simp

lemma fold_max_round:
  "s \<in> set ss \<Longrightarrow> rs_round s \<le> fold (\<lambda>s m. max m (rs_round s)) ss m"
  "m \<le> k \<Longrightarrow> (\<And>s. s \<in> set ss \<Longrightarrow> rs_round s \<le> k) \<Longrightarrow> fold (\<lambda>s m. max m (rs_round s)) ss m \<le> k"
proof -
  show "s \<in> set ss \<Longrightarrow> rs_round s \<le> fold (\<lambda>s m. max m (rs_round s)) ss m"
  proof (induction ss arbitrary: m)
    case (Cons t ss)
    have "rs_round t \<le> fold (\<lambda>s m. max m (rs_round s)) ss (max m (rs_round t))"
      by (rule order_trans [OF max.cobounded2 fold_max_round_up])
    then show ?case using Cons by auto
  qed simp
  show "m \<le> k \<Longrightarrow> (\<And>s. s \<in> set ss \<Longrightarrow> rs_round s \<le> k) \<Longrightarrow> fold (\<lambda>s m. max m (rs_round s)) ss m \<le> k"
    by (induction ss arbitrary: m) simp_all
qed

lemma max_round:
  assumes "\<And>s. s \<in> set ss \<Longrightarrow> rs_round s \<le> k" and "f \<in> set ss" and "rs_round f = k"
  shows "maxRoundOf ss = k"
  using fold_max_round(1) [OF assms(2), of 0] fold_max_round(2) [of 0 k ss] assms(1,3) by (auto simp: maxRoundOf_def intro: antisym)

lemma find_only: "x \<in> set xs \<Longrightarrow> P x \<Longrightarrow> (\<And>y. y \<in> set xs \<Longrightarrow> P y \<Longrightarrow> y = x) \<Longrightarrow> find P xs = Some x"
  by (metis find_None_iff find_Some_iff nth_mem not_None_eq)

definition main_row :: "nat \<Rightarrow> slot_row \<Rightarrow> bool" where
  "main_row k s \<longleftrightarrow> \<not> (row_round s = k \<and> row_position s = 2)"

text \<open>The final and the main slots, found in the view of the bracket.\<close>

lemma single_view:
  assumes ids: "distinct (map row_id (ph_slots db))" and rounds: "\<And>s. s \<in> set (ph_slots db) \<Longrightarrow> row_round s \<le> k"
    and places: "distinct (map (\<lambda>s. (row_round s, row_position s)) (ph_slots db))"
    and f: "f \<in> set (ph_slots db)" "row_round f = k" "row_position f = 1" and view: "ss = bracket_view ppl db"
  shows "maxRoundOf ss = k" and "set (mainSlotsOf ss None) = enriched_slot ppl (ph_bouts db) ` {s \<in> set (ph_slots db). main_row k s}"
    and "finalSlotOf ss (mainSlotsOf ss None) = Some (enriched_slot ppl (ph_bouts db) f)"
proof -
  let ?e = "enriched_slot ppl (ph_bouts db)"
  have ss: "set ss = ?e ` set (ph_slots db)" by (simp add: view set_bracket_view)
  show max: "maxRoundOf ss = k" by (rule max_round [of _ _ "?e f"]) (use ss rounds f in auto)
  have place: "s = t" if "s \<in> set (ph_slots db)" "t \<in> set (ph_slots db)" "row_round s = row_round t" "row_position s = row_position t" for s t
    using places that by (simp add: distinct_map inj_on_def)
  show main: "set (mainSlotsOf ss None) = ?e ` {s \<in> set (ph_slots db). main_row k s}"
  proof (cases "\<exists>b \<in> set (ph_slots db). row_round b = k \<and> row_position b = 2")
    case True
    then obtain b where b: "b \<in> set (ph_slots db)" "row_round b = k" "row_position b = 2" by blast
    have "find (\<lambda>s. rs_round s = k \<and> rs_position s = 2) ss = Some (?e b)"
      by (rule find_only) (use ss b in simp, use b in simp, use ss b place in force)
    then have "mainSlotsOf ss None = filter (\<lambda>s. rs_id s \<noteq> row_id b) ss"
      by (simp add: mainSlotsOf_def bronzeSlotOf_def truthy_def max)
    moreover have "main_row k s \<longleftrightarrow> row_id s \<noteq> row_id b" if "s \<in> set (ph_slots db)" for s
      using same_row [OF ids that b(1)] place [OF that b(1)] b(2,3) by (auto simp: main_row_def)
    ultimately show ?thesis using ss by auto
  next
    case False
    then have "find (\<lambda>s. rs_round s = k \<and> rs_position s = 2) ss = None" using ss by (auto simp: find_None_iff)
    then have "mainSlotsOf ss None = ss" by (simp add: mainSlotsOf_def bronzeSlotOf_def truthy_def max)
    then show ?thesis using ss False by (auto simp: main_row_def)
  qed
  have "find (\<lambda>s. rs_round s = k \<and> rs_position s = 1) (mainSlotsOf ss None) = Some (?e f)"
    by (rule find_only) (use main f in \<open>simp add: main_row_def\<close>, use f in simp, use main f place in force)
  then show "finalSlotOf ss (mainSlotsOf ss None) = Some (?e f)" by (simp add: finalSlotOf_def max)
qed

lemma single_decided:
  assumes ok: "bouts_ok (ph_slots db) {} (ph_bouts db)" and ids: "distinct (map row_id (ph_slots db))" and kn: "known ppl db"
    and f: "f \<in> set (ph_slots db)" "winnerOf (ph_bouts db) f = Some c"
    and final: "finalSlotOf ss (mainSlotsOf ss None) = Some (enriched_slot ppl (ph_bouts db) f)"
  obtains r e rest where "orderSingleElim collate ss None (new_ranking pes) = Some r" and "rk_entries r = e # rest" and "fe_id e = c"
proof -
  obtain W L where wl: "winnerLoser (enriched_slot ppl (ph_bouts db) f) = Some (W, L)" "sd_id W = c"
    by (rule decided_slot [OF ok ids kn f])
  then obtain r where r: "orderSingleElim collate ss None (new_ranking pes) = Some r"
    by (simp add: orderSingleElim_def Let_def final)
  then show ?thesis using single_champion [OF r] wl that final by auto
qed

text \<open>
  The rows of a single elimination with \<open>k\<close> rounds and the final \<open>f\<close>: beside the final the last
  round holds at most the match for the third place, and every winner before it goes on to a
  slot that is not that match.
\<close>

definition single_layout :: "bracket_db \<Rightarrow> nat \<Rightarrow> slot_row \<Rightarrow> bool" where
  "single_layout db k f \<longleftrightarrow>
     f \<in> set (ph_slots db) \<and> row_round f = k \<and> row_position f = 1 \<and>
     distinct (map (\<lambda>s. (row_round s, row_position s)) (ph_slots db)) \<and>
     (\<forall>s \<in> set (ph_slots db). row_round s \<le> k \<and> (row_round s = k \<longrightarrow> row_position s \<in> {1, 2}) \<and>
        (row_round s < k \<longrightarrow> (\<exists>t \<in> set (ph_slots db). main_row k t \<and> (\<exists>h. side_ref t h = winnerRef (selfRef db s)))))"

lemma single_layoutD:
  assumes "single_layout db k f"
  shows "f \<in> set (ph_slots db)" "row_round f = k" "row_position f = 1"
    "distinct (map (\<lambda>s. (row_round s, row_position s)) (ph_slots db))"
    "s \<in> set (ph_slots db) \<Longrightarrow> row_round s \<le> k"
    "s \<in> set (ph_slots db) \<Longrightarrow> row_round s = k \<Longrightarrow> row_position s \<in> {1, 2}"
    "s \<in> set (ph_slots db) \<Longrightarrow> row_round s < k \<Longrightarrow> \<exists>t \<in> set (ph_slots db). main_row k t \<and> (\<exists>h. side_ref t h = winnerRef (selfRef db s))"
  using assms unfolding single_layout_def by blast+

lemma single_everybody:
  assumes inv: "bracket_inv ty cfg rows seeded db" and wf: "well_fed ty cfg rows" and kn: "known ppl db"
    and all: "\<And>s. s \<in> set (ph_slots db) \<Longrightarrow> winnerOf (ph_bouts db) s \<noteq> None \<and> \<not> ended db s"
    and lay: "single_layout db k f" and x: "stands db x s0" "main_row k s0"
    and r: "orderSingleElim collate (bracket_view ppl db) None (new_ranking pes) = Some r"
  shows "has r x"
proof (rule last_stand [where P = "main_row k", OF x single_layoutD(5) [OF lay]])
  note facts = bracket_invD [OF inv wf] and ly = single_layoutD [OF lay]
  let ?e = "enriched_slot ppl (ph_bouts db)" and ?ss = "bracket_view ppl db"
  note view = single_view [OF facts(8) ly(5,4,1,2,3) refl, of ppl]
  fix s assume s: "stands db x s" "main_row k s"
    and last: "\<And>t. stands db x t \<Longrightarrow> main_row k t \<Longrightarrow> row_round t \<le> row_round s"
  have slot: "s \<in> set (ph_slots db)" using s(1) by (simp add: stands_def)
  obtain w where w: "winnerOf (ph_bouts db) s = Some w" using all [OF slot] by auto
  show ?thesis
  proof (cases "row_round s = k")
    case True
    then have pos: "row_position s = row_position f" using ly(6) [OF slot] s(2) ly(3) by (auto simp: main_row_def)
    have "s = f" using ly(4) slot ly(1) True pos ly(2) by (simp add: distinct_map inj_on_def)
    then have "fought_in (Some (?e f)) x" using decided_fought [OF facts(4,8) kn s(1)] w by simp
    then show ?thesis using single_lists [OF r] view(3) by simp
  next
    case False
    then have less: "row_round s < k" using ly(5) [OF slot] by simp
    obtain t h where t: "t \<in> set (ph_slots db)" "main_row k t" "side_ref t h = winnerRef (selfRef db s)" using ly(7) [OF slot less] by blast
    have "stands db w t \<and> row_round s < row_round t" using handed_on(1) [OF inv wf slot w _ t(1,3)] all [OF slot] by blast
    then have "x \<noteq> w" using last t(2) by fastforce
    then have "lost_in (?e s) x" by (rule decided_lost [OF facts(4,8) kn s(1) w])
    moreover have "?e s \<in> set (mainSlotsOf ?ss None)" using view(2) slot s(2) by blast
    ultimately show ?thesis using single_lists [OF r] view(1) less by (metis enriched_fields(2) nat_neq_iff)
  qed
qed

text \<open>The slots of the database and those of the generator.\<close>

lemma played_slots:
  assumes "map skeleton (ph_slots db) = map skeleton (slot_rows_of ids ss)"
  shows "s \<in> set (ph_slots db) \<Longrightarrow> \<exists>u \<in> set ss. row_round s = round u \<and> row_position s = position u \<and> a_ref s = homeSource u \<and> b_ref s = awaySource u"
    and "u \<in> set ss \<Longrightarrow> \<exists>s \<in> set (ph_slots db). row_round s = round u \<and> row_position s = position u \<and> a_ref s = homeSource u \<and> b_ref s = awaySource u"
    and "map (\<lambda>s. (row_round s, row_position s)) (ph_slots db) = map place ss"
proof -
  let ?v = "\<lambda>s. (row_round s, row_position s, a_ref s, b_ref s)"
  have "map ?v (map skeleton (ph_slots db)) = map ?v (map skeleton (slot_rows_of ids ss))" by (simp only: assms)
  then have "map ?v (ph_slots db) = map ?v (slot_rows_of ids ss)" by (simp only: map_map comp_def skeleton_simps)
  also have "\<dots> = map (\<lambda>u. (round u, position u, homeSource u, awaySource u)) ss" by (rule rows_map) simp
  finally have eq: "map ?v (ph_slots db) = map (\<lambda>u. (round u, position u, homeSource u, awaySource u)) ss" .
  have sets: "?v ` set (ph_slots db) = (\<lambda>u. (round u, position u, homeSource u, awaySource u)) ` set ss"
    using arg_cong [OF eq, of set] by (simp only: set_map)
  show "s \<in> set (ph_slots db) \<Longrightarrow> \<exists>u \<in> set ss. row_round s = round u \<and> row_position s = position u \<and> a_ref s = homeSource u \<and> b_ref s = awaySource u"
  proof -
    assume "s \<in> set (ph_slots db)"
    then have "?v s \<in> (\<lambda>u. (round u, position u, homeSource u, awaySource u)) ` set ss" unfolding sets [symmetric] by (rule imageI)
    then show ?thesis by auto
  qed
  show "u \<in> set ss \<Longrightarrow> \<exists>s \<in> set (ph_slots db). row_round s = round u \<and> row_position s = position u \<and> a_ref s = homeSource u \<and> b_ref s = awaySource u"
  proof -
    assume "u \<in> set ss"
    then have "(round u, position u, homeSource u, awaySource u) \<in> ?v ` set (ph_slots db)" unfolding sets by (rule imageI)
    then show ?thesis by auto
  qed
  have "map (\<lambda>v. (fst v, fst (snd v))) (map ?v (ph_slots db)) = map (\<lambda>v. (fst v, fst (snd v))) (map (\<lambda>u. (round u, position u, homeSource u, awaySource u)) ss)"
    by (simp only: eq)
  then show "map (\<lambda>s. (row_round s, row_position s)) (ph_slots db) = map place ss"
    by (simp only: map_map comp_def place_def [abs_def] fst_conv snd_conv)
qed

lemma last_round:
  assumes "1 \<le> k"
  shows "\<exists>f. round f = k \<and> position f = 1 \<and>
    filter (\<lambda>s. round s = k) (all_slots l n p b k) = f # (if 2 \<le> k then [bronze_slot k] else [])"
proof (cases "2 \<le> k")
  case True
  then show ?thesis using slots_of_round(3) [OF assms True, of l n p b] by (simp add: later_slot_def)
next
  case False
  then have k: "k = 1" using assms by simp
  have "length (buildSeedingOrder (2 ^ 1)) = 1" using length_seeding_order [of 1] by simp
  then obtain h a where pair: "buildSeedingOrder (2 ^ 1) = [(h, a)]" by (auto simp: length_Suc_conv numeral_eq_Suc)
  then show ?thesis
    using slots_of_round(2) [of 1 l n p b] by (simp add: k pair first_round_slot_def split: prod.split)
qed

lemma single_facts:
  assumes "singleElimBracket n req = Inr b" and "without_byes n req"
  obtains k where "1 \<le> k" and "\<And>u. u \<in> set (slots b) \<Longrightarrow> round u \<le> k"
    and "\<And>u. u \<in> set (slots b) \<Longrightarrow> round u = k \<Longrightarrow> position u = 1 \<or> u = bronze_slot k \<and> 2 \<le> k"
    and "\<exists>f \<in> set (slots b). round f = k \<and> position f = 1" and "distinct (map place (slots b))"
    and "\<And>u. u \<in> set (slots b) \<Longrightarrow> round u < k \<Longrightarrow> \<exists>t \<in> set (slots b). winnerName (round u) (position u) \<in> set (sources_of WinnerOf t)"
proof (rule bracket_laid_out_single [OF assms(1)])
  fix k
  assume k: "1 \<le> k" and slots: "slots b = all_slots (req \<noteq> None) n (playInMatchCount b) (byeSeedCount b) k"
    and fit: "playInMatchCount b = 0 \<or> \<not> req \<noteq> None \<and> playInMatchCount b + byeSeedCount b = 2 ^ k"
  obtain f where f: "round f = k" "position f = 1" "filter (\<lambda>s. round s = k) (slots b) = f # (if 2 \<le> k then [bronze_slot k] else [])"
    using last_round [OF k] unfolding slots by blast
  have top: "u \<in> set (slots b) \<and> round u = k \<longleftrightarrow> u = f \<or> u = bronze_slot k \<and> 2 \<le> k" for u
    using arg_cong [OF f(3), of "\<lambda>xs. u \<in> set xs"] by auto
  show ?thesis
  proof (rule that [OF k])
    show "\<exists>f \<in> set (slots b). round f = k \<and> position f = 1" using f(1,2) top by blast
    show "distinct (map place (slots b))" unfolding slots place_def [abs_def] by (rule distinct_places [OF k])
    show "\<exists>t \<in> set (slots b). winnerName (round u) (position u) \<in> set (sources_of WinnerOf t)" if "u \<in> set (slots b)" "round u < k" for u
    proof -
      have "set (concat (map (sources_of WinnerOf) (slots b))) = (\<lambda>s. winnerName (round s) (position s)) ` {s \<in> set (slots b). round s < k}"
        using single_winners [OF k fit, of n, folded slots] by (metis set_mset_mset set_map set_filter)
      then show ?thesis using that by fastforce
    qed
    show "round u \<le> k" if "u \<in> set (slots b)" for u by (rule single_rounds [OF k that [unfolded slots]])
    show "position u = 1 \<or> u = bronze_slot k \<and> 2 \<le> k" if "u \<in> set (slots b)" "round u = k" for u
      using top [of u] f(2) that by blast
  qed
qed

subsection \<open>The draw\<close>

definition drawn_ids :: "nat \<Rightarrow> ranked_registration list \<Rightarrow> string set" where
  "drawn_ids n rk = rr_registrationId ` {r \<in> set rk. rr_rank r \<le> int n}"

lemma rank_of:
  assumes "full_ranking m rk"
  shows "byRank rk k = Some x \<longleftrightarrow> (\<exists>r \<in> set rk. rr_rank r = k \<and> rr_registrationId r = x)"
proof -
  have "distinct (map rr_rank rk)" using assms by (simp add: full_ranking_def distinct_map inj_on_def)
  then have "distinct (map fst (rev (map (\<lambda>r. (rr_rank r, rr_registrationId r)) rk)))"
    by (simp add: rev_map [symmetric] comp_def)
  then show ?thesis unfolding byRank_def by (subst map_of_eq_Some_iff) auto
qed

lemma seeded_name: "seeded_by rk (seedName e) = byRank rk (int e)"
  unfolding seeded_by_def seedName_def parse_seed_name by simp

context advancing_bracket
begin

lemma entered:
  assumes "generate n opts = Inr b" and "admissible n opts" and "full_ranking m rk" and "x \<in> drawn_ids n rk"
  shows "\<exists>u \<in> set (slots_of b). \<exists>e. seedName e \<in> set (sources_of SeedSource u) \<and> seeded_by rk (seedName e) = Some x"
proof -
  obtain r where r: "r \<in> set rk" "rr_rank r \<le> int n" "rr_registrationId r = x" using assms(4) by (auto simp: drawn_ids_def)
  have "rr_rank r \<in> set (map rr_rank rk)" using r(1) by simp
  also have "map rr_rank rk = map int [1..<m + 1]" using assms(3) by (simp only: full_ranking_def)
  finally obtain e where e: "rr_rank r = int e" "1 \<le> e" by auto
  then have "e \<in> set (concat (map entry_seeds (slots_of b)))" using set_entries [OF assms(1)] r(2) by simp
  then obtain u where u: "u \<in> set (slots_of b)" "e \<in> set (entry_seeds u)" by auto
  have "seedName e \<in> set (sources_of SeedSource u)"
    using sources [OF assms(1,2) u(1)] u(2) by (simp add: sourced_def)
  moreover have "seeded_by rk (seedName e) = Some x"
    unfolding seeded_name using rank_of [OF assms(3)] r e by auto
  ultimately show ?thesis using u(1) by blast
qed

lemma entrant:
  assumes "generate n opts = Inr b" and "admissible n opts" and "full_ranking m rk"
    and u: "u \<in> set (slots_of b)" "r \<in> set (sides u)" and "is_seed_ref r" and "seeded_by rk r = Some x"
  shows "x \<in> drawn_ids n rk"
proof -
  obtain t where t: "r \<in> set (sources_of t u)" using u(2) by (elim side_source)
  have src: "sourced ty (cfg_of b) u" by (rule sources [OF assms(1,2) u(1)])
  then have "t = SeedSource" using t assms(6) by (cases t) (auto simp: sourced_def)
  then obtain e where e: "e \<in> set (entry_seeds u)" "r = seedName e" using t src by (auto simp: sourced_def)
  have "e \<le> n" using entrants_of_slot [OF assms(1) u(1)] e(1) by auto
  moreover have "byRank rk (int e) = Some x" using assms(7) unfolding e(2) seeded_name .
  ultimately show ?thesis using rank_of [OF assms(3)] by (force simp: drawn_ids_def)
qed

end

text \<open>The placements of a ranking that is decided.\<close>

lemma placements_decided:
  assumes slots: "ph_slots db \<noteq> []" and swiss: "ph_type db \<noteq> ''swiss''"
    and r: "decided_ranking collate (bracket_view ppl db) (map pool_entry_of rows) None
      (Some (rankingBracketShape (bracket_payload_of db))) = Some r"
    and first: "rk_entries r = e # rest" "fe_id e = c"
  obtains ps where "getTournamentPlacements collate ppl rows (Some db) sw fp = Some ps"
    and "map pl_place ps = map int [1..<length ps + 1]" and "distinct (map pl_registrationId ps)"
    and "pl_registrationId (hd ps) = c"
    and "set (map pl_registrationId (filter (\<lambda>p. pl_kind p \<noteq> PoolKind) ps)) = {x. has r x}"
proof -
  let ?shape = "Some (rankingBracketShape (bracket_payload_of db))"
  let ?es = "computeFinalRanking collate (bracket_view ppl db) (map pool_entry_of rows) None ?shape"
  have shape: "map_option sh_type ?shape \<noteq> Some SwissShape"
    using swiss by (simp add: rankingBracketShape_def bracket_payload_of_def)
  obtain ys where es: "?es = rk_entries r @ ys" "\<forall>e \<in> set (rk_entries r). fe_kind e \<noteq> PoolKind" "\<forall>y \<in> set ys. fe_kind y = PoolKind"
    using ranking_split [OF shape r] by metis
  have ranked: "map fe_place ?es = [1..<length ?es + 1]" "distinct (map fe_id ?es)"
    by (rule final_ranking_ranked [of collate "bracket_view ppl db" "map pool_entry_of rows" None ?shape], simp add: ranked_def)+
  let ?ps = "placements_of ?es"
  have "?es \<noteq> []" using es(1) first(1) by simp
  then have got: "getTournamentPlacements collate ppl rows (Some db) sw fp = Some ?ps"
    by (simp add: getTournamentPlacements_def Let_def slots)
  have ids: "map pl_registrationId ?ps = map fe_id ?es" and "length ?ps = length ?es" by (simp_all add: placements_of_def)
  moreover have "map pl_place ?ps = map int (map fe_place ?es)" by (simp add: placements_of_def)
  ultimately have places: "map pl_place ?ps = map int [1..<length ?ps + 1]" by (simp only: ranked(1))
  have "filter (\<lambda>e. fe_kind e \<noteq> PoolKind) ?es = rk_entries r" using es(2,3) by (simp add: es(1) filter_empty_conv)
  then have "map pl_registrationId (filter (\<lambda>p. pl_kind p \<noteq> PoolKind) ?ps) = map fe_id (rk_entries r)"
    by (simp add: placements_of_def filter_map comp_def)
  then have "set (map pl_registrationId (filter (\<lambda>p. pl_kind p \<noteq> PoolKind) ?ps)) = {x. has r x}"
    by (simp add: has_def)
  moreover have "pl_registrationId (hd ?ps) = c" using first by (simp add: placements_of_def es(1))
  ultimately show ?thesis using that got places ids ranked(2) by metis
qed

text \<open>Only fighters of the bracket are placed in it.\<close>

lemma placed_stands:
  assumes "decided_ranking collate (bracket_view ppl db) pes None (Some (rankingBracketShape (bracket_payload_of db))) = Some r"
    and "ph_type db \<noteq> ''swiss''" and "has r x"
  shows "\<exists>s. stands db x s"
proof -
  have "map_option sh_type (Some (rankingBracketShape (bracket_payload_of db))) \<noteq> Some SwissShape"
    using assms(2) by (simp add: rankingBracketShape_def bracket_payload_of_def)
  then have "\<forall>e \<in> set (rk_entries r). in_bracket (bracket_view ppl db) (fe_id e)"
    using ranking_split [OF _ assms(1)] by metis
  then have "in_bracket (bracket_view ppl db) x" using assms(3) by (auto simp: has_def)
  then show ?thesis by (auto simp: in_bracket_def list_ex_iff set_bracket_view stands_def)
qed

lemma known_played:
  assumes "bracket_inv ty cfg rows seeded db" and "well_fed ty cfg rows"
    and "\<And>r x. seeded r = Some x \<Longrightarrow> x \<noteq> [] \<and> truthy (fighter_name ppl x)"
  shows "known ppl db"
  unfolding known_def
proof (intro ballI allI impI)
  fix s h x assume s: "s \<in> set (ph_slots db)" and x: "side_reg s h = Some x"
  then have "stands db x s" by (auto simp: stands_side)
  then obtain r where "seeded r = Some x" using stands_drawn [OF assms(1,2)] by blast
  then show "x \<noteq> [] \<and> truthy (fighter_name ppl x)" by (rule assms(3))
qed

text \<open>Every fighter of a ranking has an id and a name.\<close>

definition named_fighters :: "people \<Rightarrow> ranked_registration list \<Rightarrow> bool" where
  "named_fighters ppl rk \<longleftrightarrow> (\<forall>r \<in> set rk. rr_registrationId r \<noteq> [] \<and> truthy (fighter_name ppl (rr_registrationId r)))"

lemma seeded_named:
  assumes "full_ranking m rk" and "named_fighters ppl rk" and "seeded_by rk r = Some x"
  shows "x \<noteq> [] \<and> truthy (fighter_name ppl x)"
proof -
  obtain k where "byRank rk k = Some x" using assms(3) by (auto simp: seeded_by_def split: option.splits)
  then show ?thesis using rank_of [OF assms(1)] assms(2) by (auto simp: named_fighters_def)
qed

lemma single_shape:
  assumes "ph_type db = ''single_elim''"
  shows "decided_ranking collate ss pes None (Some (rankingBracketShape (bracket_payload_of db))) = orderSingleElim collate ss None (new_ranking pes)"
  using assms by (simp add: decided_ranking_def rankingBracketShape_def bracket_payload_of_def)

context advancing_bracket
begin

lemma drawn_stands:
  assumes gen: "generate n opts = Inr b" and adm: "admissible n opts" and rk: "full_ranking m rk" and ids: "inj ids"
    and inv: "bracket_inv ty (cfg_of b) (slot_rows_of ids (slots_of b)) (seeded_by rk) db"
  shows "stands db x s \<Longrightarrow> x \<in> drawn_ids n rk"
    and "x \<in> drawn_ids n rk \<Longrightarrow> \<exists>s u. stands db x s \<and> u \<in> set (slots_of b) \<and> row_round s = round u \<and> row_position s = position u \<and>
      sources_of SeedSource u \<noteq> []"
proof -
  have wf: "well_fed ty (cfg_of b) (slot_rows_of ids (slots_of b))" by (rule fed [OF gen adm ids])
  note facts = bracket_invD [OF inv wf]
  note played = played_slots [OF facts(3)]
  have ref: "side_ref s h \<in> set (sides u)" if "a_ref s = homeSource u" "b_ref s = awaySource u" for s h and u :: "'a bracket_slot_scheme"
    using that by (simp add: side_ref_def sides_def)
  show "x \<in> drawn_ids n rk" if st: "stands db x s"
  proof -
    obtain t h where t: "t \<in> set (ph_slots db)" "is_seed_ref (side_ref t h)" "seeded_by rk (side_ref t h) = Some x"
      using stands_drawn [OF inv wf st] by blast
    obtain u where "u \<in> set (slots_of b)" "a_ref t = homeSource u" "b_ref t = awaySource u" using played(1) [OF t(1)] by blast
    then show ?thesis using entrant [OF gen adm rk _ ref t(2,3)] by blast
  qed
  show "\<exists>s u. stands db x s \<and> u \<in> set (slots_of b) \<and> row_round s = round u \<and> row_position s = position u \<and> sources_of SeedSource u \<noteq> []"
    if dr: "x \<in> drawn_ids n rk"
  proof -
    obtain u e where u: "u \<in> set (slots_of b)" "seedName e \<in> set (sources_of SeedSource u)" "seeded_by rk (seedName e) = Some x"
      using entered [OF gen adm rk dr] by blast
    obtain s where s: "s \<in> set (ph_slots db)" "row_round s = round u" "row_position s = position u" "a_ref s = homeSource u" "b_ref s = awaySource u"
      using played(2) [OF u(1)] by blast
    have "seedName e \<in> {homeSource u, awaySource u}" using u(2) by (auto simp: sources_of_def split: if_splits)
    then obtain h where h: "side_ref s h = seedName e" using s(4,5) by (auto simp: side_ref_def split: if_splits) metis+
    then have "side_reg s h = Some x" using facts(5) s(1) u(3) by (simp add: sides_fed_def)
    then have "stands db x s" using s(1) by (auto simp: stands_side)
    moreover have "sources_of SeedSource u \<noteq> []" using u(2) by auto
    ultimately show ?thesis using u(1) s(2,3) by blast
  qed
qed

end

text \<open>A final ranking as a podium: places without a gap, nobody twice, the fighters of the bracket are \<open>field\<close>, the first is \<open>c\<close>.\<close>

definition podium_of :: "placement list \<Rightarrow> string set \<Rightarrow> string \<Rightarrow> bool" where
  "podium_of ps field c \<longleftrightarrow>
     map pl_place ps = map int [1..<length ps + 1] \<and> distinct (map pl_registrationId ps) \<and>
     set (map pl_registrationId (filter (\<lambda>p. pl_kind p \<noteq> PoolKind) ps)) = field \<and> ps \<noteq> [] \<and> pl_registrationId (hd ps) = c"

lemma podium_found:
  assumes "ph_slots db \<noteq> []" and "ph_type db \<noteq> ''swiss''"
    and "decided_ranking collate (bracket_view ppl db) (map pool_entry_of rows) None
      (Some (rankingBracketShape (bracket_payload_of db))) = Some r"
    and "rk_entries r = e # rest" and "fe_id e = c" and "\<And>x. has r x \<longleftrightarrow> x \<in> field"
  shows "\<exists>ps. getTournamentPlacements collate ppl rows (Some db) sw fp = Some ps \<and> podium_of ps field c"
proof (rule placements_decided [OF assms(1-5), of sw fp])
  fix ps
  assume ps: "getTournamentPlacements collate ppl rows (Some db) sw fp = Some ps" "map pl_place ps = map int [1..<length ps + 1]"
    "distinct (map pl_registrationId ps)" "pl_registrationId (hd ps) = c"
    "set (map pl_registrationId (filter (\<lambda>p. pl_kind p \<noteq> PoolKind) ps)) = {x. has r x}"
  have "fe_id e \<in> {x. has r x}" using assms(4) by (simp add: has_def)
  then have "ps \<noteq> []" using ps(5) by auto
  then show ?thesis using ps assms(6) unfolding podium_of_def by auto
qed

lemma bronze_position: "position (bronze_slot k) = 2"
  by (simp add: bronze_slot_def)

text \<open>A generated single elimination, as its rows.\<close>

lemma single_laid_out:
  assumes b: "singleElimBracket n req = Inr b" and adm: "without_byes n req"
    and rows: "map skeleton (ph_slots db) = map skeleton (slot_rows_of ids (slots b))" and ty: "ph_type db = ''single_elim''"
  obtains k f where "single_layout db k f"
    and "\<forall>s u. u \<in> set (slots b) \<and> row_round s = round u \<and> row_position s = position u \<and> sources_of SeedSource u \<noteq> [] \<longrightarrow> main_row k s"
proof (rule single_facts [OF b adm])
  note played = played_slots [OF rows]
  fix k
  assume rounds: "\<And>u. u \<in> set (slots b) \<Longrightarrow> round u \<le> k"
    and top: "\<And>u. u \<in> set (slots b) \<Longrightarrow> round u = k \<Longrightarrow> position u = 1 \<or> u = bronze_slot k \<and> 2 \<le> k"
    and final: "\<exists>f \<in> set (slots b). round f = k \<and> position f = 1" and places: "distinct (map place (slots b))"
    and onward: "\<And>u. u \<in> set (slots b) \<Longrightarrow> round u < k \<Longrightarrow> \<exists>t \<in> set (slots b). winnerName (round u) (position u) \<in> set (sources_of WinnerOf t)"
  obtain f where f: "f \<in> set (ph_slots db)" "row_round f = k" "row_position f = 1" using final played(2) by metis
  have main: "main_row k s" if "u \<in> set (slots b)" "row_round s = round u" "row_position s = position u" "sources_of t u \<noteq> []" "t \<noteq> LoserOf" for s u t
  proof -
    have "u \<noteq> bronze_slot k" using that(4,5) by (auto simp: sources_of_def bronze_slot_def)
    then show ?thesis using top [OF that(1)] that(2,3) by (auto simp: main_row_def)
  qed
  have "\<exists>t \<in> set (ph_slots db). main_row k t \<and> (\<exists>h. side_ref t h = winnerRef (selfRef db s))"
    if s: "s \<in> set (ph_slots db)" "row_round s < k" for s
  proof -
    obtain u where u: "u \<in> set (slots b)" "row_round s = round u" "row_position s = position u" using played(1) [OF s(1)] by blast
    obtain v where v: "v \<in> set (slots b)" "winnerName (round u) (position u) \<in> set (sources_of WinnerOf v)" using onward [OF u(1)] s(2) u(2) by auto
    obtain t where t: "t \<in> set (ph_slots db)" "row_round t = round v" "row_position t = position v" "a_ref t = homeSource v" "b_ref t = awaySource v"
      using played(2) [OF v(1)] by blast
    have "winnerName (round u) (position u) = winnerRef (selfRef db s)"
      using ty u(2,3) by (simp add: selfRef_def winnerName_def winnerRef_def)
    then have "winnerRef (selfRef db s) \<in> {a_ref t, b_ref t}" using v(2) t(4,5) by (auto simp: sources_of_def split: if_splits)
    then have "\<exists>h. side_ref t h = winnerRef (selfRef db s)" unfolding side_ref_def by (metis insertE singletonD)
    moreover have "sources_of WinnerOf v \<noteq> []" using v(2) by (metis empty_iff list.set(1))
    then have "main_row k t" using main [OF v(1) t(2,3)] by blast
    ultimately show ?thesis using t(1) by blast
  qed
  moreover have "row_round s \<le> k \<and> (row_round s = k \<longrightarrow> row_position s \<in> {1, 2})" if "s \<in> set (ph_slots db)" for s
  proof -
    obtain u where "u \<in> set (slots b)" "row_round s = round u" "row_position s = position u" using played(1) [OF \<open>s \<in> set (ph_slots db)\<close>] by blast
    moreover have "round u = k \<Longrightarrow> u \<in> set (slots b) \<Longrightarrow> position u \<in> {1, 2}"
      using top [of u] by (metis bronze_position insertCI)
    ultimately show ?thesis using rounds [of u] by auto
  qed
  moreover have "distinct (map (\<lambda>s. (row_round s, row_position s)) (ph_slots db))" unfolding played(3) by (rule places)
  ultimately have "single_layout db k f" using f unfolding single_layout_def by blast
  then show ?thesis using that main [of _ _ SeedSource] by blast
qed

text \<open>A decided single elimination.\<close>

lemma single_podium:
  assumes b: "singleElimBracket n req = Inr b" and adm: "without_byes n req" and ids: "inj ids" and rk: "full_ranking m rk"
    and nm: "named_fighters ppl rk"
    and inv: "bracket_inv ''single_elim'' (singleElimConfigJson b) (slot_rows_of ids (slots b)) (seeded_by rk) db"
    and all: "\<And>s. s \<in> set (ph_slots db) \<Longrightarrow> winnerOf (ph_bouts db) s \<noteq> None"
  obtains f ps c where "f \<in> set (ph_slots db)" and "row_position f = 1" and "\<And>s. s \<in> set (ph_slots db) \<Longrightarrow> row_round s \<le> row_round f"
    and "winnerOf (ph_bouts db) f = Some c"
    and "getTournamentPlacements collate ppl rows (Some db) sw fp = Some ps" and "podium_of ps (drawn_ids n rk) c"
proof -
  have wf: "well_fed ''single_elim'' (singleElimConfigJson b) (slot_rows_of ids (slots b))"
    by (rule single_phase.fed [OF b adm ids])
  note facts = bracket_invD [OF inv wf]
  have known: "known ppl db" by (rule known_played [OF inv wf]) (rule seeded_named [OF rk nm])
  have done_all: "winnerOf (ph_bouts db) s \<noteq> None \<and> \<not> ended db s" if "s \<in> set (ph_slots db)" for s
    using all [OF that] facts(1) by (simp add: ended_def grandFinalEndsBracket_def isGrandFinalWithReset_def)
  obtain k f where lay: "single_layout db k f"
    and entry: "\<forall>s u. u \<in> set (slots b) \<and> row_round s = round u \<and> row_position s = position u \<and> sources_of SeedSource u \<noteq> [] \<longrightarrow> main_row k s"
    by (rule single_laid_out [OF b adm facts(3,1)])
  note ly = single_layoutD [OF lay]
  obtain c where c: "winnerOf (ph_bouts db) f = Some c" using all [OF ly(1)] by auto
  obtain r e rest where r: "orderSingleElim collate (bracket_view ppl db) None (new_ranking (map pool_entry_of rows)) = Some r"
      "rk_entries r = e # rest" "fe_id e = c"
    by (rule single_decided [OF facts(4,8) known ly(1) c single_view(3) [OF facts(8) ly(5,4,1,2,3) refl]])
  have shape: "decided_ranking collate (bracket_view ppl db) (map pool_entry_of rows) None (Some (rankingBracketShape (bracket_payload_of db))) = Some r"
    unfolding single_shape [OF facts(1)] by (rule r(1))
  have no_swiss: "ph_type db \<noteq> ''swiss''" using facts(1) by simp
  have field: "has r x \<longleftrightarrow> x \<in> drawn_ids n rk" for x
  proof
    assume "has r x"
    then obtain s where "stands db x s" using placed_stands [OF shape no_swiss] by blast
    then show "x \<in> drawn_ids n rk" by (rule single_phase.drawn_stands(1) [OF b adm rk ids inv])
  next
    assume "x \<in> drawn_ids n rk"
    then obtain s u where s: "stands db x s" "u \<in> set (slots b)" "row_round s = round u" "row_position s = position u" "sources_of SeedSource u \<noteq> []"
      using single_phase.drawn_stands(2) [OF b adm rk ids inv] by blast
    have "main_row k s" using entry s(2-5) by blast
    from single_everybody [OF inv wf known done_all lay s(1) this r(1)] show "has r x" .
  qed
  have "ph_slots db \<noteq> []" using ly(1) by auto
  then obtain ps where "getTournamentPlacements collate ppl rows (Some db) sw fp = Some ps" "podium_of ps (drawn_ids n rk) c"
    using podium_found [OF _ no_swiss shape r(2,3) field] by blast
  then show ?thesis using that [of f c ps] ly(1,2,3,5) c by auto
qed

lemma single_run_exists:
  assumes "singleElimBracket n req = Inr b" and "without_byes n req" and "inj ids" and "inj bids"
    and "fresh_ids new_id" and "full_ranking m rk" and "n \<le> m"
    and "populateBracket new_id rk (single_phase.phase_of ids bids b) = Inr drawn" and "k \<le> length (slots b)"
  shows "\<exists>played. bout_run new_id drawn k played"
  using assms(9)
proof (induction k)
  case (Suc k)
  then obtain played where run: "bout_run new_id drawn k played" by auto
  then show ?case using single_next [OF assms(1-8) run] Suc.prems bout_run.more by (metis Suc_le_lessD)
qed (use bout_run.start in blast)


definition xyz_people :: people where
  "xyz_people = \<lparr>fighter_name = (\<lambda>x. Some x), club_name = (\<lambda>_. None), red_score = (\<lambda>_. None), blue_score = (\<lambda>_. None)\<rparr>"

lemma xyz_named: "named_fighters xyz_people xyz"
  by (simp add: named_fighters_def xyz_def xyz_people_def truthy_def)

lemma drawn_xyz: "drawn_ids 3 xyz = {''x'', ''y'', ''z''}"
proof -
  have "{r \<in> set xyz. rr_rank r \<le> int 3} = set xyz" by (auto simp: xyz_def)
  then show ?thesis unfolding drawn_ids_def by (simp add: xyz_def)
qed


end
