(* ===== verification/Offline_Store.thy ===== *)
theory Offline_Store
  imports Domain Clock "HOL-Library.AList"
begin

section \<open>The queue of the scoring tablet: what is kept on the tablet\<close>

text \<open>
  \<open>apps/web-staff/src/offline\<close>: \<open>db.ts\<close> (the tables), \<open>outbox.ts\<close> and \<open>press-queue.ts\<close> (the
  operations), \<open>can-send-again.ts\<close>. A tablet keeps every hit, card and press in its own store
  before any network call, and sends them later. An operation here is one transaction of the
  store, so it is one function of the store; what happens between two transactions is the
  matter of \<open>Offline_Sync\<close>.
\<close>

subsection \<open>Tables\<close>

text \<open>
  A table with a number as its key, as IndexedDB keeps it: the rows in the order of their keys,
  and a generator that never gives a key it has passed. Adding a row under a key that is taken
  is an error, which undoes the transaction: \<open>None\<close>.
\<close>

record 'r table =
  rows :: "(nat \<times> 'r) list"
  next_key :: nat

definition empty_table :: "'r table" where
  "empty_table = \<lparr>rows = [], next_key = 1\<rparr>"

definition add_row :: "'r \<Rightarrow> 'r table \<Rightarrow> 'r table" where
  "add_row r t = \<lparr>rows = rows t @ [(next_key t, r)], next_key = Suc (next_key t)\<rparr>"

definition get_row :: "nat \<Rightarrow> 'r table \<Rightarrow> 'r option" where
  "get_row k t = map_of (rows t) k"

definition add_row_at :: "nat \<Rightarrow> 'r \<Rightarrow> 'r table \<Rightarrow> 'r table option" where
  "add_row_at k r t =
     (if get_row k t \<noteq> None then None
      else Some \<lparr>rows = takeWhile (\<lambda>(i, _). i < k) (rows t) @ (k, r) # dropWhile (\<lambda>(i, _). i < k) (rows t),
                 next_key = max (next_key t) (Suc k)\<rparr>)"

definition delete_rows :: "(nat \<Rightarrow> 'r \<Rightarrow> bool) \<Rightarrow> 'r table \<Rightarrow> 'r table" where
  "delete_rows P t = t\<lparr>rows := filter (\<lambda>(i, r). \<not> P i r) (rows t)\<rparr>"

definition delete_row :: "nat \<Rightarrow> 'r table \<Rightarrow> 'r table" where
  "delete_row k = delete_rows (\<lambda>i _. i = k)"

definition modify_rows :: "(nat \<Rightarrow> 'r \<Rightarrow> bool) \<Rightarrow> ('r \<Rightarrow> 'r) \<Rightarrow> 'r table \<Rightarrow> 'r table" where
  "modify_rows P f t = t\<lparr>rows := map (\<lambda>(i, r). (i, if P i r then f r else r)) (rows t)\<rparr>"

definition rows_where :: "('r \<Rightarrow> bool) \<Rightarrow> 'r table \<Rightarrow> (nat \<times> 'r) list" where
  "rows_where P t = filter (\<lambda>(_, r). P r) (rows t)"

text \<open>What every operation keeps: keys in order, all passed by the generator.\<close>

definition table_ok :: "'r table \<Rightarrow> bool" where
  "table_ok t \<longleftrightarrow> sorted_wrt (<) (map fst (rows t)) \<and> (\<forall>k \<in> fst ` set (rows t). k < next_key t)"

lemma table_ok_distinct: "table_ok t \<Longrightarrow> distinct (map fst (rows t))"
  by (auto simp: table_ok_def strict_sorted_iff)

lemma table_ok_empty [simp]: "table_ok empty_table" "rows empty_table = []"
  by (simp_all add: table_ok_def empty_table_def)

lemma table_ok_add [intro]: "table_ok t \<Longrightarrow> table_ok (add_row r t)"
  by (auto simp: table_ok_def add_row_def sorted_wrt_append less_Suc_eq)

lemma set_add_row [simp]: "set (rows (add_row r t)) = insert (next_key t, r) (set (rows t))"
  by (simp add: add_row_def)

lemma get_row_iff: "table_ok t \<Longrightarrow> get_row k t = Some r \<longleftrightarrow> (k, r) \<in> set (rows t)"
  by (simp add: get_row_def table_ok_distinct)

lemma get_row_None: "get_row k t = None \<longleftrightarrow> k \<notin> fst ` set (rows t)"
  by (simp add: get_row_def map_of_eq_None_iff)

lemma set_add_row_at: "add_row_at k r t = Some t' \<Longrightarrow> set (rows t') = insert (k, r) (set (rows t))"
proof -
  assume "add_row_at k r t = Some t'"
  then have "rows t' = takeWhile (\<lambda>(i, _). i < k) (rows t) @ (k, r) # dropWhile (\<lambda>(i, _). i < k) (rows t)"
    by (auto simp: add_row_at_def split: if_splits)
  moreover have "set (rows t) = set (takeWhile (\<lambda>(i, _). i < k) (rows t)) \<union> set (dropWhile (\<lambda>(i, _). i < k) (rows t))"
    by (metis set_append takeWhile_dropWhile_id)
  ultimately show ?thesis by simp
qed

lemma sorted_from:
  assumes "sorted_wrt (<) (map fst xs)" and "k \<notin> fst ` set xs" and "(i, r) \<in> set (dropWhile (\<lambda>(i, _). i < (k::nat)) xs)"
  shows "k < i"
  using assms
proof (induction xs)
  case (Cons x xs)
  then show ?case by (cases x) (force split: if_splits)
qed simp

lemma sorted_insert:
  assumes "sorted_wrt (<) (map fst (xs @ ys))" and "\<forall>x \<in> set xs. fst x < k" and "\<forall>y \<in> set ys. k < fst y"
  shows "sorted_wrt (<) (map fst (xs @ (k, r) # ys))"
  using assms by (auto simp: sorted_wrt_append)

lemma table_ok_add_at [intro]:
  assumes "table_ok t" and "add_row_at k r t = Some t'"
  shows "table_ok t'"
proof -
  have new: "k \<notin> fst ` set (rows t)"
    and t': "t' = \<lparr>rows = takeWhile (\<lambda>(i, _). i < k) (rows t) @ (k, r) # dropWhile (\<lambda>(i, _). i < k) (rows t),
      next_key = max (next_key t) (Suc k)\<rparr>"
    using assms(2) by (auto simp: add_row_at_def get_row_None split: if_splits)
  have generator: "next_key t' = max (next_key t) (Suc k)" by (simp add: t')
  have "\<forall>x \<in> set (takeWhile (\<lambda>(i, _). i < k) (rows t)). fst x < k" by (auto dest: set_takeWhileD)
  moreover have "\<forall>x \<in> set (dropWhile (\<lambda>(i, _). i < k) (rows t)). k < fst x"
    using sorted_from [OF _ new] assms(1) by (auto simp: table_ok_def)
  moreover have "sorted_wrt (<) (map fst (takeWhile (\<lambda>(i, _). i < k) (rows t) @ dropWhile (\<lambda>(i, _). i < k) (rows t)))"
    using assms(1) by (simp add: table_ok_def)
  ultimately have "sorted_wrt (<) (map fst (rows t'))"
    unfolding t' table.simps by (intro sorted_insert)
  moreover have "\<forall>i \<in> fst ` set (rows t'). i < next_key t'"
    using assms(1) set_add_row_at [OF assms(2)] by (auto simp: table_ok_def generator less_max_iff_disj)
  ultimately show ?thesis by (simp add: table_ok_def)
qed

lemma set_delete_rows [simp]: "set (rows (delete_rows P t)) = {(i, r) \<in> set (rows t). \<not> P i r}"
  by (auto simp: delete_rows_def)

lemma sorted_map_filter: "sorted_wrt (<) (map f xs) \<Longrightarrow> sorted_wrt (<) (map f (filter P xs))"
  by (induction xs) auto

lemma table_ok_delete_rows [intro]: "table_ok t \<Longrightarrow> table_ok (delete_rows P t)"
  by (auto simp: table_ok_def delete_rows_def sorted_map_filter)

lemma set_delete_row [simp]: "set (rows (delete_row k t)) = {(i, r) \<in> set (rows t). i \<noteq> k}"
  by (simp add: delete_row_def)

lemma table_ok_delete_row [intro]: "table_ok t \<Longrightarrow> table_ok (delete_row k t)"
  by (auto simp: delete_row_def)

lemma get_row_modify: "get_row k (modify_rows P f t) = None \<longleftrightarrow> get_row k t = None"
  by (force simp: get_row_None modify_rows_def)

lemma set_modify_rows: "set (rows (modify_rows P f t)) = (\<lambda>(i, r). (i, if P i r then f r else r)) ` set (rows t)"
  by (simp add: modify_rows_def)

lemma keys_modify_rows [simp]: "map fst (rows (modify_rows P f t)) = map fst (rows t)"
  by (simp add: modify_rows_def comp_def case_prod_unfold)

lemma next_key_simps [simp]:
  "next_key (modify_rows P f t) = next_key t" "next_key (delete_rows P t) = next_key t" "next_key (delete_row k t) = next_key t"
  "next_key (add_row r t) = Suc (next_key t)"
  by (simp_all add: modify_rows_def delete_rows_def delete_row_def add_row_def)

lemma table_ok_modify_rows [intro]: "table_ok t \<Longrightarrow> table_ok (modify_rows P f t)"
  unfolding table_ok_def keys_modify_rows list.set_map [symmetric] next_key_simps .

subsection \<open>Rows\<close>

datatype outbox_kind = ExchangeKind | PenaltyKind | PressKind | RoundKind | LevelKind

datatype round_press = AdvanceRound | EndRound

datatype level_kind = ExtraTimeStep | SuddenDeathStep

record level_press =
  lp_step :: nat
  lp_kind :: level_kind
  lp_seconds :: "int option"
  lp_limitMs :: "int option"

datatype start_network = NoNetwork | Seen

record bout_names =
  bn_label :: string
  bn_red :: string
  bn_blue :: string

record pressed_on =
  po_red :: int
  po_blue :: int
  po_winner :: "striker_color option"
  po_endReason :: "string option"

text \<open>What a row says of a hit, a card or a press and the queue itself never reads.\<close>

record entry_sheet =
  es_type :: "exchange_type option"
  es_firstStrikerColor :: "striker_color option"
  es_firstStrikeValue :: "int option"
  es_afterblowValue :: "int option"
  es_noExchangeReason :: "string option"
  es_registrationId :: "string option"
  es_rulesetEntryId :: "string option"
  es_directCard :: "string option"
  es_reason :: "string option"
  es_cardedColor :: "striker_color option"
  es_cardName :: "string option"
  es_bout :: "bout_names option"
  es_endScore :: "pressed_on option"
  es_clockTimeMs :: "int option"

text \<open>
  \<open>OutboxEntry\<close> without its key, which is that of the table. The two clocks of a tap are
  milliseconds; \<open>occurredAt\<close> is a text.
\<close>

record outbox_row =
  ob_kind :: "outbox_kind option"
  ob_clientUuid :: string
  ob_matchId :: string
  ob_sequence :: nat
  ob_occurredAt :: string
  ob_sheet :: entry_sheet
  ob_pressAction :: "clock_press option"
  ob_pressedPerf :: "int option"
  ob_pressOrigin :: "int option"
  ob_startedUnder :: "string option"
  ob_startNetwork :: "start_network option"
  ob_roundAction :: "round_press option"
  ob_round :: "nat option"
  ob_level :: "level_press option"
  ob_createdAt :: int
  ob_attempts :: nat
  ob_lastError :: "string option"

record rejected_row = outbox_row +
  rj_reason :: string
  rj_code :: "string option"
  rj_at :: int
  rj_outboxId :: "nat option"

record synced_row =
  sy_matchId :: string
  sy_sequence :: nat
  sy_serverId :: string
  sy_at :: int

record undone_row =
  un_matchId :: string
  un_at :: int

text \<open>The store of a tablet; \<open>synced\<close> and \<open>undone\<close> are keyed by the id the tablet gave an entry.\<close>

record tablet =
  outbox :: "outbox_row table"
  synced :: "(string \<times> synced_row) list"
  rejected :: "rejected_row table"
  undone :: "(string \<times> undone_row) list"

definition empty_tablet :: tablet where
  "empty_tablet = \<lparr>outbox = empty_table, synced = [], rejected = empty_table, undone = []\<rparr>"

definition kindOf :: "'a outbox_row_scheme \<Rightarrow> outbox_kind" where
  "kindOf entry = or_else (ob_kind entry) ExchangeKind"

definition isTap :: "'a outbox_row_scheme \<Rightarrow> bool" where
  "isTap entry =
     (case kindOf entry of PressKind \<Rightarrow> True | RoundKind \<Rightarrow> True | LevelKind \<Rightarrow> True
      | PenaltyKind \<Rightarrow> False | ExchangeKind \<Rightarrow> False)"

subsection \<open>Writing an entry\<close>

definition greatest :: "nat list \<Rightarrow> nat" where
  "greatest ns = foldl max 0 ns"

definition nextSequence :: "string \<Rightarrow> tablet \<Rightarrow> nat" where
  "nextSequence matchId t =
     (let outboxMax = greatest (map (ob_sequence \<circ> snd) (rows_where (\<lambda>e. ob_matchId e = matchId) (outbox t)));
          syncedMax = greatest (map (sy_sequence \<circ> snd) (filter (\<lambda>(_, e). sy_matchId e = matchId) (synced t)))
      in max outboxMax syncedMax + 1)"

text \<open>The rounds that the queued starts of a round of this bout open.\<close>

definition opened_rounds :: "string \<Rightarrow> tablet \<Rightarrow> nat list" where
  "opened_rounds matchId t =
     map (\<lambda>(_, row). or_else (ob_round row) 0)
       (filter (\<lambda>(_, row). kindOf row = RoundKind \<and> ob_roundAction row = Some AdvanceRound)
         (rows_where (\<lambda>e. ob_matchId e = matchId) (outbox t)))"

definition openRoundFor :: "outbox_row \<Rightarrow> tablet \<Rightarrow> nat" where
  "openRoundFor entry t = greatest (or_else (ob_round entry) 0 # opened_rounds (ob_matchId entry) t)"

text \<open>The two clocks of the tablet, read at one moment.\<close>

record tablet_time =
  tt_wall :: int
  tt_page :: int
  tt_origin :: int

text \<open>The row \<open>enqueue\<close> writes; the times, the attempts and the error of \<open>entry\<close> are not read.\<close>

definition enqueued :: "outbox_row \<Rightarrow> tablet_time \<Rightarrow> tablet \<Rightarrow> outbox_row" where
  "enqueued entry now t =
     entry\<lparr>ob_round := (if ob_round entry = None then None else Some (openRoundFor entry t)),
           ob_pressedPerf := Some (tt_page now), ob_pressOrigin := Some (tt_origin now),
           ob_sequence := max (ob_sequence entry) (nextSequence (ob_matchId entry) t),
           ob_createdAt := tt_wall now, ob_attempts := 0, ob_lastError := None\<rparr>"

definition enqueue :: "outbox_row \<Rightarrow> tablet_time \<Rightarrow> tablet \<Rightarrow> tablet" where
  "enqueue entry now t = t\<lparr>outbox := add_row (enqueued entry now t) (outbox t)\<rparr>"

text \<open>The rows of the three buttons: a press, a round, a step of a level bout. \<open>isoTime\<close> writes an instant as
  a text.\<close>

definition blank_row :: "(int \<Rightarrow> string) \<Rightarrow> string \<Rightarrow> string \<Rightarrow> entry_sheet \<Rightarrow> tablet_time \<Rightarrow> outbox_row" where
  "blank_row isoTime uuid matchId sheet now =
     \<lparr>ob_kind = None, ob_clientUuid = uuid, ob_matchId = matchId, ob_sequence = 0, ob_occurredAt = isoTime (tt_wall now), ob_sheet = sheet,
      ob_pressAction = None, ob_pressedPerf = Some (tt_page now), ob_pressOrigin = Some (tt_origin now), ob_startedUnder = None,
      ob_startNetwork = None, ob_roundAction = None, ob_round = None, ob_level = None, ob_createdAt = tt_wall now,
      ob_attempts = 0, ob_lastError = None\<rparr>"

definition pressRow ::
    "(int \<Rightarrow> string) \<Rightarrow> string \<Rightarrow> string \<Rightarrow> clock_press \<Rightarrow> entry_sheet \<Rightarrow> string option \<Rightarrow> bool \<Rightarrow> tablet_time \<Rightarrow> outbox_row" where
  "pressRow isoTime uuid matchId action sheet rulesId noNetwork now =
     (let start = (action = PStart) in
      (blank_row isoTime uuid matchId sheet now)
        \<lparr>ob_kind := Some PressKind, ob_pressAction := Some action,
         ob_startedUnder := (if start \<and> rulesId \<noteq> Some [] then rulesId else None),
         ob_startNetwork := (if start \<and> noNetwork then Some NoNetwork else None)\<rparr>)"

definition roundRow :: "(int \<Rightarrow> string) \<Rightarrow> string \<Rightarrow> string \<Rightarrow> round_press \<Rightarrow> nat \<Rightarrow> entry_sheet \<Rightarrow> tablet_time \<Rightarrow> outbox_row" where
  "roundRow isoTime uuid matchId action rnd sheet now =
     (blank_row isoTime uuid matchId sheet now)
       \<lparr>ob_kind := Some RoundKind, ob_roundAction := Some action, ob_round := Some rnd\<rparr>"

definition levelRow :: "(int \<Rightarrow> string) \<Rightarrow> string \<Rightarrow> string \<Rightarrow> nat \<Rightarrow> level_press \<Rightarrow> entry_sheet \<Rightarrow> tablet_time \<Rightarrow> outbox_row" where
  "levelRow isoTime uuid matchId rnd level sheet now =
     (blank_row isoTime uuid matchId sheet now)
       \<lparr>ob_kind := Some LevelKind, ob_level := Some level, ob_round := Some rnd\<rparr>"

definition queueTap :: "outbox_row \<Rightarrow> tablet \<Rightarrow> tablet" where
  "queueTap row t = t\<lparr>outbox := add_row row (outbox t)\<rparr>"

subsection \<open>Reading the queue\<close>

definition getPendingForMatch :: "string \<Rightarrow> tablet \<Rightarrow> (nat \<times> outbox_row) list" where
  "getPendingForMatch matchId t = rows_where (\<lambda>e. ob_matchId e = matchId) (outbox t)"

definition totalPendingCount :: "tablet \<Rightarrow> nat" where
  "totalPendingCount t = length (rows (outbox t))"

definition holdsPress :: "tablet \<Rightarrow> bool" where
  "holdsPress t = list_ex (\<lambda>(_, e). isTap e) (rows (outbox t))"

definition boutsBehindHeldRow :: "tablet \<Rightarrow> string list" where
  "boutsBehindHeldRow t = map (ob_matchId \<circ> snd) (rows (rejected t))"

definition heldPressesOf :: "string \<Rightarrow> tablet \<Rightarrow> (nat \<times> rejected_row) list" where
  "heldPressesOf matchId t = filter (\<lambda>(_, e). isTap e) (rows_where (\<lambda>e. ob_matchId e = matchId) (rejected t))"

definition waitingBehind :: "string \<Rightarrow> tablet \<Rightarrow> nat" where
  "waitingBehind matchId t = length (rows_where (\<lambda>e. ob_matchId e = matchId) (outbox t))"

definition holdsBack :: "nat \<Rightarrow> tablet \<Rightarrow> bool" where
  "holdsBack heldId t =
     (case get_row heldId (rejected t) of None \<Rightarrow> False | Some held \<Rightarrow> waitingBehind (ob_matchId held) t > 0)"

definition freeToSend :: "tablet \<Rightarrow> nat" where
  "freeToSend t = length (rows_where (\<lambda>e. ob_matchId e \<notin> set (boutsBehindHeldRow t)) (outbox t))"

text \<open>\<open>can-send-again.ts\<close>: the codes no new send can cure.\<close>

definition NEVER_AGAIN :: "string list" where
  "NEVER_AGAIN =
     [''scored_before_reset'', ''clock_press_too_old'', ''time_not_finished'', ''level_at_time_unresolved'',
      ''pressed_before_reopen'', ''bout_not_level'', ''level_step_not_pending'']"

definition NEVER_AGAIN_FOR_A_STEP :: "string list" where
  "NEVER_AGAIN_FOR_A_STEP = [''bout_completed'', ''round_awaits_advance'', ''round_not_open'']"

definition canSendAgain :: "rejected_row \<Rightarrow> bool" where
  "canSendAgain held =
     (let code = or_else (rj_code held) [] in
      if ob_kind held = Some LevelKind \<and> code \<in> set NEVER_AGAIN_FOR_A_STEP then False
      else code \<notin> set NEVER_AGAIN)"

subsection \<open>Updating the queue\<close>

definition markFailed :: "nat \<Rightarrow> string \<Rightarrow> tablet \<Rightarrow> tablet" where
  "markFailed k err t =
     t\<lparr>outbox := modify_rows (\<lambda>i _. i = k) (\<lambda>e. e\<lparr>ob_attempts := ob_attempts e + 1, ob_lastError := Some err\<rparr>) (outbox t)\<rparr>"

definition markSynced :: "nat \<Rightarrow> string \<Rightarrow> string \<Rightarrow> nat \<Rightarrow> string \<Rightarrow> int \<Rightarrow> tablet \<Rightarrow> tablet" where
  "markSynced k uuid matchId seq serverId now t =
     t\<lparr>outbox := delete_row k (outbox t),
       synced := AList.update uuid \<lparr>sy_matchId = matchId, sy_sequence = seq, sy_serverId = serverId, sy_at = now\<rparr> (synced t)\<rparr>"

definition clearMatch :: "string \<Rightarrow> tablet \<Rightarrow> tablet" where
  "clearMatch matchId t = t\<lparr>outbox := delete_rows (\<lambda>_ e. ob_matchId e = matchId) (outbox t)\<rparr>"

definition claimForSend :: "nat \<Rightarrow> tablet \<Rightarrow> bool" where
  "claimForSend k t \<longleftrightarrow> get_row k (outbox t) \<noteq> None"

definition dropSentPress :: "nat \<Rightarrow> tablet \<Rightarrow> tablet" where
  "dropSentPress k t = t\<lparr>outbox := delete_row k (outbox t)\<rparr>"

text \<open>What the undo finds; \<open>sending\<close> is the row whose send is out.\<close>

datatype off_tablet = Removed | OnItsWay | Landed string

definition takeOffTablet :: "string \<Rightarrow> string \<Rightarrow> nat option \<Rightarrow> int \<Rightarrow> tablet \<Rightarrow> off_tablet \<times> tablet" where
  "takeOffTablet uuid matchId sending now t =
     (let note = AList.update uuid \<lparr>un_matchId = matchId, un_at = now\<rparr> (undone t) in
      case map_of (synced t) uuid of
        Some landed \<Rightarrow> (Landed (sy_serverId landed), t)
      | None \<Rightarrow>
          (case rows_where (\<lambda>e. ob_clientUuid e = uuid) (outbox t) of
             (k, _) # _ \<Rightarrow>
               if sending = Some k then (OnItsWay, t)
               else (Removed, t\<lparr>outbox := delete_row k (outbox t), undone := note\<rparr>)
           | [] \<Rightarrow>
               (Removed, t\<lparr>rejected := delete_rows (\<lambda>_ e. ob_clientUuid e = uuid) (rejected t), undone := note\<rparr>)))"

definition forgetUndone :: "string \<Rightarrow> tablet \<Rightarrow> tablet" where
  "forgetUndone uuid t = t\<lparr>undone := AList.delete uuid (undone t)\<rparr>"

text \<open>A row the server refused, held with the reason and with its place in the queue.\<close>

definition held_row :: "nat \<Rightarrow> outbox_row \<Rightarrow> string \<Rightarrow> string option \<Rightarrow> int \<Rightarrow> rejected_row" where
  "held_row k entry reason code now =
     outbox_row.extend entry (rejected_row.fields reason (if code = Some [] then None else code) now (Some k))"

definition quarantine :: "nat \<Rightarrow> string \<Rightarrow> string option \<Rightarrow> int \<Rightarrow> tablet \<Rightarrow> tablet" where
  "quarantine k reason code now t =
     (case get_row k (outbox t) of
        None \<Rightarrow> t
      | Some entry \<Rightarrow>
          t\<lparr>rejected := add_row (held_row k entry reason code now) (rejected t), outbox := delete_row k (outbox t)\<rparr>)"

definition backInQueue :: "rejected_row \<Rightarrow> nat \<Rightarrow> outbox_row" where
  "backInQueue held seq =
     (let payload = (outbox_row.truncate held)\<lparr>ob_lastError := None, ob_attempts := 0\<rparr> in
      if isTap held then payload else payload\<lparr>ob_sequence := seq\<rparr>)"

text \<open>The row goes to the place it had, or to the end when it knows none.\<close>

definition put_back :: "rejected_row \<Rightarrow> nat \<Rightarrow> outbox_row table \<Rightarrow> outbox_row table option" where
  "put_back held seq ob =
     (case rj_outboxId held of
        None \<Rightarrow> Some (add_row (backInQueue held seq) ob)
      | Some k \<Rightarrow> add_row_at k (backInQueue held seq) ob)"

text \<open>\<open>seq\<close> is the next sequence of the bout, read before the transaction.\<close>

definition requeueRejectedEntry :: "nat \<Rightarrow> nat \<Rightarrow> tablet \<Rightarrow> (bool \<times> tablet) option" where
  "requeueRejectedEntry k seq t =
     (case get_row k (rejected t) of
        None \<Rightarrow> Some (False, t)
      | Some held \<Rightarrow>
          map_option (\<lambda>ob. (True, t\<lparr>outbox := ob, rejected := delete_row k (rejected t)\<rparr>)) (put_back held seq (outbox t)))"

text \<open>The curable held rows, in the order they were made.\<close>

definition curable :: "tablet \<Rightarrow> (nat \<times> rejected_row) list" where
  "curable t =
     sort_by (\<lambda>(_, a) (_, b). ob_createdAt a - ob_createdAt b) (filter (\<lambda>(_, e). canSendAgain e) (rows (rejected t)))"

fun requeue_each :: "(string \<Rightarrow> nat) \<Rightarrow> (nat \<times> rejected_row) list \<Rightarrow> tablet \<Rightarrow> tablet option" where
  "requeue_each nextByMatch [] t = Some t"
| "requeue_each nextByMatch ((k, entry) # es) t =
     (if get_row k (rejected t) = None then requeue_each nextByMatch es t
      else (let seq = nextByMatch (ob_matchId entry) in
            case put_back entry seq (outbox t) of
              None \<Rightarrow> None
            | Some ob \<Rightarrow>
                requeue_each (if isTap entry then nextByMatch else nextByMatch(ob_matchId entry := seq + 1)) es
                  (t\<lparr>outbox := ob, rejected := delete_row k (rejected t)\<rparr>)))"

definition requeueRejected :: "tablet \<Rightarrow> (nat \<times> tablet) option" where
  "requeueRejected t =
     map_option (Pair (length (curable t))) (requeue_each (\<lambda>m. nextSequence m t) (curable t) t)"

definition discardRejected :: "nat \<Rightarrow> tablet \<Rightarrow> outbox_kind option \<times> tablet" where
  "discardRejected k t = (map_option kindOf (get_row k (rejected t)), t\<lparr>rejected := delete_row k (rejected t)\<rparr>)"

definition discardBoutOf :: "nat \<Rightarrow> tablet \<Rightarrow> nat \<times> tablet" where
  "discardBoutOf k t =
     (case get_row k (rejected t) of
        None \<Rightarrow> (0, t)
      | Some held \<Rightarrow>
          (let ofBout = (\<lambda>m. m = ob_matchId held) in
           (length (rows_where (ofBout \<circ> ob_matchId) (rejected t)) + length (rows_where (ofBout \<circ> ob_matchId) (outbox t)),
            t\<lparr>rejected := delete_rows (\<lambda>_ e. ofBout (ob_matchId e)) (rejected t),
              outbox := delete_rows (\<lambda>_ e. ofBout (ob_matchId e)) (outbox t)\<rparr>)))"

subsection \<open>What is known of the network at a start\<close>

definition unjudgedStart :: "outbox_row \<Rightarrow> bool" where
  "unjudgedStart row \<longleftrightarrow> ob_pressAction row = Some PStart \<and> ob_startNetwork row = None"

definition judgeStarts :: "start_network \<Rightarrow> nat list option \<Rightarrow> tablet \<Rightarrow> tablet" where
  "judgeStarts verdict ids t =
     t\<lparr>outbox := modify_rows (\<lambda>k row. (case ids of None \<Rightarrow> True | Some ks \<Rightarrow> k \<in> set ks) \<and> unjudgedStart row)
                   (\<lambda>row. row\<lparr>ob_startNetwork := Some verdict\<rparr>) (outbox t)\<rparr>"

definition unjudgedStartsOf :: "(nat \<times> outbox_row) list \<Rightarrow> nat list" where
  "unjudgedStartsOf pending = map fst (filter (\<lambda>(_, row). unjudgedStart row) pending)"

definition keeps_copy :: "'a outbox_row_scheme \<Rightarrow> (string \<times> string) option" where
  "keeps_copy row =
     (if ob_pressAction row = Some PStart \<and> ob_startNetwork row \<noteq> Some Seen
      then map_option (Pair (ob_matchId row)) (ob_startedUnder row) else None)"

definition unsentStarts :: "tablet \<Rightarrow> string \<Rightarrow> string option" where
  "unsentStarts t =
     map_of (rev (List.map_filter (keeps_copy \<circ> snd) (rows (outbox t)) @ List.map_filter (keeps_copy \<circ> snd) (rows (rejected t))))"

subsection \<open>What every operation keeps\<close>

text \<open>The entries that wait in the queue, and those held because the server refused them.\<close>

definition waiting :: "tablet \<Rightarrow> string set" where
  "waiting t = (\<lambda>(_, e). ob_clientUuid e) ` set (rows (outbox t))"

definition held :: "tablet \<Rightarrow> string set" where
  "held t = (\<lambda>(_, e). ob_clientUuid e) ` set (rows (rejected t))"

definition one_each :: "(nat \<times> 'a outbox_row_scheme) set \<Rightarrow> bool" where
  "one_each R \<longleftrightarrow> (\<forall>(i, a) \<in> R. \<forall>(j, b) \<in> R. ob_clientUuid a = ob_clientUuid b \<longrightarrow> i = j)"

text \<open>The place of a held row in the queue is free, and no other held row has it.\<close>

definition places_free :: "(nat \<times> rejected_row) set \<Rightarrow> outbox_row table \<Rightarrow> bool" where
  "places_free R ob \<longleftrightarrow>
     (\<forall>(i, a) \<in> R. \<forall>k. rj_outboxId a = Some k \<longrightarrow> k < next_key ob \<and> get_row k ob = None \<and>
        (\<forall>(j, b) \<in> R. rj_outboxId b = Some k \<longrightarrow> i = j))"

text \<open>No entry is twice on the tablet, and every held row can go back to its place.\<close>

definition tablet_ok :: "tablet \<Rightarrow> bool" where
  "tablet_ok t \<longleftrightarrow>
     table_ok (outbox t) \<and> table_ok (rejected t) \<and> one_each (set (rows (outbox t))) \<and> one_each (set (rows (rejected t))) \<and>
     waiting t \<inter> held t = {} \<and> places_free (set (rows (rejected t))) (outbox t)"

lemma tablet_okI [intro]:
  assumes "table_ok (outbox t)" and "table_ok (rejected t)" and "one_each (set (rows (outbox t)))" and "one_each (set (rows (rejected t)))"
    and "waiting t \<inter> held t = {}" and "places_free (set (rows (rejected t))) (outbox t)"
  shows "tablet_ok t"
  using assms by (simp add: tablet_ok_def)

lemma tablet_okD:
  assumes "tablet_ok t"
  shows "table_ok (outbox t)" and "table_ok (rejected t)" and "one_each (set (rows (outbox t)))" and "one_each (set (rows (rejected t)))"
    and "waiting t \<inter> held t = {}" and "places_free (set (rows (rejected t))) (outbox t)"
  using assms by (simp_all add: tablet_ok_def)

lemma waiting_iff: "u \<in> waiting t \<longleftrightarrow> (\<exists>i a. (i, a) \<in> set (rows (outbox t)) \<and> u = ob_clientUuid a)"
  by (auto simp: waiting_def)

lemma held_iff: "u \<in> held t \<longleftrightarrow> (\<exists>i a. (i, a) \<in> set (rows (rejected t)) \<and> u = ob_clientUuid a)"
  by (auto simp: held_def)

lemma waitingI: "(i, a) \<in> set (rows (outbox t)) \<Longrightarrow> ob_clientUuid a \<in> waiting t"
  unfolding waiting_iff by blast

lemma heldI: "(i, a) \<in> set (rows (rejected t)) \<Longrightarrow> ob_clientUuid a \<in> held t"
  unfolding held_iff by blast

lemma one_eachI:
  "(\<And>i a j b. (i, a) \<in> R \<Longrightarrow> (j, b) \<in> R \<Longrightarrow> ob_clientUuid a = ob_clientUuid b \<Longrightarrow> i = j) \<Longrightarrow> one_each R"
  by (auto simp: one_each_def)

lemma one_eachD: "one_each R \<Longrightarrow> (i, a) \<in> R \<Longrightarrow> (j, b) \<in> R \<Longrightarrow> ob_clientUuid a = ob_clientUuid b \<Longrightarrow> i = j"
  by (auto simp: one_each_def)

lemma places_freeI:
  assumes "\<And>i a k. (i, a) \<in> R \<Longrightarrow> rj_outboxId a = Some k \<Longrightarrow> k < next_key ob \<and> get_row k ob = None"
    and "\<And>i a j b k. (i, a) \<in> R \<Longrightarrow> (j, b) \<in> R \<Longrightarrow> rj_outboxId a = Some k \<Longrightarrow> rj_outboxId b = Some k \<Longrightarrow> i = j"
  shows "places_free R ob"
proof -
  have "k < next_key ob \<and> get_row k ob = None \<and> (\<forall>(j, b) \<in> R. rj_outboxId b = Some k \<longrightarrow> i = j)"
    if "(i, a) \<in> R" "rj_outboxId a = Some k" for i a k
    using assms(1) [OF that] assms(2) [OF that(1) _ that(2)] by auto
  then show ?thesis unfolding places_free_def by (intro ballI, clarify)
qed

lemma places_freeD:
  assumes "places_free R ob" and "(i, a) \<in> R" and "rj_outboxId a = Some k"
  shows "k < next_key ob" and "get_row k ob = None" and "(j, b) \<in> R \<Longrightarrow> rj_outboxId b = Some k \<Longrightarrow> i = j"
  using assms unfolding places_free_def by (auto, blast)

lemma one_each_mono: "one_each R \<Longrightarrow> S \<subseteq> R \<Longrightarrow> one_each S"
  by (intro one_eachI) (auto dest: one_eachD)

lemma one_each_insert:
  assumes "one_each R" and "\<And>i a. (i, a) \<in> R \<Longrightarrow> ob_clientUuid a \<noteq> ob_clientUuid e"
  shows "one_each (insert (k, e) R)"
  using assms by (intro one_eachI) (auto dest: one_eachD, metis+)

lemma places_free_mono:
  assumes "places_free R ob" and "S \<subseteq> R" and "next_key ob \<le> next_key ob'" and "fst ` set (rows ob') \<subseteq> fst ` set (rows ob)"
  shows "places_free S ob'"
proof (rule places_freeI)
  show "k < next_key ob' \<and> get_row k ob' = None" if "(i, a) \<in> S" "rj_outboxId a = Some k" for i a k
    using places_freeD(1,2) [OF assms(1) subsetD [OF assms(2) that(1)] that(2)] assms(3,4) by (auto simp: get_row_None)
  show "i = j" if "(i, a) \<in> S" "(j, b) \<in> S" "rj_outboxId a = Some k" "rj_outboxId b = Some k" for i a j b k
    by (rule places_freeD(3) [OF assms(1) subsetD [OF assms(2) that(1)] that(3) subsetD [OF assms(2) that(2)] that(4)])
qed

text \<open>Rows removed from both tables.\<close>

lemma tablet_ok_remove:
  assumes "tablet_ok t" and "outbox t' = delete_rows P (outbox t)" and "rejected t' = delete_rows Q (rejected t)"
  shows "tablet_ok t'"
proof
  note ok = tablet_okD [OF assms(1)]
  show "table_ok (outbox t')" "table_ok (rejected t')" using ok(1,2) assms(2,3) by auto
  show "one_each (set (rows (outbox t')))" "one_each (set (rows (rejected t')))"
    by (rule one_each_mono [OF ok(3)], use assms(2) in auto) (rule one_each_mono [OF ok(4)], use assms(3) in auto)
  have "waiting t' \<subseteq> waiting t" "held t' \<subseteq> held t" unfolding waiting_def held_def assms(2,3) by auto
  then show "waiting t' \<inter> held t' = {}" using ok(5) by blast
  show "places_free (set (rows (rejected t'))) (outbox t')"
    by (rule places_free_mono [OF ok(6)]) (use assms(2,3) in auto)
qed

lemma delete_none [simp]: "delete_rows (\<lambda>_ _. False) t = t"
  by (simp add: delete_rows_def case_prod_unfold)

text \<open>Rows rewritten in place.\<close>

lemma tablet_ok_modify:
  assumes "tablet_ok t" and "outbox t' = modify_rows P f (outbox t)" and "rejected t' = rejected t"
    and same: "\<And>e. ob_clientUuid (f e) = ob_clientUuid e"
  shows "tablet_ok t'" and "waiting t' = waiting t"
proof -
  note ok = tablet_okD [OF assms(1)]
  show w: "waiting t' = waiting t"
    unfolding waiting_def assms(2) set_modify_rows image_image by (intro image_cong) (auto simp: same)
  show "tablet_ok t'"
  proof
    show "table_ok (outbox t')" "table_ok (rejected t')" using ok(1,2) assms(2,3) by auto
    show "one_each (set (rows (outbox t')))"
    proof (rule one_eachI)
      fix i a j b assume "(i, a) \<in> set (rows (outbox t'))" "(j, b) \<in> set (rows (outbox t'))" "ob_clientUuid a = ob_clientUuid b"
      then obtain a' b' where "(i, a') \<in> set (rows (outbox t))" "(j, b') \<in> set (rows (outbox t))" "ob_clientUuid a' = ob_clientUuid b'"
        unfolding assms(2) set_modify_rows by (auto simp: same split: if_splits)
      then show "i = j" by (rule one_eachD [OF ok(3)])
    qed
    show "one_each (set (rows (rejected t')))" "waiting t' \<inter> held t' = {}" using ok(4,5) assms(3) w by (auto simp: held_def)
    have "fst ` set (rows (outbox t')) = fst ` set (rows (outbox t))"
      using keys_modify_rows [of P f "outbox t"] unfolding assms(2) by (metis list.set_map)
    then show "places_free (set (rows (rejected t'))) (outbox t')"
      by (intro places_free_mono [OF ok(6)]) (simp_all add: assms(2,3))
  qed
qed

text \<open>A new entry at the end.\<close>

lemma tablet_ok_add:
  assumes "tablet_ok t" and "outbox t' = add_row e (outbox t)" and "rejected t' = rejected t"
    and new: "ob_clientUuid e \<notin> waiting t \<union> held t"
  shows "tablet_ok t'" and "waiting t' = insert (ob_clientUuid e) (waiting t)" and "held t' = held t"
proof -
  note ok = tablet_okD [OF assms(1)]
  show w: "waiting t' = insert (ob_clientUuid e) (waiting t)" "held t' = held t"
    unfolding waiting_def held_def assms(2,3) by simp_all
  have free: "k < next_key (outbox t) \<Longrightarrow> get_row k (outbox t) = None \<Longrightarrow> get_row k (outbox t') = None" for k
    by (simp add: get_row_None assms(2))
  show "tablet_ok t'"
  proof
    show "table_ok (outbox t')" "table_ok (rejected t')" using ok(1,2) assms(2,3) by auto
    show "one_each (set (rows (outbox t')))"
      unfolding assms(2) set_add_row by (rule one_each_insert [OF ok(3)]) (use new waitingI in \<open>metis UnCI\<close>)
    show "one_each (set (rows (rejected t')))" "waiting t' \<inter> held t' = {}" using ok(4,5) assms(3) w new by auto
    show "places_free (set (rows (rejected t'))) (outbox t')"
    proof (rule places_freeI)
      show "l < next_key (outbox t') \<and> get_row l (outbox t') = None" if "(i, a) \<in> set (rows (rejected t'))" "rj_outboxId a = Some l" for i a l
        using places_freeD(1,2) [OF ok(6) that(1) [unfolded assms(3)] that(2)] free by (simp add: assms(2))
      show "i = j" if "(i, a) \<in> set (rows (rejected t'))" "(j, b) \<in> set (rows (rejected t'))" "rj_outboxId a = Some l" "rj_outboxId b = Some l" for i a j b l
        by (rule places_freeD(3) [OF ok(6) that(1) [unfolded assms(3)] that(3) that(2) [unfolded assms(3)] that(4)])
    qed
  qed
qed

text \<open>A row moved into the inbox, and one moved back.\<close>

lemma held_row_fields [simp]:
  "ob_clientUuid (held_row k e r c now) = ob_clientUuid e" "rj_outboxId (held_row k e r c now) = Some k"
  "ob_matchId (held_row k e r c now) = ob_matchId e" "isTap (held_row k e r c now) = isTap e"
  by (simp_all add: held_row_def outbox_row.defs rejected_row.defs isTap_def kindOf_def)

lemma backInQueue_fields [simp]:
  "ob_clientUuid (backInQueue e s) = ob_clientUuid e" "ob_matchId (backInQueue e s) = ob_matchId e"
  "isTap (backInQueue e s) = isTap e"
  by (simp_all add: backInQueue_def outbox_row.defs Let_def isTap_def kindOf_def)

lemma uuid_key:
  assumes "table_ok tb" and "one_each (set (rows tb))" and "(i, a) \<in> set (rows tb)" and "(j, b) \<in> set (rows tb)"
  shows "ob_clientUuid a = ob_clientUuid b \<longleftrightarrow> i = j"
  using one_eachD [OF assms(2-4)] eq_key_imp_eq_value [OF table_ok_distinct [OF assms(1)]] assms(3,4) by metis

lemma waiting_delete_row:
  assumes "tablet_ok t" and "(k, e) \<in> set (rows (outbox t))" and "outbox t' = delete_row k (outbox t)"
  shows "waiting t' = waiting t - {ob_clientUuid e}"
proof (rule set_eqI)
  fix u
  have "u \<in> waiting t' \<longleftrightarrow> (\<exists>i a. (i, a) \<in> set (rows (outbox t)) \<and> i \<noteq> k \<and> u = ob_clientUuid a)"
    unfolding waiting_iff assms(3) set_delete_row by blast
  then show "u \<in> waiting t' \<longleftrightarrow> u \<in> waiting t - {ob_clientUuid e}"
    unfolding waiting_iff Diff_iff singleton_iff
    using uuid_key [OF tablet_okD(1) [OF assms(1)] tablet_okD(3) [OF assms(1)] _ assms(2)] by metis
qed

lemma held_delete_row:
  assumes "tablet_ok t" and "(k, e) \<in> set (rows (rejected t))" and "rejected t' = delete_row k (rejected t)"
  shows "held t' = held t - {ob_clientUuid e}"
proof (rule set_eqI)
  fix u
  have "u \<in> held t' \<longleftrightarrow> (\<exists>i a. (i, a) \<in> set (rows (rejected t)) \<and> i \<noteq> k \<and> u = ob_clientUuid a)"
    unfolding held_iff assms(3) set_delete_row by blast
  then show "u \<in> held t' \<longleftrightarrow> u \<in> held t - {ob_clientUuid e}"
    unfolding held_iff Diff_iff singleton_iff
    using uuid_key [OF tablet_okD(2) [OF assms(1)] tablet_okD(4) [OF assms(1)] _ assms(2)] by metis
qed

lemma get_row_delete_row:
  fixes tb :: "'a table"
  shows "get_row j (delete_row k tb) = (if j = k then None else get_row j tb)"
proof -
  have "map_of (filter (\<lambda>(i, r). i \<noteq> k) xs) j = (if j = k then None else map_of xs j)" for xs :: "(nat \<times> 'a) list"
    by (induction xs) auto
  then show ?thesis by (simp add: get_row_def delete_row_def delete_rows_def)
qed

lemma quarantine_moves:
  assumes "tablet_ok t" and e: "get_row k (outbox t) = Some e"
  shows "tablet_ok (quarantine k reason code now t)"
    and "waiting (quarantine k reason code now t) = waiting t - {ob_clientUuid e}"
    and "held (quarantine k reason code now t) = insert (ob_clientUuid e) (held t)"
proof -
  note ok = tablet_okD [OF assms(1)]
  let ?t = "quarantine k reason code now t" and ?h = "held_row k e reason code now"
  have t': "outbox ?t = delete_row k (outbox t)" "rejected ?t = add_row ?h (rejected t)"
    by (simp_all add: quarantine_def e)
  have ke: "(k, e) \<in> set (rows (outbox t))" using e get_row_iff [OF ok(1)] by blast
  show w: "waiting ?t = waiting t - {ob_clientUuid e}" by (rule waiting_delete_row [OF assms(1) ke t'(1)])
  show h: "held ?t = insert (ob_clientUuid e) (held t)" by (simp add: held_def t')
  have "ob_clientUuid e \<in> waiting t" using ke by (rule waitingI)
  then have new: "ob_clientUuid e \<notin> held t" using ok(5) by blast
  have taken: "rj_outboxId a \<noteq> Some k" if "(i, a) \<in> set (rows (rejected t))" for i a
    using places_freeD(2) [OF ok(6) that] e by auto
  have passed: "k < next_key (outbox t)" using ok(1) ke by (force simp: table_ok_def)
  show "tablet_ok ?t"
  proof
    show "table_ok (outbox ?t)" "table_ok (rejected ?t)" using ok(1,2) t' by auto
    show "one_each (set (rows (outbox ?t)))" by (rule one_each_mono [OF ok(3)]) (auto simp: t')
    show "one_each (set (rows (rejected ?t)))"
      unfolding t' set_add_row by (rule one_each_insert [OF ok(4)]) (use new heldI in \<open>metis held_row_fields(1)\<close>)
    show "waiting ?t \<inter> held ?t = {}" unfolding w h using ok(5) by auto
    show "places_free (set (rows (rejected ?t))) (outbox ?t)"
    proof (rule places_freeI)
      fix i a j b l assume a: "(i, a) \<in> set (rows (rejected ?t))" "rj_outboxId a = Some l"
      show "l < next_key (outbox ?t) \<and> get_row l (outbox ?t) = None"
        using a places_freeD(1,2) [OF ok(6)] passed by (auto simp: t' get_row_delete_row)
      assume "(j, b) \<in> set (rows (rejected ?t))" "rj_outboxId b = Some l"
      then show "i = j" using a places_freeD(3) [OF ok(6)] taken by (auto simp: t')
    qed
  qed
qed

lemma put_back_place:
  assumes "tablet_ok t" and a: "(j, a) \<in> set (rows (rejected t))"
  obtains ob k where "put_back a seq (outbox t) = Some ob" and "set (rows ob) = insert (k, backInQueue a seq) (set (rows (outbox t)))"
    and "table_ok ob" and "next_key (outbox t) \<le> next_key ob" and "rj_outboxId a = Some k \<or> k = next_key (outbox t)"
proof (cases "rj_outboxId a")
  case None
  then show ?thesis using that [of "add_row (backInQueue a seq) (outbox t)"] tablet_okD(1) [OF assms(1)] by (auto simp: put_back_def)
next
  case (Some k)
  have free: "get_row k (outbox t) = None" by (rule places_freeD(2) [OF tablet_okD(6) [OF assms(1)] a Some])
  then obtain ob where ob: "add_row_at k (backInQueue a seq) (outbox t) = Some ob" by (auto simp: add_row_at_def)
  then have "next_key (outbox t) \<le> next_key ob" using free by (auto simp: add_row_at_def)
  then show ?thesis using that [of ob k] Some ob tablet_okD(1) [OF assms(1)] set_add_row_at [OF ob] by (auto simp: put_back_def)
qed

lemma put_back_moves:
  assumes "tablet_ok t" and a: "(j, a) \<in> set (rows (rejected t))"
    and ob: "put_back a seq (outbox t) = Some ob" and t': "t' = t\<lparr>outbox := ob, rejected := delete_row j (rejected t)\<rparr>"
  shows "tablet_ok t'" and "waiting t' = insert (ob_clientUuid a) (waiting t)" and "held t' = held t - {ob_clientUuid a}"
proof -
  note ok = tablet_okD [OF assms(1)]
  obtain k where k: "set (rows ob) = insert (k, backInQueue a seq) (set (rows (outbox t)))"
      "table_ok ob" "next_key (outbox t) \<le> next_key ob" "rj_outboxId a = Some k \<or> k = next_key (outbox t)"
    using put_back_place [OF assms(1) a, of seq] ob by (metis option.inject)
  have o': "outbox t' = ob" "rejected t' = delete_row j (rejected t)" by (simp_all add: t')
  show w: "waiting t' = insert (ob_clientUuid a) (waiting t)" by (simp add: waiting_def k(1) o')
  show h: "held t' = held t - {ob_clientUuid a}" by (rule held_delete_row [OF assms(1) a o'(2)])
  have "ob_clientUuid a \<in> held t" using a by (rule heldI)
  then have new: "ob_clientUuid a \<notin> waiting t" using ok(5) by blast
  show "tablet_ok t'"
  proof
    show "table_ok (outbox t')" "table_ok (rejected t')" using ok(2) k(2) o' by auto
    show "one_each (set (rows (outbox t')))"
      unfolding o' k(1) by (rule one_each_insert [OF ok(3)]) (use new waitingI in \<open>metis backInQueue_fields(1)\<close>)
    show "one_each (set (rows (rejected t')))" by (rule one_each_mono [OF ok(4)]) (auto simp: o')
    show "waiting t' \<inter> held t' = {}" unfolding w h using ok(5) by auto
    show "places_free (set (rows (rejected t'))) (outbox t')"
    proof (rule places_freeI)
      fix i b l assume "(i, b) \<in> set (rows (rejected t'))" and l: "rj_outboxId b = Some l"
      then have b: "(i, b) \<in> set (rows (rejected t))" "i \<noteq> j" by (auto simp: o')
      note free = places_freeD [OF ok(6) b(1) l]
      have "l \<noteq> k" using k(4) free(1) free(3) [OF a] b(2) by auto
      then show "l < next_key (outbox t') \<and> get_row l (outbox t') = None"
        using free(1,2) k(3) by (auto simp: o' get_row_None k(1))
    next
      fix i b i' b' l assume "(i, b) \<in> set (rows (rejected t'))" "(i', b') \<in> set (rows (rejected t'))"
        and l: "rj_outboxId b = Some l" "rj_outboxId b' = Some l"
      then show "i = i'" using places_freeD(3) [OF ok(6) _ l(1) _ l(2)] by (auto simp: o')
    qed
  qed
qed

subsection \<open>A key of the queue is one row for ever\<close>

text \<open>What of a row never changes, and the rows that have a key of the queue or a place kept for them.\<close>

definition ident :: "'a outbox_row_scheme \<Rightarrow> string \<times> string \<times> bool" where
  "ident e = (ob_clientUuid e, ob_matchId e, isTap e)"

definition homes :: "tablet \<Rightarrow> (nat \<times> string \<times> string \<times> bool) set" where
  "homes t =
     {(k, ident a) | k a. (k, a) \<in> set (rows (outbox t))} \<union>
     {(k, ident a) | k j a. (j, a) \<in> set (rows (rejected t)) \<and> rj_outboxId a = Some k}"

lemma homesI:
  "(k, a) \<in> set (rows (outbox t)) \<Longrightarrow> (k, ident a) \<in> homes t"
  "(j, b) \<in> set (rows (rejected t)) \<Longrightarrow> rj_outboxId b = Some k \<Longrightarrow> (k, ident b) \<in> homes t"
  unfolding homes_def by blast+

lemma homesE:
  assumes "(k, x) \<in> homes t"
  obtains a where "(k, a) \<in> set (rows (outbox t))" and "x = ident a"
    | j b where "(j, b) \<in> set (rows (rejected t))" and "rj_outboxId b = Some k" and "x = ident b"
  using assms unfolding homes_def by blast

text \<open>An operation gives no key away that was given before.\<close>

definition grows :: "tablet \<Rightarrow> tablet \<Rightarrow> bool" where
  "grows t t' \<longleftrightarrow> next_key (outbox t) \<le> next_key (outbox t') \<and>
     (\<forall>k x. (k, x) \<in> homes t' \<longrightarrow> (k, x) \<in> homes t \<or> next_key (outbox t) \<le> k)"

lemma grows_refl [simp]: "grows t t"
  by (simp add: grows_def)

lemma grows_trans: "grows t t' \<Longrightarrow> grows t' t'' \<Longrightarrow> grows t t''"
  unfolding grows_def by (meson order_trans)

lemma grows_same: "outbox t' = outbox t \<Longrightarrow> rejected t' = rejected t \<Longrightarrow> grows t t'"
  by (simp add: grows_def homes_def)

lemma grows_fewer:
  assumes "outbox t' = delete_rows P (outbox t)" and "rejected t' = delete_rows Q (rejected t)"
  shows "grows t t'"
  unfolding grows_def
proof (intro conjI allI impI disjI1)
  fix k x assume "(k, x) \<in> homes t'"
  then show "(k, x) \<in> homes t" by (rule homesE) (use assms homesI in auto)
qed (simp add: assms(1))

lemma grows_add:
  assumes "outbox t' = add_row e (outbox t)" and "rejected t' = rejected t"
  shows "grows t t'"
  unfolding grows_def
proof (intro conjI allI impI)
  fix k x assume "(k, x) \<in> homes t'"
  then show "(k, x) \<in> homes t \<or> next_key (outbox t) \<le> k" by (rule homesE) (use assms homesI in auto)
qed (simp add: assms(1))

lemma grows_modify:
  assumes "outbox t' = modify_rows P f (outbox t)" and "rejected t' = rejected t" and same: "\<And>e. ident (f e) = ident e"
  shows "grows t t'"
  unfolding grows_def
proof (intro conjI allI impI disjI1)
  fix k x assume "(k, x) \<in> homes t'"
  then show "(k, x) \<in> homes t"
    by (rule homesE) (use assms(1,2) homesI same in \<open>auto simp: set_modify_rows split: if_splits\<close>)
qed (simp add: assms(1))

lemma ident_held [simp]: "ident (held_row k e r c now) = ident e" "ident (backInQueue a seq) = ident a"
  by (simp_all add: ident_def)

lemma grows_quarantine:
  assumes "table_ok (outbox t)"
  shows "grows t (quarantine k reason code now t)"
proof (cases "get_row k (outbox t)")
  case (Some e)
  then have e: "(k, e) \<in> set (rows (outbox t))" using get_row_iff [OF assms] by blast
  show ?thesis
    unfolding grows_def
  proof (intro conjI allI impI disjI1)
    fix i x assume "(i, x) \<in> homes (quarantine k reason code now t)"
    then show "(i, x) \<in> homes t" by (rule homesE) (use Some e homesI in \<open>auto simp: quarantine_def\<close>)
  qed (simp add: quarantine_def Some)
qed (simp add: quarantine_def)

lemma grows_put_back:
  assumes "tablet_ok t" and a: "(j, a) \<in> set (rows (rejected t))" and ob: "put_back a seq (outbox t) = Some ob"
    and t': "t' = t\<lparr>outbox := ob, rejected := delete_row j (rejected t)\<rparr>"
  shows "grows t t'"
proof -
  obtain k where k: "set (rows ob) = insert (k, backInQueue a seq) (set (rows (outbox t)))" "next_key (outbox t) \<le> next_key ob"
      "rj_outboxId a = Some k \<or> k = next_key (outbox t)"
    using put_back_place [OF assms(1) a, of seq] ob by (metis option.inject)
  show ?thesis
    unfolding grows_def
  proof (intro conjI allI impI)
    fix i x assume "(i, x) \<in> homes t'"
    then show "(i, x) \<in> homes t \<or> next_key (outbox t) \<le> i"
      by (rule homesE) (use k homesI a in \<open>auto simp: t'\<close>)
  qed (simp add: t' k(2))
qed

subsection \<open>A retry and an undo\<close>

text \<open>A retry never meets a taken place, and moves rows between the two tables only.\<close>

lemma requeue_entry_moves:
  assumes "tablet_ok t"
  obtains b t' where "requeueRejectedEntry k seq t = Some (b, t')" and "tablet_ok t'" and "waiting t' \<union> held t' = waiting t \<union> held t"
    and "set (rows (outbox t)) \<subseteq> set (rows (outbox t'))" and "synced t' = synced t" and "undone t' = undone t"
    and "grows t t'" and "set (rows (rejected t')) \<subseteq> set (rows (rejected t))"
proof (cases "get_row k (rejected t)")
  case None
  then show ?thesis using that [of False t] assms by (simp add: requeueRejectedEntry_def)
next
  case (Some a)
  then have a: "(k, a) \<in> set (rows (rejected t))" using get_row_iff [OF tablet_okD(2) [OF assms]] by blast
  obtain ob where ob: "put_back a seq (outbox t) = Some ob" using put_back_place [OF assms a] by metis
  note moves = put_back_moves [OF assms a ob refl]
  have "set (rows (outbox t)) \<subseteq> set (rows ob)" using put_back_place [OF assms a, of seq] ob by (metis option.inject subset_insertI)
  moreover have "ob_clientUuid a \<in> held t" by (rule heldI [OF a])
  ultimately show ?thesis
    using that [of True "t\<lparr>outbox := ob, rejected := delete_row k (rejected t)\<rparr>"] moves Some ob grows_put_back [OF assms a ob refl]
    by (auto simp: requeueRejectedEntry_def)
qed

lemma requeue_each_moves:
  assumes "tablet_ok t" and "\<And>k e e'. (k, e) \<in> set es \<Longrightarrow> get_row k (rejected t) = Some e' \<Longrightarrow> e' = e"
  obtains t' where "requeue_each nextByMatch es t = Some t'" and "tablet_ok t'" and "waiting t' \<union> held t' = waiting t \<union> held t"
    and "set (rows (outbox t)) \<subseteq> set (rows (outbox t'))" and "synced t' = synced t" and "undone t' = undone t"
    and "grows t t'" and "set (rows (rejected t')) \<subseteq> set (rows (rejected t))"
proof -
  have "\<exists>t'. requeue_each nextByMatch es t = Some t' \<and> tablet_ok t' \<and> waiting t' \<union> held t' = waiting t \<union> held t \<and>
      set (rows (outbox t)) \<subseteq> set (rows (outbox t')) \<and> synced t' = synced t \<and> undone t' = undone t \<and>
      grows t t' \<and> set (rows (rejected t')) \<subseteq> set (rows (rejected t))"
    using assms
  proof (induction nextByMatch es t rule: requeue_each.induct)
    case (2 nextByMatch k entry es t)
    show ?case
    proof (cases "get_row k (rejected t)")
      case None
      then show ?thesis using "2.IH"(1) [OF None "2.prems"(1) "2.prems"(2) [OF list.set_intros(2)]] by simp
    next
      case (Some a)
      then have "a = entry" using "2.prems"(2) [of k entry a] by simp
      then have a: "(k, entry) \<in> set (rows (rejected t))"
        using Some get_row_iff [OF tablet_okD(2) [OF "2.prems"(1)]] by blast
      let ?seq = "nextByMatch (ob_matchId entry)"
      obtain ob where ob: "put_back entry ?seq (outbox t) = Some ob" using put_back_place [OF "2.prems"(1) a] by metis
      define t1 where "t1 = t\<lparr>outbox := ob, rejected := delete_row k (rejected t)\<rparr>"
      define nx where "nx = (if isTap entry then nextByMatch else nextByMatch(ob_matchId entry := ?seq + 1))"
      note moves = put_back_moves [OF "2.prems"(1) a ob t1_def]
      have "set (rows (outbox t)) \<subseteq> set (rows ob)" using put_back_place [OF "2.prems"(1) a, of ?seq] ob by (metis option.inject subset_insertI)
      have "e' = e" if "(j, e) \<in> set es" "get_row j (rejected t1) = Some e'" for j e e'
        using that "2.prems" moves(1) by (auto simp: t1_def get_row_delete_row split: if_splits)
      then obtain t' where t': "requeue_each nx es t1 = Some t'" "tablet_ok t'" "waiting t' \<union> held t' = waiting t1 \<union> held t1"
          "set (rows (outbox t1)) \<subseteq> set (rows (outbox t'))" "synced t' = synced t1" "undone t' = undone t1"
          "grows t1 t'" "set (rows (rejected t')) \<subseteq> set (rows (rejected t1))"
        using "2.IH"(2) [OF _ refl ob, folded t1_def, folded nx_def] Some moves(1) by auto
      moreover note \<open>set (rows (outbox t)) \<subseteq> set (rows ob)\<close>
      moreover have "ob_clientUuid entry \<in> held t" by (rule heldI [OF a])
      moreover have "grows t t'" by (rule grows_trans [OF grows_put_back [OF "2.prems"(1) a ob t1_def] t'(7)])
      ultimately show ?thesis
        using Some ob moves(2,3) by (auto simp: t1_def nx_def)
    qed
  qed auto
  then show ?thesis using that by blast
qed

lemma curable_listed: "tablet_ok t \<Longrightarrow> (k, e) \<in> set (curable t) \<Longrightarrow> get_row k (rejected t) = Some e' \<Longrightarrow> e' = e"
  using get_row_iff [OF tablet_okD(2)] eq_key_imp_eq_value [OF table_ok_distinct [OF tablet_okD(2)]]
  by (fastforce simp: curable_def)

text \<open>What the undo leaves: the entry is nowhere, or nothing changed.\<close>

lemma take_off_moves:
  assumes "tablet_ok t" and "takeOffTablet uuid matchId sending now t = (r, t')"
  shows "tablet_ok t'" and "synced t' = synced t" and "grows t t'" and "set (rows (rejected t')) \<subseteq> set (rows (rejected t))"
    and "r = Removed \<Longrightarrow> waiting t' = waiting t - {uuid} \<and> held t' = held t - {uuid}"
    and "r \<noteq> Removed \<Longrightarrow> t' = t"
    and "r = Removed \<Longrightarrow> sending = Some k \<Longrightarrow> get_row k (outbox t) = Some e \<Longrightarrow> ob_clientUuid e \<noteq> uuid"
    and "(k, e) \<in> set (rows (outbox t)) \<Longrightarrow> ob_clientUuid e \<noteq> uuid \<Longrightarrow> (k, e) \<in> set (rows (outbox t'))"
proof -
  note ok = tablet_okD [OF assms(1)]
  have "synced t' = synced t \<and> (r \<noteq> Removed \<longrightarrow> t' = t)"
  proof (cases "map_of (synced t) uuid")
    case None
    then show ?thesis
      using assms(2) by (cases "rows_where (\<lambda>e. ob_clientUuid e = uuid) (outbox t)") (auto simp: takeOffTablet_def split: if_splits)
  qed (use assms(2) in \<open>auto simp: takeOffTablet_def\<close>)
  then show same: "r \<noteq> Removed \<Longrightarrow> t' = t" and "synced t' = synced t" by blast+
  have queued: "(k, e) \<in> set (rows_where (\<lambda>e. ob_clientUuid e = uuid) (outbox t)) \<longleftrightarrow>
      (k, e) \<in> set (rows (outbox t)) \<and> ob_clientUuid e = uuid" for k e
    by (auto simp: rows_where_def)
  have moved: "(\<forall>(k, e) \<in> set (rows (outbox t)). ob_clientUuid e \<noteq> uuid \<longrightarrow> (k, e) \<in> set (rows (outbox t'))) \<and> tablet_ok t' \<and> grows t t' \<and> set (rows (rejected t')) \<subseteq> set (rows (rejected t)) \<and> waiting t' = waiting t - {uuid} \<and> held t' = held t - {uuid} \<and>
      (\<forall>k e. sending = Some k \<longrightarrow> get_row k (outbox t) = Some e \<longrightarrow> ob_clientUuid e \<noteq> uuid)" if "r = Removed"
  proof (cases "rows_where (\<lambda>e. ob_clientUuid e = uuid) (outbox t)")
    case Nil
    have t': "outbox t' = outbox t" "rejected t' = delete_rows (\<lambda>_ e. ob_clientUuid e = uuid) (rejected t)"
      using assms(2) that Nil by (auto simp: takeOffTablet_def Let_def split: option.splits)
    have "uuid \<notin> waiting t" using queued Nil by (auto simp: waiting_iff)
    moreover have "waiting t' = waiting t" by (simp add: waiting_def t'(1))
    moreover have "held t' = held t - {uuid}" unfolding held_def t'(2) by auto
    moreover have "tablet_ok t'" by (rule tablet_ok_remove [OF assms(1) _ t'(2), where P = "\<lambda>_ _. False"]) (simp add: t'(1))
    moreover have "grows t t'" by (rule grows_fewer [OF _ t'(2), where P = "\<lambda>_ _. False"]) (simp add: t'(1))
    moreover have "set (rows (rejected t')) \<subseteq> set (rows (rejected t))" by (auto simp: t'(2))
    moreover have "ob_clientUuid e \<noteq> uuid" if "get_row k (outbox t) = Some e" for k e
      using waitingI [of k e t] that get_row_iff [OF ok(1)] calculation(1) by metis
    ultimately show ?thesis using t'(1) by auto
  next
    case (Cons x xs)
    obtain k e where x: "x = (k, e)" by fastforce
    have t': "outbox t' = delete_row k (outbox t)" "rejected t' = rejected t" "sending \<noteq> Some k"
      using assms(2) that Cons x by (auto simp: takeOffTablet_def Let_def split: option.splits if_splits)
    have e: "(k, e) \<in> set (rows (outbox t))" "ob_clientUuid e = uuid" using queued [of k e] Cons x by auto
    have "uuid \<notin> held t" using waitingI [OF e(1)] ok(5) e(2) by blast
    moreover have "waiting t' = waiting t - {uuid}" using waiting_delete_row [OF assms(1) e(1) t'(1)] e(2) by simp
    moreover have "held t' = held t" by (simp add: held_def t'(2))
    moreover have "(i, a) \<in> set (rows (outbox t'))" if "(i, a) \<in> set (rows (outbox t))" "ob_clientUuid a \<noteq> uuid" for i a
      using uuid_key [OF ok(1) ok(3) that(1) e(1)] that e(2) by (simp add: t'(1))
    moreover have "tablet_ok t'"
      by (rule tablet_ok_remove [OF assms(1), where P = "\<lambda>i _. i = k" and Q = "\<lambda>_ _. False"]) (simp_all add: t' delete_row_def)
    moreover have "grows t t'"
      by (rule grows_fewer [where P = "\<lambda>i _. i = k" and Q = "\<lambda>_ _. False"]) (simp_all add: t' delete_row_def)
    moreover have "ob_clientUuid a \<noteq> uuid" if "sending = Some j" "get_row j (outbox t) = Some a" for j a
      using uuid_key [OF ok(1) ok(3), of j a k e] that t'(3) e get_row_iff [OF ok(1)] by auto
    ultimately show ?thesis using t'(2) by auto
  qed
  then show "r = Removed \<Longrightarrow> waiting t' = waiting t - {uuid} \<and> held t' = held t - {uuid}"
    and "r = Removed \<Longrightarrow> sending = Some k \<Longrightarrow> get_row k (outbox t) = Some e \<Longrightarrow> ob_clientUuid e \<noteq> uuid" by blast+
  show "(k, e) \<in> set (rows (outbox t)) \<Longrightarrow> ob_clientUuid e \<noteq> uuid \<Longrightarrow> (k, e) \<in> set (rows (outbox t'))"
    using moved same by (cases r; auto)
  show "tablet_ok t'" "grows t t'" "set (rows (rejected t')) \<subseteq> set (rows (rejected t))" using moved same assms(1) by (cases r; auto)+
qed

lemma take_off_fewer:
  assumes "takeOffTablet uuid matchId sending now t = (r, t')"
  shows "set (rows (outbox t')) \<subseteq> set (rows (outbox t))"
proof (cases "map_of (synced t) uuid")
  case None
  then show ?thesis
    using assms by (cases "rows_where (\<lambda>e. ob_clientUuid e = uuid) (outbox t)") (auto simp: takeOffTablet_def Let_def split: if_splits)
qed (use assms in \<open>auto simp: takeOffTablet_def Let_def\<close>)

subsection \<open>An entry goes to the end, and a retried one to its place\<close>

lemma greatest_ge: "n \<in> set ns \<Longrightarrow> n \<le> greatest ns"
proof -
  have "m \<le> foldl max m ns \<and> (\<forall>n \<in> set ns. n \<le> foldl max m ns)" for m
  proof (induction ns arbitrary: m)
    case (Cons a ns)
    show ?case using Cons.IH [of "max m a"] by auto
  qed simp
  then show "n \<in> set ns \<Longrightarrow> n \<le> greatest ns" unfolding greatest_def by blast
qed

lemma nextSequence_above:
  shows "(k, e) \<in> set (rows (outbox t)) \<Longrightarrow> ob_matchId e = m \<Longrightarrow> ob_sequence e < nextSequence m t"
    and "(u, s) \<in> set (synced t) \<Longrightarrow> sy_matchId s = m \<Longrightarrow> sy_sequence s < nextSequence m t"
proof -
  let ?o = "map (ob_sequence \<circ> snd) (rows_where (\<lambda>e. ob_matchId e = m) (outbox t))"
  let ?s = "map (sy_sequence \<circ> snd) (filter (\<lambda>(_, e). sy_matchId e = m) (synced t))"
  have next': "nextSequence m t = max (greatest ?o) (greatest ?s) + 1" by (simp add: nextSequence_def Let_def)
  show "ob_sequence e < nextSequence m t" if "(k, e) \<in> set (rows (outbox t))" "ob_matchId e = m"
    using greatest_ge [of "ob_sequence e" ?o] that unfolding next' by (force simp: rows_where_def)
  show "sy_sequence s < nextSequence m t" if "(u, s) \<in> set (synced t)" "sy_matchId s = m"
    using greatest_ge [of "sy_sequence s" ?s] that unfolding next' by force
qed

lemma open_round_covers:
  "or_else (ob_round entry) 0 \<le> openRoundFor entry t"
  "(k, row) \<in> set (rows (outbox t)) \<Longrightarrow> ob_matchId row = ob_matchId entry \<Longrightarrow> kindOf row = RoundKind \<Longrightarrow>
     ob_roundAction row = Some AdvanceRound \<Longrightarrow> or_else (ob_round row) 0 \<le> openRoundFor entry t"
  unfolding openRoundFor_def by (auto intro!: greatest_ge) (force simp: opened_rounds_def rows_where_def)

lemma insert_deleted:
  assumes "sorted_wrt (<) (map fst xs)" and "(k::nat, e) \<in> set xs"
  shows "takeWhile (\<lambda>(i, _). i < k) (filter (\<lambda>(i, _). i \<noteq> k) xs) @ (k, r) # dropWhile (\<lambda>(i, _). i < k) (filter (\<lambda>(i, _). i \<noteq> k) xs) =
    map (\<lambda>(i, a). (i, if i = k then r else a)) xs"
  using assms
proof (induction xs)
  case (Cons x xs)
  obtain i a where x: "x = (i, a)" by fastforce
  show ?case
  proof (cases "i = k")
    case True
    have above: "k < fst y" if "y \<in> set xs" for y using Cons.prems(1) that True x by auto
    have "filter (\<lambda>(i, _). i \<noteq> k) xs = xs" using above by (force simp: filter_id_conv)
    moreover have "takeWhile (\<lambda>(i, _). i < k) xs = [] \<and> dropWhile (\<lambda>(i, _). i < k) xs = xs"
      using above by (cases xs) force+
    moreover have "map (\<lambda>(i, a). (i, if i = k then r else a)) xs = xs" using above by (intro map_idI) force
    ultimately show ?thesis using True x by simp
  next
    case False
    then have "(k, e) \<in> set xs" using Cons.prems(2) x by simp
    moreover from this have "i < k" using Cons.prems(1) x by force
    ultimately show ?thesis using Cons x False by simp
  qed
qed simp

text \<open>A row put back: a press as it was, a hit or a card with a new sequence; its failures are forgotten.\<close>

definition retried :: "nat \<Rightarrow> outbox_row \<Rightarrow> outbox_row" where
  "retried seq e = e\<lparr>ob_attempts := 0, ob_lastError := None, ob_sequence := (if isTap e then ob_sequence e else seq)\<rparr>"

lemma retried_fields [simp]:
  "ob_matchId (retried seq e) = ob_matchId e" "isTap (retried seq e) = isTap e" "ob_clientUuid (retried seq e) = ob_clientUuid e"
  by (simp_all add: retried_def isTap_def kindOf_def)

lemma back_in_queue_held: "backInQueue (held_row k e reason code now) seq = retried seq e"
  by (cases e) (simp add: backInQueue_def held_row_def retried_def isTap_def kindOf_def outbox_row.defs rejected_row.defs)

text \<open>
  A row the server refused and the referee sends again is where it was. Holding a row and
  putting it back leaves the queue with the same rows in the same order; only the row itself
  is renewed: its failures are forgotten, and a hit or a card, but no press, takes the new
  sequence. The inbox is as it was.
\<close>

lemma retry_restores_the_place:
  assumes "tablet_ok t" and "get_row k (outbox t) = Some e"
  shows "requeueRejectedEntry (next_key (rejected t)) seq (quarantine k reason code now t) =
    Some (True, t\<lparr>outbox := modify_rows (\<lambda>i _. i = k) (retried seq) (outbox t),
                  rejected := (rejected t)\<lparr>next_key := Suc (next_key (rejected t))\<rparr>\<rparr>)"
proof -
  note ok = tablet_okD [OF assms(1)]
  let ?h = "held_row k e reason code now" and ?n = "next_key (rejected t)" and ?q = "quarantine k reason code now t"
  have ke: "(k, e) \<in> set (rows (outbox t))" using assms(2) get_row_iff [OF ok(1)] by blast
  have q: "?q = t\<lparr>rejected := add_row ?h (rejected t), outbox := delete_row k (outbox t)\<rparr>" by (simp add: quarantine_def assms(2))
  have "(?n, ?h) \<in> set (rows (add_row ?h (rejected t)))" by simp
  then have held: "get_row ?n (rejected ?q) = Some ?h" using get_row_iff [OF table_ok_add [OF ok(2)]] unfolding q by simp
  have "k < next_key (outbox t)" using ok(1) ke by (force simp: table_ok_def)
  then have putb: "put_back ?h seq (outbox ?q) = Some (modify_rows (\<lambda>i _. i = k) (\<lambda>_. retried seq e) (outbox t))"
    using insert_deleted [of "rows (outbox t)" k e] ke ok(1) get_row_delete_row [of k k "outbox t", unfolded delete_row_def delete_rows_def]
    by (simp add: put_back_def add_row_at_def get_row_delete_row q back_in_queue_held modify_rows_def delete_row_def delete_rows_def table_ok_def max_def)
  have same: "modify_rows (\<lambda>i _. i = k) (\<lambda>_. retried seq e) (outbox t) = modify_rows (\<lambda>i _. i = k) (retried seq) (outbox t)"
  proof -
    have "map (\<lambda>(i, a). (i, if i = k then retried seq e else a)) (rows (outbox t)) =
        map (\<lambda>(i, a). (i, if i = k then retried seq a else a)) (rows (outbox t))"
      by (rule map_cong) (use eq_key_imp_eq_value [OF table_ok_distinct [OF ok(1)] ke] in auto)
    then show ?thesis by (simp add: modify_rows_def)
  qed
  have "filter (\<lambda>(i, r). i \<noteq> ?n) (rows (rejected t)) = rows (rejected t)" using ok(2) by (force simp: table_ok_def filter_id_conv)
  then have "delete_row ?n (rejected ?q) = (rejected t)\<lparr>next_key := Suc ?n\<rparr>"
    by (simp add: q delete_row_def delete_rows_def add_row_def)
  then show ?thesis using held putb same by (simp add: requeueRejectedEntry_def) (simp add: q)
qed

definition sample_row :: "nat \<Rightarrow> outbox_row" where
  "sample_row n =
     \<lparr>ob_kind = None, ob_clientUuid = show_nat n, ob_matchId = ''m'', ob_sequence = n, ob_occurredAt = [],
      ob_sheet = \<lparr>es_type = None, es_firstStrikerColor = None, es_firstStrikeValue = None, es_afterblowValue = None,
        es_noExchangeReason = None, es_registrationId = None, es_rulesetEntryId = None, es_directCard = None, es_reason = None,
        es_cardedColor = None, es_cardName = None, es_bout = None, es_endScore = None, es_clockTimeMs = None\<rparr>,
      ob_pressAction = None, ob_pressedPerf = None, ob_pressOrigin = None, ob_startedUnder = None, ob_startNetwork = None,
      ob_roundAction = None, ob_round = None, ob_level = None, ob_createdAt = int n, ob_attempts = 2, ob_lastError = Some ''500''\<rparr>"

lemma sample_uuid [simp]: "ob_clientUuid (sample_row n) = show_nat n"
  by (simp add: sample_row_def)

definition sample_tablet :: tablet where
  "sample_tablet = empty_tablet\<lparr>outbox := add_row (sample_row 2) (add_row (sample_row 1) empty_table)\<rparr>"

lemma sample_ok: "tablet_ok sample_tablet"
proof -
  have "tablet_ok empty_tablet"
    by (intro tablet_okI one_eachI places_freeI) (simp_all add: empty_tablet_def waiting_def)
  then have one: "tablet_ok (empty_tablet\<lparr>outbox := add_row (sample_row 1) empty_table\<rparr>)"
    by (rule tablet_ok_add(1) [where e = "sample_row 1"]) (simp_all add: empty_tablet_def waiting_def held_def)
  then show ?thesis
    unfolding sample_tablet_def
    by (rule tablet_ok_add(1) [where e = "sample_row 2"]) (simp_all add: empty_tablet_def waiting_def held_def)
qed

end
