(* ===== verification/Offline_Sync.thy ===== *)
theory Offline_Sync
  imports Offline_Store
begin

section \<open>The queue of the scoring tablet: how it is sent\<close>

text \<open>
  \<open>apps/web-staff/src/offline\<close>: \<open>failure-kind.ts\<close> and \<open>caller-refusal.ts\<close> (what an answer says),
  \<open>press-send.ts\<close> (the order of the rows of a bout), \<open>sync.ts\<close> (the engine that sends the queue)
  and \<open>take-back.ts\<close>. The server is not modelled: its answers are arguments.
\<close>

subsection \<open>Answers\<close>

record failure_body =
  fb_message :: "string option"
  fb_error :: "string option"
  fb_code :: "string option"

text \<open>
  An answer of the server, with what its body says; \<open>an_unreadable\<close> is the error of reading a
  body that is no JSON.
\<close>

record answer =
  an_status :: nat
  an_body :: failure_body
  an_id :: "string option"
  an_unreadable :: "string option"

text \<open>What became of a request: it threw (there is no network), or it was answered.\<close>

datatype net = Threw string | Answered answer

definition no_body :: failure_body where
  "no_body = \<lparr>fb_message = None, fb_error = None, fb_code = None\<rparr>"

definition body_of :: "answer \<Rightarrow> failure_body" where
  "body_of res = (if an_unreadable res = None then an_body res else no_body)"

definition res_ok :: "answer \<Rightarrow> bool" where
  "res_ok res \<longleftrightarrow> 200 \<le> an_status res \<and> an_status res \<le> 299"

definition http :: "nat \<Rightarrow> string" where
  "http n = ''HTTP '' @ show_nat n"

datatype failure_kind = NetworkGone | ReadOnly | ServerRefused

definition classifySyncFailure :: "nat \<Rightarrow> failure_body \<Rightarrow> failure_kind" where
  "classifySyncFailure st body =
     (if fb_error body = Some ''offline'' then NetworkGone
      else if fb_code body = Some ''read_only_mode'' then ReadOnly
      else if st = 0 \<or> st = 503 then NetworkGone
      else ServerRefused)"

definition isMadeUpAnswer :: "answer \<Rightarrow> bool" where
  "isMadeUpAnswer res = (if an_status res \<noteq> 503 then False else fb_error (body_of res) = Some ''offline'')"

definition offlineResponse :: answer where
  "offlineResponse =
     \<lparr>an_status = 503, an_body = \<lparr>fb_message = None, fb_error = Some ''offline'', fb_code = Some ''offline''\<rparr>,
      an_id = None, an_unreadable = None\<rparr>"

datatype caller_refusal = AccountRefused | PinDisabled | PinRoleRefused

definition callerRefusalOf :: "string option \<Rightarrow> caller_refusal option" where
  "callerRefusalOf code =
     (case code of
        None \<Rightarrow> None
      | Some c \<Rightarrow> map_of [(''account_cannot_score'', AccountRefused), (''staff_account_disabled'', PinDisabled),
                          (''staff_role_not_allowed'', PinRoleRefused)] c)"

definition CLOCK_ROW_COLLIDED :: string where
  "CLOCK_ROW_COLLIDED = ''clock_row_collided''"

definition REFUSALS :: "nat list" where
  "REFUSALS = [409, 403, 401]"

subsection \<open>The order of the rows of a bout\<close>

datatype unsent = NotTaken | NoAnswer

datatype waits = BehindHeld | BehindUnsent unsent

text \<open>\<open>held\<close> are the bouts that hold a refused row, \<open>unsent\<close> what the pass could not send of a bout: whether it was a press.\<close>

record bout_order =
  bo_held :: "string list"
  bo_unsent :: "string \<Rightarrow> (bool \<times> unsent) option"

definition BoutOrder :: "string list \<Rightarrow> bout_order" where
  "BoutOrder h = \<lparr>bo_held = h, bo_unsent = (\<lambda>_. None)\<rparr>"

definition waits_of :: "bout_order \<Rightarrow> outbox_row \<Rightarrow> waits option" where
  "waits_of order entry =
     (if ob_matchId entry \<in> set (bo_held order) then Some BehindHeld
      else case bo_unsent order (ob_matchId entry) of
        None \<Rightarrow> None
      | Some (press, outcome) \<Rightarrow> if press \<or> isTap entry then Some (BehindUnsent outcome) else None)"

datatype filed = Sent | Held | Unsent unsent | Stopped

definition note_outcome :: "bout_order \<Rightarrow> outbox_row \<Rightarrow> filed \<Rightarrow> bout_order" where
  "note_outcome order entry outcome =
     (case outcome of
        Held \<Rightarrow> order\<lparr>bo_held := ob_matchId entry # bo_held order\<rparr>
      | Unsent u \<Rightarrow>
          (let before = bo_unsent order (ob_matchId entry);
               press = (isTap entry \<or> (case before of None \<Rightarrow> False | Some (p, _) \<Rightarrow> p))
           in order\<lparr>bo_unsent := (bo_unsent order)(ob_matchId entry \<mapsto> (press, u))\<rparr>)
      | _ \<Rightarrow> order)"

subsection \<open>What an answer does to a row\<close>

datatype sync_status = SIdle | SSyncing | SOffline | SMaintenance | SError | SSignedOut | SRefused caller_refusal

text \<open>
  How the answer to the send of a row is filed: the server took the row, the row is held, it
  stays in the queue (the server did not take it, there was no network, or the send threw), or
  the send ends and the row waits with no attempt counted.
\<close>

datatype filing =
    FileSynced nat string
  | FilePress
  | FileHeld string "string option"
  | FileUnsent unsent string
  | FileThrew string
  | FileStopped bool sync_status

definition fileUnanswered :: "answer \<Rightarrow> filing" where
  "fileUnanswered res =
     (let body = body_of res in
      case classifySyncFailure (an_status res) body of
        ReadOnly \<Rightarrow> FileStopped False SMaintenance
      | NetworkGone \<Rightarrow> FileUnsent NoAnswer (or_else (fb_message body) ''offline'')
      | ServerRefused \<Rightarrow> FileUnsent NotTaken (or_else (fb_message body) ''server''))"

definition answerRefusal :: "answer \<Rightarrow> filing" where
  "answerRefusal res =
     (if an_status res = 401 then FileStopped True SSignedOut
      else let body = body_of res in
        case (if an_status res = 403 then callerRefusalOf (fb_code body) else None) of
          Some caller \<Rightarrow> FileStopped False (SRefused caller)
        | None \<Rightarrow>
            if an_status res = 403 \<and> or_else (fb_code body) [] = [] then FileUnsent NotTaken (http (an_status res))
            else if fb_code body = Some CLOCK_ROW_COLLIDED then FileUnsent NotTaken CLOCK_ROW_COLLIDED
            else FileHeld (or_else (fb_message body) (http (an_status res))) (fb_code body))"

text \<open>The read of a list of the server: its answer, and the highest sequence in it.\<close>

record reading =
  rd_answer :: net
  rd_max :: nat

text \<open>Everything the server may be asked while one row is sent.\<close>

record talk =
  tk_first :: net
  tk_exchanges :: reading
  tk_penalties :: reading
  tk_second :: net

datatype fresh = FreshSequence nat | FreshUnanswered answer | FreshThrew string

definition freshSequence :: "talk \<Rightarrow> string \<Rightarrow> tablet \<Rightarrow> fresh" where
  "freshSequence tk matchId t =
     (case rd_answer (tk_exchanges tk) of
        Threw err \<Rightarrow> FreshThrew err
      | Answered exchanges \<Rightarrow>
          (case rd_answer (tk_penalties tk) of
             Threw err \<Rightarrow> FreshThrew err
           | Answered penalties \<Rightarrow>
               if \<not> res_ok exchanges then FreshUnanswered exchanges
               else (let serverMax = max (rd_max (tk_exchanges tk)) (if res_ok penalties then rd_max (tk_penalties tk) else 0)
                     in FreshSequence (max (serverMax + 1) (nextSequence matchId t)))))"

datatype second_try = Taken nat string | Refused answer | Unanswered answer | AgainBad | SecondThrew string

definition retryWithFreshSequence :: "talk \<Rightarrow> outbox_row \<Rightarrow> tablet \<Rightarrow> second_try" where
  "retryWithFreshSequence tk entry t =
     (case freshSequence tk (ob_matchId entry) t of
        FreshThrew err \<Rightarrow> SecondThrew err
      | FreshUnanswered res \<Rightarrow> Unanswered res
      | FreshSequence seq \<Rightarrow>
          (case tk_second tk of
             Threw err \<Rightarrow> SecondThrew err
           | Answered res \<Rightarrow>
               if an_status res \<in> set REFUSALS then Refused res
               else if an_status res = 400 then AgainBad
               else if \<not> res_ok res then Unanswered res
               else Taken seq (if an_unreadable res = None then or_else (an_id res) (ob_clientUuid entry) else ob_clientUuid entry)))"

definition answerBadRequest :: "talk \<Rightarrow> outbox_row \<Rightarrow> answer \<Rightarrow> tablet \<Rightarrow> filing" where
  "answerBadRequest tk entry res t =
     (let body = body_of res;
          heldIt = FileHeld (or_else (fb_message body) (http (an_status res))) (fb_code body)
      in if isTap entry then heldIt
         else case retryWithFreshSequence tk entry t of
           Refused r \<Rightarrow> answerRefusal r
         | Unanswered r \<Rightarrow> fileUnanswered r
         | Taken seq serverId \<Rightarrow> FileSynced seq serverId
         | AgainBad \<Rightarrow> heldIt
         | SecondThrew err \<Rightarrow> FileThrew err)"

definition filing_of :: "talk \<Rightarrow> outbox_row \<Rightarrow> tablet \<Rightarrow> filing" where
  "filing_of tk entry t =
     (case tk_first tk of
        Threw err \<Rightarrow> FileThrew err
      | Answered res \<Rightarrow>
          if res_ok res \<and> isTap entry then FilePress
          else if res_ok res then
            (case an_unreadable res of
               None \<Rightarrow> FileSynced (ob_sequence entry) (or_else (an_id res) [])
             | Some err \<Rightarrow> FileThrew err)
          else if an_status res = 400 then answerBadRequest tk entry res t
          else if an_status res \<in> set REFUSALS then answerRefusal res
          else fileUnanswered res)"

text \<open>The transaction that files it, and the outcome.\<close>

definition file_entry :: "filing \<Rightarrow> nat \<Rightarrow> outbox_row \<Rightarrow> int \<Rightarrow> tablet \<Rightarrow> tablet" where
  "file_entry fl k entry now t =
     (case fl of
        FileSynced seq serverId \<Rightarrow> markSynced k (ob_clientUuid entry) (ob_matchId entry) seq serverId now t
      | FilePress \<Rightarrow> dropSentPress k t
      | FileHeld reason code \<Rightarrow> quarantine k reason code now t
      | FileUnsent _ err \<Rightarrow> markFailed k err t
      | FileThrew err \<Rightarrow> markFailed k err t
      | FileStopped _ _ \<Rightarrow> t)"

definition filed_as :: "filing \<Rightarrow> filed" where
  "filed_as fl =
     (case fl of
        FileSynced _ _ \<Rightarrow> Sent | FilePress \<Rightarrow> Sent | FileHeld _ _ \<Rightarrow> Held
      | FileUnsent u _ \<Rightarrow> Unsent u | FileThrew _ \<Rightarrow> Unsent NoAnswer | FileStopped _ _ \<Rightarrow> Stopped)"

subsection \<open>One pass of the queue\<close>

record sync_state =
  ss_status :: sync_status
  ss_pendingCount :: nat
  ss_rejectedCount :: nat
  ss_sendableCount :: nat
  ss_heldPressCount :: nat
  ss_freeCount :: nat
  ss_lastError :: "string option"

text \<open>The engine with the store it works on; \<open>en_shown\<close> is the state it last told its listeners.\<close>

record engine =
  en_tablet :: tablet
  en_pressRefused :: "caller_refusal option"
  en_resting :: sync_status
  en_shown :: sync_state
  en_metFault :: bool
  en_metNoNetwork :: bool
  en_metAnswer :: bool
  en_listedStarts :: "nat list"
  en_sessionEndedTold :: bool

definition emit :: "sync_status \<Rightarrow> string option \<Rightarrow> engine \<Rightarrow> engine" where
  "emit calm lastError e =
     (let st = (if calm = SIdle then (case en_pressRefused e of None \<Rightarrow> calm | Some c \<Rightarrow> SRefused c) else calm);
          t = en_tablet e;
          held = rows (rejected t);
          outranked = (st = SIdle \<or> st = SSyncing)
      in e\<lparr>en_resting := st,
           en_shown :=
             \<lparr>ss_status = (if length held > 0 \<and> outranked then SError else st),
              ss_pendingCount = totalPendingCount t,
              ss_rejectedCount = length held,
              ss_sendableCount = length (filter (\<lambda>(_, r). canSendAgain r) held),
              ss_heldPressCount = length (filter (\<lambda>(_, r). isTap r) held),
              ss_freeCount = (if length held > 0 then freeToSend t else totalPendingCount t),
              ss_lastError = lastError\<rparr>\<rparr>)"

definition emitResting :: "engine \<Rightarrow> engine" where
  "emitResting e = emit (if totalPendingCount (en_tablet e) > 0 then en_resting e else SIdle) None e"

definition judge :: "start_network \<Rightarrow> nat list option \<Rightarrow> engine \<Rightarrow> engine" where
  "judge verdict ids e = e\<lparr>en_tablet := judgeStarts verdict ids (en_tablet e)\<rparr>"

definition judgeByAnswer :: "nat \<Rightarrow> outbox_row \<Rightarrow> answer \<Rightarrow> engine \<Rightarrow> engine" where
  "judgeByAnswer k entry res e =
     (if isMadeUpAnswer res then
        (if \<not> en_metAnswer e \<and> ob_pressAction entry = Some PStart then judge NoNetwork (Some [k]) e else e)
      else if en_metAnswer e then e
      else judge Seen (Some (en_listedStarts e)) (e\<lparr>en_metAnswer := True\<rparr>))"

text \<open>The network is judged by the first answer, and by a throw before any.\<close>

definition judged :: "talk \<Rightarrow> nat \<Rightarrow> outbox_row \<Rightarrow> engine \<Rightarrow> engine" where
  "judged tk k entry e =
     (case tk_first tk of
        Answered res \<Rightarrow> judgeByAnswer k entry res e
      | Threw _ \<Rightarrow>
          if \<not> en_metAnswer e \<and> ob_pressAction entry = Some PStart then judge NoNetwork (Some [k]) e else e)"

text \<open>What the engine says after it has filed an answer.\<close>

definition said_after :: "talk \<Rightarrow> filing \<Rightarrow> engine \<Rightarrow> engine" where
  "said_after tk fl e =
     (case fl of
        FileStopped signedOut st \<Rightarrow>
          emit st None (e\<lparr>en_sessionEndedTold := en_sessionEndedTold e \<or> signedOut \<and> holdsPress (en_tablet e)\<rparr>)
      | FileThrew _ \<Rightarrow> e
      | FileUnsent _ _ \<Rightarrow>
          (case tk_first tk of
             Answered res \<Rightarrow> if an_status res = 400 \<or> an_status res \<in> set REFUSALS then emit SSyncing None e else e
           | Threw _ \<Rightarrow> e)
      | FileHeld _ _ \<Rightarrow> emit SSyncing None e
      | _ \<Rightarrow> emit SSyncing None (e\<lparr>en_pressRefused := None\<rparr>))"

definition sendEntry :: "talk \<Rightarrow> int \<Rightarrow> nat \<Rightarrow> outbox_row \<Rightarrow> engine \<Rightarrow> filed \<times> engine" where
  "sendEntry tk now k entry e =
     (let e1 = judged tk k entry e;
          fl = filing_of tk entry (en_tablet e1)
      in (filed_as fl, said_after tk fl (e1\<lparr>en_tablet := file_entry fl k entry now (en_tablet e1)\<rparr>)))"

definition maxConsecutiveFailures :: nat where
  "maxConsecutiveFailures = 3"

datatype pass_result = PEmpty | PWalked | PStopped

text \<open>
  After a row: what the pass has met, and whether it goes on. A row that waits behind a fault
  of its own bout does not count as a failure. (The message of \<open>give_up\<close> ends before the dash of
  the code, a character outside the type.)
\<close>

definition met :: "filed \<Rightarrow> engine \<Rightarrow> engine" where
  "met outcome e = e\<lparr>en_metFault := en_metFault e \<or> outcome = Unsent NotTaken, en_metNoNetwork := en_metNoNetwork e \<or> outcome = Unsent NoAnswer\<rparr>"

definition failures_after :: "waits option \<Rightarrow> filed \<Rightarrow> nat \<Rightarrow> nat" where
  "failures_after waits outcome n =
     (if waits = Some (BehindUnsent NotTaken) then n
      else case outcome of Unsent _ \<Rightarrow> n + 1 | _ \<Rightarrow> 0)"

definition gives_up :: "waits option \<Rightarrow> nat \<Rightarrow> bool" where
  "gives_up waits failures \<longleftrightarrow> waits \<noteq> Some (BehindUnsent NotTaken) \<and> failures \<ge> maxConsecutiveFailures"

definition give_up :: "filed \<Rightarrow> engine \<Rightarrow> engine" where
  "give_up outcome e =
     (if outcome = Unsent NoAnswer then
        emit SOffline None (if \<not> en_metAnswer e then judge NoNetwork None e else e)
      else emit SError (Some ''Too many consecutive failures'') e)"

fun walk :: "(nat \<Rightarrow> talk) \<Rightarrow> int \<Rightarrow> bout_order \<Rightarrow> nat \<Rightarrow> (nat \<times> outbox_row) list \<Rightarrow> engine \<Rightarrow> pass_result \<times> engine" where
  "walk talks now order failures [] e = (PWalked, e)"
| "walk talks now order failures ((k, entry) # todo) e =
     (let waits = waits_of order entry;
          step = (\<lambda>outcome e1.
            let failures' = failures_after waits outcome failures;
                e2 = met outcome e1
            in if gives_up waits failures' then (PStopped, give_up outcome e2)
               else walk talks now (note_outcome order entry outcome) failures' todo e2)
      in case waits of
           Some BehindHeld \<Rightarrow> walk talks now order failures todo e
         | Some (BehindUnsent u) \<Rightarrow> step (Unsent u) e
         | None \<Rightarrow>
             if \<not> claimForSend k (en_tablet e) then walk talks now order failures todo e
             else (case sendEntry (talks k) now k entry e of
                     (Stopped, e1) \<Rightarrow> (PStopped, e1)
                   | (outcome, e1) \<Rightarrow> step outcome e1))"

definition sendPass :: "(nat \<Rightarrow> talk) \<Rightarrow> int \<Rightarrow> engine \<Rightarrow> pass_result \<times> engine" where
  "sendPass talks now e =
     (let pending = rows (outbox (en_tablet e));
          e0 = e\<lparr>en_metFault := False, en_metNoNetwork := False, en_metAnswer := False,
                 en_listedStarts := unjudgedStartsOf pending\<rparr>
      in if pending = [] then (PEmpty, e0)
         else (let e1 = emit SSyncing None e0
               in walk talks now (BoutOrder (boutsBehindHeldRow (en_tablet e1))) 0 pending e1))"

definition emitWalked :: "engine \<Rightarrow> engine" where
  "emitWalked e =
     (if totalPendingCount (en_tablet e) = 0 then emit SIdle None e
      else if en_metFault e then emit SError (Some ''Some exchanges could not be synced'') e
      else if en_metNoNetwork e \<or> rows (rejected (en_tablet e)) = [] then emit SOffline None e
      else emit SError (Some ''Some exchanges could not be synced'') e)"

text \<open>One pass, and one more for each send that was asked for meanwhile: the answers of each pass.\<close>

fun sendQueue :: "(nat \<Rightarrow> talk) \<Rightarrow> (nat \<Rightarrow> talk) list \<Rightarrow> int \<Rightarrow> engine \<Rightarrow> engine" where
  "sendQueue talks askedAgain now e =
     (case sendPass talks now e of (pass, e1) \<Rightarrow>
        let e2 = (if pass = PWalked \<and> en_metNoNetwork e1 \<and> \<not> en_metAnswer e1
                  then judge NoNetwork (Some (en_listedStarts e1)) e1 else e1)
        in if pass = PStopped then e2
           else case askedAgain of [] \<Rightarrow> emitWalked e2 | again # later \<Rightarrow> sendQueue again later now e2)"

declare sendQueue.simps [simp del]

subsection \<open>What the answers do\<close>

lemma refusals [simp]: "n \<in> set REFUSALS \<longleftrightarrow> n = 409 \<or> n = 403 \<or> n = 401"
  by (auto simp: REFUSALS_def)

lemma filed_simps [simp]:
  "filed_as (FileSynced n i) = Sent" "filed_as FilePress = Sent" "filed_as (FileHeld r c) = Held"
  "filed_as (FileUnsent u err) = Unsent u" "filed_as (FileThrew err) = Unsent NoAnswer" "filed_as (FileStopped b st) = Stopped"
  by (simp_all add: filed_as_def)

lemma answerRefusal_stays [simp]: "filed_as (answerRefusal res) \<noteq> Sent"
  by (simp add: answerRefusal_def Let_def split: option.splits)

lemma fileUnanswered_stays [simp]: "filed_as (fileUnanswered res) \<noteq> Sent" "filed_as (fileUnanswered res) \<noteq> Held"
  by (simp_all add: fileUnanswered_def Let_def split: failure_kind.splits)

text \<open>A refusal of the entry itself: of the bout, and with a word of why.\<close>

definition refused_for_good :: "answer \<Rightarrow> bool" where
  "refused_for_good res \<longleftrightarrow>
     fb_code (body_of res) \<noteq> Some CLOCK_ROW_COLLIDED \<and>
     (an_status res = 409 \<or>
      an_status res = 403 \<and> callerRefusalOf (fb_code (body_of res)) = None \<and> or_else (fb_code (body_of res)) [] \<noteq> [])"

lemma answerRefusal_held:
  "an_status res \<in> set REFUSALS \<Longrightarrow> filed_as (answerRefusal res) = Held \<longleftrightarrow> refused_for_good res"
  by (auto simp: answerRefusal_def refused_for_good_def Let_def split: option.splits)

text \<open>The answer to the second try, which is made when both lists of the server could be read.\<close>

definition second_answer :: "talk \<Rightarrow> answer \<Rightarrow> bool" where
  "second_answer tk res \<longleftrightarrow>
     (\<exists>x p. rd_answer (tk_exchanges tk) = Answered x \<and> res_ok x \<and> rd_answer (tk_penalties tk) = Answered p) \<and> tk_second tk = Answered res"

lemma second_answer_sequence:
  "second_answer tk res \<longleftrightarrow> (\<exists>seq. freshSequence tk m t = FreshSequence seq) \<and> tk_second tk = Answered res"
  by (simp add: second_answer_def freshSequence_def Let_def split: net.splits)

lemma ok_no_refusal: "res_ok r \<Longrightarrow> an_status r \<notin> set REFUSALS \<and> an_status r \<noteq> 400"
  by (auto simp: res_ok_def)

lemma bad_request_filed:
  shows "filed_as (answerBadRequest tk e res t) = Sent \<longleftrightarrow> \<not> isTap e \<and> (\<exists>r. second_answer tk r \<and> res_ok r)"
    and "filed_as (answerBadRequest tk e res t) = Held \<longleftrightarrow>
      isTap e \<or> (\<exists>r. second_answer tk r \<and> (an_status r = 400 \<or> refused_for_good r))"
proof -
  note second = second_answer_sequence [of tk _ "ob_matchId e" t]
  have not400: "400 \<notin> set REFUSALS" by (simp add: REFUSALS_def)
  have good: "an_status r \<in> set REFUSALS" if "refused_for_good r" for r using that by (auto simp: refused_for_good_def)
  have "(filed_as (answerBadRequest tk e res t) = Sent \<longleftrightarrow> \<not> isTap e \<and> (\<exists>r. second_answer tk r \<and> res_ok r)) \<and>
      (filed_as (answerBadRequest tk e res t) = Held \<longleftrightarrow>
        isTap e \<or> (\<exists>r. second_answer tk r \<and> (an_status r = 400 \<or> refused_for_good r)))"
  proof (cases "freshSequence tk (ob_matchId e) t")
    case (FreshSequence seq)
    show ?thesis
    proof (cases "tk_second tk")
      case (Answered r)
      then have "second_answer tk r' \<longleftrightarrow> r' = r" for r' unfolding second using FreshSequence by auto
      then show ?thesis
        using FreshSequence Answered answerRefusal_held [of r] ok_no_refusal [of r] good [of r] not400
        by (auto simp: answerBadRequest_def retryWithFreshSequence_def Let_def simp del: refusals)
    qed (use FreshSequence in \<open>simp add: answerBadRequest_def retryWithFreshSequence_def second Let_def\<close>)
  qed (simp_all add: answerBadRequest_def retryWithFreshSequence_def second Let_def)
  then show "filed_as (answerBadRequest tk e res t) = Sent \<longleftrightarrow> \<not> isTap e \<and> (\<exists>r. second_answer tk r \<and> res_ok r)"
    "filed_as (answerBadRequest tk e res t) = Held \<longleftrightarrow>
      isTap e \<or> (\<exists>r. second_answer tk r \<and> (an_status r = 400 \<or> refused_for_good r))" by blast+
qed

text \<open>
  Only the server's word moves an entry. An entry counts as sent exactly when its send was
  answered with a 2xx that can be read (a press needs no readable body), or when a hit or card
  refused with a 400 was sent a second time under a sequence the server's lists gave and that
  was answered with a 2xx. It goes to the inbox exactly when it was refused: by a 409 or a coded
  403 about the bout, or by a 400 that no other sequence cured. After anything else, a dead
  network included, it stays in the queue.
\<close>

lemma only_the_server_moves_a_row:
  "(filed_as (filing_of tk e t) = Sent \<longleftrightarrow>
     (\<exists>res. tk_first tk = Answered res \<and>
        (res_ok res \<and> (isTap e \<or> an_unreadable res = None) \<or>
         an_status res = 400 \<and> \<not> isTap e \<and> (\<exists>r. second_answer tk r \<and> res_ok r)))) \<and>
   (filed_as (filing_of tk e t) = Held \<longleftrightarrow>
     (\<exists>res. tk_first tk = Answered res \<and>
        (refused_for_good res \<or>
         an_status res = 400 \<and> (isTap e \<or> (\<exists>r. second_answer tk r \<and> (an_status r = 400 \<or> refused_for_good r)))))) \<and>
   (filed_as (filing_of tk e t) = Sent \<or> filed_as (filing_of tk e t) = Held \<or>
     map fst (rows (outbox (file_entry (filing_of tk e t) k e now t))) = map fst (rows (outbox t)))"
proof -
  have good: "an_status r \<in> set REFUSALS \<and> \<not> res_ok r \<and> an_status r \<noteq> 400" if "refused_for_good r" for r
    using that by (auto simp: refused_for_good_def res_ok_def)
  have "filed_as fl = Sent \<or> filed_as fl = Held \<or> map fst (rows (outbox (file_entry fl k e now t))) = map fst (rows (outbox t))" for fl
    by (cases fl) (simp_all add: file_entry_def markFailed_def)
  moreover have "(filed_as (filing_of tk e t) = Sent \<longleftrightarrow>
     (\<exists>res. tk_first tk = Answered res \<and>
        (res_ok res \<and> (isTap e \<or> an_unreadable res = None) \<or>
         an_status res = 400 \<and> \<not> isTap e \<and> (\<exists>r. second_answer tk r \<and> res_ok r)))) \<and>
   (filed_as (filing_of tk e t) = Held \<longleftrightarrow>
     (\<exists>res. tk_first tk = Answered res \<and>
        (refused_for_good res \<or>
         an_status res = 400 \<and> (isTap e \<or> (\<exists>r. second_answer tk r \<and> (an_status r = 400 \<or> refused_for_good r))))))"
  proof (cases "tk_first tk")
    case (Answered res)
    consider "res_ok res" | "an_status res = 400" | "an_status res \<in> set REFUSALS"
      | "\<not> res_ok res" "an_status res \<noteq> 400" "an_status res \<notin> set REFUSALS" by blast
    then show ?thesis
    proof cases
      case 1
      then show ?thesis
        using Answered ok_no_refusal [of res] good [of res] by (auto simp: filing_of_def split: option.splits)
    next
      case 2
      then have "\<not> res_ok res" using ok_no_refusal by blast
      then show ?thesis using Answered 2 bad_request_filed [of tk e res t] good [of res] by (auto simp: filing_of_def)
    next
      case 3
      then have "\<not> res_ok res" "an_status res \<noteq> 400" using ok_no_refusal by (blast, auto)
      then show ?thesis using Answered 3 answerRefusal_held [OF 3] by (simp add: filing_of_def del: refusals)
    next
      case 4
      then show ?thesis using Answered good [of res] by (auto simp: filing_of_def simp del: refusals)
    qed
  qed (simp add: filing_of_def)
  ultimately show ?thesis by blast
qed

end
