(* ===== verification/Offline_Drain.thy ===== *)
theory Offline_Drain
  imports Offline_Sync
begin

section \<open>The queue of the scoring tablet: a send that empties it\<close>

text \<open>
  The end of \<open>apps/web-staff/src/offline/sync.ts\<close>: what the operator does in the inbox of refused
  rows, each followed by a send where the code sends, and what a send does against a server that
  takes the rows.
\<close>

subsection \<open>A queue the server takes\<close>

text \<open>The server takes a row: it answers its send with a 2xx that can be read where it has to be.\<close>

definition taken_at_once :: "talk \<Rightarrow> outbox_row \<Rightarrow> bool" where
  "taken_at_once tk entry \<longleftrightarrow>
     (case tk_first tk of Threw _ \<Rightarrow> False | Answered res \<Rightarrow> res_ok res \<and> (isTap entry \<or> an_unreadable res = None))"

abbreviation queue_keys :: "engine \<Rightarrow> nat list" where
  "queue_keys e \<equiv> map fst (rows (outbox (en_tablet e)))"

abbreviation synced_ids :: "engine \<Rightarrow> string set" where
  "synced_ids e \<equiv> dom (map_of (synced (en_tablet e)))"

lemma emit_simps [simp]:
  "en_tablet (emit calm err e) = en_tablet e" "en_pressRefused (emit calm err e) = en_pressRefused e"
  by (simp_all add: emit_def Let_def)

lemma judge_simps [simp]:
  "queue_keys (judge v ids e) = queue_keys e" "rejected (en_tablet (judge v ids e)) = rejected (en_tablet e)"
  "synced (en_tablet (judge v ids e)) = synced (en_tablet e)" "en_pressRefused (judge v ids e) = en_pressRefused e"
  by (simp_all add: judge_def judgeStarts_def)

lemma judge_if:
  "queue_keys (if b then judge v ids e else e) = queue_keys e" "rejected (en_tablet (if b then judge v ids e else e)) = rejected (en_tablet e)"
  "synced (en_tablet (if b then judge v ids e else e)) = synced (en_tablet e)"
  "en_pressRefused (if b then judge v ids e else e) = en_pressRefused e"
  by (cases b; simp)+

lemma judged_simps [simp]:
  "queue_keys (judged tk k entry e) = queue_keys e" "rejected (en_tablet (judged tk k entry e)) = rejected (en_tablet e)"
  "synced (en_tablet (judged tk k entry e)) = synced (en_tablet e)"
  by (simp_all add: judged_def judgeByAnswer_def split: net.splits)

lemma met_simps [simp]: "en_tablet (met outcome e) = en_tablet e" "en_pressRefused (met outcome e) = en_pressRefused e"
  by (simp_all add: met_def)

lemma keys_delete_row: "map fst (rows (delete_row k t)) = filter (\<lambda>i. i \<noteq> k) (map fst (rows t))"
  by (simp add: delete_row_def delete_rows_def filter_map comp_def case_prod_unfold)

lemma taken_entry:
  assumes "taken_at_once tk entry"
  obtains e' where "sendEntry tk now k entry e = (Sent, e')"
    and "queue_keys e' = filter (\<lambda>i. i \<noteq> k) (queue_keys e)" and "rejected (en_tablet e') = rejected (en_tablet e)"
    and "en_pressRefused e' = None"
    and "synced_ids e' = (if isTap entry then synced_ids e else insert (ob_clientUuid entry) (synced_ids e))"
proof -
  obtain res where res: "tk_first tk = Answered res" "res_ok res" "isTap entry \<or> an_unreadable res = None"
    using assms by (auto simp: taken_at_once_def split: net.splits)
  show thesis
  proof (cases "isTap entry")
    case True
    then have "filing_of tk entry t = FilePress" for t using res by (simp add: filing_of_def)
    then show thesis
      using that [of "snd (sendEntry tk now k entry e)"] True
      by (simp add: sendEntry_def said_after_def file_entry_def dropSentPress_def keys_delete_row Let_def)
  next
    case False
    then have "filing_of tk entry t = FileSynced (ob_sequence entry) (or_else (an_id res) [])" for t
      using res by (simp add: filing_of_def)
    then show thesis
      using that [of "snd (sendEntry tk now k entry e)"] False
      by (simp add: sendEntry_def said_after_def file_entry_def markSynced_def keys_delete_row update_conv' Let_def)
  qed
qed

lemma walk_drains:
  assumes "\<forall>(k, entry) \<in> set todo. taken_at_once (talks k) entry" and "distinct (map fst todo)"
    and "queue_keys e = map fst todo"
  obtains e' where "walk talks now (BoutOrder []) f todo e = (PWalked, e')" and "queue_keys e' = []"
    and "rejected (en_tablet e') = rejected (en_tablet e)" and "todo \<noteq> [] \<or> en_pressRefused e = None \<Longrightarrow> en_pressRefused e' = None"
    and "synced_ids e \<subseteq> synced_ids e'" and "\<And>k entry. (k, entry) \<in> set todo \<Longrightarrow> isTap entry \<or> ob_clientUuid entry \<in> synced_ids e'"
  using assms
proof (induction todo arbitrary: e f thesis)
  case Nil
  then show ?case by simp
next
  case (Cons x todo)
  obtain k entry where x: "x = (k, entry)" by fastforce
  have first: "taken_at_once (talks k) entry" using Cons.prems(2) x by auto
  obtain e1 where e1: "sendEntry (talks k) now k entry e = (Sent, e1)"
    "queue_keys e1 = filter (\<lambda>i. i \<noteq> k) (queue_keys e)" "rejected (en_tablet e1) = rejected (en_tablet e)"
    "en_pressRefused e1 = None"
    "synced_ids e1 = (if isTap entry then synced_ids e else insert (ob_clientUuid entry) (synced_ids e))"
    by (rule taken_entry [OF first, of now k e])
  have rest: "queue_keys (met Sent e1) = map fst todo"
    using e1(2) Cons.prems(3,4) x by (simp add: filter_id_conv) (metis (mono_tags, lifting) filter_True image_eqI list.set_map)
  have good: "\<forall>(k, entry) \<in> set todo. taken_at_once (talks k) entry" and dist: "distinct (map fst todo)"
    using Cons.prems(2,3) by auto
  obtain e' where e': "walk talks now (BoutOrder []) 0 todo (met Sent e1) = (PWalked, e')" "queue_keys e' = []"
    "rejected (en_tablet e') = rejected (en_tablet (met Sent e1))" "en_pressRefused e' = None"
    "synced_ids (met Sent e1) \<subseteq> synced_ids e'" "\<And>k entry. (k, entry) \<in> set todo \<Longrightarrow> isTap entry \<or> ob_clientUuid entry \<in> synced_ids e'"
    by (rule Cons.IH [OF _ good dist rest, of 0]) (use e1(4) in simp)
  have "claimForSend k (en_tablet e)"
    using Cons.prems(4) x by (auto simp: claimForSend_def get_row_None dest: arg_cong [where f = set])
  then have "walk talks now (BoutOrder []) f (x # todo) e = (PWalked, e')"
    using e1(1) e'(1)
    by (simp add: x waits_of_def BoutOrder_def gives_up_def failures_after_def note_outcome_def maxConsecutiveFailures_def Let_def)
  moreover have "synced_ids e \<subseteq> synced_ids e1" and here: "isTap entry \<or> ob_clientUuid entry \<in> synced_ids e1"
    using e1(5) by (auto split: if_splits)
  moreover have "synced_ids e1 \<subseteq> synced_ids e'" using e'(5) by simp
  moreover have "isTap a \<or> ob_clientUuid a \<in> synced_ids e'" if "(i, a) \<in> set (x # todo)" for i a
    using that x e'(6) here \<open>synced_ids e1 \<subseteq> synced_ids e'\<close> by auto
  moreover have "rejected (en_tablet e') = rejected (en_tablet e)" using e'(3) e1(3) by simp
  ultimately show ?case using Cons.prems(1) [of e'] e'(2,4) by blast
qed

lemma sendQueue_drains:
  assumes "tablet_ok (en_tablet e)" and "rows (rejected (en_tablet e)) = []" and "rows (outbox (en_tablet e)) \<noteq> []"
    and "\<forall>(k, entry) \<in> set (rows (outbox (en_tablet e))). taken_at_once (talks k) entry"
    and "e' = sendQueue talks [] now e"
  shows "rows (outbox (en_tablet e')) = [] \<and> rows (rejected (en_tablet e')) = [] \<and>
    (\<forall>(k, entry) \<in> set (rows (outbox (en_tablet e))). isTap entry \<or> map_of (synced (en_tablet e')) (ob_clientUuid entry) \<noteq> None) \<and>
    ss_status (en_shown e') = SIdle \<and> ss_pendingCount (en_shown e') = 0 \<and> en_pressRefused e' = None"
proof -
  let ?todo = "rows (outbox (en_tablet e))"
  define e1 where "e1 = emit SSyncing None (e\<lparr>en_metFault := False, en_metNoNetwork := False, en_metAnswer := False,
    en_listedStarts := unjudgedStartsOf ?todo\<rparr>)"
  have e1: "en_tablet e1 = en_tablet e" by (simp add: e1_def)
  have "distinct (map fst ?todo)" using table_ok_distinct [OF tablet_okD(1) [OF assms(1)]] .
  moreover have "queue_keys e1 = map fst ?todo" by (simp add: e1)
  ultimately obtain e2 where e2: "walk talks now (BoutOrder []) 0 ?todo e1 = (PWalked, e2)" "queue_keys e2 = []"
    "rejected (en_tablet e2) = rejected (en_tablet e1)" "en_pressRefused e2 = None"
    "\<And>k entry. (k, entry) \<in> set ?todo \<Longrightarrow> isTap entry \<or> ob_clientUuid entry \<in> synced_ids e2"
    by (rule walk_drains [OF assms(4), of e1 now 0]) (use assms(3) in simp)
  have "boutsBehindHeldRow (en_tablet e1) = []" using assms(2) by (simp add: boutsBehindHeldRow_def e1)
  then have pass: "sendPass talks now e = (PWalked, e2)"
    using assms(3) e2(1) by (simp add: sendPass_def Let_def flip: e1_def)
  define e3 where "e3 = (if en_metNoNetwork e2 \<and> \<not> en_metAnswer e2 then judge NoNetwork (Some (en_listedStarts e2)) e2 else e2)"
  have e3: "queue_keys e3 = []" "rejected (en_tablet e3) = rejected (en_tablet e)" "en_pressRefused e3 = None"
    "synced (en_tablet e3) = synced (en_tablet e2)"
    unfolding e3_def judge_if using e2(2,3,4) e1 by simp_all
  have "e' = emitWalked e3" using pass assms(5) by (simp add: e3_def sendQueue.simps Let_def)
  moreover have "totalPendingCount (en_tablet e3) = 0" using e3(1) by (simp add: totalPendingCount_def)
  ultimately have e': "e' = emit SIdle None e3" by (simp add: emitWalked_def)
  have "isTap entry \<or> map_of (synced (en_tablet e')) (ob_clientUuid entry) \<noteq> None" if "(k, entry) \<in> set ?todo" for k entry
    using e2(5) [OF that] by (auto simp: e' e3(4))
  then show ?thesis
    using e3 assms(2) by (auto simp: e' emit_def Let_def totalPendingCount_def)
qed

subsection \<open>The inbox of the engine\<close>

text \<open>
  What the operator does in the inbox while no send runs; a send that follows is answered by
  \<open>talks\<close> and \<open>askedAgain\<close>. \<open>None\<close> is a transaction that fails.
\<close>

definition retryRejected :: "(nat \<Rightarrow> talk) \<Rightarrow> (nat \<Rightarrow> talk) list \<Rightarrow> int \<Rightarrow> engine \<Rightarrow> (nat \<times> engine) option" where
  "retryRejected talks askedAgain now e =
     map_option
       (\<lambda>(requeued, t).
         (requeued, if requeued > 0 then sendQueue talks askedAgain now (e\<lparr>en_tablet := t\<rparr>) else emitResting (e\<lparr>en_tablet := t\<rparr>)))
       (requeueRejected (en_tablet e))"

definition retryRejectedEntry :: "(nat \<Rightarrow> talk) \<Rightarrow> (nat \<Rightarrow> talk) list \<Rightarrow> int \<Rightarrow> nat \<Rightarrow> engine \<Rightarrow> (bool \<times> engine) option" where
  "retryRejectedEntry talks askedAgain now k e =
     (let seq = (case get_row k (rejected (en_tablet e)) of None \<Rightarrow> 0 | Some row \<Rightarrow> nextSequence (ob_matchId row) (en_tablet e)) in
      map_option
        (\<lambda>(requeued, t).
          (requeued, if requeued then sendQueue talks askedAgain now (e\<lparr>en_tablet := t\<rparr>) else emitResting (e\<lparr>en_tablet := t\<rparr>)))
        (requeueRejectedEntry k seq (en_tablet e)))"

definition discardRejectedEntry :: "(nat \<Rightarrow> talk) \<Rightarrow> (nat \<Rightarrow> talk) list \<Rightarrow> int \<Rightarrow> nat \<Rightarrow> engine \<Rightarrow> engine" where
  "discardRejectedEntry talks askedAgain now k e =
     (let frees = holdsBack k (en_tablet e);
          e1 = e\<lparr>en_tablet := snd (discardRejected k (en_tablet e))\<rparr>
      in if frees then sendQueue talks askedAgain now e1 else emitResting e1)"

definition discardRejectedBout :: "nat \<Rightarrow> engine \<Rightarrow> nat \<times> engine" where
  "discardRejectedBout k e = (case discardBoutOf k (en_tablet e) of (gone, t) \<Rightarrow> (gone, emitResting (e\<lparr>en_tablet := t\<rparr>)))"

definition refreshState :: "engine \<Rightarrow> engine" where
  "refreshState e = emitResting e"

definition drainAsNewCaller :: "(nat \<Rightarrow> talk) \<Rightarrow> (nat \<Rightarrow> talk) list \<Rightarrow> int \<Rightarrow> engine \<Rightarrow> engine" where
  "drainAsNewCaller talks askedAgain now e = sendQueue talks askedAgain now (e\<lparr>en_pressRefused := None\<rparr>)"

text \<open>The hits and cards of a tablet, in the queue or held.\<close>

definition hits_among :: "(nat \<times> 'a outbox_row_scheme) set \<Rightarrow> string set" where
  "hits_among R = (\<lambda>(_, a). ob_clientUuid a) ` {(i, a) \<in> R. \<not> isTap a}"

definition hits :: "tablet \<Rightarrow> string set" where
  "hits t = hits_among (set (rows (outbox t))) \<union> hits_among (set (rows (rejected t)))"

lemma hits_among_insert [simp]:
  "hits_among (insert (i, a) R) = (if isTap a then hits_among R else insert (ob_clientUuid a) (hits_among R))"
  by (force simp: hits_among_def)

lemma hits_among_iff: "u \<in> hits_among R \<longleftrightarrow> (\<exists>i a. (i, a) \<in> R \<and> \<not> isTap a \<and> u = ob_clientUuid a)"
  by (force simp: hits_among_def)

lemma hits_put_back:
  assumes "tablet_ok t" and "(k, a) \<in> set (rows (rejected t))" and "put_back a seq (outbox t) = Some ob"
  shows "hits (t\<lparr>outbox := ob, rejected := delete_row k (rejected t)\<rparr>) = hits t"
proof -
  obtain j where j: "set (rows ob) = insert (j, backInQueue a seq) (set (rows (outbox t)))"
    using put_back_place [OF assms(1,2), of seq] assms(3) by (metis option.inject)
  have one: "b = a" if "(k, b) \<in> set (rows (rejected t))" for b
    using that assms(2) eq_key_imp_eq_value [OF table_ok_distinct [OF tablet_okD(2) [OF assms(1)]]] by blast
  have "(i, b) \<in> set (rows (rejected t)) \<longleftrightarrow> (i, b) \<in> insert (k, a) (set (rows (delete_row k (rejected t))))" for i b
    using one [of b] assms(2) by (cases "i = k") auto
  then have "set (rows (rejected t)) = insert (k, a) (set (rows (delete_row k (rejected t))))"
    by (intro subset_antisym subrelI) blast+
  then have "hits_among (set (rows (rejected t))) = hits_among (insert (k, a) (set (rows (delete_row k (rejected t)))))" by simp
  moreover have "hits_among (set (rows ob)) = hits_among (insert (j, backInQueue a seq) (set (rows (outbox t))))" by (simp add: j)
  ultimately show ?thesis by (simp only: hits_def hits_among_insert backInQueue_fields tablet.simps) auto
qed

lemma requeue_each_all:
  assumes "tablet_ok t" and "\<forall>ke \<in> set es. get_row (fst ke) (rejected t) \<in> {None, Some (snd ke)}"
    and "requeue_each nextByMatch es t = Some t'"
  shows "hits t' = hits t \<and> rows (rejected t') = filter (\<lambda>(i, _). i \<notin> fst ` set es) (rows (rejected t))"
  using assms
proof (induction nextByMatch es t rule: requeue_each.induct)
  case (2 nextByMatch k entry es t)
  show ?case
  proof (cases "get_row k (rejected t)")
    case None
    then have "hits t' = hits t \<and> rows (rejected t') = filter (\<lambda>(i, _). i \<notin> fst ` set es) (rows (rejected t))"
      using "2.IH"(1) [OF None "2.prems"(1)] "2.prems"(2,3) by simp
    moreover have "k \<notin> fst ` set (rows (rejected t))" using None by (simp add: get_row_None)
    ultimately show ?thesis by (force intro!: filter_cong)
  next
    case (Some a)
    then have "a = entry" using "2.prems"(2) by auto
    then have a: "(k, entry) \<in> set (rows (rejected t))" using Some get_row_iff [OF tablet_okD(2) [OF "2.prems"(1)]] by blast
    let ?seq = "nextByMatch (ob_matchId entry)"
    obtain ob where ob: "put_back entry ?seq (outbox t) = Some ob" using put_back_place [OF "2.prems"(1) a] by metis
    let ?t1 = "t\<lparr>outbox := ob, rejected := delete_row k (rejected t)\<rparr>"
    have ok: "tablet_ok ?t1" using put_back_moves(1) [OF "2.prems"(1) a ob refl] .
    have later: "\<forall>ke \<in> set es. get_row (fst ke) (rejected ?t1) \<in> {None, Some (snd ke)}"
      using "2.prems"(2) by (auto simp: get_row_delete_row)
    have "requeue_each (if isTap entry then nextByMatch else nextByMatch(ob_matchId entry := ?seq + 1)) es ?t1 = Some t'"
      using "2.prems"(3) Some ob by (simp add: Let_def)
    then have "hits t' = hits ?t1 \<and> rows (rejected t') = filter (\<lambda>(i, _). i \<notin> fst ` set es) (rows (rejected ?t1))"
      using "2.IH"(2) [OF _ refl ob ok later] Some by blast
    then show ?thesis
      using hits_put_back [OF "2.prems"(1) a ob] by (auto simp: delete_row_def delete_rows_def intro!: filter_cong)
  qed
qed simp

text \<open>
  C11. A Retry the server takes empties the tablet. When every held row can be sent again and the
  server answers every send with a 2xx, one Retry of the inbox puts all the held rows back and
  sends the whole queue: nothing is left in the queue or in the inbox, every hit and card that
  was on the tablet is written down as synced, and the bar is idle with nothing pending.
\<close>

theorem retry_empties_the_tablet:
  assumes "tablet_ok (en_tablet e)" and "rows (rejected (en_tablet e)) \<noteq> []"
    and "\<forall>(k, a) \<in> set (rows (rejected (en_tablet e))). canSendAgain a" and "\<forall>k entry. taken_at_once (talks k) entry"
  shows "\<exists>e'. retryRejected talks [] now e = Some (length (rows (rejected (en_tablet e))), e') \<and>
    rows (outbox (en_tablet e')) = [] \<and> rows (rejected (en_tablet e')) = [] \<and>
    (\<forall>u \<in> hits (en_tablet e). map_of (synced (en_tablet e')) u \<noteq> None) \<and>
    ss_status (en_shown e') = SIdle \<and> ss_pendingCount (en_shown e') = 0"
proof -
  let ?t = "en_tablet e"
  have all: "set (curable ?t) = set (rows (rejected ?t))" "length (curable ?t) = length (rows (rejected ?t))"
    using assms(3) by (auto simp: curable_def filter_id_conv)
  note listed = curable_listed [OF assms(1)]
  obtain t where t: "requeue_each (\<lambda>m. nextSequence m ?t) (curable ?t) ?t = Some t" "tablet_ok t"
    "waiting t \<union> held t = waiting ?t \<union> held ?t"
    by (rule requeue_each_moves [OF assms(1) listed])
  have same: "\<forall>ka \<in> set (curable ?t). get_row (fst ka) (rejected ?t) \<in> {None, Some (snd ka)}" using listed by fastforce
  have moved: "hits t = hits ?t" "rows (rejected t) = []"
    using requeue_each_all [OF assms(1) same t(1)] by (simp, force simp: filter_empty_conv all(1))
  have "held ?t \<noteq> {}" using assms(2) by (simp add: held_def)
  then have "waiting t \<noteq> {}" using t(3) moved(2) by (auto simp: held_def)
  then have "rows (outbox t) \<noteq> []" by (auto simp: waiting_def)
  then have sent: "rows (outbox (en_tablet e')) = [] \<and> rows (rejected (en_tablet e')) = [] \<and>
      (\<forall>(k, entry) \<in> set (rows (outbox t)). isTap entry \<or> map_of (synced (en_tablet e')) (ob_clientUuid entry) \<noteq> None) \<and>
      ss_status (en_shown e') = SIdle \<and> ss_pendingCount (en_shown e') = 0 \<and> en_pressRefused e' = None"
    if "e' = sendQueue talks [] now (e\<lparr>en_tablet := t\<rparr>)" for e'
    using sendQueue_drains [of "e\<lparr>en_tablet := t\<rparr>" talks e' now] t(2) moved(2) assms(4) that by simp
  have "\<forall>u \<in> hits ?t. \<exists>(k, entry) \<in> set (rows (outbox t)). u = ob_clientUuid entry \<and> \<not> isTap entry"
    using moved by (fastforce simp: hits_def hits_among_iff)
  then show ?thesis
    using sent [OF refl] assms(2) by (fastforce simp: retryRejected_def requeueRejected_def t(1) all(2))
qed

definition taking :: "nat \<Rightarrow> talk" where
  "taking k =
     (let yes = Answered \<lparr>an_status = 201, an_body = no_body, an_id = Some (show_nat k), an_unreadable = None\<rparr>
      in \<lparr>tk_first = yes, tk_exchanges = \<lparr>rd_answer = yes, rd_max = 0\<rparr>, tk_penalties = \<lparr>rd_answer = yes, rd_max = 0\<rparr>, tk_second = yes\<rparr>)"

definition sample_engine :: engine where
  "sample_engine =
     \<lparr>en_tablet = quarantine 1 ''late'' (Some ''bout_locked'') 0 sample_tablet, en_pressRefused = None, en_resting = SIdle,
      en_shown = \<lparr>ss_status = SError, ss_pendingCount = 1, ss_rejectedCount = 1, ss_sendableCount = 1, ss_heldPressCount = 0,
        ss_freeCount = 0, ss_lastError = None\<rparr>,
      en_metFault = False, en_metNoNetwork = False, en_metAnswer = False, en_listedStarts = [], en_sessionEndedTold = False\<rparr>"

theorem retry_empties_the_tablet_witness:
  "\<exists>e'. retryRejected taking [] 5 sample_engine = Some (1, e') \<and> rows (outbox (en_tablet e')) = [] \<and>
    map_of (synced (en_tablet e')) (show_nat 1) \<noteq> None \<and> map_of (synced (en_tablet e')) (show_nat 2) \<noteq> None"
proof -
  have row: "get_row 1 (outbox sample_tablet) = Some (sample_row 1)"
    by (simp add: sample_tablet_def get_row_def add_row_def empty_table_def empty_tablet_def)
  then have t: "en_tablet sample_engine = sample_tablet\<lparr>rejected := add_row (held_row 1 (sample_row 1) ''late'' (Some ''bout_locked'') 0)
      (rejected sample_tablet), outbox := delete_row 1 (outbox sample_tablet)\<rparr>"
    by (simp add: sample_engine_def quarantine_def)
  have ok: "tablet_ok (en_tablet sample_engine)"
    using quarantine_moves(1) [OF sample_ok row] by (simp add: sample_engine_def)
  have rej: "rows (rejected (en_tablet sample_engine)) = [(1, held_row 1 (sample_row 1) ''late'' (Some ''bout_locked'') 0)]"
    "rows (outbox (en_tablet sample_engine)) = [(2, sample_row 2)]"
    by (simp_all add: t sample_tablet_def add_row_def empty_table_def empty_tablet_def delete_row_def delete_rows_def)
  have "canSendAgain (held_row 1 (sample_row 1) ''late'' (Some ''bout_locked'') 0)"
    by (simp add: canSendAgain_def held_row_def NEVER_AGAIN_def NEVER_AGAIN_FOR_A_STEP_def outbox_row.defs rejected_row.defs)
  moreover have "\<forall>k entry. taken_at_once (taking k) entry" by (simp add: taken_at_once_def taking_def res_ok_def Let_def)
  moreover have "show_nat 1 \<in> hits (en_tablet sample_engine)" "show_nat 2 \<in> hits (en_tablet sample_engine)"
    by (auto simp: hits_def hits_among_iff rej) (simp_all add: held_row_def sample_row_def outbox_row.defs rejected_row.defs isTap_def kindOf_def)
  ultimately show ?thesis using retry_empties_the_tablet [OF ok, of taking 5] rej by auto
qed
end
