(* ===== verification/Offline_Pad.thy ===== *)
theory Offline_Pad
  imports Offline_Sync
begin

section \<open>The tablet while somebody works on it\<close>

text \<open>
  The engine waits at every call of the store or of the network, and meanwhile the referee
  scores, undoes, retries and discards. Where it stands: at rest, with the queue listed, between
  two rows, or with a row claimed and its send out.
\<close>

datatype control =
    Resting
  | Listed "(nat \<times> outbox_row) list"
  | Walking bout_order nat "(nat \<times> outbox_row) list"
  | Sending nat outbox_row bout_order nat "(nat \<times> outbox_row) list"

definition sending :: "control \<Rightarrow> nat option" where
  "sending c = (case c of Sending k _ _ _ _ \<Rightarrow> Some k | _ \<Rightarrow> None)"

definition after_row :: "waits option \<Rightarrow> filed \<Rightarrow> outbox_row \<Rightarrow> bout_order \<Rightarrow> nat \<Rightarrow> (nat \<times> outbox_row) list \<Rightarrow> control" where
  "after_row waits outcome entry order failures todo =
     (if outcome = Stopped \<or> gives_up waits (failures_after waits outcome failures) then Resting
      else Walking (note_outcome order entry outcome) (failures_after waits outcome failures) todo)"

text \<open>
  \<open>pd_wire\<close> is the history of what left the tablet, newest first; the four sets are the histories
  of what was queued, of what the server answered it has, of what the undo took back and of
  what the operator discarded.
\<close>

record pad =
  pd_tablet :: tablet
  pd_control :: control
  pd_wire :: "string list"
  pd_queued :: "string set"
  pd_taken :: "string set"
  pd_takenBack :: "string set"
  pd_discarded :: "string set"

definition fresh_pad :: pad where
  "fresh_pad =
     \<lparr>pd_tablet = empty_tablet, pd_control = Resting, pd_wire = [], pd_queued = {}, pd_taken = {}, pd_takenBack = {}, pd_discarded = {}\<rparr>"

definition uuids :: "(nat \<times> 'a outbox_row_scheme) list \<Rightarrow> string set" where
  "uuids rs = (\<lambda>(_, e). ob_clientUuid e) ` set rs"

datatype pad_event =
    Score outbox_row tablet_time
  | Tap outbox_row
  | Undo string string int
  | ForgetUndone string
  | Retry nat nat
  | RetryAll "(nat \<times> rejected_row) list" "string \<Rightarrow> nat"
  | Discard nat
  | DiscardBout nat
  | JudgeStarts start_network "nat list option"
  | ListQueue
  | OpenPass
  | PassOver
  | Claim
  | Post
  | FileAnswer talk int
  | EndPass

text \<open>
  The steps. An id is new when it is queued (\<open>crypto.randomUUID\<close>). The sequences of a retry were
  read before its transaction, and \<open>RetryAll\<close> listed its rows before it, so both are free. The
  answers of the server are free. A send may leave more than once: the second try.
\<close>

inductive pad_step :: "pad \<Rightarrow> pad_event \<Rightarrow> pad \<Rightarrow> bool" where
  score: "\<not> isTap row \<Longrightarrow> ob_clientUuid row \<notin> pd_queued s \<Longrightarrow>
    pad_step s (Score row now)
      (s\<lparr>pd_tablet := enqueue row now (pd_tablet s), pd_queued := insert (ob_clientUuid row) (pd_queued s)\<rparr>)"
| tap: "isTap row \<Longrightarrow> ob_clientUuid row \<notin> pd_queued s \<Longrightarrow>
    pad_step s (Tap row)
      (s\<lparr>pd_tablet := queueTap row (pd_tablet s), pd_queued := insert (ob_clientUuid row) (pd_queued s)\<rparr>)"
| undo: "u \<in> pd_queued s \<Longrightarrow> takeOffTablet u m (sending (pd_control s)) now (pd_tablet s) = (r, t) \<Longrightarrow>
    pad_step s (Undo u m now)
      (s\<lparr>pd_tablet := t, pd_takenBack := (if r = Removed then insert u (pd_takenBack s) else pd_takenBack s)\<rparr>)"
| forget_undone: "pad_step s (ForgetUndone u) (s\<lparr>pd_tablet := forgetUndone u (pd_tablet s)\<rparr>)"
| retry: "requeueRejectedEntry k seq (pd_tablet s) = Some (b, t) \<Longrightarrow> pad_step s (Retry k seq) (s\<lparr>pd_tablet := t\<rparr>)"
| retry_all: "set es \<subseteq> set (curable (pd_tablet s)) \<Longrightarrow> requeue_each nextByMatch es (pd_tablet s) = Some t \<Longrightarrow>
    pad_step s (RetryAll es nextByMatch) (s\<lparr>pd_tablet := t\<rparr>)"
| discard: "pad_step s (Discard k)
    (s\<lparr>pd_tablet := snd (discardRejected k (pd_tablet s)),
       pd_discarded := pd_discarded s \<union> uuids (filter (\<lambda>(i, _). i = k) (rows (rejected (pd_tablet s))))\<rparr>)"
| discard_bout: "get_row k (rejected (pd_tablet s)) = Some h \<Longrightarrow>
    pad_step s (DiscardBout k)
      (s\<lparr>pd_tablet := snd (discardBoutOf k (pd_tablet s)),
         pd_discarded := pd_discarded s \<union> uuids (rows_where (\<lambda>e. ob_matchId e = ob_matchId h) (rejected (pd_tablet s)))
           \<union> uuids (rows_where (\<lambda>e. ob_matchId e = ob_matchId h) (outbox (pd_tablet s)))\<rparr>)"
| judge_starts: "pad_step s (JudgeStarts v ids) (s\<lparr>pd_tablet := judgeStarts v ids (pd_tablet s)\<rparr>)"
| list_queue: "pd_control s = Resting \<Longrightarrow> pad_step s ListQueue (s\<lparr>pd_control := Listed (rows (outbox (pd_tablet s)))\<rparr>)"
| open_pass: "pd_control s = Listed todo \<Longrightarrow>
    pad_step s OpenPass (s\<lparr>pd_control := Walking (BoutOrder (boutsBehindHeldRow (pd_tablet s))) 0 todo\<rparr>)"
| pass_over_held: "pd_control s = Walking order failures ((k, entry) # todo) \<Longrightarrow> waits_of order entry = Some BehindHeld \<Longrightarrow>
    pad_step s PassOver (s\<lparr>pd_control := Walking order failures todo\<rparr>)"
| pass_over_unsent: "pd_control s = Walking order failures ((k, entry) # todo) \<Longrightarrow> waits_of order entry = Some (BehindUnsent u) \<Longrightarrow>
    pad_step s PassOver (s\<lparr>pd_control := after_row (waits_of order entry) (Unsent u) entry order failures todo\<rparr>)"
| gone: "pd_control s = Walking order failures ((k, entry) # todo) \<Longrightarrow> waits_of order entry = None \<Longrightarrow> \<not> claimForSend k (pd_tablet s) \<Longrightarrow>
    pad_step s Claim (s\<lparr>pd_control := Walking order failures todo\<rparr>)"
| claim: "pd_control s = Walking order failures ((k, entry) # todo) \<Longrightarrow> waits_of order entry = None \<Longrightarrow> claimForSend k (pd_tablet s) \<Longrightarrow>
    pad_step s Claim (s\<lparr>pd_control := Sending k entry order failures todo\<rparr>)"
| post: "pd_control s = Sending k entry order failures todo \<Longrightarrow>
    pad_step s Post (s\<lparr>pd_wire := ob_clientUuid entry # pd_wire s\<rparr>)"
| file_answer: "pd_control s = Sending k entry order failures todo \<Longrightarrow> fl = filing_of tk entry (pd_tablet s) \<Longrightarrow>
    pad_step s (FileAnswer tk now)
      (s\<lparr>pd_tablet := file_entry fl k entry now (pd_tablet s),
         pd_control := after_row None (filed_as fl) entry order failures todo,
         pd_taken := (if filed_as fl = Sent then insert (ob_clientUuid entry) (pd_taken s) else pd_taken s)\<rparr>)"
| end_pass: "pd_control s = Walking order failures todo \<Longrightarrow> pad_step s EndPass (s\<lparr>pd_control := Resting\<rparr>)"

text \<open>
  Runs. A run is calm when nothing is retried in the moment between the list of the queue and the
  read of the bouts that hold a refused row.
\<close>

definition retry_while_listed :: "pad \<Rightarrow> pad_event \<Rightarrow> bool" where
  "retry_while_listed s ev \<longleftrightarrow>
     (case pd_control s of Listed _ \<Rightarrow> (case ev of Retry _ _ \<Rightarrow> True | RetryAll _ _ \<Rightarrow> True | _ \<Rightarrow> False) | _ \<Rightarrow> False)"

inductive pad_run :: "bool \<Rightarrow> pad \<Rightarrow> pad \<Rightarrow> bool" for calm s where
  here: "pad_run calm s s"
| further: "pad_run calm s s' \<Longrightarrow> pad_step s' ev s'' \<Longrightarrow> (calm \<Longrightarrow> \<not> retry_while_listed s' ev) \<Longrightarrow> pad_run calm s s''"

subsection \<open>Nothing that was queued is lost\<close>

definition listed :: "control \<Rightarrow> (nat \<times> outbox_row) list" where
  "listed c =
     (case c of Resting \<Rightarrow> [] | Listed todo \<Rightarrow> todo | Walking _ _ todo \<Rightarrow> todo | Sending k e _ _ todo \<Rightarrow> (k, e) # todo)"

definition order_of :: "control \<Rightarrow> bout_order option" where
  "order_of c = (case c of Walking order _ _ \<Rightarrow> Some order | Sending _ _ order _ _ \<Rightarrow> Some order | _ \<Rightarrow> None)"

lemma control_simps [simp]:
  "listed Resting = []" "listed (Listed todo) = todo" "listed (Walking ord f todo) = todo"
  "listed (Sending k e ord f todo) = (k, e) # todo"
  "order_of Resting = None" "order_of (Listed todo) = None" "order_of (Walking ord f todo) = Some ord"
  "order_of (Sending k e ord f todo) = Some ord"
  "sending Resting = None" "sending (Listed todo) = None" "sending (Walking ord f todo) = None"
  "sending (Sending k e ord f todo) = Some k"
  by (simp_all add: listed_def order_of_def sending_def)

text \<open>A listed row is, as long as it is on the tablet, the row under its key.\<close>

definition row_known :: "tablet \<Rightarrow> nat \<times> outbox_row \<Rightarrow> bool" where
  "row_known t ke \<longleftrightarrow>
     (case ke of (k, e) \<Rightarrow> k < next_key (outbox t) \<and> (\<forall>x. (k, x) \<in> homes t \<longrightarrow> x = ident e))"

lemma row_knownD: "row_known t (k, e) \<Longrightarrow> (k, x) \<in> homes t \<Longrightarrow> x = ident e"
  unfolding row_known_def prod.case by blast

lemma row_known_grows: "row_known t ke \<Longrightarrow> grows t t' \<Longrightarrow> row_known t' ke"
  by (fastforce simp: row_known_def grows_def)

lemma row_known_listed:
  assumes "tablet_ok t" and "(k, e) \<in> set (rows (outbox t))"
  shows "row_known t (k, e)"
proof -
  note ok = tablet_okD [OF assms(1)]
  have e: "get_row k (outbox t) = Some e" using assms(2) get_row_iff [OF ok(1)] by blast
  have "x = ident e" if "(k, x) \<in> homes t" for x
    using that
  proof (rule homesE)
    fix a assume "(k, a) \<in> set (rows (outbox t))" and x: "x = ident a"
    then have "get_row k (outbox t) = Some a" using get_row_iff [OF ok(1)] by blast
    then show "x = ident e" using e x by simp
  next
    show "x = ident e" if "(j, b) \<in> set (rows (rejected t))" "rj_outboxId b = Some k" for j b
      using places_freeD(2) [OF ok(6) that] e by simp
  qed
  moreover have "k < next_key (outbox t)" using ok(1) assms(2) by (force simp: table_ok_def)
  ultimately show ?thesis by (simp add: row_known_def)
qed

lemma row_known_stored:
  assumes "tablet_ok t" and "row_known t (k, e)" and "get_row k (outbox t) = Some a"
  shows "ob_clientUuid a = ob_clientUuid e" and "ob_matchId a = ob_matchId e" and "isTap a = isTap e"
    and "(k, a) \<in> set (rows (outbox t))"
proof -
  show a: "(k, a) \<in> set (rows (outbox t))" using assms(3) get_row_iff [OF tablet_okD(1) [OF assms(1)]] by blast
  show "ob_clientUuid a = ob_clientUuid e" "ob_matchId a = ob_matchId e" "isTap a = isTap e"
    using homesI(1) [OF a] assms(2) by (auto simp: row_known_def ident_def)
qed

text \<open>The bouts that hold a refused row.\<close>

abbreviation held_bouts :: "tablet \<Rightarrow> string set" where
  "held_bouts t \<equiv> set (boutsBehindHeldRow t)"

lemma held_bouts_iff: "m \<in> held_bouts t \<longleftrightarrow> (\<exists>j a. (j, a) \<in> set (rows (rejected t)) \<and> m = ob_matchId a)"
  by (force simp: boutsBehindHeldRow_def)

lemma held_bouts_mono: "set (rows (rejected t')) \<subseteq> set (rows (rejected t)) \<Longrightarrow> held_bouts t' \<subseteq> held_bouts t"
  by (auto simp: boutsBehindHeldRow_def)

definition gone :: "pad \<Rightarrow> string set" where
  "gone s = pd_taken s \<union> pd_takenBack s \<union> pd_discarded s"

definition pad_ok :: "pad \<Rightarrow> bool" where
  "pad_ok s \<longleftrightarrow>
     tablet_ok (pd_tablet s) \<and>
     pd_queued s = waiting (pd_tablet s) \<union> held (pd_tablet s) \<union> gone s \<and>
     (waiting (pd_tablet s) \<union> held (pd_tablet s)) \<inter> gone s = {} \<and>
     (\<forall>ke \<in> set (listed (pd_control s)). row_known (pd_tablet s) ke) \<and>
     (\<forall>ord. order_of (pd_control s) = Some ord \<longrightarrow> held_bouts (pd_tablet s) \<subseteq> set (bo_held ord)) \<and>
     (\<forall>k e ord f todo. pd_control s = Sending k e ord f todo \<longrightarrow>
        waits_of ord e = None \<and> get_row k (outbox (pd_tablet s)) \<noteq> None)"

lemma pad_okD:
  assumes "pad_ok s"
  shows "tablet_ok (pd_tablet s)" and "pd_queued s = waiting (pd_tablet s) \<union> held (pd_tablet s) \<union> gone s"
    and "(waiting (pd_tablet s) \<union> held (pd_tablet s)) \<inter> gone s = {}"
    and "ke \<in> set (listed (pd_control s)) \<Longrightarrow> row_known (pd_tablet s) ke"
    and "order_of (pd_control s) = Some ord \<Longrightarrow> held_bouts (pd_tablet s) \<subseteq> set (bo_held ord)"
    and "pd_control s = Sending k e ord f todo \<Longrightarrow> waits_of ord e = None \<and> get_row k (outbox (pd_tablet s)) \<noteq> None"
  using assms unfolding pad_ok_def by blast+

text \<open>
  A step of the store while the engine stands where it stands: it keeps the row whose send is
  out, and what leaves the tablet is written down.
\<close>

lemma pad_ok_store:
  assumes "pad_ok s" and ctl: "pd_control s' = pd_control s" and ok: "tablet_ok (pd_tablet s')"
    and grow: "grows (pd_tablet s) (pd_tablet s')" and rej: "held_bouts (pd_tablet s') \<subseteq> held_bouts (pd_tablet s)"
    and acc: "pd_queued s' = waiting (pd_tablet s') \<union> held (pd_tablet s') \<union> gone s'"
    and apart: "(waiting (pd_tablet s') \<union> held (pd_tablet s')) \<inter> gone s' = {}"
    and out: "\<And>k e ord f todo. pd_control s = Sending k e ord f todo \<Longrightarrow> get_row k (outbox (pd_tablet s')) \<noteq> None"
  shows "pad_ok s'"
  unfolding pad_ok_def ctl
  using ok acc apart out row_known_grows [OF pad_okD(4) [OF assms(1)] grow] pad_okD(6) [OF assms(1)]
    order_trans [OF rej pad_okD(5) [OF assms(1)]]
  by blast

text \<open>The row whose send is out waits in the queue, and its bout holds no refused row.\<close>

lemma sending_row:
  assumes "pad_ok s" and "pd_control s = Sending k e ord f todo"
  obtains a where "get_row k (outbox (pd_tablet s)) = Some a" and "(k, a) \<in> set (rows (outbox (pd_tablet s)))"
    and "ob_clientUuid a = ob_clientUuid e" and "ob_matchId a = ob_matchId e" and "isTap a = isTap e"
    and "ob_clientUuid e \<in> waiting (pd_tablet s)" and "ob_matchId e \<notin> held_bouts (pd_tablet s)"
proof -
  note inv = pad_okD [OF assms(1)]
  obtain a where a: "get_row k (outbox (pd_tablet s)) = Some a" using inv(6) [OF assms(2)] by auto
  have "row_known (pd_tablet s) (k, e)" by (rule inv(4)) (simp add: assms(2))
  note st = row_known_stored [OF inv(1) this a]
  have "ob_matchId e \<notin> set (bo_held ord)" using inv(6) [OF assms(2)] by (auto simp: waits_of_def split: if_splits)
  then have "ob_matchId e \<notin> held_bouts (pd_tablet s)" using inv(5) [of ord] assms(2) by auto
  then show ?thesis using that a st waitingI [OF st(4)] by simp
qed

lemma enqueued_same [simp]: "ob_clientUuid (enqueued e now t) = ob_clientUuid e" "isTap (enqueued e now t) = isTap e"
    "ob_matchId (enqueued e now t) = ob_matchId e"
  by (simp_all add: enqueued_def isTap_def kindOf_def)

lemma add_keeps:
  assumes "pad_ok s" and "ob_clientUuid e \<notin> pd_queued s"
    and s': "s' = s\<lparr>pd_tablet := (pd_tablet s)\<lparr>outbox := add_row e (outbox (pd_tablet s))\<rparr>,
                pd_queued := insert (ob_clientUuid e) (pd_queued s)\<rparr>"
  shows "pad_ok s'"
proof -
  note inv = pad_okD [OF assms(1)]
  let ?t' = "(pd_tablet s)\<lparr>outbox := add_row e (outbox (pd_tablet s))\<rparr>"
  have new: "ob_clientUuid e \<notin> waiting (pd_tablet s) \<union> held (pd_tablet s)" "ob_clientUuid e \<notin> gone s"
    using assms(2) inv(2) by auto
  note add = tablet_ok_add [OF inv(1) _ _ new(1), of ?t', simplified]
  have t': "pd_tablet s' = ?t'" "gone s' = gone s" "pd_queued s' = insert (ob_clientUuid e) (pd_queued s)" "pd_control s' = pd_control s"
    by (simp_all add: s' gone_def)
  show ?thesis
  proof (rule pad_ok_store [OF assms(1)])
    show "grows (pd_tablet s) (pd_tablet s')" by (rule grows_add [of _ e]) (simp_all add: t')
    show "held_bouts (pd_tablet s') \<subseteq> held_bouts (pd_tablet s)" by (simp add: t' boutsBehindHeldRow_def)
    show "get_row k (outbox (pd_tablet s')) \<noteq> None" if "pd_control s = Sending k a ord f todo" for k a ord f todo
      using inv(6) [OF that] by (auto simp: t' get_row_None)
  qed (use add inv(2,3) new in \<open>auto simp: t'\<close>)
qed

lemma modify_keeps:
  assumes "pad_ok s" and s': "s' = s\<lparr>pd_tablet := (pd_tablet s)\<lparr>outbox := modify_rows P g (outbox (pd_tablet s))\<rparr>\<rparr>"
    and same: "\<And>e. ident (g e) = ident e"
  shows "pad_ok s'"
proof -
  note inv = pad_okD [OF assms(1)]
  have same': "ob_clientUuid (g e) = ob_clientUuid e" for e using same [of e] by (simp add: ident_def)
  let ?t' = "(pd_tablet s)\<lparr>outbox := modify_rows P g (outbox (pd_tablet s))\<rparr>"
  note modify = tablet_ok_modify [OF inv(1) _ _ same', of ?t' P, simplified]
  have t': "pd_tablet s' = ?t'" "gone s' = gone s" "held ?t' = held (pd_tablet s)" "pd_queued s' = pd_queued s" "pd_control s' = pd_control s"
    by (simp_all add: s' gone_def held_def)
  show ?thesis
  proof (rule pad_ok_store [OF assms(1)])
    show "grows (pd_tablet s) (pd_tablet s')" by (rule grows_modify [OF _ _ same, where P = P]) (simp_all add: t')
    show "held_bouts (pd_tablet s') \<subseteq> held_bouts (pd_tablet s)" by (simp add: t' boutsBehindHeldRow_def)
    show "get_row k (outbox (pd_tablet s')) \<noteq> None" if "pd_control s = Sending k a ord f todo" for k a ord f todo
      using inv(6) [OF that] by (simp add: t' get_row_modify)
  qed (use modify inv(2,3) in \<open>auto simp: t'\<close>)
qed

lemma retry_keeps:
  assumes "pad_ok s" and "s' = s\<lparr>pd_tablet := t'\<rparr>" and "tablet_ok t'" and "waiting t' \<union> held t' = waiting (pd_tablet s) \<union> held (pd_tablet s)"
    and "set (rows (outbox (pd_tablet s))) \<subseteq> set (rows (outbox t'))" and "grows (pd_tablet s) t'"
    and "set (rows (rejected t')) \<subseteq> set (rows (rejected (pd_tablet s)))"
  shows "pad_ok s'"
proof -
  note inv = pad_okD [OF assms(1)]
  have t': "pd_tablet s' = t'" "gone s' = gone s" "pd_queued s' = pd_queued s" "pd_control s' = pd_control s" by (simp_all add: assms(2) gone_def)
  show ?thesis
  proof (rule pad_ok_store [OF assms(1)])
    show "held_bouts (pd_tablet s') \<subseteq> held_bouts (pd_tablet s)"
      unfolding t' by (rule held_bouts_mono [OF assms(7)])
    show "get_row k (outbox (pd_tablet s')) \<noteq> None" if ctl: "pd_control s = Sending k e ord f todo" for k e ord f todo
      using inv(6) [OF ctl] assms(5) unfolding t' get_row_None by blast
  qed (use assms(3-7) inv(2,3) in \<open>auto simp: t'\<close>)
qed

lemma remove_keeps:
  assumes "pad_ok s" and ctl: "pd_control s' = pd_control s" and q: "pd_queued s' = pd_queued s"
    and o': "outbox (pd_tablet s') = delete_rows P (outbox (pd_tablet s))" and r': "rejected (pd_tablet s') = delete_rows Q (rejected (pd_tablet s))"
    and gone': "gone s' = gone s \<union> uuids (filter (\<lambda>(i, e). P i e) (rows (outbox (pd_tablet s)))) \<union> uuids (filter (\<lambda>(i, e). Q i e) (rows (rejected (pd_tablet s))))"
    and out: "\<And>k e ord f todo a. pd_control s = Sending k e ord f todo \<Longrightarrow> get_row k (outbox (pd_tablet s)) = Some a \<Longrightarrow> \<not> P k a"
  shows "pad_ok s'"
proof -
  note inv = pad_okD [OF assms(1)]
  note ok = tablet_okD [OF inv(1)]
  let ?t = "pd_tablet s" and ?t' = "pd_tablet s'"
  let ?P = "uuids (filter (\<lambda>(i, e). P i e) (rows (outbox ?t)))" and ?Q = "uuids (filter (\<lambda>(i, e). Q i e) (rows (rejected ?t)))"
  have all: "waiting ?t = waiting ?t' \<union> ?P" "held ?t = held ?t' \<union> ?Q"
    unfolding waiting_def held_def uuids_def o' r' by auto
  have "waiting ?t' \<inter> ?P = {}"
  proof (rule ccontr)
    assume "waiting ?t' \<inter> ?P \<noteq> {}"
    then obtain i a j b where ab: "(i, a) \<in> set (rows (outbox ?t))" "\<not> P i a" "(j, b) \<in> set (rows (outbox ?t))" "P j b"
        "ob_clientUuid a = ob_clientUuid b"
      unfolding waiting_def uuids_def o' by auto
    then have "i = j" using uuid_key [OF ok(1) ok(3) ab(1,3)] by simp
    then show False using ab eq_key_imp_eq_value [OF table_ok_distinct [OF ok(1)] ab(1)] by auto
  qed
  moreover have "held ?t' \<inter> ?Q = {}"
  proof (rule ccontr)
    assume "held ?t' \<inter> ?Q \<noteq> {}"
    then obtain i a j b where ab: "(i, a) \<in> set (rows (rejected ?t))" "\<not> Q i a" "(j, b) \<in> set (rows (rejected ?t))" "Q j b"
        "ob_clientUuid a = ob_clientUuid b"
      unfolding held_def uuids_def r' by auto
    then have "i = j" using uuid_key [OF ok(2) ok(4) ab(1,3)] by simp
    then show False using ab eq_key_imp_eq_value [OF table_ok_distinct [OF ok(2)] ab(1)] by auto
  qed
  ultimately have apart: "(waiting ?t' \<union> held ?t') \<inter> gone s' = {}"
    using inv(3) ok(5) all gone' by blast
  show ?thesis
  proof (rule pad_ok_store [OF assms(1) ctl])
    show "tablet_ok ?t'" by (rule tablet_ok_remove [OF inv(1) o' r'])
    show "grows ?t ?t'" by (rule grows_fewer [OF o' r'])
    show "held_bouts ?t' \<subseteq> held_bouts ?t" by (rule held_bouts_mono) (auto simp: r')
    show "pd_queued s' = waiting ?t' \<union> held ?t' \<union> gone s'" using inv(2) all q gone' by blast
    show "get_row k (outbox ?t') \<noteq> None" if here: "pd_control s = Sending k e ord f todo" for k e ord f todo
    proof -
      obtain a where "get_row k (outbox ?t) = Some a" "(k, a) \<in> set (rows (outbox ?t))" by (rule sending_row [OF assms(1) here])
      then show ?thesis using out [OF here] unfolding get_row_None by (force simp: o')
    qed
  qed (rule apart)
qed

lemma undo_keeps:
  assumes "pad_ok s" and "u \<in> pd_queued s" and off: "takeOffTablet u m (sending (pd_control s)) now (pd_tablet s) = (r, t)"
    and s': "s' = s\<lparr>pd_tablet := t, pd_takenBack := (if r = Removed then insert u (pd_takenBack s) else pd_takenBack s)\<rparr>"
  shows "pad_ok s'"
proof (cases "r = Removed")
  case False
  then have "s' = s" using take_off_moves(6) [OF pad_okD(1) [OF assms(1)] off] by (simp add: s')
  then show ?thesis using assms(1) by simp
next
  case True
  note inv = pad_okD [OF assms(1)]
  note moves = take_off_moves [OF inv(1) off]
  have t': "pd_tablet s' = t" "pd_queued s' = pd_queued s" "pd_control s' = pd_control s" "gone s' = insert u (gone s)"
    using True by (simp_all add: s' gone_def)
  show ?thesis
  proof (rule pad_ok_store [OF assms(1) t'(3)])
    show "held_bouts (pd_tablet s') \<subseteq> held_bouts (pd_tablet s)"
      unfolding t' by (rule held_bouts_mono [OF moves(4)])
    show "get_row k (outbox (pd_tablet s')) \<noteq> None" if ctl: "pd_control s = Sending k e ord f todo" for k e ord f todo
    proof -
      obtain a where a: "get_row k (outbox (pd_tablet s)) = Some a" "(k, a) \<in> set (rows (outbox (pd_tablet s)))"
        by (rule sending_row [OF assms(1) ctl])
      have "ob_clientUuid a \<noteq> u" by (rule moves(7) [OF True _ a(1)]) (simp add: ctl)
      then show ?thesis using moves(8) [OF a(2)] unfolding t' get_row_None by force
    qed
  qed (use moves(1,3,5) True inv(2,3) assms(2) in \<open>auto simp: t'\<close>)
qed

lemma note_outcome_held [simp]:
  "set (bo_held (note_outcome ord e outcome)) = (if outcome = Held then insert (ob_matchId e) (set (bo_held ord)) else set (bo_held ord))"
  by (simp add: note_outcome_def Let_def split: filed.split)

lemma after_row_cases:
  obtains "after_row w outcome e ord f todo = Resting"
    | n where "after_row w outcome e ord f todo = Walking (note_outcome ord e outcome) n todo"
  by (cases "outcome = Stopped \<or> gives_up w (failures_after w outcome f)") (simp_all add: after_row_def)

text \<open>A step of the engine between two rows.\<close>

lemma walking_keeps:
  assumes "pad_ok s" and s': "s' = s\<lparr>pd_control := c\<rparr>" and known: "\<And>ke. ke \<in> set (listed c) \<Longrightarrow> row_known (pd_tablet s) ke"
    and ord: "\<And>ord. order_of c = Some ord \<Longrightarrow> held_bouts (pd_tablet s) \<subseteq> set (bo_held ord)"
    and out: "\<And>k e ord f todo. c = Sending k e ord f todo \<Longrightarrow> waits_of ord e = None \<and> get_row k (outbox (pd_tablet s)) \<noteq> None"
  shows "pad_ok s'"
proof -
  note inv = pad_okD [OF assms(1)]
  have "pd_tablet s' = pd_tablet s" "pd_control s' = c" "gone s' = gone s" "pd_queued s' = pd_queued s" by (simp_all add: s' gone_def)
  moreover have "\<forall>ke \<in> set (listed c). row_known (pd_tablet s) ke" using known by blast
  ultimately show ?thesis unfolding pad_ok_def using inv(1-3) ord out by simp
qed

text \<open>The answer is filed: the row left for the server, went to the inbox, or stays.\<close>

lemma file_moves:
  assumes "pad_ok s" and ctl: "pd_control s = Sending k e ord f todo" and t': "t' = file_entry fl k e now (pd_tablet s)"
  shows "tablet_ok t'" and "grows (pd_tablet s) t'"
    and "held_bouts t' \<subseteq> (if filed_as fl = Held then insert (ob_matchId e) (held_bouts (pd_tablet s)) else held_bouts (pd_tablet s))"
    and "waiting t' \<union> held t' = waiting (pd_tablet s) \<union> held (pd_tablet s) - (if filed_as fl = Sent then {ob_clientUuid e} else {})"
    and "filed_as fl = Sent \<or> filed_as fl = Held \<Longrightarrow> get_row k (outbox t') = None"
proof -
  note inv = pad_okD [OF assms(1)]
  let ?t = "pd_tablet s"
  obtain a where a: "get_row k (outbox ?t) = Some a" "(k, a) \<in> set (rows (outbox ?t))" "ob_clientUuid a = ob_clientUuid e"
      "ob_matchId a = ob_matchId e" "ob_clientUuid e \<in> waiting ?t"
    by (rule sending_row [OF assms(1) ctl])
  have "tablet_ok t' \<and> grows ?t t' \<and>
      held_bouts t' \<subseteq> (if filed_as fl = Held then insert (ob_matchId e) (held_bouts ?t) else held_bouts ?t) \<and>
      waiting t' \<union> held t' = waiting ?t \<union> held ?t - (if filed_as fl = Sent then {ob_clientUuid e} else {}) \<and>
      (filed_as fl = Sent \<or> filed_as fl = Held \<longrightarrow> get_row k (outbox t') = None)"
  proof (cases "filed_as fl")
    case Sent
    then have o': "outbox t' = delete_row k (outbox ?t)" and r': "rejected t' = rejected ?t"
      by (auto simp: t' file_entry_def filed_as_def markSynced_def dropSentPress_def split: filing.splits)
    have "waiting t' = waiting ?t - {ob_clientUuid e}" using waiting_delete_row [OF inv(1) a(2) o'] a(3) by simp
    moreover have "tablet_ok t'"
      by (rule tablet_ok_remove [OF inv(1), where P = "\<lambda>i _. i = k" and Q = "\<lambda>_ _. False"]) (simp_all add: o' r' delete_row_def)
    moreover have "grows ?t t'"
      by (rule grows_fewer [where P = "\<lambda>i _. i = k" and Q = "\<lambda>_ _. False"]) (simp_all add: o' r' delete_row_def)
    moreover have "ob_clientUuid e \<notin> held ?t" using a(5) tablet_okD(5) [OF inv(1)] by blast
    ultimately show ?thesis using Sent by (auto simp: held_def r' o' boutsBehindHeldRow_def get_row_delete_row)
  next
    case Held
    then obtain reason code where "fl = FileHeld reason code" by (auto simp: filed_as_def split: filing.splits)
    then have eq: "t' = quarantine k reason code now ?t" by (simp add: t' file_entry_def)
    note q = quarantine_moves [OF inv(1) a(1), of reason code now]
    have "held_bouts t' = insert (ob_matchId e) (held_bouts ?t)"
      unfolding eq boutsBehindHeldRow_def by (simp add: quarantine_def a(1,4))
    moreover have "get_row k (outbox t') = None" by (simp add: eq quarantine_def a(1) get_row_delete_row)
    ultimately show ?thesis using q grows_quarantine [OF tablet_okD(1) [OF inv(1)], of k reason code now] Held a(3,5) unfolding eq by auto
  next
    case (Unsent u)
    then obtain err where "t' = markFailed k err ?t" by (auto simp: t' file_entry_def filed_as_def split: filing.splits)
    then have o': "outbox t' = modify_rows (\<lambda>i _. i = k) (\<lambda>e. e\<lparr>ob_attempts := ob_attempts e + 1, ob_lastError := Some err\<rparr>) (outbox ?t)"
      and r': "rejected t' = rejected ?t" by (simp_all add: markFailed_def)
    note m = tablet_ok_modify [OF inv(1) o' r'] grows_modify [OF o' r']
    show ?thesis using m Unsent by (auto simp: held_def r' boutsBehindHeldRow_def ident_def isTap_def kindOf_def)
  next
    case Stopped
    then have "t' = ?t" by (auto simp: t' file_entry_def filed_as_def split: filing.splits)
    then show ?thesis using Stopped inv(1) by simp
  qed
  then show "tablet_ok t'" "grows ?t t'"
    "held_bouts t' \<subseteq> (if filed_as fl = Held then insert (ob_matchId e) (held_bouts ?t) else held_bouts ?t)"
    "waiting t' \<union> held t' = waiting ?t \<union> held ?t - (if filed_as fl = Sent then {ob_clientUuid e} else {})"
    "filed_as fl = Sent \<or> filed_as fl = Held \<Longrightarrow> get_row k (outbox t') = None" by blast+
qed

lemma file_keeps:
  assumes "pad_ok s" and ctl: "pd_control s = Sending k e ord f todo" and c: "pd_control s' = after_row None (filed_as fl) e ord f todo"
    and t': "pd_tablet s' = file_entry fl k e now (pd_tablet s)" and q: "pd_queued s' = pd_queued s"
    and gone': "gone s' = (if filed_as fl = Sent then insert (ob_clientUuid e) (gone s) else gone s)"
  shows "pad_ok s'"
proof -
  note inv = pad_okD [OF assms(1)]
  note moved = file_moves [OF assms(1) ctl t']
  have known: "row_known (pd_tablet s') ke" if "ke \<in> set todo" for ke
    by (rule row_known_grows [OF inv(4)]) (use that moved ctl in auto)
  have "held_bouts (pd_tablet s) \<subseteq> set (bo_held ord)" using inv(5) ctl by simp
  moreover have "ob_clientUuid e \<in> waiting (pd_tablet s)" by (rule sending_row [OF assms(1) ctl])
  then have "pd_queued s' = waiting (pd_tablet s') \<union> held (pd_tablet s') \<union> gone s'"
      "(waiting (pd_tablet s') \<union> held (pd_tablet s')) \<inter> gone s' = {}"
    using moved(4) inv(2,3) unfolding q gone' by (auto split: if_splits)
  ultimately show ?thesis
    unfolding pad_ok_def using moved(1,3) known
    by (rule_tac after_row_cases [of None "filed_as fl" e ord f todo]) (auto simp: c split: if_splits)
qed

lemma step_keeps:
  assumes "pad_ok s" and "pad_step s ev s'"
  shows "pad_ok s'"
proof -
  note inv = pad_okD [OF assms(1)]
  have walk: "pad_ok (s\<lparr>pd_control := after_row w outcome e ord f todo\<rparr>)" "pad_ok (s\<lparr>pd_control := Walking ord f todo\<rparr>)"
    if here: "pd_control s = Walking ord f ((k, e) # todo)" "outcome \<noteq> Held" for w outcome k e ord f todo
  proof -
    have "row_known (pd_tablet s) ke" if "ke \<in> set todo" for ke by (rule inv(4)) (use here that in simp)
    moreover have "held_bouts (pd_tablet s) \<subseteq> set (bo_held ord)" using inv(5) here(1) by simp
    ultimately have go: "pad_ok (s\<lparr>pd_control := Walking ord' f' todo\<rparr>)" if "set (bo_held ord') = set (bo_held ord)" for ord' f'
      by (intro walking_keeps [OF assms(1) refl]) (use that in auto)
    show "pad_ok (s\<lparr>pd_control := Walking ord f todo\<rparr>)" by (rule go) simp
    have "pad_ok (s\<lparr>pd_control := Resting\<rparr>)" by (intro walking_keeps [OF assms(1) refl]) simp_all
    then show "pad_ok (s\<lparr>pd_control := after_row w outcome e ord f todo\<rparr>)"
      using go here(2) by (cases rule: after_row_cases [of w outcome e ord f todo]) simp_all
  qed
  show ?thesis
    using assms(2)
  proof cases
    case (score row now)
    show ?thesis by (rule add_keeps [OF assms(1), of "enqueued row now (pd_tablet s)"]) (use score in \<open>simp_all add: enqueue_def\<close>)
  next
    case (tap row)
    show ?thesis by (rule add_keeps [OF assms(1), of row]) (use tap in \<open>simp_all add: queueTap_def\<close>)
  next
    case (undo u m now r t)
    show ?thesis by (rule undo_keeps [OF assms(1) undo(3,4,2)])
  next
    case (forget_undone u)
    have t': "waiting (pd_tablet s') = waiting (pd_tablet s)" "held (pd_tablet s') = held (pd_tablet s)" "gone s' = gone s"
        "outbox (pd_tablet s') = outbox (pd_tablet s)" "rejected (pd_tablet s') = rejected (pd_tablet s)"
      by (simp_all add: forget_undone forgetUndone_def waiting_def held_def gone_def)
    show ?thesis
      by (rule remove_keeps [OF assms(1), where P = "\<lambda>_ _. False" and Q = "\<lambda>_ _. False"]) (simp_all add: t', simp_all add: forget_undone uuids_def)
  next
    case (retry k seq b t)
    obtain b' t' where t': "requeueRejectedEntry k seq (pd_tablet s) = Some (b', t')" "tablet_ok t'"
        "waiting t' \<union> held t' = waiting (pd_tablet s) \<union> held (pd_tablet s)" "set (rows (outbox (pd_tablet s))) \<subseteq> set (rows (outbox t'))"
        "grows (pd_tablet s) t'" "set (rows (rejected t')) \<subseteq> set (rows (rejected (pd_tablet s)))"
      by (rule requeue_entry_moves [OF inv(1)])
    then show ?thesis using retry_keeps [OF assms(1) retry(2)] retry(3) by simp
  next
    case (retry_all es nextByMatch t)
    have same: "e' = e" if "(k, e) \<in> set es" "get_row k (rejected (pd_tablet s)) = Some e'" for k e e'
      using curable_listed [OF inv(1) _ that(2)] that(1) retry_all(3) by blast
    obtain t' where t': "requeue_each nextByMatch es (pd_tablet s) = Some t'" "tablet_ok t'"
        "waiting t' \<union> held t' = waiting (pd_tablet s) \<union> held (pd_tablet s)" "set (rows (outbox (pd_tablet s))) \<subseteq> set (rows (outbox t'))"
        "grows (pd_tablet s) t'" "set (rows (rejected t')) \<subseteq> set (rows (rejected (pd_tablet s)))"
      by (rule requeue_each_moves [OF inv(1), of es nextByMatch], rule same)
    then show ?thesis using retry_keeps [OF assms(1) retry_all(2)] retry_all(4) by simp
  next
    case (discard k)
    show ?thesis
      by (rule remove_keeps [OF assms(1), where P = "\<lambda>_ _. False" and Q = "\<lambda>i _. i = k"])
        (auto simp: discard discardRejected_def delete_row_def gone_def uuids_def)
  next
    case (discard_bout k h)
    have "ob_matchId h \<in> held_bouts (pd_tablet s)"
      using discard_bout(3) get_row_iff [OF tablet_okD(2) [OF inv(1)]] by (auto simp: held_bouts_iff)
    then have free: "ob_matchId a \<noteq> ob_matchId h" if "pd_control s = Sending k' e ord f todo" "get_row k' (outbox (pd_tablet s)) = Some a"
      for k' e ord f todo a
      using sending_row [OF assms(1) that(1)] that(2) by (metis option.inject)
    show ?thesis
      by (rule remove_keeps [OF assms(1), where P = "\<lambda>_ e. ob_matchId e = ob_matchId h" and Q = "\<lambda>_ e. ob_matchId e = ob_matchId h"])
        (use discard_bout(3) free in \<open>auto simp: discard_bout(2) discardBoutOf_def gone_def uuids_def rows_where_def Let_def\<close>)
  next
    case (judge_starts v ids)
    show ?thesis
      by (rule modify_keeps [OF assms(1) judge_starts(2) [unfolded judgeStarts_def]]) (simp add: ident_def isTap_def kindOf_def)
  next
    case list_queue
    show ?thesis unfolding list_queue(2)
      by (rule walking_keeps [OF assms(1) refl]) (use row_known_listed [OF inv(1)] in auto)
  next
    case (open_pass todo)
    have "row_known (pd_tablet s) ke" if "ke \<in> set todo" for ke by (rule inv(4)) (use open_pass that in simp)
    then show ?thesis unfolding open_pass(2)
      by (intro walking_keeps [OF assms(1) refl]) (auto simp: BoutOrder_def)
  next
    case (pass_over_held order failures k entry todo)
    show ?thesis unfolding pass_over_held(2) by (rule walk(2) [OF pass_over_held(3), of Sent]) simp
  next
    case (pass_over_unsent order failures k entry todo u)
    show ?thesis unfolding pass_over_unsent(2) by (rule walk(1) [OF pass_over_unsent(3)]) simp
  next
    case (gone order failures k entry todo)
    show ?thesis unfolding gone(2) by (rule walk(2) [OF gone(3), of Sent]) simp
  next
    case (claim order failures k entry todo)
    have "row_known (pd_tablet s) ke" if "ke \<in> set ((k, entry) # todo)" for ke by (rule inv(4)) (use claim that in simp)
    moreover have "held_bouts (pd_tablet s) \<subseteq> set (bo_held order)" using inv(5) claim(3) by simp
    ultimately show ?thesis unfolding claim(2)
      by (intro walking_keeps [OF assms(1) refl]) (use claim(4,5) in \<open>auto simp: claimForSend_def\<close>)
  next
    case (post k entry order failures todo)
    then show ?thesis using assms(1) by (simp add: pad_ok_def gone_def)
  next
    case (file_answer k entry order failures todo fl tk now)
    show ?thesis by (rule file_keeps [OF assms(1) file_answer(3)]) (auto simp: file_answer(2) gone_def)
  next
    case (end_pass order failures todo)
    show ?thesis unfolding end_pass(2) by (rule walking_keeps [OF assms(1) refl]) simp_all
  qed
qed

lemma fresh_pad_ok: "pad_ok fresh_pad"
proof -
  have "tablet_ok empty_tablet"
    by (intro tablet_okI one_eachI places_freeI) (simp_all add: empty_tablet_def waiting_def)
  then show ?thesis
    by (simp add: pad_ok_def fresh_pad_def gone_def) (simp add: empty_tablet_def waiting_def held_def)
qed

lemma run_keeps: "pad_run calm s s' \<Longrightarrow> pad_ok s \<Longrightarrow> pad_ok s'"
  by (induction rule: pad_run.induct) (auto intro: step_keeps)

definition copies :: "string \<Rightarrow> tablet \<Rightarrow> nat" where
  "copies u t =
     length (filter (\<lambda>(_, e). ob_clientUuid e = u) (rows (outbox t))) +
     length (filter (\<lambda>(_, e). ob_clientUuid e = u) (rows (rejected t)))"

lemma rows_of_one:
  assumes "table_ok tb" and "one_each (set (rows tb))"
  shows "length (filter (\<lambda>(_, e). ob_clientUuid e = u) (rows tb)) = (if u \<in> uuids (rows tb) then 1 else 0)"
proof -
  let ?R = "filter (\<lambda>(_, e). ob_clientUuid e = u) (rows tb)"
  have "distinct ?R" using table_ok_distinct [OF assms(1)] by (simp add: distinct_map)
  moreover have same: "x = y" if "x \<in> set ?R" "y \<in> set ?R" for x y
  proof -
    obtain i a j b where xy: "x = (i, a)" "y = (j, b)" by fastforce
    then have ab: "(i, a) \<in> set (rows tb)" "(j, b) \<in> set (rows tb)" "ob_clientUuid a = ob_clientUuid b" using that by auto
    have "i = j" using uuid_key [OF assms ab(1,2)] ab(3) by blast
    then have "a = b" using eq_key_imp_eq_value [OF table_ok_distinct [OF assms(1)] ab(1)] ab(2) by blast
    then show ?thesis using xy \<open>i = j\<close> by simp
  qed
  ultimately have "length ?R \<le> 1" by (metis card_le_Suc0_iff_eq One_nat_def distinct_card finite_set)
  moreover have "?R = [] \<longleftrightarrow> u \<notin> uuids (rows tb)" by (force simp: filter_empty_conv uuids_def)
  ultimately show ?thesis by (cases ?R) auto
qed

text \<open>
  C8. No hit, no card and no press is lost, and none is there twice. However the referee's
  scoring, undoing, retrying and discarding fall between the steps of a send, and whatever the
  server answers: an entry that was queued is on the tablet exactly once, in the queue or in the
  inbox, until the server answered that it has it, the undo took it back or the operator
  discarded it; from then on it is not on the tablet. Nothing else is.
\<close>

theorem nothing_queued_is_lost:
  assumes "pad_run calm fresh_pad s"
  shows "copies u (pd_tablet s) =
    (if u \<in> pd_queued s \<and> u \<notin> pd_taken s \<and> u \<notin> pd_takenBack s \<and> u \<notin> pd_discarded s then 1 else 0)"
proof -
  note inv = pad_okD [OF run_keeps [OF assms fresh_pad_ok]]
  note ok = tablet_okD [OF inv(1)]
  have "copies u (pd_tablet s) = (if u \<in> waiting (pd_tablet s) then 1 else 0) + (if u \<in> held (pd_tablet s) then 1 else 0)"
    using rows_of_one [OF ok(1,3)] rows_of_one [OF ok(2,4)] by (simp add: copies_def waiting_def held_def uuids_def)
  also have "\<dots> = (if u \<in> waiting (pd_tablet s) \<union> held (pd_tablet s) then 1 else 0)" using ok(5) by auto
  also have "u \<in> waiting (pd_tablet s) \<union> held (pd_tablet s) \<longleftrightarrow> u \<in> pd_queued s \<and> u \<notin> gone s" using inv(2,3) by blast
  finally show ?thesis by (simp add: gone_def)
qed

lemma gone_grows: "pad_step s ev s' \<Longrightarrow> gone s \<subseteq> gone s'"
  by (induction rule: pad_step.induct) (auto simp: gone_def)

text \<open>What leaves the tablet is the row whose send is out.\<close>

lemma post_sends:
  assumes "pad_step s ev s'" and "\<And>k e ord f todo. pd_control s = Sending k e ord f todo \<Longrightarrow> ob_clientUuid e \<noteq> u"
  shows "count_list (pd_wire s') u = count_list (pd_wire s) u"
  using assms(1)
proof cases
  case (post k entry order failures todo)
  then show ?thesis using assms(2) [OF post(3)] by simp
qed simp_all

lemma posts_stay:
  assumes "pad_ok s" and "u \<in> gone s" and "pad_step s ev s'"
  shows "count_list (pd_wire s') u = count_list (pd_wire s) u" and "u \<in> gone s'"
proof -
  have "u \<notin> waiting (pd_tablet s)" using pad_okD(3) [OF assms(1)] assms(2) by blast
  then have "ob_clientUuid e \<noteq> u" if "pd_control s = Sending k e ord f todo" for k e ord f todo
    by (rule_tac sending_row [OF assms(1) that]) blast
  then show "count_list (pd_wire s') u = count_list (pd_wire s) u" by (rule post_sends [OF assms(3)])
  show "u \<in> gone s'" using gone_grows [OF assms(3)] assms(2) by blast
qed

text \<open>
  C9. An undo is final. Once the tablet answered the referee that an entry is taken back, no
  send of it leaves the tablet any more, in whatever order the rest of the run falls: not by
  a pass that had listed the row before, and not by a retry of the inbox. (A send that had
  left before may have reached the server; that one is asked about later.)
\<close>

theorem undo_is_final:
  assumes "pad_run calm fresh_pad s" and "u \<in> pd_takenBack s" and "pad_run calm' s s'"
  shows "count_list (pd_wire s') u = count_list (pd_wire s) u"
proof -
  have ok: "pad_ok s" by (rule run_keeps [OF assms(1) fresh_pad_ok])
  have "count_list (pd_wire s') u = count_list (pd_wire s) u \<and> u \<in> gone s'"
    using assms(3)
  proof induction
    case here
    then show ?case using assms(2) by (simp add: gone_def)
  next
    case (further s1 ev s2)
    then show ?case using posts_stay [OF run_keeps [OF further(1) ok]] by auto
  qed
  then show ?thesis by blast
qed

subsection \<open>The rows of a bout go in order\<close>

lemma step_grows:
  assumes "pad_ok s" and "pad_step s ev s'"
  shows "grows (pd_tablet s) (pd_tablet s')"
  using assms(2)
proof cases
  case (score row now)
  show ?thesis by (rule grows_add [of _ "enqueued row now (pd_tablet s)"]) (simp_all add: score(2) enqueue_def)
next
  case (tap row)
  show ?thesis by (rule grows_add [of _ row]) (simp_all add: tap(2) queueTap_def)
next
  case (undo u m now r t)
  show ?thesis using take_off_moves(3) [OF pad_okD(1) [OF assms(1)] undo(4)] by (simp add: undo(2))
next
  case (forget_undone u)
  show ?thesis by (rule grows_same) (simp_all add: forget_undone(2) forgetUndone_def)
next
  case (retry k seq b t)
  obtain b' t' where "requeueRejectedEntry k seq (pd_tablet s) = Some (b', t')" "grows (pd_tablet s) t'"
    by (rule requeue_entry_moves [OF pad_okD(1) [OF assms(1)]])
  then show ?thesis using retry(2,3) by simp
next
  case (retry_all es nextByMatch t)
  have same: "e' = e" if "(k, e) \<in> set es" "get_row k (rejected (pd_tablet s)) = Some e'" for k e e'
    using curable_listed [OF pad_okD(1) [OF assms(1)] _ that(2)] that(1) retry_all(3) by blast
  obtain t' where "requeue_each nextByMatch es (pd_tablet s) = Some t'" "grows (pd_tablet s) t'"
    by (rule requeue_each_moves [OF pad_okD(1) [OF assms(1)], of es nextByMatch], rule same)
  then show ?thesis using retry_all(2,4) by simp
next
  case (discard k)
  show ?thesis
    by (rule grows_fewer [where P = "\<lambda>_ _. False" and Q = "\<lambda>i _. i = k"]) (simp_all add: discard(2) discardRejected_def delete_row_def)
next
  case (discard_bout k h)
  show ?thesis
    by (rule grows_fewer [where P = "\<lambda>_ e. ob_matchId e = ob_matchId h" and Q = "\<lambda>_ e. ob_matchId e = ob_matchId h"])
      (simp_all add: discard_bout(2,3) discardBoutOf_def Let_def)
next
  case (judge_starts v ids)
  show ?thesis
  proof -
    have "outbox (pd_tablet s') =
        modify_rows (\<lambda>k row. (case ids of None \<Rightarrow> True | Some ks \<Rightarrow> k \<in> set ks) \<and> unjudgedStart row)
          (\<lambda>row. row\<lparr>ob_startNetwork := Some v\<rparr>) (outbox (pd_tablet s))"
      by (simp add: judge_starts(2) judgeStarts_def)
    then show ?thesis by (rule grows_modify) (simp_all add: judge_starts(2) judgeStarts_def ident_def isTap_def kindOf_def)
  qed
next
  case (file_answer k entry order failures todo fl tk now)
  show ?thesis using file_moves(2) [OF assms(1) file_answer(3) refl] by (simp add: file_answer(2))
qed simp_all

text \<open>
  Where a row of the queue stands towards the pass: still to come, newer than everything the
  pass has listed, of a bout that holds a refused row, or passed over because it, or another
  row of its bout, could not be sent.
\<close>

definition accounted :: "bout_order \<Rightarrow> nat set \<Rightarrow> nat \<Rightarrow> outbox_row \<Rightarrow> bool" where
  "accounted ord keys j a \<longleftrightarrow>
     j \<in> keys \<or> (\<forall>k \<in> keys. k < j) \<or> ob_matchId a \<in> set (bo_held ord) \<or>
     (\<exists>press u. bo_unsent ord (ob_matchId a) = Some (press, u) \<and> (isTap a \<longrightarrow> press))"

definition in_order :: "pad \<Rightarrow> bool" where
  "in_order s \<longleftrightarrow>
     sorted_wrt (<) (map fst (listed (pd_control s))) \<and>
     (case pd_control s of
        Resting \<Rightarrow> True
      | Listed todo \<Rightarrow> \<forall>j \<in> fst ` set (rows (outbox (pd_tablet s))). j \<in> fst ` set todo \<or> (\<forall>k \<in> fst ` set todo. k < j)
      | Walking ord _ todo \<Rightarrow> \<forall>(j, a) \<in> set (rows (outbox (pd_tablet s))). accounted ord (fst ` set todo) j a
      | Sending k e ord _ todo \<Rightarrow> \<forall>(j, a) \<in> set (rows (outbox (pd_tablet s))). accounted ord (insert k (fst ` set todo)) j a)"

lemma accounted_ident: "ident a = ident b \<Longrightarrow> accounted ord keys j a = accounted ord keys j b"
  by (simp add: accounted_def ident_def)

lemma accounted_less: "accounted ord (insert k keys) j a \<Longrightarrow> j \<noteq> k \<Longrightarrow> accounted ord keys j a"
  unfolding accounted_def by blast

lemma accounted_note:
  assumes "accounted ord keys j a"
  shows "accounted (note_outcome ord e outcome) keys j a"
proof (cases outcome)
  case (Unsent u)
  have held: "bo_held (note_outcome ord e outcome) = bo_held ord" by (simp add: Unsent note_outcome_def Let_def)
  show ?thesis
  proof (cases "ob_matchId a = ob_matchId e")
    case True
    then show ?thesis
      using assms unfolding accounted_def held by (auto simp: Unsent note_outcome_def Let_def)
  next
    case False
    then show ?thesis using assms unfolding accounted_def held by (simp add: Unsent note_outcome_def Let_def)
  qed
qed (use assms in \<open>auto simp: accounted_def note_outcome_def\<close>)

lemma accounted_unsent:
  assumes "ob_matchId a = ob_matchId e" and "isTap a = isTap e"
  shows "accounted (note_outcome ord e (Unsent u)) keys j a"
  using assms by (simp add: accounted_def note_outcome_def Let_def)

text \<open>A step of the store while a pass walks.\<close>

lemma accounted_grows:
  assumes "pad_ok s" and ord: "order_of (pd_control s) = Some ord" and grow: "grows (pd_tablet s) t'"
    and all: "\<forall>(j, a) \<in> set (rows (outbox (pd_tablet s))). accounted ord (fst ` set (listed (pd_control s))) j a"
  shows "\<forall>(j, a) \<in> set (rows (outbox t')). accounted ord (fst ` set (listed (pd_control s))) j a"
proof (clarify)
  fix j a assume "(j, a) \<in> set (rows (outbox t'))"
  then have "(j, ident a) \<in> homes (pd_tablet s) \<or> next_key (outbox (pd_tablet s)) \<le> j"
    using grow homesI(1) unfolding grows_def by blast
  then show "accounted ord (fst ` set (listed (pd_control s))) j a"
  proof
    assume "(j, ident a) \<in> homes (pd_tablet s)"
    then show ?thesis
    proof (rule homesE)
      fix b assume "(j, b) \<in> set (rows (outbox (pd_tablet s)))" "ident a = ident b"
      then show ?thesis using all accounted_ident by blast
    next
      fix i b assume "(i, b) \<in> set (rows (rejected (pd_tablet s)))" "ident a = ident b"
      then have "ob_matchId a \<in> held_bouts (pd_tablet s)" by (auto simp: held_bouts_iff ident_def)
      then show ?thesis using pad_okD(5) [OF assms(1) ord] by (auto simp: accounted_def)
    qed
  next
    assume "next_key (outbox (pd_tablet s)) \<le> j"
    moreover have "k < next_key (outbox (pd_tablet s))" if "k \<in> fst ` set (listed (pd_control s))" for k
      using pad_okD(4) [OF assms(1)] that by (auto simp: row_known_def)
    ultimately have "\<forall>k \<in> fst ` set (listed (pd_control s)). k < j" by (meson less_le_trans)
    then show ?thesis by (simp add: accounted_def)
  qed
qed

lemma get_row_in: "(k, a) \<in> set (rows tb) \<Longrightarrow> get_row k tb \<noteq> None"
  by (metis get_row_None fst_conv image_eqI)

lemma keys_mono: "A \<subseteq> B \<Longrightarrow> fst ` A \<subseteq> fst ` B \<union> C"
  by blast

text \<open>In the moment after the list no key comes back, when nothing is retried.\<close>

lemma listed_keys:
  assumes "pad_ok s" and "pad_step s ev s'" and "pd_control s = Listed todo" and "\<not> retry_while_listed s ev"
  shows "fst ` set (rows (outbox (pd_tablet s'))) \<subseteq> fst ` set (rows (outbox (pd_tablet s))) \<union> {next_key (outbox (pd_tablet s))}"
  using assms(2)
proof cases
  case (undo u m now r t)
  have t': "pd_tablet s' = t" by (simp add: undo(2))
  show ?thesis unfolding t' by (rule keys_mono [OF take_off_fewer [OF undo(4)]])
next
  case (judge_starts v ids)
  have "map fst (rows (outbox (pd_tablet s'))) = map fst (rows (outbox (pd_tablet s)))"
    by (simp add: judge_starts(2) judgeStarts_def)
  then have "fst ` set (rows (outbox (pd_tablet s'))) = fst ` set (rows (outbox (pd_tablet s)))" by (metis list.set_map)
  then show ?thesis by blast
next
  case (discard_bout k h)
  then have "set (rows (outbox (pd_tablet s'))) \<subseteq> set (rows (outbox (pd_tablet s)))" by (auto simp: discardBoutOf_def Let_def)
  then show ?thesis by (rule keys_mono)
next
  case (retry k seq b t)
  then show ?thesis using assms(3,4) by (simp add: retry_while_listed_def)
next
  case (retry_all es nextByMatch t)
  then show ?thesis using assms(3,4) by (simp add: retry_while_listed_def)
next
  case (file_answer k entry order failures todo fl tk now)
  then show ?thesis using assms(3) by simp
qed (auto simp: enqueue_def queueTap_def forgetUndone_def discardRejected_def)

lemma in_order_store:
  assumes "pad_ok s" and "in_order s" and "pad_step s ev s'" and calm: "\<not> retry_while_listed s ev" and ctl: "pd_control s' = pd_control s"
  shows "in_order s'"
proof (cases "pd_control s")
  case (Listed todo)
  have old: "k < next_key (outbox (pd_tablet s))" if "k \<in> fst ` set todo" for k
    using pad_okD(4) [OF assms(1)] that Listed by (auto simp: row_known_def)
  have "j \<in> fst ` set todo \<or> (\<forall>k \<in> fst ` set todo. k < j)" if "j \<in> fst ` set (rows (outbox (pd_tablet s')))" for j
  proof -
    have "j \<in> fst ` set (rows (outbox (pd_tablet s))) \<or> j = next_key (outbox (pd_tablet s))"
      using listed_keys [OF assms(1,3) Listed calm] that by blast
    then show ?thesis using assms(2) old unfolding in_order_def Listed by auto
  qed
  then show ?thesis using assms(2) by (simp add: in_order_def ctl Listed)
next
  case (Walking ord f todo)
  then show ?thesis
    using accounted_grows [OF assms(1) _ step_grows [OF assms(1,3)], of ord] assms(2) by (simp add: in_order_def ctl)
next
  case (Sending k e ord f todo)
  then show ?thesis
    using accounted_grows [OF assms(1) _ step_grows [OF assms(1,3)], of ord] assms(2) by (simp add: in_order_def ctl)
qed (simp add: in_order_def ctl)

text \<open>A row that is left behind, and one that is not sent, are accounted for.\<close>

lemma in_order_walking:
  assumes "sorted_wrt (<) (map fst todo)" and "\<And>j a. (j, a) \<in> set (rows (outbox (pd_tablet s))) \<Longrightarrow> accounted ord (fst ` set todo) j a"
    and "pd_control s = Walking ord f todo"
  shows "in_order s"
  using assms by (auto simp: in_order_def)

lemma in_order_resting: "pd_control s = Resting \<Longrightarrow> in_order s"
  by (simp add: in_order_def)

lemma walking_row:
  assumes "pad_ok s" and "in_order s" and ctl: "pd_control s = Walking ord f ((k, e) # todo)" and "(j, a) \<in> set (rows (outbox (pd_tablet s)))"
  shows "j = k \<and> ob_matchId a = ob_matchId e \<and> isTap a = isTap e \<or> j \<noteq> k \<and> accounted ord (fst ` set todo) j a"
    and "sorted_wrt (<) (map fst todo)"
proof -
  have "row_known (pd_tablet s) (k, e)" by (rule pad_okD(4) [OF assms(1)]) (simp add: ctl)
  then have "ob_matchId a = ob_matchId e \<and> isTap a = isTap e" if "j = k"
    using homesI(1) [OF assms(4)] that by (auto simp: row_known_def ident_def)
  moreover have "accounted ord (insert k (fst ` set todo)) j a" using assms(2,4) by (auto simp: in_order_def ctl)
  ultimately show "j = k \<and> ob_matchId a = ob_matchId e \<and> isTap a = isTap e \<or> j \<noteq> k \<and> accounted ord (fst ` set todo) j a"
    using accounted_less by blast
  show "sorted_wrt (<) (map fst todo)" using assms(2) by (simp add: in_order_def ctl)
qed

lemma in_order_file:
  assumes "pad_ok s" and "in_order s" and ctl: "pd_control s = Sending k e ord f todo"
    and t': "pd_tablet s' = file_entry fl k e now (pd_tablet s)" and c: "pd_control s' = after_row None (filed_as fl) e ord f todo"
  shows "in_order s'"
proof (cases rule: after_row_cases [of None "filed_as fl" e ord f todo])
  case 1
  then show ?thesis by (simp add: c in_order_resting)
next
  case (2 n)
  note moved = file_moves [OF assms(1) ctl t']
  have stop: "filed_as fl \<noteq> Stopped" using 2 by (auto simp: after_row_def)
  show ?thesis
  proof (rule in_order_walking)
    show "sorted_wrt (<) (map fst todo)" using assms(2) by (simp add: in_order_def ctl)
    show "pd_control s' = Walking (note_outcome ord e (filed_as fl)) n todo" by (simp add: c 2)
    fix j a assume a: "(j, a) \<in> set (rows (outbox (pd_tablet s')))"
    have "\<forall>(j, a) \<in> set (rows (outbox (pd_tablet s))). accounted ord (fst ` set (listed (pd_control s))) j a"
      using assms(2) by (simp add: in_order_def ctl)
    then have acc: "accounted ord (insert k (fst ` set todo)) j a"
      using accounted_grows [OF assms(1) _ moved(2), of ord] a by (auto simp: ctl)
    show "accounted (note_outcome ord e (filed_as fl)) (fst ` set todo) j a"
    proof (cases "j = k")
      case False
      then show ?thesis by (intro accounted_note accounted_less [OF acc])
    next
      case True
      then have "get_row k (outbox (pd_tablet s')) \<noteq> None" using get_row_in [OF a] by simp
      then obtain u where u: "filed_as fl = Unsent u" using moved(5) stop by (cases "filed_as fl") auto
      have "row_known (pd_tablet s') (k, e)" by (rule row_known_grows [OF pad_okD(4) [OF assms(1)] moved(2)]) (simp add: ctl)
      then have "ident a = ident e" by (rule row_knownD) (use homesI(1) [OF a] True in simp)
      then show ?thesis unfolding u by (intro accounted_unsent) (simp_all add: ident_def)
    qed
  qed
qed

lemma in_order_step:
  assumes "pad_ok s" and "in_order s" and "pad_step s ev s'" and calm: "\<not> retry_while_listed s ev"
  shows "in_order s'"
  using assms(3)
proof cases
  case list_queue
  show ?thesis using tablet_okD(1) [OF pad_okD(1) [OF assms(1)]] by (auto simp: in_order_def list_queue(2) table_ok_def)
next
  case (open_pass todo)
  show ?thesis
  proof (rule in_order_walking)
    fix j a assume "(j, a) \<in> set (rows (outbox (pd_tablet s')))"
    then have "j \<in> fst ` set (rows (outbox (pd_tablet s)))" by (force simp: open_pass(2))
    then show "accounted (BoutOrder (boutsBehindHeldRow (pd_tablet s))) (fst ` set todo) j a"
      using assms(2) by (auto simp: in_order_def open_pass(3) accounted_def)
  qed (use assms(2) open_pass in \<open>simp_all add: in_order_def\<close>)
next
  case (pass_over_held order failures k entry todo)
  have held: "ob_matchId entry \<in> set (bo_held order)"
    using pass_over_held(4) by (auto simp: waits_of_def split: if_splits option.splits)
  have "accounted order (fst ` set todo) j a" if "(j, a) \<in> set (rows (outbox (pd_tablet s)))" for j a
    using walking_row(1) [OF assms(1,2) pass_over_held(3) that] held by (auto simp: accounted_def)
  then show ?thesis
    by (intro in_order_walking [of todo _ order]) (use assms(2) pass_over_held(2,3) in \<open>simp_all add: in_order_def\<close>)
next
  case (pass_over_unsent order failures k entry todo u)
  show ?thesis
  proof (cases rule: after_row_cases [of "waits_of order entry" "Unsent u" entry order failures todo])
    case 1
    then show ?thesis by (simp add: pass_over_unsent(2) in_order_resting)
  next
    case (2 n)
    have "accounted (note_outcome order entry (Unsent u)) (fst ` set todo) j a" if "(j, a) \<in> set (rows (outbox (pd_tablet s)))" for j a
      using walking_row(1) [OF assms(1,2) pass_over_unsent(3) that] accounted_unsent accounted_note by blast
    then show ?thesis
      by (intro in_order_walking [of todo _ "note_outcome order entry (Unsent u)"])
        (use assms(2) 2 pass_over_unsent(2,3) in \<open>simp_all add: in_order_def\<close>)
  qed
next
  case (gone order failures k entry todo)
  have "j \<noteq> k" if "(j, a) \<in> set (rows (outbox (pd_tablet s)))" for j a
    using gone(5) get_row_in [OF that] by (auto simp: claimForSend_def)
  then have "accounted order (fst ` set todo) j a" if "(j, a) \<in> set (rows (outbox (pd_tablet s)))" for j a
    using walking_row(1) [OF assms(1,2) gone(3) that] that by blast
  then show ?thesis
    by (intro in_order_walking [of todo _ order]) (use assms(2) gone(2,3) in \<open>simp_all add: in_order_def\<close>)
next
  case (claim order failures k entry todo)
  then show ?thesis using assms(2) by (simp add: in_order_def)
next
  case (file_answer k entry order failures todo fl tk now)
  show ?thesis by (rule in_order_file [OF assms(1,2) file_answer(3)]) (simp_all add: file_answer(2))
next
  case (end_pass order failures todo)
  then show ?thesis by (simp add: in_order_resting)
qed (rule in_order_store [OF assms], simp)+

lemma run_in_order: "pad_run True s s' \<Longrightarrow> pad_ok s \<Longrightarrow> in_order s \<Longrightarrow> in_order s'"
  by (induction rule: pad_run.induct) (auto intro: in_order_step run_keeps)

text \<open>
  C10. The rows of a bout reach the server in the order they were made. When a row is sent, its
  bout holds no refused row, and no row of its bout that was made before it still waits: except
  that a hit or a card goes past a hit or a card that could not be sent. So no press overtakes
  a hit of its bout, and no hit a press. This needs that nothing is retried in the moment
  between the list of the queue and the read of the held rows.
\<close>

theorem bout_goes_in_order:
  assumes "pad_run True fresh_pad s" and "pd_control s = Sending k e ord f todo"
  shows "(\<forall>(_, r) \<in> set (rows (rejected (pd_tablet s))). ob_matchId r \<noteq> ob_matchId e) \<and>
    (\<forall>(j, a) \<in> set (rows (outbox (pd_tablet s))). j < k \<and> ob_matchId a = ob_matchId e \<longrightarrow> \<not> isTap a \<and> \<not> isTap e)"
proof -
  have ok: "pad_ok s" by (rule run_keeps [OF assms(1) fresh_pad_ok])
  have ord: "in_order s" by (rule run_in_order [OF assms(1) fresh_pad_ok]) (simp add: in_order_def fresh_pad_def)
  have "ob_matchId e \<notin> held_bouts (pd_tablet s)" by (rule sending_row [OF ok assms(2)])
  then have "\<forall>(_, r) \<in> set (rows (rejected (pd_tablet s))). ob_matchId r \<noteq> ob_matchId e"
    unfolding held_bouts_iff by (metis (mono_tags, lifting) case_prodI2)
  moreover have "\<not> isTap a \<and> \<not> isTap e" if a: "(j, a) \<in> set (rows (outbox (pd_tablet s)))" "j < k" "ob_matchId a = ob_matchId e" for j a
  proof -
    have waits: "waits_of ord e = None" using pad_okD(6) [OF ok assms(2)] by simp
    have "k < i" if "i \<in> fst ` set todo" for i using ord that by (auto simp: in_order_def assms(2))
    then have "j \<noteq> k" "j \<notin> fst ` set todo" "\<not> (\<forall>i \<in> insert k (fst ` set todo). i < j)" using a(2) by force+
    moreover have "ob_matchId a \<notin> set (bo_held ord)" using waits a(3) by (auto simp: waits_of_def)
    moreover have "accounted ord (insert k (fst ` set todo)) j a" using ord a(1) by (auto simp: in_order_def assms(2))
    ultimately obtain press u where u: "bo_unsent ord (ob_matchId a) = Some (press, u)" "isTap a \<longrightarrow> press"
      unfolding accounted_def by blast
    then have "\<not> press \<and> \<not> isTap e" using waits a(3) by (auto simp: waits_of_def split: if_splits)
    then show ?thesis using u(2) by blast
  qed
  ultimately show ?thesis by blast
qed

subsection \<open>Two runs\<close>

definition sample_time :: tablet_time where
  "sample_time = \<lparr>tt_wall = 0, tt_page = 0, tt_origin = 0\<rparr>"

definition a_hit :: outbox_row where
  "a_hit = enqueued (sample_row 1) sample_time empty_tablet"

definition the_end :: outbox_row where
  "the_end = (sample_row 2)\<lparr>ob_kind := Some PressKind, ob_pressAction := Some PEnd\<rparr>"

lemma sample_row_fields [simp]: "ob_matchId (sample_row n) = ''m''" "\<not> isTap (sample_row n)"
  by (simp_all add: sample_row_def isTap_def kindOf_def)

lemma sample_fields [simp]:
  "ob_clientUuid a_hit = show_nat 1" "ob_clientUuid the_end = show_nat 2" "ob_matchId a_hit = ''m''" "ob_matchId the_end = ''m''"
  "\<not> isTap a_hit" "isTap the_end"
  by (simp_all add: a_hit_def the_end_def) (simp add: isTap_def kindOf_def)

lemma run_step:
  "pad_run calm s s' \<Longrightarrow> pad_step s' ev s'' \<Longrightarrow> (case ev of Retry _ _ \<Rightarrow> False | RetryAll _ _ \<Rightarrow> False | _ \<Rightarrow> True) \<Longrightarrow> pad_run calm s s''"
  by (rule pad_run.further) (auto simp: retry_while_listed_def split: control.splits pad_event.splits)

text \<open>A hit is queued and its bout's end pressed; the send of the hit is out.\<close>

definition sent_pad :: pad where
  "sent_pad =
     \<lparr>pd_tablet = \<lparr>outbox = \<lparr>rows = [(1, a_hit), (2, the_end)], next_key = 3\<rparr>, synced = [], rejected = empty_table, undone = []\<rparr>,
      pd_control = Sending 1 a_hit (BoutOrder []) 0 [(2, the_end)], pd_wire = [show_nat 1], pd_queued = {show_nat 1, show_nat 2},
      pd_taken = {}, pd_takenBack = {}, pd_discarded = {}\<rparr>"

lemma to_sent_pad: "pad_run calm fresh_pad sent_pad"
proof -
  define s1 where "s1 = fresh_pad\<lparr>pd_tablet := enqueue (sample_row 1) sample_time (pd_tablet fresh_pad), pd_queued := {show_nat 1}\<rparr>"
  define s2 where "s2 = s1\<lparr>pd_tablet := queueTap the_end (pd_tablet s1), pd_queued := {show_nat 2, show_nat 1}\<rparr>"
  define s3 where "s3 = s2\<lparr>pd_control := Listed (rows (outbox (pd_tablet s2)))\<rparr>"
  define s4 where "s4 = s3\<lparr>pd_control := Walking (BoutOrder (boutsBehindHeldRow (pd_tablet s3))) 0 [(1, a_hit), (2, the_end)]\<rparr>"
  define s5 where "s5 = s4\<lparr>pd_control := Sending 1 a_hit (BoutOrder []) 0 [(2, the_end)]\<rparr>"
  have t: "pd_tablet s2 = \<lparr>outbox = \<lparr>rows = [(1, a_hit), (2, the_end)], next_key = 3\<rparr>, synced = [], rejected = empty_table, undone = []\<rparr>"
    by (simp add: s2_def s1_def fresh_pad_def enqueue_def queueTap_def add_row_def empty_table_def a_hit_def) (simp add: empty_tablet_def empty_table_def)
  have st1: "pad_step fresh_pad (Score (sample_row 1) sample_time) s1"
    using pad_step.score [of "sample_row 1" fresh_pad sample_time] by (simp add: s1_def fresh_pad_def)
  have st2: "pad_step s1 (Tap the_end) s2"
    using pad_step.tap [of the_end s1] by (simp add: s2_def s1_def fresh_pad_def)
  have st3: "pad_step s2 ListQueue s3"
    unfolding s3_def by (rule pad_step.list_queue) (simp add: s2_def s1_def fresh_pad_def)
  have st4: "pad_step s3 OpenPass s4"
    unfolding s4_def by (rule pad_step.open_pass) (simp add: s3_def t)
  have st5: "pad_step s4 Claim s5"
    unfolding s5_def
    by (rule pad_step.claim) (simp_all add: s4_def s3_def t boutsBehindHeldRow_def waits_of_def BoutOrder_def claimForSend_def get_row_def)
  have "s5\<lparr>pd_wire := ob_clientUuid a_hit # pd_wire s5\<rparr> = sent_pad"
    by (rule pad.equality) (simp_all add: s5_def s4_def s3_def sent_pad_def t, simp_all add: s2_def s1_def fresh_pad_def insert_commute)
  then have st6: "pad_step s5 Post sent_pad"
    using pad_step.post [of s5 1 a_hit "BoutOrder []" 0 "[(2, the_end)]"] by (simp add: s5_def)
  have "pad_run calm fresh_pad s3"
    by (rule run_step [OF run_step [OF run_step [OF pad_run.here st1] st2] st3]) simp_all
  then show ?thesis
    by (rule run_step [OF run_step [OF run_step [OF _ st4] st5] st6]) simp_all
qed

theorem nothing_queued_is_lost_witness:
  "copies (show_nat 1) (pd_tablet sent_pad) = 1 \<and> copies (show_nat 3) (pd_tablet sent_pad) = 0"
  using nothing_queued_is_lost [OF to_sent_pad, of "show_nat 1"] nothing_queued_is_lost [OF to_sent_pad, of "show_nat 3"]
  by (simp add: sent_pad_def)

theorem bout_goes_in_order_witness:
  "filter (\<lambda>(j, a). j < 1 \<and> ob_matchId a = ''m'' \<and> isTap a) (rows (outbox (pd_tablet sent_pad))) = []"
  using bout_goes_in_order [OF to_sent_pad, of 1 a_hit "BoutOrder []" 0 "[(2, the_end)]"]
  by (auto simp: sent_pad_def filter_empty_conv)

definition no_reading :: reading where
  "no_reading = \<lparr>rd_answer = Threw [], rd_max = 0\<rparr>"

definition says :: "net \<Rightarrow> talk" where
  "says answer = \<lparr>tk_first = answer, tk_exchanges = no_reading, tk_penalties = no_reading, tk_second = answer\<rparr>"

text \<open>The send of the hit meets no network, the referee takes the hit back, and the queue is listed again.\<close>

theorem undo_is_final_witness:
  "\<exists>s s'. pad_run False fresh_pad s \<and> show_nat 1 \<in> pd_takenBack s \<and> pad_run False s s' \<and> pd_control s' = Listed [(2, the_end)] \<and>
    count_list (pd_wire s') (show_nat 1) = count_list (pd_wire s) (show_nat 1)"
proof -
  define s1 where "s1 = sent_pad\<lparr>pd_tablet := markFailed 1 [] (pd_tablet sent_pad),
    pd_control := Walking (note_outcome (BoutOrder []) a_hit (Unsent NoAnswer)) 1 [(2, the_end)]\<rparr>"
  define t2 where "t2 = snd (takeOffTablet (show_nat 1) ''m'' None 0 (pd_tablet s1))"
  define s2 where "s2 = s1\<lparr>pd_tablet := t2, pd_takenBack := {show_nat 1}\<rparr>"
  define s3 where "s3 = s2\<lparr>pd_control := Resting\<rparr>"
  define s4 where "s4 = s3\<lparr>pd_control := Listed (rows (outbox (pd_tablet s3)))\<rparr>"
  have off: "takeOffTablet (show_nat 1) ''m'' None 0 (pd_tablet s1) = (Removed, t2)" "rows (outbox t2) = [(2, the_end)]"
    by (simp_all add: t2_def s1_def sent_pad_def takeOffTablet_def markFailed_def modify_rows_def rows_where_def delete_row_def delete_rows_def)
  have st1: "pad_step sent_pad (FileAnswer (says (Threw [])) 0) s1"
    using pad_step.file_answer [of sent_pad 1 a_hit "BoutOrder []" 0 "[(2, the_end)]" _ "says (Threw [])" 0]
    by (simp add: s1_def says_def filing_of_def file_entry_def filed_as_def after_row_def failures_after_def gives_up_def maxConsecutiveFailures_def)
       (simp add: sent_pad_def)
  have st2: "pad_step s1 (Undo (show_nat 1) ''m'' 0) s2"
    using pad_step.undo [of "show_nat 1" s1 "''m''" 0 Removed t2] off by (simp add: s1_def s2_def sent_pad_def)
  have st3: "pad_step s2 EndPass s3" unfolding s3_def by (rule pad_step.end_pass) (simp add: s2_def s1_def)
  have st4: "pad_step s3 ListQueue s4" unfolding s4_def by (rule pad_step.list_queue) (simp add: s3_def)
  have run: "pad_run False fresh_pad s2" by (rule run_step [OF run_step [OF to_sent_pad st1] st2]) simp_all
  have back': "show_nat 1 \<in> pd_takenBack s2" by (simp add: s2_def)
  have later: "pad_run False s2 s4" by (rule run_step [OF run_step [OF pad_run.here st3] st4]) simp_all
  have "pd_control s4 = Listed [(2, the_end)]" by (simp add: s4_def s3_def s2_def off(2))
  then show ?thesis using undo_is_final [OF run back' later] run back' later by blast
qed


end
