(* ===== verification/Formula.thy ===== *)
theory Formula
  imports Domain
begin

section \<open>Formulas: the trees a ruleset is authored as\<close>

text \<open>
  \<open>packages/rules/src/formula\<close>: \<open>types.ts\<close> (the tree and its depth), \<open>evaluator.ts\<close> and
  \<open>render.ts\<close>; the schema of a stored tree in \<open>packages/rulesets/src/formula/types.ts\<close>; and
  \<open>packages/rules/src/tf_v1/double-penalty.ts\<close>. Numbers are rationals: the rounding, the
  overflow and the negative zero of doubles are not modelled.
\<close>

subsection \<open>The tree\<close>

datatype variable_key =
    Victories | Ties | Losses | DoubleHits | HitsGiven | HitsReceived
  | PointsPerVictory | PointsPerTie | PointsPerLoss | DoublePenalty

fun key_text :: "variable_key \<Rightarrow> string" where
  "key_text Victories = ''victories''"
| "key_text Ties = ''ties''"
| "key_text Losses = ''losses''"
| "key_text DoubleHits = ''doubleHits''"
| "key_text HitsGiven = ''hitsGiven''"
| "key_text HitsReceived = ''hitsReceived''"
| "key_text PointsPerVictory = ''pointsPerVictory''"
| "key_text PointsPerTie = ''pointsPerTie''"
| "key_text PointsPerLoss = ''pointsPerLoss''"
| "key_text DoublePenalty = ''doublePenalty''"

definition FORMULA_VARIABLE_KEYS :: "variable_key list" where
  "FORMULA_VARIABLE_KEYS =
     [Victories, Ties, Losses, DoubleHits, HitsGiven, HitsReceived, PointsPerVictory, PointsPerTie, PointsPerLoss, DoublePenalty]"

definition isVariableKey :: "string \<Rightarrow> bool" where
  "isVariableKey s \<longleftrightarrow> s \<in> set (map key_text FORMULA_VARIABLE_KEYS)"

definition key_of :: "string \<Rightarrow> variable_key option" where
  "key_of s = find (\<lambda>k. key_text k = s) FORMULA_VARIABLE_KEYS"

datatype binary_operator = Add | Subtract | Multiply | Divide

fun operator_text :: "binary_operator \<Rightarrow> string" where
  "operator_text Add = ''+''"
| "operator_text Subtract = ''-''"
| "operator_text Multiply = ''*''"
| "operator_text Divide = ''/''"

datatype formula_node =
    Literal rat
  | Variable variable_key
  | Binop binary_operator formula_node formula_node

lemma all_keys: "set FORMULA_VARIABLE_KEYS = UNIV" "distinct FORMULA_VARIABLE_KEYS"
proof -
  have "k \<in> set FORMULA_VARIABLE_KEYS" for k by (cases k) (simp_all add: FORMULA_VARIABLE_KEYS_def)
  then show "set FORMULA_VARIABLE_KEYS = UNIV" by blast
qed (simp add: FORMULA_VARIABLE_KEYS_def)

lemma key_of_key_text [simp]: "key_of (key_text k) = Some k"
  by (cases k) (simp_all add: key_of_def FORMULA_VARIABLE_KEYS_def)

lemma key_of_Some: "key_of s = Some k \<Longrightarrow> key_text k = s"
  by (auto simp: key_of_def find_Some_iff)

lemma isVariableKey_iff: "isVariableKey s \<longleftrightarrow> key_of s \<noteq> None"
  by (auto simp: isVariableKey_def key_of_def find_None_iff)

definition operator_of :: "string \<Rightarrow> binary_operator option" where
  "operator_of w = find (\<lambda>opr. operator_text opr = w) [Add, Subtract, Multiply, Divide]"

lemma operator_of_text [simp]: "operator_of (operator_text opr) = Some opr"
  by (cases opr) (simp_all add: operator_of_def)

lemma operator_of_Some: "operator_of w = Some opr \<Longrightarrow> operator_text opr = w"
  by (auto simp: operator_of_def split: if_splits)

subsection \<open>Its value\<close>

text \<open>A scope gives the variables their values; one it does not name counts as zero.\<close>

type_synonym formula_scope = "variable_key \<Rightarrow> rat option"

fun evaluateFormula :: "formula_node \<Rightarrow> formula_scope \<Rightarrow> rat" where
  "evaluateFormula (Literal v) scope = v"
| "evaluateFormula (Variable k) scope = or_else (scope k) 0"
| "evaluateFormula (Binop opr l r) scope =
     (let left = evaluateFormula l scope; right = evaluateFormula r scope in
      case opr of
        Add \<Rightarrow> left + right
      | Subtract \<Rightarrow> left - right
      | Multiply \<Rightarrow> left * right
      | Divide \<Rightarrow> if right = 0 then 0 else left / right)"

subsection \<open>Its text\<close>

text \<open>
  \<open>str\<close> writes a number (\<open>String\<close>). With a scope the values are printed, rounded where a
  number of decimals is given; else a label, or the key itself.
\<close>

record render_options =
  ro_scope :: "formula_scope option"
  ro_label :: "(variable_key \<Rightarrow> string) option"
  ro_round :: "nat option"

definition plain :: render_options where
  "plain = \<lparr>ro_scope = None, ro_label = None, ro_round = None\<rparr>"

fun precedence :: "binary_operator \<Rightarrow> nat" where
  "precedence Add = 1"
| "precedence Subtract = 1"
| "precedence Multiply = 2"
| "precedence Divide = 2"

definition roundTo :: "rat \<Rightarrow> nat \<Rightarrow> rat" where
  "roundTo v decimals = (let factor = 10 ^ decimals in of_int \<lfloor>v * factor + 1 / 2\<rfloor> / factor)"

definition renderTerm :: "(rat \<Rightarrow> string) \<Rightarrow> variable_key \<Rightarrow> render_options \<Rightarrow> string" where
  "renderTerm str k opts =
     (case ro_scope opts of
        Some scope \<Rightarrow>
          (let v = or_else (scope k) 0 in str (case ro_round opts of Some d \<Rightarrow> roundTo v d | None \<Rightarrow> v))
      | None \<Rightarrow> (case ro_label opts of Some label \<Rightarrow> label k | None \<Rightarrow> key_text k))"

definition parens :: "bool \<Rightarrow> string \<Rightarrow> string" where
  "parens b s = (if b then ''('' @ s @ '')'' else s)"

definition looser :: "binary_operator \<Rightarrow> formula_node \<Rightarrow> bool" where
  "looser opr node = (case node of Binop inner _ _ \<Rightarrow> precedence opr > precedence inner | _ \<Rightarrow> False)"

definition no_tighter :: "binary_operator \<Rightarrow> formula_node \<Rightarrow> bool" where
  "no_tighter opr node = (case node of Binop inner _ _ \<Rightarrow> precedence opr \<ge> precedence inner | _ \<Rightarrow> False)"

fun renderFormula :: "(rat \<Rightarrow> string) \<Rightarrow> render_options \<Rightarrow> formula_node \<Rightarrow> string" where
  "renderFormula str opts (Literal v) = str v"
| "renderFormula str opts (Variable k) = renderTerm str k opts"
| "renderFormula str opts (Binop opr l r) =
     parens (looser opr l) (renderFormula str opts l) @ '' '' @ operator_text opr @ '' '' @
     parens (no_tighter opr r) (renderFormula str opts r)"

subsection \<open>The penalty for double hits\<close>

definition DEFAULT_DOUBLE_PENALTY_FORMULA :: string where
  "DEFAULT_DOUBLE_PENALTY_FORMULA = ''n*(n-1)/3''"

definition DOUBLE_PENALTY_FORMULAS :: "(string \<times> (rat \<Rightarrow> rat)) list" where
  "DOUBLE_PENALTY_FORMULAS =
     [(''n*(n-1)/3'', \<lambda>n. if n \<le> 1 then 0 else (n * (n - 1)) / 3),
      (''n*(n-1)/2'', \<lambda>n. if n \<le> 1 then 0 else (n * (n - 1)) / 2),
      (''n'', \<lambda>n. max 0 n),
      (''0'', \<lambda>n. 0)]"

definition DOUBLE_PENALTY_VARIABLE :: variable_key where
  "DOUBLE_PENALTY_VARIABLE = DoubleHits"

definition FEDERAL_DOUBLE_PENALTY_AST :: formula_node where
  "FEDERAL_DOUBLE_PENALTY_AST =
     Binop Divide
       (Binop Multiply (Variable DOUBLE_PENALTY_VARIABLE) (Binop Subtract (Variable DOUBLE_PENALTY_VARIABLE) (Literal 1)))
       (Literal 3)"

datatype double_penalty_spec = Key string | Ast formula_node

definition isDoublePenaltyAst :: "double_penalty_spec \<Rightarrow> bool" where
  "isDoublePenaltyAst spec = (case spec of Ast _ \<Rightarrow> True | Key _ \<Rightarrow> False)"

definition ZERO_SCOPE :: formula_scope where
  "ZERO_SCOPE = (\<lambda>_. Some 0)"

definition evaluateDoublePenaltyAst :: "formula_node \<Rightarrow> rat \<Rightarrow> rat" where
  "evaluateDoublePenaltyAst ast n = evaluateFormula ast (ZERO_SCOPE(DOUBLE_PENALTY_VARIABLE \<mapsto> n))"

text \<open>
  The table is looked up by the name alone; a name that is not in it means the federal rule.
  (The names every JavaScript object inherits are not modelled.)
\<close>

definition doublePenalty :: "rat \<Rightarrow> double_penalty_spec \<Rightarrow> rat" where
  "doublePenalty n formula =
     (case formula of
        Ast ast \<Rightarrow> evaluateDoublePenaltyAst ast n
      | Key key \<Rightarrow>
          (case map_of DOUBLE_PENALTY_FORMULAS key of
             Some f \<Rightarrow> f n
           | None \<Rightarrow> the (map_of DOUBLE_PENALTY_FORMULAS DEFAULT_DOUBLE_PENALTY_FORMULA) n))"

fun renderNode :: "(rat \<Rightarrow> string) \<Rightarrow> formula_node \<Rightarrow> bool \<Rightarrow> string" where
  "renderNode str (Literal v) isRoot = str v"
| "renderNode str (Variable k) isRoot = (if k = DOUBLE_PENALTY_VARIABLE then ''n'' else key_text k)"
| "renderNode str (Binop opr l r) isRoot =
     parens (\<not> isRoot) (renderNode str l False @ '' '' @ operator_text opr @ '' '' @ renderNode str r False)"

definition formatDoublePenalty :: "(rat \<Rightarrow> string) \<Rightarrow> double_penalty_spec \<Rightarrow> string" where
  "formatDoublePenalty str spec = (case spec of Ast node \<Rightarrow> renderNode str node True | Key key \<Rightarrow> key)"

text \<open>
  The federal penalty is one rule in its two forms: for every number of doubles the tree
  gives what the key gives, n(n-1)/3. A double is never rewarded: none of the whitelisted rules
  is below zero, and none gives less for one double more; an unknown name means the federal
  rule.
\<close>

lemma penalty_rules_are_monotone:
  "doublePenalty (of_nat n) (Ast FEDERAL_DOUBLE_PENALTY_AST) = doublePenalty (of_nat n) (Key DEFAULT_DOUBLE_PENALTY_FORMULA) \<and>
   doublePenalty (of_nat n) (Key DEFAULT_DOUBLE_PENALTY_FORMULA) = of_nat n * (of_nat n - 1) / 3 \<and>
   0 \<le> doublePenalty (of_nat n) (Key key) \<and> doublePenalty (of_nat n) (Key key) \<le> doublePenalty (of_nat (Suc n)) (Key key) \<and>
   (key \<in> fst ` set DOUBLE_PENALTY_FORMULAS \<or> doublePenalty (of_nat n) (Key key) = of_nat n * (of_nat n - 1) / 3)"
proof -
  have small: "n = 0 \<or> n = 1 \<or> 2 \<le> n" by linarith
  have grows: "(of_nat n * (of_nat n - 1) :: rat) \<le> (1 + of_nat n) * of_nat n" "0 \<le> (of_nat n * (of_nat n - 1) :: rat)"
    using small by (auto simp: algebra_simps)
  show ?thesis
    using small grows
    by (auto simp: doublePenalty_def DOUBLE_PENALTY_FORMULAS_def DEFAULT_DOUBLE_PENALTY_FORMULA_def evaluateDoublePenaltyAst_def
        FEDERAL_DOUBLE_PENALTY_AST_def DOUBLE_PENALTY_VARIABLE_def ZERO_SCOPE_def divide_right_mono)
qed

end
