(* ===== verification/Formula_Text.thy ===== *)
theory Formula_Text
  imports Formula
begin

section \<open>Formulas: what is shown of them\<close>

text \<open>
  That the texts of \<open>formula/render.ts\<close> and \<open>tf_v1/double-penalty.ts\<close> mean the tree they are
  made from. Nothing here models code but the two renderers of \<open>Formula\<close>; the reader is the
  reference they are measured with.
\<close>

subsection \<open>Reading a formula back\<close>

text \<open>
  The usual grammar of arithmetic: products bind tighter than sums, both to the left. The text is
  cut into words at its spaces and parentheses, and read from the left: pending is what stands
  before the operand that comes, first the sum and then the product; an opened parenthesis sets
  them aside.
\<close>

datatype token = Open | Close | Word string

definition word_of :: "string \<Rightarrow> token list" where
  "word_of w = (if w = [] then [] else [Word w])"

fun tokens_from :: "string \<Rightarrow> string \<Rightarrow> token list" where
  "tokens_from w [] = word_of w"
| "tokens_from w (c # cs) =
     (if c = CHR ''('' then word_of w @ Open # tokens_from [] cs
      else if c = CHR '')'' then word_of w @ Close # tokens_from [] cs
      else if c = CHR '' '' then word_of w @ tokens_from [] cs
      else tokens_from (w @ [c]) cs)"

type_synonym pending = "(formula_node \<times> binary_operator) option"

definition join :: "pending \<Rightarrow> formula_node \<Rightarrow> formula_node" where
  "join p x = (case p of None \<Rightarrow> x | Some (l, opr) \<Rightarrow> Binop opr l x)"

fun read_tokens ::
    "(string \<Rightarrow> formula_node option) \<Rightarrow> (pending \<times> pending) list \<Rightarrow> pending \<times> pending \<Rightarrow> formula_node option \<Rightarrow> token list \<Rightarrow> formula_node option" where
  "read_tokens atom aside ctx None (Open # ts) = read_tokens atom (ctx # aside) (None, None) None ts"
| "read_tokens atom aside ctx None (Word w # ts) =
     (case atom w of None \<Rightarrow> None | Some x \<Rightarrow> read_tokens atom aside ctx (Some x) ts)"
| "read_tokens atom aside (s, p) (Some x) (Word w # ts) =
     (case operator_of w of
        None \<Rightarrow> None
      | Some opr \<Rightarrow>
          if precedence opr = 2 then read_tokens atom aside (s, Some (join p x, opr)) None ts
          else read_tokens atom aside (Some (join s (join p x), opr), None) None ts)"
| "read_tokens atom (ctx # aside) (s, p) (Some x) (Close # ts) = read_tokens atom aside ctx (Some (join s (join p x))) ts"
| "read_tokens atom [] (s, p) (Some x) [] = Some (join s (join p x))"
| "read_tokens atom aside ctx cur ts = None"

definition read_formula :: "(string \<Rightarrow> formula_node option) \<Rightarrow> string \<Rightarrow> formula_node option" where
  "read_formula atom s = read_tokens atom [] (None, None) None (tokens_from [] s)"

text \<open>The tokens of a tree, with parentheses wherever the side of an operator asks for them.\<close>

definition group :: "bool \<Rightarrow> token list \<Rightarrow> token list" where
  "group b ts = (if b then Open # ts @ [Close] else ts)"

fun tokens_of ::
    "(binary_operator \<Rightarrow> formula_node \<Rightarrow> bool) \<Rightarrow> (binary_operator \<Rightarrow> formula_node \<Rightarrow> bool) \<Rightarrow> (formula_node \<Rightarrow> string) \<Rightarrow> formula_node \<Rightarrow> token list" where
  "tokens_of pl pr name (Binop opr l r) =
     group (pl opr l) (tokens_of pl pr name l) @ Word (operator_text opr) # group (pr opr r) (tokens_of pl pr name r)"
| "tokens_of pl pr name leaf = [Word (name leaf)]"

fun leaves :: "formula_node \<Rightarrow> formula_node set" where
  "leaves (Binop opr l r) = leaves l \<union> leaves r"
| "leaves leaf = {leaf}"

text \<open>Parentheses where the grammar needs them.\<close>

definition enough :: "(binary_operator \<Rightarrow> formula_node \<Rightarrow> bool) \<Rightarrow> (binary_operator \<Rightarrow> formula_node \<Rightarrow> bool) \<Rightarrow> bool" where
  "enough pl pr \<longleftrightarrow> (\<forall>opr node. (looser opr node \<longrightarrow> pl opr node) \<and> (no_tighter opr node \<longrightarrow> pr opr node))"

lemma join_simps [simp]: "join None x = x" "join (Some (l, opr)) x = Binop opr l x"
  by (simp_all add: join_def)

text \<open>What stands before a tree leaves room for it: nothing, or an operator it binds tighter than.\<close>

definition room :: "pending \<times> pending \<Rightarrow> formula_node \<Rightarrow> bool" where
  "room ctx t \<longleftrightarrow>
     (case t of
        Binop opr l r \<Rightarrow> snd ctx = None \<and> (fst ctx = None \<or> precedence opr = 2)
      | _ \<Rightarrow> True)"

definition holds :: "pending \<times> pending \<Rightarrow> formula_node \<Rightarrow> pending \<times> pending \<Rightarrow> formula_node \<Rightarrow> bool" where
  "holds ctx t ctx' x \<longleftrightarrow>
     (case t of
        Binop opr l r \<Rightarrow>
          if precedence opr = 2 then fst ctx' = fst ctx \<and> join (snd ctx') x = t
          else join (fst ctx') (join (snd ctx') x) = t
      | _ \<Rightarrow> ctx' = ctx \<and> x = t)"

lemma room_empty [simp]: "room (None, None) t"
  by (cases t) (simp_all add: room_def)

lemma precedence_2: "precedence opr \<noteq> 2 \<longleftrightarrow> precedence opr = 1"
  by (cases opr) simp_all

lemma precedence_le [simp]: "precedence opr \<le> 2"
  by (cases opr) simp_all

lemma holds_whole: "holds (None, None) t (s, p) x \<Longrightarrow> join s (join p x) = t"
  by (cases t) (auto simp: holds_def split: if_splits)

definition reads_as :: "(string \<Rightarrow> formula_node option) \<Rightarrow> token list \<Rightarrow> formula_node \<Rightarrow> bool" where
  "reads_as atom tok t \<longleftrightarrow>
     (\<forall>aside ctx ts. room ctx t \<longrightarrow>
        (\<exists>s p x. read_tokens atom aside ctx None (tok @ ts) = read_tokens atom aside (s, p) (Some x) ts \<and> holds ctx t (s, p) x))"

lemma reads_asD:
  assumes "reads_as atom tok t" and "room ctx t"
  obtains s p x where "read_tokens atom aside ctx None (tok @ ts) = read_tokens atom aside (s, p) (Some x) ts" and "holds ctx t (s, p) x"
  using assms unfolding reads_as_def by blast

lemma read_grouped:
  assumes "reads_as atom tok t" and "b \<or> room ctx t"
  obtains s p x where "read_tokens atom aside ctx None (group b tok @ ts) = read_tokens atom aside (s, p) (Some x) ts"
    and "if b then (s, p) = ctx \<and> x = t else holds ctx t (s, p) x"
proof (cases b)
  case True
  obtain s p x where inner: "read_tokens atom (ctx # aside) (None, None) None (tok @ Close # ts) =
      read_tokens atom (ctx # aside) (s, p) (Some x) (Close # ts)" "holds (None, None) t (s, p) x"
    by (rule reads_asD [OF assms(1) room_empty])
  obtain s' p' where ctx: "ctx = (s', p')" by fastforce
  have "read_tokens atom aside ctx None (group b tok @ ts) = read_tokens atom (ctx # aside) (None, None) None (tok @ Close # ts)"
    by (simp add: group_def True)
  also have "\<dots> = read_tokens atom aside ctx (Some (join s (join p x))) ts" unfolding inner(1) by simp
  also have "\<dots> = read_tokens atom aside (s', p') (Some t) ts" unfolding holds_whole [OF inner(2)] ctx ..
  finally show thesis by (rule that) (simp add: True ctx)
next
  case False
  then have "room ctx t" using assms(2) by simp
  then obtain s p x where "read_tokens atom aside ctx None (tok @ ts) = read_tokens atom aside (s, p) (Some x) ts" "holds ctx t (s, p) x"
    by (rule reads_asD [OF assms(1)])
  then show thesis using that [of s p x] False by (simp add: group_def)
qed

lemma reads_binop:
  assumes "enough pl pr" and l: "reads_as atom lt l" and r: "reads_as atom rt r"
  shows "reads_as atom (group (pl opr l) lt @ Word (operator_text opr) # group (pr opr r) rt) (Binop opr l r)"
  unfolding reads_as_def
proof (intro allI impI)
  fix aside ts and ctx :: "pending \<times> pending"
  assume "room ctx (Binop opr l r)"
  then obtain s where ctx: "ctx = (s, None)" and s: "precedence opr = 2 \<or> s = None" by (cases ctx) (auto simp: room_def)
  have pl: "looser opr l \<Longrightarrow> pl opr l" and pr: "no_tighter opr r \<Longrightarrow> pr opr r"
    using assms(1) by (auto simp: enough_def)
  let ?rest = "Word (operator_text opr) # group (pr opr r) rt @ ts"
  have "pl opr l \<or> room ctx l"
    using pl s by (cases l; cases opr) (auto simp: room_def looser_def ctx precedence_2)
  then obtain s1 p1 x1 where first: "read_tokens atom aside ctx None (group (pl opr l) lt @ ?rest) =
      read_tokens atom aside (s1, p1) (Some x1) ?rest" "if pl opr l then (s1, p1) = ctx \<and> x1 = l else holds ctx l (s1, p1) x1"
    by (rule read_grouped [OF l])
  let ?ctx2 = "if precedence opr = 2 then (s, Some (l, opr)) else (Some (l, opr), None)"
  have "if precedence opr = 2 then s1 = s \<and> join p1 x1 = l else join s1 (join p1 x1) = l"
    using first(2) s pl ctx by (cases l) (auto simp: holds_def looser_def precedence_2 split: if_splits)
  then have second: "read_tokens atom aside (s1, p1) (Some x1) ?rest = read_tokens atom aside ?ctx2 None (group (pr opr r) rt @ ts)"
    by auto
  have "pr opr r \<or> room ?ctx2 r"
    using pr by (cases r; cases opr) (auto simp: room_def no_tighter_def precedence_2)
  then obtain s3 p3 x3 where third: "read_tokens atom aside ?ctx2 None (group (pr opr r) rt @ ts) = read_tokens atom aside (s3, p3) (Some x3) ts"
      "if pr opr r then (s3, p3) = ?ctx2 \<and> x3 = r else holds ?ctx2 r (s3, p3) x3"
    by (rule read_grouped [OF r])
  have "holds ctx (Binop opr l r) (s3, p3) x3"
    using third(2) pr ctx s by (cases r) (auto simp: holds_def no_tighter_def precedence_2 split: if_splits)
  then show "\<exists>s' p' x. read_tokens atom aside ctx None ((group (pl opr l) lt @ Word (operator_text opr) # group (pr opr r) rt) @ ts) =
      read_tokens atom aside (s', p') (Some x) ts \<and> holds ctx (Binop opr l r) (s', p') x"
    using first(1) second third(1) by auto
qed

lemma read_tokens_of:
  assumes "enough pl pr" and "\<forall>leaf \<in> leaves t. atom (name leaf) = Some leaf"
  shows "reads_as atom (tokens_of pl pr name t) t"
  using assms(2)
proof (induction t)
  case (Binop opr l r)
  then show ?case using reads_binop [OF assms(1)] by simp
qed (auto simp: reads_as_def holds_def)


text \<open>The text of a tree with those tokens, and the words it is made of.\<close>

fun text_of ::
    "(binary_operator \<Rightarrow> formula_node \<Rightarrow> bool) \<Rightarrow> (binary_operator \<Rightarrow> formula_node \<Rightarrow> bool) \<Rightarrow> (formula_node \<Rightarrow> string) \<Rightarrow> formula_node \<Rightarrow> string" where
  "text_of pl pr name (Binop opr l r) =
     parens (pl opr l) (text_of pl pr name l) @ '' '' @ operator_text opr @ '' '' @ parens (pr opr r) (text_of pl pr name r)"
| "text_of pl pr name leaf = name leaf"

definition mark :: "char \<Rightarrow> bool" where
  "mark c \<longleftrightarrow> c = CHR '' '' \<or> c = CHR ''('' \<or> c = CHR '')''"

definition clean :: "string \<Rightarrow> bool" where
  "clean w \<longleftrightarrow> w \<noteq> [] \<and> \<not> list_ex mark w"

definition boundary :: "string \<Rightarrow> bool" where
  "boundary rest \<longleftrightarrow> (case rest of [] \<Rightarrow> True | c # _ \<Rightarrow> mark c)"

lemma boundary_simps [simp]: "boundary []" "boundary (c # cs) \<longleftrightarrow> mark c" "mark (CHR '' '')" "mark (CHR ''('')" "mark (CHR '')'')"
  by (simp_all add: boundary_def mark_def)

lemma tokens_word:
  assumes "boundary rest" and "\<not> list_ex mark w" and "w' @ w \<noteq> []"
  shows "tokens_from w' (w @ rest) = Word (w' @ w) # tokens_from [] rest"
  using assms(2,3)
proof (induction w arbitrary: w')
  case Nil
  then show ?case using assms(1) by (cases rest) (auto simp: word_of_def mark_def)
next
  case (Cons c w)
  then show ?case using Cons.IH [of "w' @ [c]"] by (simp add: mark_def)
qed

lemma tokens_clean: "clean w \<Longrightarrow> boundary rest \<Longrightarrow> tokens_from [] (w @ rest) = Word w # tokens_from [] rest"
  using tokens_word [of rest w "[]"] by (simp add: clean_def)

lemma clean_operator [simp]: "clean (operator_text opr)"
  by (cases opr) (simp_all add: clean_def mark_def)

lemma tokens_open: "tokens_from [] (CHR ''('' # cs) = Open # tokens_from [] cs" "tokens_from [] (CHR '')'' # cs) = Close # tokens_from [] cs"
    "tokens_from [] (CHR '' '' # cs) = tokens_from [] cs"
  by (simp_all add: word_of_def)

lemma tokens_grouped:
  assumes "\<And>rest. boundary rest \<Longrightarrow> tokens_from [] (s @ rest) = tok @ tokens_from [] rest" and "boundary rest"
  shows "tokens_from [] (parens b s @ rest) = group b tok @ tokens_from [] rest"
  using assms(1) [of "CHR '')'' # rest"] assms by (simp add: parens_def group_def tokens_open del: tokens_from.simps)

lemma tokens_text:
  "\<forall>leaf \<in> leaves t. clean (name leaf) \<Longrightarrow> boundary rest \<Longrightarrow>
     tokens_from [] (text_of pl pr name t @ rest) = tokens_of pl pr name t @ tokens_from [] rest"
proof (induction t arbitrary: rest)
  case (Binop opr l r)
  have l: "tokens_from [] (text_of pl pr name l @ rest) = tokens_of pl pr name l @ tokens_from [] rest" if "boundary rest" for rest
    using Binop.IH(1) [OF _ that] Binop.prems(1) by simp
  have r: "tokens_from [] (text_of pl pr name r @ rest) = tokens_of pl pr name r @ tokens_from [] rest" if "boundary rest" for rest
    using Binop.IH(2) [OF _ that] Binop.prems(1) by simp
  let ?r = "parens (pr opr r) (text_of pl pr name r) @ rest"
  have "tokens_from [] (parens (pl opr l) (text_of pl pr name l) @ CHR '' '' # operator_text opr @ CHR '' '' # ?r) =
      group (pl opr l) (tokens_of pl pr name l) @ tokens_from [] (CHR '' '' # operator_text opr @ CHR '' '' # ?r)"
    by (rule tokens_grouped [OF l]) simp_all
  also have "tokens_from [] (CHR '' '' # operator_text opr @ CHR '' '' # ?r) = Word (operator_text opr) # tokens_from [] ?r"
    using tokens_clean [OF clean_operator, of "CHR '' '' # ?r" opr] by (simp add: tokens_open del: tokens_from.simps)
  also have "tokens_from [] ?r = group (pr opr r) (tokens_of pl pr name r) @ tokens_from [] rest"
    by (rule tokens_grouped [OF r Binop.prems(2)])
  finally show ?case by simp
qed (simp_all add: tokens_clean del: tokens_from.simps)

lemma text_reads_back:
  assumes "enough pl pr" and "\<forall>leaf \<in> leaves t. clean (name leaf) \<and> atom (name leaf) = Some leaf"
  shows "read_formula atom (text_of pl pr name t) = Some t"
proof -
  have "tokens_from [] (text_of pl pr name t) = tokens_of pl pr name t"
    using tokens_text [of t name "[]" pl pr] assms(2) by (simp add: word_of_def)
  moreover have "reads_as atom (tokens_of pl pr name t) t" using read_tokens_of [OF assms(1)] assms(2) by blast
  then obtain s p x where "read_tokens atom [] (None, None) None (tokens_of pl pr name t @ []) = read_tokens atom [] (s, p) (Some x) []"
      "holds (None, None) t (s, p) x"
    by (rule reads_asD [OF _ room_empty])
  ultimately show ?thesis using holds_whole by (simp add: read_formula_def)
qed

text \<open>The words of a leaf: a number or a key, and in the notation of the penalty the letter n.\<close>

definition leaf_text :: "(rat \<Rightarrow> string) \<Rightarrow> (variable_key \<Rightarrow> string) \<Rightarrow> formula_node \<Rightarrow> string" where
  "leaf_text str key node = (case node of Literal v \<Rightarrow> str v | Variable k \<Rightarrow> key k | Binop _ _ _ \<Rightarrow> [])"

definition read_leaf :: "(string \<Rightarrow> rat option) \<Rightarrow> string \<Rightarrow> formula_node option" where
  "read_leaf num w = (case key_of w of Some k \<Rightarrow> Some (Variable k) | None \<Rightarrow> map_option Literal (num w))"

definition penalty_key :: "variable_key \<Rightarrow> string" where
  "penalty_key k = (if k = DOUBLE_PENALTY_VARIABLE then ''n'' else key_text k)"

definition read_penalty_leaf :: "(string \<Rightarrow> rat option) \<Rightarrow> string \<Rightarrow> formula_node option" where
  "read_penalty_leaf num w = (if w = ''n'' then Some (Variable DOUBLE_PENALTY_VARIABLE) else read_leaf num w)"

definition is_binop :: "formula_node \<Rightarrow> bool" where
  "is_binop node = (case node of Binop _ _ _ \<Rightarrow> True | _ \<Rightarrow> False)"

lemma render_text: "renderFormula str plain t = text_of looser no_tighter (leaf_text str key_text) t"
  by (induction t) (simp_all add: leaf_text_def renderTerm_def plain_def)

lemma render_node_text:
  "renderNode str t isRoot = parens (is_binop t \<and> \<not> isRoot) (text_of (\<lambda>_. is_binop) (\<lambda>_. is_binop) (leaf_text str penalty_key) t)"
  by (induction t arbitrary: isRoot) (simp_all add: leaf_text_def penalty_key_def is_binop_def parens_def)

lemma enough_parens: "enough looser no_tighter" "enough (\<lambda>_. is_binop) (\<lambda>_. is_binop)"
  by (auto simp: enough_def looser_def no_tighter_def is_binop_def split: formula_node.splits)

lemma clean_key: "clean (key_text k)" "key_text k \<noteq> ''n''"
  by (cases k; simp add: clean_def mark_def)+

lemma clean_n: "clean ''n''"
  by (simp add: clean_def mark_def)

lemma leaf_not_binop [simp]: "Binop opr l r \<notin> leaves t"
  by (induction t) auto

text \<open>How a number is written: one word, no variable's name, and the number can be read from it.\<close>

definition writes_number :: "(rat \<Rightarrow> string) \<Rightarrow> (string \<Rightarrow> rat option) \<Rightarrow> rat \<Rightarrow> bool" where
  "writes_number str num q \<longleftrightarrow> clean (str q) \<and> str q \<noteq> ''n'' \<and> key_of (str q) = None \<and> num (str q) = Some q"

text \<open>
  C17. What a ruleset shows of its formula is the formula. Read by the rules of arithmetic
  (products before sums, both from the left), the text of a formula gives back the very tree
  that is evaluated, and so does the text of an authored penalty: the few parentheses of the one
  are enough, and the many of the other change nothing. Of the numbers of the tree only this is
  used: each is written as one word from which it can be read.
\<close>

theorem shown_formula_reads_back:
  assumes "\<forall>q. Literal q \<in> leaves t \<longrightarrow> writes_number str num q"
  shows "read_formula (read_leaf num) (renderFormula str plain t) = Some t \<and>
    read_formula (read_penalty_leaf num) (formatDoublePenalty str (Ast t)) = Some t"
proof -
  have leaf: "clean (leaf_text str key leaf) \<and> read (leaf_text str key leaf) = Some leaf"
    if "leaf \<in> leaves t" "\<And>q. writes_number str num q \<Longrightarrow> read (str q) = Some (Literal q)"
      "\<And>k. clean (key k) \<and> read (key k) = Some (Variable k)" for leaf key read
    using that assms by (cases leaf) (auto simp: leaf_text_def writes_number_def)
  have "read_formula (read_leaf num) (text_of looser no_tighter (leaf_text str key_text) t) = Some t"
    by (rule text_reads_back [OF enough_parens(1)])
       (intro ballI leaf, auto simp: read_leaf_def clean_key writes_number_def)
  moreover have "read_formula (read_penalty_leaf num) (text_of (\<lambda>_. is_binop) (\<lambda>_. is_binop) (leaf_text str penalty_key) t) = Some t"
    by (rule text_reads_back [OF enough_parens(2)])
       (intro ballI leaf, auto simp: read_penalty_leaf_def read_leaf_def penalty_key_def clean_key clean_n writes_number_def)
  ultimately show ?thesis by (simp add: render_text formatDoublePenalty_def render_node_text parens_def)
qed

definition sample_formula :: formula_node where
  "sample_formula = Binop Subtract (Variable HitsGiven) (Binop Subtract (Variable HitsReceived) (Binop Multiply (Literal 3) (Variable DoubleHits)))"

definition show_whole :: "rat \<Rightarrow> string" where
  "show_whole q = show_nat (nat \<lfloor>q\<rfloor>)"

theorem shown_formula_reads_back_witness:
  "renderFormula show_whole plain sample_formula = ''hitsGiven - (hitsReceived - 3 * doubleHits)'' \<and>
   read_formula (read_leaf (\<lambda>w. map_option of_nat (read_nat w))) ''hitsGiven - (hitsReceived - 3 * doubleHits)'' = Some sample_formula"
proof -
  have "show_nat 3 = ''3''" by code_simp
  then have three: "show_whole 3 = ''3''" by (simp add: show_whole_def)
  then have "renderFormula show_whole plain sample_formula = ''hitsGiven - (hitsReceived - 3 * doubleHits)''"
    by (simp add: sample_formula_def renderTerm_def plain_def parens_def looser_def no_tighter_def)
  moreover have "\<forall>q. Literal q \<in> leaves sample_formula \<longrightarrow> writes_number show_whole (\<lambda>w. map_option of_nat (read_nat w)) q"
    by (auto simp: sample_formula_def writes_number_def three clean_def mark_def key_of_def FORMULA_VARIABLE_KEYS_def)
       (simp add: read_nat_def digit_value_def)
  ultimately show ?thesis using shown_formula_reads_back [of sample_formula show_whole "\<lambda>w. map_option of_nat (read_nat w)"] by simp
qed

end
