(* ===== verification/Formula_Schema.thy ===== *)
theory Formula_Schema
  imports Formula
begin

section \<open>Formulas: which stored values are one\<close>

text \<open>
  \<open>exceedsMaxFormulaDepth\<close> of \<open>packages/rules/src/formula/types.ts\<close> and \<open>FormulaNodeSchema\<close> of
  \<open>packages/rulesets/src/formula/types.ts\<close>: the check that runs before a stored tree is read,
  and the reading. A stored value is JSON; the fields of an object stand in a list, each name
  once.
\<close>

datatype json =
    JNull
  | JBool bool
  | JNumber rat
  | JText string
  | JList "json list"
  | JObject "(string \<times> json) list"

definition field :: "string \<Rightarrow> json \<Rightarrow> json option" where
  "field name j = (case j of JObject fs \<Rightarrow> map_of fs name | _ \<Rightarrow> None)"

definition typed :: "string \<Rightarrow> json \<Rightarrow> bool" where
  "typed name j \<longleftrightarrow> field ''type'' j = Some (JText name)"

definition MAX_FORMULA_DEPTH :: nat where
  "MAX_FORMULA_DEPTH = 32"

lemma size_field: "field name j = Some x \<Longrightarrow> Suc (size x) < size j"
proof -
  have "map_of fs name = Some x \<Longrightarrow> Suc (size x) < size (JObject fs)" for fs
    by (induction fs) (auto split: if_splits)
  then show "field name j = Some x \<Longrightarrow> Suc (size x) < size j" by (cases j) (simp_all add: field_def)
qed

lemma size_two_fields: "field a j = Some x \<Longrightarrow> field b j = Some y \<Longrightarrow> a \<noteq> b \<Longrightarrow> Suc (size x + size y) < size j"
proof -
  have one: "map_of fs n = Some z \<Longrightarrow> Suc (size z) < size (JObject fs)" for fs n z
    by (induction fs) (auto split: if_splits)
  have "map_of fs a = Some x \<Longrightarrow> map_of fs b = Some y \<Longrightarrow> a \<noteq> b \<Longrightarrow> Suc (size x + size y) < size (JObject fs)" for fs
  proof (induction fs)
    case (Cons f fs)
    then show ?case using one [of fs a x] one [of fs b y] by (cases f) (auto split: if_splits)
  qed simp
  then show "field a j = Some x \<Longrightarrow> field b j = Some y \<Longrightarrow> a \<noteq> b \<Longrightarrow> Suc (size x + size y) < size j"
    by (cases j) (simp_all add: field_def)
qed

subsection \<open>The depth\<close>

text \<open>The stack of the code, its top first; a field that is not there is \<open>None\<close>.\<close>

definition weight :: "json option \<Rightarrow> nat" where
  "weight x = (case x of None \<Rightarrow> 1 | Some j \<Rightarrow> Suc (size j))"

function exceeds_from :: "nat \<Rightarrow> (json option \<times> nat) list \<Rightarrow> bool" where
  "exceeds_from mx [] = False"
| "exceeds_from mx ((None, depth) # stack) = exceeds_from mx stack"
| "exceeds_from mx ((Some node, depth) # stack) =
     (if \<not> typed ''binop'' node then exceeds_from mx stack
      else if depth + 1 \<ge> mx then True
      else exceeds_from mx ((field ''right'' node, depth + 1) # (field ''left'' node, depth + 1) # stack))"
  by pat_completeness auto

termination
proof (relation "measure (\<lambda>(mx, stack). sum_list (map (\<lambda>(x, _). weight x) stack))")
  fix mx depth :: nat and node :: json and stack :: "(json option \<times> nat) list"
  assume "\<not> \<not> typed ''binop'' node"
  then have "2 \<le> size node"
    using size_field [of "''type''" node] by (auto simp: typed_def)
  then have "weight (field ''right'' node) + weight (field ''left'' node) < weight (Some node)"
    using size_field [of "''right''" node] size_field [of "''left''" node] size_two_fields [of "''right''" node _ "''left''"]
    by (cases "field ''right'' node"; cases "field ''left'' node") (auto simp: weight_def)
  then show "((mx, (field ''right'' node, depth + 1) # (field ''left'' node, depth + 1) # stack), mx, (Some node, depth) # stack)
      \<in> measure (\<lambda>(mx, stack). sum_list (map (\<lambda>(x, _). weight x) stack))"
    by simp
qed (auto simp: weight_def)

definition exceedsMaxFormulaDepth :: "json \<Rightarrow> nat \<Rightarrow> bool" where
  "exceedsMaxFormulaDepth value' mx = exceeds_from mx [(Some value', 0)]"

text \<open>How deep operators are nested.\<close>

function nesting :: "json option \<Rightarrow> nat" where
  "nesting None = 0"
| "nesting (Some node) =
     (if typed ''binop'' node then Suc (max (nesting (field ''left'' node)) (nesting (field ''right'' node))) else 0)"
  by pat_completeness auto

termination
proof (relation "measure weight")
  fix node
  assume b: "typed ''binop'' node"
  then have "2 \<le> size node" using size_field [of "''type''" node] by (auto simp: typed_def)
  then show "(field ''left'' node, Some node) \<in> measure weight" "(field ''right'' node, Some node) \<in> measure weight"
    using size_field [of "''left''" node] size_field [of "''right''" node] by (auto simp: weight_def split: option.splits)
qed simp

declare nesting.simps(2) [simp del] exceeds_from.simps(3) [simp del]

lemma exceeds_from_nesting:
  "exceeds_from mx stack \<longleftrightarrow> (\<exists>(x, depth) \<in> set stack. 0 < nesting x \<and> mx \<le> depth + nesting x)"
proof (induction mx stack rule: exceeds_from.induct)
  case (3 mx node depth stack)
  show ?case
  proof (cases "typed ''binop'' node")
    case False
    then show ?thesis using 3 by (auto simp: exceeds_from.simps(3) nesting.simps(2))
  next
    case True
    then show ?thesis using 3 by (auto simp: exceeds_from.simps(3) nesting.simps(2))
  qed
qed auto

lemma exceeds_iff_nesting: "exceedsMaxFormulaDepth j mx \<longleftrightarrow> typed ''binop'' j \<and> mx \<le> nesting (Some j)"
  by (auto simp: exceedsMaxFormulaDepth_def exceeds_from_nesting nesting.simps(2))

subsection \<open>The schema\<close>

text \<open>
  \<open>FormulaNodeShape\<close>, a union of three objects told apart by their type; other fields are
  dropped. \<open>FormulaNodeSchema\<close> checks the depth first.
\<close>

function FormulaNodeShape :: "json \<Rightarrow> formula_node option" where
  "FormulaNodeShape j =
     (if typed ''literal'' j then
        (case field ''value'' j of Some (JNumber v) \<Rightarrow> Some (Literal v) | _ \<Rightarrow> None)
      else if typed ''var'' j then
        (case field ''name'' j of Some (JText name) \<Rightarrow> map_option Variable (key_of name) | _ \<Rightarrow> None)
      else if typed ''binop'' j then
        (case (field ''op'' j, field ''left'' j, field ''right'' j) of
           (Some (JText w), Some l, Some r) \<Rightarrow>
             (case (operator_of w, FormulaNodeShape l, FormulaNodeShape r) of
                (Some opr, Some left, Some right) \<Rightarrow> Some (Binop opr left right)
              | _ \<Rightarrow> None)
         | _ \<Rightarrow> None)
      else None)"
  by pat_completeness auto

termination
  by (relation "measure size") (auto dest!: size_field [OF sym])

declare FormulaNodeShape.simps [simp del]

definition FormulaNodeSchema :: "json \<Rightarrow> formula_node option" where
  "FormulaNodeSchema j = (if exceedsMaxFormulaDepth j MAX_FORMULA_DEPTH then None else FormulaNodeShape j)"

text \<open>How a tree is stored.\<close>

fun formula_json :: "formula_node \<Rightarrow> json" where
  "formula_json (Literal v) = JObject [(''type'', JText ''literal''), (''value'', JNumber v)]"
| "formula_json (Variable k) = JObject [(''type'', JText ''var''), (''name'', JText (key_text k))]"
| "formula_json (Binop opr l r) =
     JObject [(''type'', JText ''binop''), (''op'', JText (operator_text opr)), (''left'', formula_json l), (''right'', formula_json r)]"

text \<open>The typing rules: which values are a tree, and of which depth.\<close>

inductive is_formula :: "json \<Rightarrow> formula_node \<Rightarrow> nat \<Rightarrow> bool" where
  literal: "typed ''literal'' j \<Longrightarrow> field ''value'' j = Some (JNumber v) \<Longrightarrow> is_formula j (Literal v) 0"
| variable: "typed ''var'' j \<Longrightarrow> field ''name'' j = Some (JText (key_text k)) \<Longrightarrow> is_formula j (Variable k) 0"
| binop: "typed ''binop'' j \<Longrightarrow> field ''op'' j = Some (JText (operator_text opr)) \<Longrightarrow>
    field ''left'' j = Some l \<Longrightarrow> is_formula l left dl \<Longrightarrow> field ''right'' j = Some r \<Longrightarrow> is_formula r right dr \<Longrightarrow>
    is_formula j (Binop opr left right) (Suc (max dl dr))"

lemma typed_unique: "typed a j \<Longrightarrow> typed b j \<longleftrightarrow> a = b"
  by (auto simp: typed_def)

lemma is_formula_nesting: "is_formula j t d \<Longrightarrow> nesting (Some j) = d"
  by (induction rule: is_formula.induct) (simp_all add: nesting.simps(2) typed_unique)

lemma shape_complete: "is_formula j t d \<Longrightarrow> FormulaNodeShape j = Some t"
  by (induction rule: is_formula.induct) (simp_all add: FormulaNodeShape.simps typed_unique)

lemma shape_sound: "FormulaNodeShape j = Some t \<Longrightarrow> \<exists>d. is_formula j t d"
proof (induction j arbitrary: t rule: FormulaNodeShape.induct)
  case (1 j)
  consider "typed ''literal'' j" | "typed ''var'' j" | "typed ''binop'' j" | "FormulaNodeShape j = None"
    using FormulaNodeShape.simps [of j] by presburger
  then show ?case
  proof cases
    case 1
    then show ?thesis using "1.prems"
      by (auto simp: FormulaNodeShape.simps [of j] split: option.splits json.splits intro: is_formula.literal)
  next
    case 2
    then show ?thesis using "1.prems"
      by (auto simp: FormulaNodeShape.simps [of j] typed_unique split: option.splits json.splits dest: key_of_Some
          intro!: exI is_formula.variable)
  next
    case 3
    then obtain w l r opr left right where
      "field ''op'' j = Some (JText w)" "field ''left'' j = Some l" "field ''right'' j = Some r"
      "operator_of w = Some opr" "FormulaNodeShape l = Some left" "FormulaNodeShape r = Some right" "t = Binop opr left right"
      using "1.prems" by (auto simp: FormulaNodeShape.simps [of j] typed_unique split: option.splits json.splits)
    moreover from this obtain dl dr where "is_formula l left dl" "is_formula r right dr"
      using "1.IH" 3 by (fastforce simp: typed_unique)
    ultimately show ?thesis using is_formula.binop [OF 3] operator_of_Some by blast
  qed (use "1.prems" in simp)
qed

lemma stored_is_formula: "\<exists>d. is_formula (formula_json t) t d"
proof (induction t)
  case (Binop opr l r)
  then obtain dl dr where "is_formula (formula_json l) l dl" "is_formula (formula_json r) r dr" by blast
  then show ?case using is_formula.binop [of "formula_json (Binop opr l r)" opr "formula_json l" l dl "formula_json r" r dr]
    by (auto simp: typed_def field_def)
qed (auto simp: typed_def field_def intro!: exI is_formula.literal is_formula.variable)

text \<open>
  C18. The schema accepts exactly the well-typed trees of less than 32 levels, each as the tree it
  is: what it lets through names none but the ten variables and the four operators, all the way
  down, and nothing that does is refused. A tree that is stored and read again is the same tree.
\<close>

theorem schema_accepts_typed_trees:
  "(FormulaNodeSchema j = Some t \<longleftrightarrow> (\<exists>d < 32. is_formula j t d)) \<and>
   FormulaNodeShape (formula_json t) = Some t"
proof -
  have "is_formula j t d \<Longrightarrow> d < 32 \<longleftrightarrow> \<not> exceedsMaxFormulaDepth j 32" for d
    using is_formula_nesting [of j t d] by (auto simp: exceeds_iff_nesting nesting.simps(2))
  then have "FormulaNodeSchema j = Some t \<longleftrightarrow> (\<exists>d < 32. is_formula j t d)"
    using shape_sound [of j t] shape_complete [of j t] by (auto simp: FormulaNodeSchema_def MAX_FORMULA_DEPTH_def)
  then show ?thesis using stored_is_formula shape_complete by blast
qed

end
