(* ===== verification/Ruleset_Scoring.thy ===== *)
theory Ruleset_Scoring
  imports Formula Match_Format Standings
begin

section \<open>Rulesets: what a pool is scored by\<close>

text \<open>
  \<open>packages/rules/src\<close>: \<open>formula/derive-stats.ts\<close> and \<open>tf_v1/score.ts\<close>; \<open>packages/rulesets/src\<close>:
  the three ways to score the fighters of a pool (\<open>tf_v1/index.ts\<close>, \<open>generic_points_cap/index.ts\<close>
  and \<open>formula/ruleset.ts\<close>) and the end of a bout. A config is the value its schema gives.
\<close>

subsection \<open>Statistics from finished bouts\<close>

record derived_stats =
  ds_victories :: int
  ds_ties :: int
  ds_losses :: int
  ds_doubleHits :: int
  ds_hitsGiven :: int
  ds_hitsReceived :: int

definition no_stats :: derived_stats where
  "no_stats = \<lparr>ds_victories = 0, ds_ties = 0, ds_losses = 0, ds_doubleHits = 0, ds_hitsGiven = 0, ds_hitsReceived = 0\<rparr>"

text \<open>\<open>computeRawScore\<close>: the hits that landed, red first; \<open>rawStep\<close> is one turn of its loop.\<close>

definition rawStep :: "afterblow_mode \<Rightarrow> exchange \<Rightarrow> int \<times> int \<Rightarrow> int \<times> int" where
  "rawStep mode ex score =
     (if voided ex then score
      else if ex_type ex = DoubleHit \<or> ex_type ex = NoExchange then score
      else
        (let firstValue = or_else (firstStrikeValue ex) 0;
             afterValue = or_else (afterblowValue ex) 0;
             (attackerDelta, defenderDelta) =
               (if ex_type ex = Afterblow then computeAfterblowDeltas mode firstValue afterValue else (firstValue, 0));
             (red, blue) = score
         in case firstStrikerColor ex of
              Some Red \<Rightarrow> (red + attackerDelta, blue + defenderDelta)
            | Some Blue \<Rightarrow> (red + defenderDelta, blue + attackerDelta)
            | None \<Rightarrow> (red, blue)))"

definition computeRawScore :: "exchange list \<Rightarrow> afterblow_mode \<Rightarrow> int \<times> int" where
  "computeRawScore exchanges mode = fold (rawStep mode) exchanges (0, 0)"

definition columns_of :: "scored_match \<Rightarrow> bout_columns" where
  "columns_of m =
     \<lparr>bc_winner = sm_winnerRegistrationId m, bc_red = Some (sm_redRegistrationId m), bc_blue = Some (sm_blueRegistrationId m),
      bc_redScore = sm_redScore m, bc_blueScore = sm_blueScore m, bc_endReason = sm_endReason m\<rparr>"

definition statsStep :: "reg_id \<Rightarrow> afterblow_mode \<Rightarrow> scored_match \<Rightarrow> derived_stats \<Rightarrow> derived_stats" where
  "statsStep registrationId mode m acc =
     (let isRed = (sm_redRegistrationId m = registrationId);
          isBlue = (sm_blueRegistrationId m = registrationId)
      in if \<not> isRed \<and> \<not> isBlue then acc
         else
           (let (redScore, blueScore) = computeRawScore (sm_exchanges m) mode;
                outcome = (if isRed then fst else snd) (boutOutcomes (columns_of m));
                counted = acc\<lparr>
                  ds_hitsGiven := ds_hitsGiven acc + (if isRed then redScore else blueScore),
                  ds_hitsReceived := ds_hitsReceived acc + (if isRed then blueScore else redScore),
                  ds_doubleHits := ds_doubleHits acc +
                    int (length (filter (\<lambda>ex. \<not> voided ex \<and> ex_type ex = DoubleHit) (sm_exchanges m)))\<rparr>
            in case outcome of
                 Win \<Rightarrow> counted\<lparr>ds_victories := ds_victories counted + 1\<rparr>
               | Loss \<Rightarrow> counted\<lparr>ds_losses := ds_losses counted + 1\<rparr>
               | DrawnBout \<Rightarrow> counted\<lparr>ds_ties := ds_ties counted + 1\<rparr>))"

definition deriveFighterStats :: "reg_id \<Rightarrow> scored_match list \<Rightarrow> afterblow_mode \<Rightarrow> derived_stats" where
  "deriveFighterStats registrationId completedMatches mode = fold (statsStep registrationId mode) completedMatches no_stats"

subsection \<open>A ruleset authored as a formula\<close>

record formula_constants =
  k_pointsPerVictory :: rat
  k_pointsPerTie :: rat
  k_pointsPerLoss :: rat
  k_doublePenalty :: rat

definition DEFAULT_FORMULA_CONSTANTS :: formula_constants where
  "DEFAULT_FORMULA_CONSTANTS = \<lparr>k_pointsPerVictory = 3, k_pointsPerTie = 1, k_pointsPerLoss = 0, k_doublePenalty = 0\<rparr>"

record tiebreaker =
  tb_variable :: variable_key
  tb_direction :: ranking_direction

record formula_config =
  fc_scoreFormula :: formula_node
  fc_constants :: formula_constants
  fc_tiebreakers :: "tiebreaker list"
  fc_doublePenaltyFormula :: "double_penalty_spec option"

definition buildFormulaScope :: "derived_stats \<Rightarrow> formula_config \<Rightarrow> formula_scope" where
  "buildFormulaScope acc config =
     (\<lambda>k. Some (case k of
        Victories \<Rightarrow> of_int (ds_victories acc)
      | Ties \<Rightarrow> of_int (ds_ties acc)
      | Losses \<Rightarrow> of_int (ds_losses acc)
      | DoubleHits \<Rightarrow> of_int (ds_doubleHits acc)
      | HitsGiven \<Rightarrow> of_int (ds_hitsGiven acc)
      | HitsReceived \<Rightarrow> of_int (ds_hitsReceived acc)
      | PointsPerVictory \<Rightarrow> k_pointsPerVictory (fc_constants config)
      | PointsPerTie \<Rightarrow> k_pointsPerTie (fc_constants config)
      | PointsPerLoss \<Rightarrow> k_pointsPerLoss (fc_constants config)
      | DoublePenalty \<Rightarrow>
          (case fc_doublePenaltyFormula config of
             Some spec \<Rightarrow> doublePenalty (of_int (ds_doubleHits acc)) spec
           | None \<Rightarrow> k_doublePenalty (fc_constants config))))"

definition formula_scorePoolFighters ::
    "formula_config \<Rightarrow> afterblow_mode \<Rightarrow> reg_id list \<Rightarrow> scored_match list \<Rightarrow> reg_id \<Rightarrow> rat option" where
  "formula_scorePoolFighters config mode registrationIds completedMatches =
     map_of (map (\<lambda>i. (i, evaluateFormula (fc_scoreFormula config)
                              (buildFormulaScope (deriveFighterStats i completedMatches mode) config))) registrationIds)"

definition TIEBREAK_COLUMN_BY_VARIABLE :: "variable_key \<Rightarrow> string option" where
  "TIEBREAK_COLUMN_BY_VARIABLE k =
     map_of [(Victories, ''W''), (Losses, ''L''), (Ties, ''D''), (DoubleHits, ''doubles''), (HitsGiven, ''hitsGiven''),
             (HitsReceived, ''hitsReceived'')] k"

definition buildRankingChain :: "tiebreaker list \<Rightarrow> ranking_rule list" where
  "buildRankingChain tiebreakers =
     foldl (\<lambda>chain tb.
       case TIEBREAK_COLUMN_BY_VARIABLE (tb_variable tb) of
         None \<Rightarrow> chain
       | Some k \<Rightarrow> if list_ex (\<lambda>rule. rule_key rule = k) chain then chain else chain @ [\<lparr>rule_key = k, direction = tb_direction tb\<rparr>])
     [\<lparr>rule_key = ''score'', direction = Desc\<rparr>] tiebreakers"

subsection \<open>The TF v1 ruleset\<close>

record fighter_aggregates =
  fa_wins :: int
  fa_targetPoints :: int
  fa_timesHit :: int
  fa_doubles :: int

definition no_aggregates :: fighter_aggregates where
  "no_aggregates = \<lparr>fa_wins = 0, fa_targetPoints = 0, fa_timesHit = 0, fa_doubles = 0\<rparr>"

definition aggregateStep :: "color \<Rightarrow> afterblow_mode \<Rightarrow> exchange \<Rightarrow> fighter_aggregates \<Rightarrow> fighter_aggregates" where
  "aggregateStep myColor mode ex agg =
     (case ex_type ex of
        Clean \<Rightarrow>
          if firstStrikerColor ex = Some myColor then
            agg\<lparr>fa_targetPoints := fa_targetPoints agg + or_else (firstStrikeValue ex) 0\<rparr>
          else if firstStrikerColor ex = Some (other myColor) then agg\<lparr>fa_timesHit := fa_timesHit agg + 1\<rparr>
          else agg
      | Afterblow \<Rightarrow>
          (let (attackerDelta, defenderDelta) =
             computeAfterblowDeltas mode (or_else (firstStrikeValue ex) 0) (or_else (afterblowValue ex) 0)
           in if firstStrikerColor ex = Some myColor then
                agg\<lparr>fa_targetPoints := fa_targetPoints agg + attackerDelta, fa_timesHit := fa_timesHit agg + 1\<rparr>
              else if firstStrikerColor ex = Some (other myColor) then
                agg\<lparr>fa_targetPoints := fa_targetPoints agg + defenderDelta\<rparr>
              else agg)
      | DoubleHit \<Rightarrow> agg\<lparr>fa_doubles := fa_doubles agg + 1\<rparr>
      | NoExchange \<Rightarrow> agg)"

definition computeAggregates :: "reg_id \<Rightarrow> reg_id \<Rightarrow> exchange list \<Rightarrow> bool \<Rightarrow> afterblow_mode \<Rightarrow> fighter_aggregates" where
  "computeAggregates registrationId redRegistration exchanges isWinner mode =
     (let myColor = (if redRegistration = registrationId then Red else Blue);
          agg = fold (aggregateStep myColor mode) (filter (\<lambda>e. \<not> voided e) exchanges) no_aggregates
      in agg\<lparr>fa_wins := if isWinner then 1 else 0\<rparr>)"

definition WIN_BONUS :: rat where
  "WIN_BONUS = 3"

record score_options =
  so_winBonus :: "rat option"
  so_doublePenaltyFormula :: "double_penalty_spec option"

definition computeScore :: "fighter_aggregates \<Rightarrow> score_options \<Rightarrow> rat" where
  "computeScore agg opts =
     (let numerator = of_int (fa_wins agg) * or_else (so_winBonus opts) WIN_BONUS + of_int (fa_targetPoints agg);
          denominator = of_int (fa_timesHit agg) +
            doublePenalty (of_int (fa_doubles agg)) (or_else (so_doublePenaltyFormula opts) (Key DEFAULT_DOUBLE_PENALTY_FORMULA))
      in if denominator = 0 then numerator else numerator / denominator)"

text \<open>One bout added to the running totals: of red, then of blue; a fighter with no total is passed over.\<close>

definition add_aggregates :: "fighter_aggregates \<Rightarrow> fighter_aggregates \<Rightarrow> fighter_aggregates" where
  "add_aggregates running bout =
     \<lparr>fa_wins = fa_wins running + fa_wins bout, fa_targetPoints = fa_targetPoints running + fa_targetPoints bout,
      fa_timesHit = fa_timesHit running + fa_timesHit bout, fa_doubles = fa_doubles running + fa_doubles bout\<rparr>"

definition tf_side :: "afterblow_mode \<Rightarrow> scored_match \<Rightarrow> reg_id \<Rightarrow> (reg_id \<Rightarrow> fighter_aggregates option) \<Rightarrow> reg_id \<Rightarrow> fighter_aggregates option" where
  "tf_side mode m regId totals =
     (case totals regId of
        None \<Rightarrow> totals
      | Some running \<Rightarrow>
          totals(regId \<mapsto> add_aggregates running
            (computeAggregates regId (sm_redRegistrationId m) (sm_exchanges m) (sm_winnerRegistrationId m = Some regId) mode)))"

definition tf_bout :: "afterblow_mode \<Rightarrow> scored_match \<Rightarrow> (reg_id \<Rightarrow> fighter_aggregates option) \<Rightarrow> reg_id \<Rightarrow> fighter_aggregates option" where
  "tf_bout mode m = tf_side mode m (sm_blueRegistrationId m) \<circ> tf_side mode m (sm_redRegistrationId m)"

definition tf_totals :: "afterblow_mode \<Rightarrow> reg_id list \<Rightarrow> scored_match list \<Rightarrow> reg_id \<Rightarrow> fighter_aggregates option" where
  "tf_totals mode registrationIds completedMatches =
     fold (tf_bout mode) completedMatches (map_of (map (\<lambda>i. (i, no_aggregates)) registrationIds))"

definition tf_scorePoolFighters ::
    "score_options \<Rightarrow> afterblow_mode \<Rightarrow> reg_id list \<Rightarrow> scored_match list \<Rightarrow> reg_id \<Rightarrow> rat option" where
  "tf_scorePoolFighters cfg mode registrationIds completedMatches =
     map_option (\<lambda>agg. computeScore agg cfg) \<circ> tf_totals mode registrationIds completedMatches"

subsection \<open>The points-cap ruleset\<close>

record generic_config =
  gc_matchFormat :: match_format_config
  gc_hit :: int

definition withoutMaxDoubles :: "generic_config \<Rightarrow> generic_config" where
  "withoutMaxDoubles config = config\<lparr>gc_matchFormat := (gc_matchFormat config)\<lparr>maxDoubleHits := None\<rparr>\<rparr>"

definition remap_hit :: "int \<Rightarrow> exchange \<Rightarrow> exchange" where
  "remap_hit hitValue ex =
     (if ex_type ex = Clean \<or> ex_type ex = Afterblow
      then ex\<lparr>ex_type := Clean, firstStrikeValue := Some hitValue, afterblowValue := None\<rparr> else ex)"

definition computeGenericPointsCapScore :: "phase_type option \<Rightarrow> exchange list \<Rightarrow> generic_config \<Rightarrow> match_score" where
  "computeGenericPointsCapScore ph exchanges config =
     computeMatchFormatScore ph (map (remap_hit (gc_hit config)) exchanges) (gc_matchFormat config) Full"

definition generic_computeMatchScore :: "phase_type option \<Rightarrow> exchange list \<Rightarrow> generic_config \<Rightarrow> match_score" where
  "generic_computeMatchScore ph exchanges config = computeGenericPointsCapScore ph exchanges (withoutMaxDoubles config)"

definition generic_matchOver :: "phase_type option \<Rightarrow> string option \<Rightarrow> match_score \<Rightarrow> generic_config \<Rightarrow> decision_edition \<Rightarrow> string option" where
  "generic_matchOver ph label score config edition =
     (if pointCapEndsBout ph label score (gc_matchFormat config) edition then Some ''first_to_points'' else None)"

definition endOnPointCapOrMaxDoubles ::
    "phase_type option \<Rightarrow> string option \<Rightarrow> match_score \<Rightarrow> match_format_config \<Rightarrow> decision_edition \<Rightarrow> bool \<times> string option" where
  "endOnPointCapOrMaxDoubles ph label score fmt edition =
     (let r = roundOutcome ph label score fmt edition in (autoOver r, ro_endReason r))"

record generic_stats =
  gs_wins :: int
  gs_for :: int
  gs_against :: int

definition generic_side ::
    "scored_match \<Rightarrow> reg_id \<Rightarrow> int \<Rightarrow> int \<Rightarrow> (reg_id \<Rightarrow> generic_stats option) \<Rightarrow> reg_id \<Rightarrow> generic_stats option" where
  "generic_side m regId forPts against acc =
     (case acc regId of
        None \<Rightarrow> acc
      | Some s \<Rightarrow>
          acc(regId \<mapsto> \<lparr>gs_wins = gs_wins s + (if sm_winnerRegistrationId m = Some regId then 1 else 0),
                           gs_for = gs_for s + forPts, gs_against = gs_against s + against\<rparr>))"

definition generic_bout :: "generic_config \<Rightarrow> scored_match \<Rightarrow> (reg_id \<Rightarrow> generic_stats option) \<Rightarrow> reg_id \<Rightarrow> generic_stats option" where
  "generic_bout config m =
     (let score = computeGenericPointsCapScore None (sm_exchanges m) config in
      generic_side m (sm_blueRegistrationId m) (blueScore score) (redScore score) \<circ>
      generic_side m (sm_redRegistrationId m) (redScore score) (blueScore score))"

definition no_generic :: generic_stats where
  "no_generic = \<lparr>gs_wins = 0, gs_for = 0, gs_against = 0\<rparr>"

definition generic_totals :: "generic_config \<Rightarrow> reg_id list \<Rightarrow> scored_match list \<Rightarrow> reg_id \<Rightarrow> generic_stats option" where
  "generic_totals config registrationIds completedMatches =
     fold (generic_bout config) completedMatches (map_of (map (\<lambda>i. (i, no_generic)) registrationIds))"

definition generic_scorePoolFighters ::
    "generic_config \<Rightarrow> reg_id list \<Rightarrow> scored_match list \<Rightarrow> reg_id \<Rightarrow> rat option" where
  "generic_scorePoolFighters config registrationIds completedMatches =
     map_option (\<lambda>s. of_int (gs_wins s * 1000 + (gs_for s - gs_against s))) \<circ> generic_totals config registrationIds completedMatches"

subsection \<open>The totals of one fighter\<close>

text \<open>What one bout adds to the total of one fighter.\<close>

definition tf_own :: "afterblow_mode \<Rightarrow> reg_id \<Rightarrow> scored_match \<Rightarrow> fighter_aggregates \<Rightarrow> fighter_aggregates" where
  "tf_own mode i m agg =
     (let bout = computeAggregates i (sm_redRegistrationId m) (sm_exchanges m) (sm_winnerRegistrationId m = Some i) mode;
          afterRed = (if sm_redRegistrationId m = i then add_aggregates agg bout else agg)
      in if sm_blueRegistrationId m = i then add_aggregates afterRed bout else afterRed)"

lemma tf_bout_own: "tf_bout mode m totals i = map_option (tf_own mode i m) (totals i)"
  by (cases "totals i") (auto simp: tf_bout_def tf_side_def tf_own_def Let_def split: option.splits)

lemma map_of_same: "map_of (map (\<lambda>i. (i, f i)) ids) i = (if i \<in> set ids then Some (f i) else None)"
  by (induction ids) auto

lemma fold_own:
  assumes "\<And>m totals. step m totals i = map_option (own m) (totals i)"
  shows "fold step ms totals i = map_option (fold own ms) (totals i)"
  by (induction ms arbitrary: totals) (simp_all add: assms option.map_comp comp_def option.map_id)

lemma tf_totals_own:
  "tf_totals mode ids ms i = (if i \<in> set ids then Some (fold (tf_own mode i) ms no_aggregates) else None)"
  unfolding tf_totals_def by (subst fold_own [where own = "tf_own mode i"]) (simp_all add: tf_bout_own map_of_same)

definition generic_own :: "generic_config \<Rightarrow> reg_id \<Rightarrow> scored_match \<Rightarrow> generic_stats \<Rightarrow> generic_stats" where
  "generic_own config i m acc =
     (let score = computeGenericPointsCapScore None (sm_exchanges m) config;
          won = (if sm_winnerRegistrationId m = Some i then 1 else 0);
          afterRed = (if sm_redRegistrationId m = i
            then \<lparr>gs_wins = gs_wins acc + won, gs_for = gs_for acc + redScore score, gs_against = gs_against acc + blueScore score\<rparr> else acc)
      in if sm_blueRegistrationId m = i
         then \<lparr>gs_wins = gs_wins afterRed + won, gs_for = gs_for afterRed + blueScore score, gs_against = gs_against afterRed + redScore score\<rparr>
         else afterRed)"

lemma generic_bout_own: "generic_bout config m totals i = map_option (generic_own config i m) (totals i)"
  by (cases "totals i") (auto simp: generic_bout_def generic_side_def generic_own_def Let_def split: option.splits)

lemma generic_totals_own:
  "generic_totals config ids ms i = (if i \<in> set ids then Some (fold (generic_own config i) ms no_generic) else None)"
  unfolding generic_totals_def by (subst fold_own [where own = "generic_own config i"]) (simp_all add: generic_bout_own map_of_same)

lemma formula_own:
  "formula_scorePoolFighters config mode ids ms i =
     (if i \<in> set ids then Some (evaluateFormula (fc_scoreFormula config) (buildFormulaScope (deriveFighterStats i ms mode) config)) else None)"
  by (simp add: formula_scorePoolFighters_def map_of_same)

subsection \<open>The engines count the same hits\<close>

definition on_side :: "color \<Rightarrow> int \<times> int \<Rightarrow> int" where
  "on_side c p = (case c of Red \<Rightarrow> fst p | Blue \<Rightarrow> snd p)"

lemma raw_and_aggregates:
  "fa_targetPoints (fold (aggregateStep c mode) (filter (\<lambda>e. \<not> voided e) exs) agg) - fa_targetPoints agg =
     on_side c (fold (rawStep mode) exs p) - on_side c p"
proof (induction exs arbitrary: agg p)
  case (Cons ex exs)
  have "fa_targetPoints (aggregateStep c mode ex agg) - fa_targetPoints agg = on_side c (rawStep mode ex p) - on_side c p" if "\<not> voided ex"
    using that
    by (cases p; cases c; cases "ex_type ex"; cases "firstStrikerColor ex"; cases "the (firstStrikerColor ex)"; cases mode)
       (simp_all add: aggregateStep_def rawStep_def on_side_def)
  moreover have "rawStep mode ex p = p" if "voided ex" using that by (simp add: rawStep_def)
  ultimately show ?case using Cons.IH [of "aggregateStep c mode ex agg" "rawStep mode ex p"] Cons.IH [of agg p] by (cases "voided ex") auto
qed simp

lemma aggregate_doubles:
  "fa_doubles (fold (aggregateStep c mode) exs agg) = fa_doubles agg + int (length (filter (\<lambda>ex. ex_type ex = DoubleHit) exs))"
proof (induction exs arbitrary: agg)
  case (Cons ex exs)
  have "fa_doubles (aggregateStep c mode ex agg) = fa_doubles agg + (if ex_type ex = DoubleHit then 1 else 0)"
    by (cases "ex_type ex") (simp_all add: aggregateStep_def split: prod.splits)
  then show ?case using Cons.IH by simp
qed simp

lemma own_bout_hits:
  assumes "sm_redRegistrationId m \<noteq> sm_blueRegistrationId m"
  shows "fa_targetPoints (tf_own mode i m agg) - fa_targetPoints agg = ds_hitsGiven (statsStep i mode m acc) - ds_hitsGiven acc"
    and "fa_doubles (tf_own mode i m agg) - fa_doubles agg = ds_doubleHits (statsStep i mode m acc) - ds_doubleHits acc"
  using raw_and_aggregates [of _ mode "sm_exchanges m" no_aggregates "(0, 0)"] assms
  by (auto simp: tf_own_def statsStep_def computeAggregates_def computeRawScore_def add_aggregates_def on_side_def no_aggregates_def
      aggregate_doubles conj_commute Let_def split: bout_outcome.splits prod.splits)

lemma engines_fold:
  assumes "\<forall>m \<in> set ms. sm_redRegistrationId m \<noteq> sm_blueRegistrationId m"
  shows "fa_targetPoints (fold (tf_own mode i) ms agg) - fa_targetPoints agg = ds_hitsGiven (fold (statsStep i mode) ms acc) - ds_hitsGiven acc"
    and "fa_doubles (fold (tf_own mode i) ms agg) - fa_doubles agg = ds_doubleHits (fold (statsStep i mode) ms acc) - ds_doubleHits acc"
proof -
  have "fa_targetPoints (fold (tf_own mode i) ms agg) - fa_targetPoints agg = ds_hitsGiven (fold (statsStep i mode) ms acc) - ds_hitsGiven acc \<and>
      fa_doubles (fold (tf_own mode i) ms agg) - fa_doubles agg = ds_doubleHits (fold (statsStep i mode) ms acc) - ds_doubleHits acc"
    using assms
  proof (induction ms arbitrary: agg acc)
    case (Cons m ms)
    show ?case
      using Cons.IH [of "tf_own mode i m agg" "statsStep i mode m acc"] own_bout_hits [of m mode i agg acc] Cons.prems by simp
  qed simp
  then show "fa_targetPoints (fold (tf_own mode i) ms agg) - fa_targetPoints agg = ds_hitsGiven (fold (statsStep i mode) ms acc) - ds_hitsGiven acc"
    "fa_doubles (fold (tf_own mode i) ms agg) - fa_doubles agg = ds_doubleHits (fold (statsStep i mode) ms acc) - ds_doubleHits acc" by blast+
qed

text \<open>
  The two engines see the same fight. TF v1 counts its points and doubles with a loop of its
  own, the authored formulas with another: for every fighter of a pool they come to the same
  points scored by hits and the same number of doubles, in either afterblow mode.
\<close>

lemma engines_count_the_same_hits:
  assumes "\<forall>m \<in> set bouts. sm_redRegistrationId m \<noteq> sm_blueRegistrationId m" and "i \<in> set ids"
  shows "\<exists>agg. tf_totals mode ids bouts i = Some agg \<and> fa_targetPoints agg = ds_hitsGiven (deriveFighterStats i bouts mode) \<and>
    fa_doubles agg = ds_doubleHits (deriveFighterStats i bouts mode)"
  using engines_fold [OF assms(1), of mode i no_aggregates no_stats] assms(2)
  by (simp add: tf_totals_own deriveFighterStats_def no_aggregates_def no_stats_def)

subsection \<open>A pool balances\<close>

text \<open>The statistics of one bout, and those of many as their sum.\<close>

lemma statsStep_adds:
  "ds_victories (statsStep i mode m acc) = ds_victories acc + ds_victories (statsStep i mode m no_stats)"
  "ds_ties (statsStep i mode m acc) = ds_ties acc + ds_ties (statsStep i mode m no_stats)"
  "ds_losses (statsStep i mode m acc) = ds_losses acc + ds_losses (statsStep i mode m no_stats)"
  "ds_hitsGiven (statsStep i mode m acc) = ds_hitsGiven acc + ds_hitsGiven (statsStep i mode m no_stats)"
  "ds_hitsReceived (statsStep i mode m acc) = ds_hitsReceived acc + ds_hitsReceived (statsStep i mode m no_stats)"
  by (auto simp: statsStep_def no_stats_def Let_def split: bout_outcome.splits prod.splits)

lemma statsStep_absent:
  "sm_redRegistrationId m \<noteq> i \<Longrightarrow> sm_blueRegistrationId m \<noteq> i \<Longrightarrow> statsStep i mode m acc = acc"
  by (simp add: statsStep_def)

lemma sum_two:
  fixes f :: "reg_id \<Rightarrow> int"
  assumes "finite I" and "r \<in> I" and "b \<in> I" and "r \<noteq> b" and "\<And>i. i \<noteq> r \<Longrightarrow> i \<noteq> b \<Longrightarrow> f i = 0"
  shows "sum f I = f r + f b"
proof -
  have "sum f I = sum f {r, b}" using assms by (intro sum.mono_neutral_right) auto
  then show ?thesis using assms(4) by simp
qed

definition double_loss :: "scored_match \<Rightarrow> bool" where
  "double_loss m \<longleftrightarrow> sm_endReason m = Some ''max_doubles''"

definition in_pool :: "reg_id set \<Rightarrow> scored_match \<Rightarrow> bool" where
  "in_pool I m \<longleftrightarrow> sm_redRegistrationId m \<in> I \<and> sm_blueRegistrationId m \<in> I \<and> sm_redRegistrationId m \<noteq> sm_blueRegistrationId m"

lemma bout_balances:
  assumes "finite I" and "in_pool I m"
  shows "(\<Sum>i\<in>I. ds_hitsGiven (statsStep i mode m no_stats)) = (\<Sum>i\<in>I. ds_hitsReceived (statsStep i mode m no_stats))"
    and "(\<Sum>i\<in>I. ds_losses (statsStep i mode m no_stats)) =
      (\<Sum>i\<in>I. ds_victories (statsStep i mode m no_stats)) + (if double_loss m then 2 else 0)"
    and "(\<Sum>i\<in>I. ds_victories (statsStep i mode m no_stats)) + (\<Sum>i\<in>I. ds_losses (statsStep i mode m no_stats)) +
      (\<Sum>i\<in>I. ds_ties (statsStep i mode m no_stats)) = 2"
proof -
  let ?r = "sm_redRegistrationId m" and ?b = "sm_blueRegistrationId m"
  have two: "(\<Sum>i\<in>I. f (statsStep i mode m no_stats)) = f (statsStep ?r mode m no_stats) + f (statsStep ?b mode m no_stats)"
    if "f no_stats = 0" for f :: "derived_stats \<Rightarrow> int"
    by (rule sum_two) (use assms that in \<open>auto simp: in_pool_def statsStep_absent\<close>)
  note zero = no_stats_def
  have b: "?b \<noteq> ?r" "?r \<noteq> ?b" using assms(2) by (auto simp: in_pool_def)
  show "(\<Sum>i\<in>I. ds_hitsGiven (statsStep i mode m no_stats)) = (\<Sum>i\<in>I. ds_hitsReceived (statsStep i mode m no_stats))"
    using two [of ds_hitsGiven] two [of ds_hitsReceived] b
    by (auto simp: zero statsStep_def Let_def split: bout_outcome.splits prod.splits)
  have result: "boutOutcomes (columns_of m) \<in> {(Win, Loss), (Loss, Win), (DrawnBout, DrawnBout)} \<and> \<not> double_loss m \<or>
      boutOutcomes (columns_of m) = (Loss, Loss) \<and> double_loss m"
    by (auto simp: boutOutcomes_def columns_of_def isDoubleLossBout_def double_loss_def split: option.splits color.splits)
  show "(\<Sum>i\<in>I. ds_losses (statsStep i mode m no_stats)) =
      (\<Sum>i\<in>I. ds_victories (statsStep i mode m no_stats)) + (if double_loss m then 2 else 0)"
    using two [of ds_losses] two [of ds_victories] b result
    by (auto simp: zero statsStep_def Let_def split: prod.splits)
  show "(\<Sum>i\<in>I. ds_victories (statsStep i mode m no_stats)) + (\<Sum>i\<in>I. ds_losses (statsStep i mode m no_stats)) +
      (\<Sum>i\<in>I. ds_ties (statsStep i mode m no_stats)) = 2"
    using two [of ds_losses] two [of ds_victories] two [of ds_ties] b result
    by (auto simp: zero statsStep_def Let_def split: prod.splits)
qed

lemma derive_snoc: "deriveFighterStats i (ms @ [m]) mode = statsStep i mode m (deriveFighterStats i ms mode)"
  by (simp add: deriveFighterStats_def)

text \<open>
  C16. The statistics of a pool balance. Over the fighters of a pool the hits given are the hits
  received, however many bouts they have fought: none is counted for one and not against another.
  Every bout is a result for both its fighters, and the losses are the victories plus the two of
  each bout the doubles decided against both.
\<close>

theorem pool_statistics_balance:
  assumes "finite I" and "\<forall>m \<in> set bouts. in_pool I m"
  shows "(\<Sum>i\<in>I. ds_hitsGiven (deriveFighterStats i bouts mode)) = (\<Sum>i\<in>I. ds_hitsReceived (deriveFighterStats i bouts mode)) \<and>
    (\<Sum>i\<in>I. ds_losses (deriveFighterStats i bouts mode)) =
      (\<Sum>i\<in>I. ds_victories (deriveFighterStats i bouts mode)) + 2 * int (length (filter double_loss bouts)) \<and>
    (\<Sum>i\<in>I. ds_victories (deriveFighterStats i bouts mode)) + (\<Sum>i\<in>I. ds_losses (deriveFighterStats i bouts mode)) +
      (\<Sum>i\<in>I. ds_ties (deriveFighterStats i bouts mode)) = 2 * int (length bouts)"
  using assms(2)
proof (induction bouts rule: rev_induct)
  case Nil
  then show ?case by (simp add: deriveFighterStats_def no_stats_def)
next
  case (snoc m ms)
  note one = bout_balances [OF assms(1), of m mode]
  have "in_pool I m" using snoc.prems by simp
  then show ?case
    using snoc.IH snoc.prems one unfolding derive_snoc statsStep_adds [where acc = "deriveFighterStats _ ms mode"] sum.distrib by auto
qed

end
