(* ===== verification/Pool_Scores.thy ===== *)
theory Pool_Scores
  imports Ruleset_Scoring
begin

section \<open>Rulesets: the contract of a pool scorer\<close>

text \<open>
  What the standings rely on when they ask a ruleset for the scores of a pool, the method
  \<open>scorePoolFighters\<close> of \<open>packages/rulesets/src/types.ts\<close>, as an interface; the three scorers of
  \<open>Ruleset_Scoring\<close> keep it.
\<close>

text \<open>All a scorer may read of a bout: its fighters, its result, and the exchanges that count, in no order.\<close>

definition result_of ::
    "scored_match \<Rightarrow> (reg_id \<times> reg_id \<times> reg_id option \<times> string option \<times> int option \<times> int option) \<times> exchange multiset" where
  "result_of m =
     ((sm_redRegistrationId m, sm_blueRegistrationId m, sm_winnerRegistrationId m, sm_endReason m, sm_redScore m, sm_blueScore m),
      mset (filter (\<lambda>e. \<not> voided e) (sm_exchanges m)))"

definition fights :: "reg_id \<Rightarrow> scored_match \<Rightarrow> bool" where
  "fights i m \<longleftrightarrow> sm_redRegistrationId m = i \<or> sm_blueRegistrationId m = i"

text \<open>The results of one fighter, in no order.\<close>

definition own_results where
  "own_results i bouts = mset (map result_of (filter (fights i) bouts))"

locale pool_scorer =
  fixes score :: "reg_id list \<Rightarrow> scored_match list \<Rightarrow> reg_id \<Rightarrow> rat option"
    and own :: "reg_id \<Rightarrow> scored_match \<Rightarrow> 's \<Rightarrow> 's"
    and start :: 's
    and worth :: "'s \<Rightarrow> rat"
  assumes scored: "score ids bouts i = (if i \<in> set ids then Some (worth (fold (own i) bouts start)) else None)"
    and absent: "\<not> fights i m \<Longrightarrow> own i m acc = acc"
    and commutes: "own i m (own i m' acc) = own i m' (own i m acc)"
    and reads_result: "result_of m = result_of m' \<Longrightarrow> own i m acc = own i m' acc"
begin

lemma fold_own_bouts: "fold (own i) bouts acc = fold (own i) (filter (fights i) bouts) acc"
  by (induction bouts arbitrary: acc) (simp_all add: absent)

lemma fold_results: "fold (own i) bouts acc = fold (\<lambda>r. own i (SOME m. result_of m = r)) (map result_of bouts) acc"
proof -
  have "own i (SOME m'. result_of m' = result_of m) = own i m" for m
    by (rule ext, rule reads_result, rule someI [where x = m]) simp
  then show ?thesis by (simp add: fold_map comp_def)
qed

lemma only_own_results:
  assumes "own_results i bouts = own_results i bouts'"
  shows "fold (own i) bouts acc = fold (own i) bouts' acc"
proof -
  have "fold (\<lambda>r. own i (SOME m. result_of m = r)) (map result_of (filter (fights i) bouts)) =
      fold (\<lambda>r. own i (SOME m. result_of m = r)) (map result_of (filter (fights i) bouts'))"
    using assms by (intro fold_multiset_equiv) (auto simp: own_results_def commutes)
  then have "fold (own i) (filter (fights i) bouts) acc = fold (own i) (filter (fights i) bouts') acc"
    unfolding fold_results by (rule fun_cong)
  then show ?thesis by (metis fold_own_bouts)
qed

lemma score_of_own_results:
  "i \<in> set ids \<Longrightarrow> i \<in> set ids' \<Longrightarrow> own_results i bouts = own_results i bouts' \<Longrightarrow> score ids bouts i = score ids' bouts' i"
  using only_own_results [of i bouts bouts' start] by (simp add: scored)

end

subsection \<open>The three scorers keep it\<close>

lemma aggregateStep_fields:
  "fa_wins (aggregateStep c mode ex agg) = fa_wins agg"
  "fa_targetPoints (aggregateStep c mode ex agg) = fa_targetPoints agg + fa_targetPoints (aggregateStep c mode ex no_aggregates)"
  "fa_timesHit (aggregateStep c mode ex agg) = fa_timesHit agg + fa_timesHit (aggregateStep c mode ex no_aggregates)"
  "fa_doubles (aggregateStep c mode ex agg) = fa_doubles agg + fa_doubles (aggregateStep c mode ex no_aggregates)"
  by (auto simp: aggregateStep_def no_aggregates_def Let_def split: exchange_type.splits prod.splits)

lemma aggregateStep_commutes: "aggregateStep c mode ex (aggregateStep c mode ex' agg) = aggregateStep c mode ex' (aggregateStep c mode ex agg)"
  by (rule fighter_aggregates.equality) (simp_all add: aggregateStep_fields [of c mode ex "aggregateStep c mode ex' agg"]
      aggregateStep_fields [of c mode ex' "aggregateStep c mode ex agg"] aggregateStep_fields [of c mode ex agg] aggregateStep_fields [of c mode ex' agg])

lemma computeAggregates_mset:
  assumes "mset (filter (\<lambda>e. \<not> voided e) xs) = mset (filter (\<lambda>e. \<not> voided e) ys)"
  shows "computeAggregates i red xs w mode = computeAggregates i red ys w mode"
proof -
  have "fold (aggregateStep c mode) (filter (\<lambda>e. \<not> voided e) xs) = fold (aggregateStep c mode) (filter (\<lambda>e. \<not> voided e) ys)" for c
    using assms by (intro fold_multiset_equiv) (auto simp: aggregateStep_commutes fun_eq_iff)
  then show ?thesis by (simp add: computeAggregates_def)
qed

lemma rawStep_adds:
  obtains dr db where "\<And>r b. rawStep mode ex (r, b) = (r + dr, b + db)"
proof -
  have "rawStep mode ex (r, b) = (r + fst (rawStep mode ex (0, 0)), b + snd (rawStep mode ex (0, 0)))" for r b
    by (auto simp: rawStep_def Let_def split: option.splits color.splits prod.splits)
  then show thesis by (rule that)
qed

lemma rawStep_commutes: "rawStep mode x (rawStep mode y p) = rawStep mode y (rawStep mode x p)"
  by (rule rawStep_adds [of mode x], rule rawStep_adds [of mode y], cases p) simp

lemma computeRawScore_mset:
  assumes "mset (filter (\<lambda>e. \<not> voided e) xs) = mset (filter (\<lambda>e. \<not> voided e) ys)"
  shows "computeRawScore xs mode = computeRawScore ys mode"
proof -
  have skip: "fold (rawStep mode) es p = fold (rawStep mode) (filter (\<lambda>e. \<not> voided e) es) p" for es p
    by (induction es arbitrary: p) (simp_all add: rawStep_def)
  have "fold (rawStep mode) (filter (\<lambda>e. \<not> voided e) xs) = fold (rawStep mode) (filter (\<lambda>e. \<not> voided e) ys)"
    using assms by (intro fold_multiset_equiv) (auto simp: rawStep_commutes fun_eq_iff)
  then show ?thesis by (simp add: computeRawScore_def skip [of xs] skip [of ys])
qed

lemma remap_filter: "filter (\<lambda>e. \<not> voided e) (map (remap_hit h) xs) = map (remap_hit h) (filter (\<lambda>e. \<not> voided e) xs)"
  by (induction xs) (simp_all add: remap_hit_def)

lemma generic_score_mset:
  assumes "mset (filter (\<lambda>e. \<not> voided e) xs) = mset (filter (\<lambda>e. \<not> voided e) ys)"
  shows "computeGenericPointsCapScore ph xs config = computeGenericPointsCapScore ph ys config"
proof -
  have "tallyOf Full (map (remap_hit (gc_hit config)) xs) = tallyOf Full (map (remap_hit (gc_hit config)) ys)"
    by (rule tallyOf_mset) (use assms in \<open>simp add: remap_filter\<close>)
  then show ?thesis by (simp add: computeGenericPointsCapScore_def computeMatchFormatScore_def)
qed

lemma doubles_mset:
  fixes xs ys :: "exchange list"
  assumes "mset (filter (\<lambda>e. \<not> voided e) xs) = mset (filter (\<lambda>e. \<not> voided e) ys)"
  shows "length (filter (\<lambda>ex. \<not> voided ex \<and> ex_type ex = DoubleHit) xs) = length (filter (\<lambda>ex. \<not> voided ex \<and> ex_type ex = DoubleHit) ys)"
proof -
  have doubles: "length (filter (\<lambda>ex. \<not> voided ex \<and> ex_type ex = DoubleHit) es) =
      size (filter_mset (\<lambda>ex. ex_type ex = DoubleHit) (mset (filter (\<lambda>e. \<not> voided e) es)))" for es :: "exchange list"
    by (metis (no_types, lifting) filter_filter mset_filter size_mset filter_cong)
  show ?thesis unfolding doubles assms ..
qed

lemma tf_own_fields:
  obtains w p h d where "\<And>agg. tf_own mode i m agg =
    \<lparr>fa_wins = fa_wins agg + w, fa_targetPoints = fa_targetPoints agg + p, fa_timesHit = fa_timesHit agg + h, fa_doubles = fa_doubles agg + d\<rparr>"
proof -
  let ?b = "computeAggregates i (sm_redRegistrationId m) (sm_exchanges m) (sm_winnerRegistrationId m = Some i) mode"
  let ?n = "(if sm_redRegistrationId m = i then 1 else 0) + (if sm_blueRegistrationId m = i then 1 else (0::int))"
  show thesis
    by (rule that [of "?n * fa_wins ?b" "?n * fa_targetPoints ?b" "?n * fa_timesHit ?b" "?n * fa_doubles ?b"])
       (simp add: tf_own_def add_aggregates_def Let_def)
qed

lemma tf_own_commutes: "tf_own mode i m (tf_own mode i m' agg) = tf_own mode i m' (tf_own mode i m agg)"
  by (rule tf_own_fields [of mode i m], rule tf_own_fields [of mode i m']) simp

lemma generic_own_fields:
  obtains w f a where "\<And>acc. generic_own config i m acc =
    \<lparr>gs_wins = gs_wins acc + w, gs_for = gs_for acc + f, gs_against = gs_against acc + a\<rparr>"
proof -
  let ?s = "computeGenericPointsCapScore None (sm_exchanges m) config"
  let ?r = "if sm_redRegistrationId m = i then 1 else (0::int)" and ?b = "if sm_blueRegistrationId m = i then 1 else (0::int)"
  show thesis
    by (rule that [of "(?r + ?b) * (if sm_winnerRegistrationId m = Some i then 1 else 0)" "?r * redScore ?s + ?b * blueScore ?s"
        "?r * blueScore ?s + ?b * redScore ?s"]) (simp add: generic_own_def Let_def)
qed

lemma generic_own_commutes: "generic_own config i m (generic_own config i m' acc) = generic_own config i m' (generic_own config i m acc)"
  by (rule generic_own_fields [of config i m], rule generic_own_fields [of config i m']) simp

lemma statsStep_commutes: "statsStep i mode m (statsStep i mode m' acc) = statsStep i mode m' (statsStep i mode m acc)"
proof -
  have d: "ds_doubleHits (statsStep i mode m acc) = ds_doubleHits acc + ds_doubleHits (statsStep i mode m no_stats)" for m acc
    by (auto simp: statsStep_def no_stats_def Let_def split: bout_outcome.splits prod.splits)
  note add = statsStep_adds [where mode = mode and i = i] d
  show ?thesis
    by (rule derived_stats.equality)
       (simp_all add: add [of m "statsStep i mode m' acc"] add [of m' "statsStep i mode m acc"] add [of m acc] add [of m' acc])
qed

interpretation tf: pool_scorer "tf_scorePoolFighters cfg mode" "tf_own mode" no_aggregates "\<lambda>agg. computeScore agg cfg"
  for cfg mode
proof unfold_locales
  show "tf_own mode i m acc = tf_own mode i m' acc" if "result_of m = result_of m'" for i m m' acc
    using that computeAggregates_mset [of "sm_exchanges m" "sm_exchanges m'"] by (simp add: result_of_def tf_own_def)
qed (simp_all add: tf_scorePoolFighters_def tf_totals_own tf_own_commutes, simp add: tf_own_def fights_def)

interpretation generic: pool_scorer "generic_scorePoolFighters config" "generic_own config" no_generic
    "\<lambda>s. of_int (gs_wins s * 1000 + (gs_for s - gs_against s))"
  for config
proof unfold_locales
  show "generic_own config i m acc = generic_own config i m' acc" if "result_of m = result_of m'" for i m m' acc
    using that generic_score_mset [of "sm_exchanges m" "sm_exchanges m'"] by (simp add: result_of_def generic_own_def)
qed (simp_all add: generic_scorePoolFighters_def generic_totals_own generic_own_commutes, simp add: generic_own_def fights_def)

interpretation authored: pool_scorer "formula_scorePoolFighters config mode" "\<lambda>i. statsStep i mode" no_stats
    "\<lambda>acc. evaluateFormula (fc_scoreFormula config) (buildFormulaScope acc config)"
  for config mode
proof unfold_locales
  show "statsStep i mode m acc = statsStep i mode m' acc" if "result_of m = result_of m'" for i m m' acc
  proof -
    have same: "sm_redRegistrationId m = sm_redRegistrationId m'" "sm_blueRegistrationId m = sm_blueRegistrationId m'"
      "sm_winnerRegistrationId m = sm_winnerRegistrationId m'" "sm_endReason m = sm_endReason m'" "sm_redScore m = sm_redScore m'"
      "sm_blueScore m = sm_blueScore m'" using that by (simp_all add: result_of_def)
    have "mset (filter (\<lambda>e. \<not> voided e) (sm_exchanges m)) = mset (filter (\<lambda>e. \<not> voided e) (sm_exchanges m'))"
      using that by (simp only: result_of_def prod.inject)
    from computeRawScore_mset [OF this] doubles_mset [OF this] show ?thesis
      by (simp only: statsStep_def columns_of_def same)
  qed
qed (simp_all add: formula_own deriveFighterStats_def statsStep_commutes, simp add: statsStep_def fights_def)

text \<open>
  C13. The score of a fighter depends on the fighter's own bouts alone. Whichever of the three
  kinds of ruleset scores a pool, who else is scored with him, the bouts of the others, the
  order of the bouts, the order of the exchanges in a bout and the exchanges that were voided
  make no difference: the same own results give the same score, so pools ranked together rank
  as they do one by one.
\<close>

theorem scores_depend_on_own_results:
  assumes "own_results i bouts = own_results i bouts'" and "i \<in> set ids" and "i \<in> set ids'"
  shows "tf_scorePoolFighters cfg mode ids bouts i = tf_scorePoolFighters cfg mode ids' bouts' i \<and>
    generic_scorePoolFighters gconfig ids bouts i = generic_scorePoolFighters gconfig ids' bouts' i \<and>
    formula_scorePoolFighters fconfig mode ids bouts i = formula_scorePoolFighters fconfig mode ids' bouts' i \<and>
    tf_scorePoolFighters cfg mode ids bouts i \<noteq> None \<and> generic_scorePoolFighters gconfig ids bouts i \<noteq> None \<and>
    formula_scorePoolFighters fconfig mode ids bouts i \<noteq> None"
  by (intro conjI tf.score_of_own_results generic.score_of_own_results authored.score_of_own_results assms)
     (simp_all add: tf.scored generic.scored authored.scored assms(2))

text \<open>
  A win outweighs the points. The one number the points-cap ruleset scores a fighter with
  orders two fighters as its ranking chain does, first by the wins and then by the points for
  less those against, as long as no difference reaches five hundred.
\<close>

lemma a_win_outweighs_the_points:
  assumes "generic_totals config ids bouts i = Some a" and "generic_totals config ids bouts j = Some b"
    and "\<bar>gs_for a - gs_against a\<bar> < 500" and "\<bar>gs_for b - gs_against b\<bar> < 500"
  shows "the (generic_scorePoolFighters config ids bouts i) < the (generic_scorePoolFighters config ids bouts j) \<longleftrightarrow>
    gs_wins a < gs_wins b \<or> gs_wins a = gs_wins b \<and> gs_for a - gs_against a < gs_for b - gs_against b"
  using assms by (auto simp: generic_scorePoolFighters_def)

subsection \<open>A pool of three\<close>

definition bout_of :: "string \<Rightarrow> string \<Rightarrow> string \<Rightarrow> exchange list \<Rightarrow> scored_match" where
  "bout_of name red blue exs =
     \<lparr>sm_id = name, sm_redRegistrationId = red, sm_blueRegistrationId = blue, sm_winnerRegistrationId = Some red, sm_endReason = None,
      sm_redScore = Some 2, sm_blueScore = Some 0, sm_exchanges = exs\<rparr>"

definition pool_of_three :: "scored_match list" where
  "pool_of_three = [bout_of ''1'' ''a'' ''b'' [hit Red 2, (hit Blue 5)\<lparr>voided := True\<rparr>], bout_of ''2'' ''b'' ''c'' [hit Red 1], bout_of ''3'' ''c'' ''a'' [hit Blue 3]]"

lemma pool_of_three_bouts:
  "\<forall>m \<in> set pool_of_three. in_pool {''a'', ''b'', ''c''} m" "\<forall>m \<in> set pool_of_three. sm_redRegistrationId m \<noteq> sm_blueRegistrationId m"
  by (simp_all add: pool_of_three_def in_pool_def bout_of_def)

theorem engines_count_the_same_hits_witness:
  "\<exists>agg. tf_totals Deductive [''a'', ''b''] pool_of_three ''a'' = Some agg \<and> fa_targetPoints agg = 5"
proof -
  have "ds_hitsGiven (deriveFighterStats ''a'' pool_of_three Deductive) = 5" by code_simp
  then show ?thesis using engines_count_the_same_hits [OF pool_of_three_bouts(2), of "''a''" "[''a'', ''b'']" Deductive] by auto
qed

theorem pool_statistics_balance_witness:
  "(\<Sum>i\<in>{''a'', ''b'', ''c''}. ds_victories (deriveFighterStats i pool_of_three Full)) =
   (\<Sum>i\<in>{''a'', ''b'', ''c''}. ds_losses (deriveFighterStats i pool_of_three Full))"
  using pool_statistics_balance [OF _ pool_of_three_bouts(1), of Full] by (simp add: pool_of_three_def double_loss_def bout_of_def)

definition federal_options :: score_options where
  "federal_options = \<lparr>so_winBonus = None, so_doublePenaltyFormula = None\<rparr>"

theorem scores_depend_on_own_results_witness:
  "tf_scorePoolFighters federal_options Full [''a'', ''b'', ''c''] pool_of_three ''a'' =
   tf_scorePoolFighters federal_options Full [''a''] [bout_of ''9'' ''c'' ''a'' [hit Blue 3], bout_of ''8'' ''a'' ''b'' [hit Red 2]] ''a''"
proof -
  have "own_results ''a'' pool_of_three = own_results ''a'' [bout_of ''9'' ''c'' ''a'' [hit Blue 3], bout_of ''8'' ''a'' ''b'' [hit Red 2]]"
    by (simp add: own_results_def pool_of_three_def bout_of_def fights_def result_of_def hit_def)
  from scores_depend_on_own_results [OF this] show ?thesis by simp
qed

definition one_hit_config :: generic_config where
  "one_hit_config = \<lparr>gc_matchFormat = default_match_format_config, gc_hit = 1\<rparr>"

end
