(* ===== verification/Grouping.thy ===== *)
theory Grouping
  imports Prelude "HOL-Library.AList"
begin

text \<open>
  The \<open>Map\<close> that the program builds while it reads a list once: \<open>get\<close> the entry of a key,
  or make a new one, and \<open>set\<close> it back. A \<open>Map\<close> keeps its keys in the order of their first
  insertion, so it is an association list updated in place. The lemmas say what such a
  loop leaves behind, once for all its uses.
\<close>

definition upsert :: "'k \<Rightarrow> ('v option \<Rightarrow> 'v) \<Rightarrow> ('k \<times> 'v) list \<Rightarrow> ('k \<times> 'v) list" where
  "upsert k f m = AList.update k (f (map_of m k)) m"

definition gather :: "('a \<Rightarrow> 'k) \<Rightarrow> ('a \<Rightarrow> 'v option \<Rightarrow> 'v) \<Rightarrow> 'a list \<Rightarrow> ('k \<times> 'v) list" where
  "gather key add xs = fold (\<lambda>x. upsert (key x) (add x)) xs []"

definition groupBy :: "('a \<Rightarrow> 'k) \<Rightarrow> 'a list \<Rightarrow> ('k \<times> 'a list) list" where
  "groupBy key = gather key (\<lambda>x old. or_else old [] @ [x])"

lemma keys_upsert [simp]: "fst ` set (upsert k f m) = insert k (fst ` set m)"
  unfolding upsert_def by (simp add: dom_update)

lemma distinct_upsert [simp]: "distinct (map fst m) \<Longrightarrow> distinct (map fst (upsert k f m))"
  unfolding upsert_def by (rule distinct_update)

lemma map_of_upsert [simp]: "map_of (upsert k f m) = (map_of m)(k \<mapsto> f (map_of m k))"
  unfolding upsert_def by (rule update_conv')

lemma gather_Nil [simp]: "gather key add [] = []"
  by (simp add: gather_def)

lemma gather_snoc: "gather key add (xs @ [x]) = upsert (key x) (add x) (gather key add xs)"
  by (simp add: gather_def)

lemma distinct_gather [simp]: "distinct (map fst (gather key add xs))"
  by (induction xs rule: rev_induct) (simp_all add: gather_snoc)

lemma keys_gather [simp]: "fst ` set (gather key add xs) = key ` set xs"
  by (induction xs rule: rev_induct) (simp_all add: gather_snoc)

text \<open>The entry of a key comes from the elements with this key, read in their order.\<close>

lemma map_of_gather:
  "map_of (gather key add xs) k = fold (\<lambda>x old. Some (add x old)) (filter (\<lambda>x. key x = k) xs) None"
  by (induction xs rule: rev_induct) (auto simp: gather_snoc)

lemma map_of_groupBy:
  fixes xs :: "'a list"
  shows "map_of (groupBy key xs) k = (if k \<in> key ` set xs then Some (filter (\<lambda>x. key x = k) xs) else None)"
proof -
  have "fold (\<lambda>x old. Some (or_else old [] @ [x])) ys None = (if ys = [] then None else Some ys)" for ys :: "'a list"
    by (induction ys rule: rev_induct) auto
  then show ?thesis by (auto simp: groupBy_def map_of_gather filter_empty_conv)
qed

lemma keys_groupBy [simp]: "fst ` set (groupBy key xs) = key ` set xs"
  by (simp add: groupBy_def)

lemma distinct_groupBy [simp]: "distinct (map fst (groupBy key xs))"
  by (simp add: groupBy_def)

text \<open>An entry is what is stored under its key.\<close>

lemma gather_entry: "(k, v) \<in> set (gather key add xs) \<longleftrightarrow> map_of (gather key add xs) k = Some v"
  by (metis distinct_gather map_of_eq_Some_iff)

text \<open>A property of the entries that every step keeps, for the entries of one key.\<close>

lemma gather_all:
  assumes "(k, v) \<in> set (gather key add xs)"
    and single: "\<And>x. key x = k \<Longrightarrow> P [x] (add x None)"
    and more: "\<And>x ys w. key x = k \<Longrightarrow> P ys w \<Longrightarrow> P (ys @ [x]) (add x (Some w))"
  shows "P (filter (\<lambda>x. key x = k) xs) v"
proof -
  have all: "fold (\<lambda>x old. Some (add x old)) ys None = Some u \<Longrightarrow> list_all (\<lambda>x. key x = k) ys \<Longrightarrow> P ys u" for ys u
  proof (induction ys arbitrary: u rule: rev_induct)
    case Nil
    then show ?case by simp
  next
    case (snoc y ys)
    show ?case
    proof (cases "fold (\<lambda>x old. Some (add x old)) ys None")
      case None
      then have "ys = []" by (cases ys rule: rev_cases) auto
      with snoc.prems show ?thesis by (auto intro: single)
    next
      case (Some w)
      with snoc show ?thesis by (auto intro: more)
    qed
  qed
  have "fold (\<lambda>x old. Some (add x old)) (filter (\<lambda>x. key x = k) xs) None = Some v"
    using assms(1) by (simp add: gather_entry map_of_gather)
  then show ?thesis by (rule all) (simp add: list_all_iff)
qed

lemma gather_nonempty: "(k, v) \<in> set (gather key add xs) \<Longrightarrow> filter (\<lambda>x. key x = k) xs \<noteq> []"
  by (auto simp: gather_entry map_of_gather)

text \<open>What every element adds to its entry is in the entries together.\<close>

lemma sum_update:
  fixes w :: "'v \<Rightarrow> 'n::ab_group_add"
  assumes "distinct (map fst m)"
  shows "sum_list (map (\<lambda>e. w (snd e)) (AList.update k v m))
    = sum_list (map (\<lambda>e. w (snd e)) m) + w v - (case map_of m k of None \<Rightarrow> 0 | Some u \<Rightarrow> w u)"
  using assms by (induction m) (auto simp: algebra_simps)

lemma sum_gather:
  fixes w :: "'v \<Rightarrow> 'n::ab_group_add"
  assumes "\<And>x old. w (add x old) = (case old of None \<Rightarrow> 0 | Some v \<Rightarrow> w v) + d x"
  shows "sum_list (map (\<lambda>e. w (snd e)) (gather key add xs)) = sum_list (map d xs)"
proof (induction xs rule: rev_induct)
  case Nil
  show ?case by simp
next
  case (snoc x xs)
  then show ?case by (simp add: gather_snoc upsert_def sum_update assms)
qed

text \<open>The groups together hold the list.\<close>

lemma mset_of_groups:
  "distinct ks \<Longrightarrow> mset (concat (map (\<lambda>k. filter (\<lambda>x. key x = k) xs) ks)) = mset (filter (\<lambda>x. key x \<in> set ks) xs)"
proof (induction ks)
  case (Cons k ks)
  have "mset (filter (\<lambda>x. key x = k) xs) + mset (filter (\<lambda>x. key x \<in> set ks) xs)
      = mset (filter (\<lambda>x. key x \<in> set (k # ks)) xs)"
    using Cons.prems by (induction xs) auto
  then show ?case using Cons by simp
qed simp

lemma mset_groupBy:
  assumes "mset ks = mset (map fst (groupBy key xs))"
  shows "mset (concat (map (\<lambda>k. filter (\<lambda>x. key x = k) xs) ks)) = mset xs"
proof -
  have "distinct ks" using assms distinct_groupBy by (metis mset_eq_imp_distinct_iff)
  moreover have "set ks = key ` set xs" using assms by (metis keys_groupBy list.set_map set_mset_mset)
  ultimately show ?thesis by (simp add: mset_of_groups)
qed

lemma snd_groupBy: "map snd (groupBy key xs) = map (\<lambda>k. filter (\<lambda>x. key x = k) xs) (map fst (groupBy key xs))"
proof (rule nth_equalityI)
  fix i assume i: "i < length (map snd (groupBy key xs))"
  obtain k g where kg: "groupBy key xs ! i = (k, g)" by fastforce
  then have "(k, g) \<in> set (groupBy key xs)" using i by (metis length_map nth_mem)
  then have "map_of (groupBy key xs) k = Some g" by simp
  then show "map snd (groupBy key xs) ! i = map (\<lambda>k. filter (\<lambda>x. key x = k) xs) (map fst (groupBy key xs)) ! i"
    using i kg by (simp add: map_of_groupBy split: if_splits)
qed simp

lemma mset_groups: "mset (concat (map snd (groupBy key xs))) = mset xs"
  by (simp only: snd_groupBy mset_groupBy [OF refl])

end
