(* ===== verification/League.thy ===== *)
theory League
  imports Grouping Standings Final_Ranking
begin

text \<open>
  A league adds up what a fighter earned in its tournaments: points for a place, the table a
  result belongs in, and the standings these results make.
\<close>

section \<open>Types\<close>

datatype ranking_dimensions = ByWeapon | ByWeaponAndGroup | ByGroup

datatype league_tiebreaker = TotalPoints | ParticipationCount | MedalCount | DoubleHitAverage

datatype medal = Gold | Silver | Bronze

record scoring_config =
  sc_scoringSystem :: string
  sc_rankingDimensions :: ranking_dimensions
  sc_customPointsByRank :: "(int \<times> rat) list option"
  sc_tieBreakers :: "league_tiebreaker list"

record stored_config =
  st_scoringSystem :: "string option"
  st_rankingDimensions :: "ranking_dimensions option"
  st_customPointsByRank :: "(int \<times> rat) list option"
  st_tieBreakers :: "league_tiebreaker list option"

record contribution_input =
  ci_leagueId :: string
  ci_tournamentId :: string
  ci_eventId :: string
  ci_fighterId :: "string option"
  ci_fighterName :: string
  ci_clubName :: "string option"
  ci_clubCity :: "string option"
  ci_weapon :: "string option"
  ci_groupName :: "string option"
  ci_finalRank :: rat
  ci_resultKind :: "result_kind option"
  ci_doubleHits :: rat
  ci_bib :: "nat option"

record contribution =
  lc_leagueId :: string
  lc_tournamentId :: string
  lc_eventId :: string
  lc_fighterId :: string
  lc_fighterName :: string
  lc_clubName :: "string option"
  lc_clubCity :: "string option"
  lc_rankingGroupKey :: string
  lc_weapon :: "string option"
  lc_groupName :: "string option"
  lc_finalRank :: rat
  lc_leaguePoints :: rat
  lc_medal :: "medal option"
  lc_doubleHits :: rat

record tournament_entry =
  te_tournamentId :: string
  te_eventId :: string
  te_finalRank :: rat
  te_leaguePoints :: rat

record league_row =
  lr_leagueId :: string
  lr_rankingGroupKey :: string
  lr_fighterId :: string
  lr_fighterName :: string
  lr_clubName :: "string option"
  lr_clubCity :: "string option"
  lr_rank :: nat
  lr_totalPoints :: rat
  lr_participationCount :: rat
  lr_medalCount :: rat
  lr_doubleHitsTotal :: rat
  lr_doubleHitAverage :: rat
  lr_perTournament :: "tournament_entry list"

section \<open>The configuration\<close>

definition DEFAULT_LEAGUE_SCORING_CONFIG :: scoring_config where
  "DEFAULT_LEAGUE_SCORING_CONFIG = \<lparr>sc_scoringSystem = ''ffamhe_tf_2026'', sc_rankingDimensions = ByWeapon,
     sc_customPointsByRank = None,
     sc_tieBreakers = [TotalPoints, ParticipationCount, MedalCount, DoubleHitAverage]\<rparr>"

text \<open>An empty chain counts as a missing one.\<close>

definition normalizeScoringConfig :: "stored_config \<Rightarrow> scoring_config" where
  "normalizeScoringConfig source = \<lparr>
     sc_scoringSystem = or_else (st_scoringSystem source) (sc_scoringSystem DEFAULT_LEAGUE_SCORING_CONFIG),
     sc_rankingDimensions = or_else (st_rankingDimensions source) (sc_rankingDimensions DEFAULT_LEAGUE_SCORING_CONFIG),
     sc_customPointsByRank = st_customPointsByRank source,
     sc_tieBreakers = (case st_tieBreakers source of
         Some chain \<Rightarrow> if length chain > 0 then chain else sc_tieBreakers DEFAULT_LEAGUE_SCORING_CONFIG
       | None \<Rightarrow> sc_tieBreakers DEFAULT_LEAGUE_SCORING_CONFIG)\<rparr>"

text \<open>A reference \<open>code@version\<close> is split at its first at sign; an empty version counts as none.\<close>

definition parseScoringSystemReference :: "string \<Rightarrow> string \<times> string option" where
  "parseScoringSystemReference reference =
     (if CHR ''@'' \<notin> set reference then (reference, None)
      else let code = takeWhile (\<lambda>c. c \<noteq> CHR ''@'') reference;
               version = drop (length code + 1) reference
           in (code, if length version > 0 then Some version else None))"

text \<open>
  A row of the registry of scoring systems, or of the pinned versions: its points by place,
  of which the columns that are no number are dropped (here \<open>None\<close>), and its chain.
\<close>

record resolved_row =
  rr_pointsByRank :: "(rat \<times> rat option) list option"
  rr_tieBreakers :: "league_tiebreaker list option"

definition is_integer :: "rat \<Rightarrow> bool" where
  "is_integer r \<longleftrightarrow> of_int \<lfloor>r\<rfloor> = r"

definition js_round :: "rat \<Rightarrow> int" where
  "js_round r = \<lfloor>r + 1 / 2\<rfloor>"

fun resolved_points :: "(rat \<times> rat option) list \<Rightarrow> (int \<times> rat) list \<Rightarrow> (int \<times> rat) list" where
  "resolved_points [] acc = acc"
| "resolved_points ((rank, pts) # raw) acc =
     resolved_points raw
       (case pts of
          Some p \<Rightarrow> if is_integer rank then upsert \<lfloor>rank\<rfloor> (\<lambda>_. max 0 (of_int (js_round p))) acc else acc
        | None \<Rightarrow> acc)"

definition applyResolved :: "scoring_config \<Rightarrow> resolved_row \<Rightarrow> scoring_config" where
  "applyResolved config row = config\<lparr>
     sc_customPointsByRank := Some (resolved_points (or_else (rr_pointsByRank row) []) []),
     sc_tieBreakers := (case rr_tieBreakers row of
         Some chain \<Rightarrow> if length chain > 0 then chain else sc_tieBreakers config
       | None \<Rightarrow> sc_tieBreakers config)\<rparr>"

text \<open>
  The two tables are parameters: the active system of a code with its id, and a version of a
  system. A read that fails, or finds nothing, is \<open>None\<close>.
\<close>

definition resolveConfig ::
    "(string \<Rightarrow> (string \<times> resolved_row) option) \<Rightarrow> (string \<Rightarrow> string \<Rightarrow> resolved_row option) \<Rightarrow>
     scoring_config \<Rightarrow> scoring_config" where
  "resolveConfig find_system find_version config =
     (if sc_scoringSystem config = ''custom'' then config
      else if sc_customPointsByRank config \<noteq> None then config
      else let (code, version) = parseScoringSystemReference (sc_scoringSystem config) in
        case version of
          Some v \<Rightarrow>
            (case find_system code of
               None \<Rightarrow> config
             | Some (sid, system) \<Rightarrow>
                 (case find_version sid v of
                    Some pinned \<Rightarrow> applyResolved config pinned
                  | None \<Rightarrow> applyResolved config system))
        | None \<Rightarrow>
            (case find_system code of None \<Rightarrow> config | Some (sid, system) \<Rightarrow> applyResolved config system))"

section \<open>Points for a place\<close>

definition FALLBACK_FFAMHE_2026 :: "(int \<times> rat) list" where
  "FALLBACK_FFAMHE_2026 =
     [(1, 16), (2, 13), (3, 11), (4, 10), (5, 9), (6, 8), (7, 7), (8, 6), (9, 5), (10, 4), (11, 3), (12, 2),
      (13, 1), (14, 1), (15, 1), (16, 1)]"

definition pointsForRank :: "scoring_config \<Rightarrow> rat \<Rightarrow> rat" where
  "pointsForRank config finalRank =
     (if \<not> is_integer finalRank \<or> finalRank < 1 then 0
      else case sc_customPointsByRank config of
        Some table \<Rightarrow> max 0 (or_else (map_of table \<lfloor>finalRank\<rfloor>) 0)
      | None \<Rightarrow>
          if sc_scoringSystem config = ''custom'' then 0
          else if sc_scoringSystem config = ''ffamhe_tf_2026'' then or_else (map_of FALLBACK_FFAMHE_2026 \<lfloor>finalRank\<rfloor>) 0
          else 0)"

definition medalFor :: "result_kind option \<Rightarrow> rat \<Rightarrow> medal option" where
  "medalFor kind rank =
     (if kind = Some Champion then Some Gold
      else if kind = Some RunnerUp then Some Silver
      else if kind = Some Third then Some Bronze
      else if kind = Some Fourth \<or> kind = Some RoundKind then None
      else if rank = 1 then Some Gold
      else if rank = 2 then Some Silver
      else if rank = 3 then Some Bronze
      else None)"

section \<open>The table of a result\<close>

text \<open>
  \<open>trim\<close>, \<open>toLowerCase\<close>, NFKD without its combining marks, every run of other characters a
  dash, and one dash taken off each end. The characters are those of Latin-1: there NFKD
  takes the accent off a letter, writes the two ordinals, the three superscripts and the
  three fractions with plain letters and digits, and leaves the letters that are no
  letter with an accent as they are.
\<close>

definition lower_char :: "char \<Rightarrow> char" where
  "lower_char c = (let k = (of_char c :: nat) in
     if (65 \<le> k \<and> k \<le> 90) \<or> (192 \<le> k \<and> k \<le> 222 \<and> k \<noteq> 215) then char_of (k + 32) else c)"

definition js_lower :: "string \<Rightarrow> string" where
  "js_lower s = map lower_char s"

definition nfkd_char :: "char \<Rightarrow> string" where
  "nfkd_char c = (let k = (of_char c :: nat) in
     if k = 170 \<or> (224 \<le> k \<and> k \<le> 229) then ''a''
     else if k = 231 then ''c''
     else if 232 \<le> k \<and> k \<le> 235 then ''e''
     else if 236 \<le> k \<and> k \<le> 239 then ''i''
     else if k = 241 then ''n''
     else if k = 186 \<or> (242 \<le> k \<and> k \<le> 246) then ''o''
     else if 249 \<le> k \<and> k \<le> 252 then ''u''
     else if k = 253 \<or> k = 255 then ''y''
     else if k = 178 then ''2''
     else if k = 179 then ''3''
     else if k = 185 then ''1''
     else if k = 188 then ''1/4''
     else if k = 189 then ''1/2''
     else if k = 190 then ''3/4''
     else [c])"

definition is_word_char :: "char \<Rightarrow> bool" where
  "is_word_char c = (let k = (of_char c :: nat) in (97 \<le> k \<and> k \<le> 122) \<or> (48 \<le> k \<and> k \<le> 57))"

text \<open>The flag says that the run before is a dash already.\<close>

fun dashes :: "bool \<Rightarrow> string \<Rightarrow> string" where
  "dashes inrun [] = []"
| "dashes inrun (c # cs) =
     (if is_word_char c then c # dashes False cs
      else if inrun then dashes True cs
      else CHR ''-'' # dashes True cs)"

definition strip_dashes :: "string \<Rightarrow> string" where
  "strip_dashes s =
     (let s' = (if s \<noteq> [] \<and> hd s = CHR ''-'' then tl s else s)
      in if s' \<noteq> [] \<and> last s' = CHR ''-'' then butlast s' else s')"

definition normalizeDimension :: "string option \<Rightarrow> string" where
  "normalizeDimension v =
     (let s = strip_dashes (dashes False (concat (map nfkd_char (js_lower (js_trim (or_else v ''unknown''))))))
      in if s = [] then ''unknown'' else s)"

definition groupKey :: "scoring_config \<Rightarrow> contribution_input \<Rightarrow> string" where
  "groupKey config input =
     (let weapon = normalizeDimension (ci_weapon input);
          grp = normalizeDimension (ci_groupName input)
      in if sc_rankingDimensions config = ByWeapon then weapon
         else if sc_rankingDimensions config = ByGroup then grp
         else weapon @ ''::'' @ grp)"

text \<open>A key as \<open>normalizeDimension\<close> writes it: words of letters and digits, joined by single dashes.\<close>

fun single_dashes :: "bool \<Rightarrow> string \<Rightarrow> bool" where
  "single_dashes inrun [] = True"
| "single_dashes inrun (c # cs) =
     (if is_word_char c then single_dashes False cs else c = CHR ''-'' \<and> \<not> inrun \<and> single_dashes True cs)"

definition canonical :: "string \<Rightarrow> bool" where
  "canonical s \<longleftrightarrow> s \<noteq> [] \<and> hd s \<noteq> CHR ''-'' \<and> last s \<noteq> CHR ''-'' \<and> single_dashes False s"

lemma dropWhile_twice: "dropWhile P (dropWhile P xs) = dropWhile P xs"
  by (induction xs) simp_all

lemma dropWhile_rev_dropWhile:
  "dropWhile P (rev (dropWhile P (rev (dropWhile P xs)))) = rev (dropWhile P (rev (dropWhile P xs)))"
proof (cases "dropWhile P xs")
  case (Cons y ys)
  then have "\<not> P y" by (metis hd_dropWhile list.distinct(1) list.sel(1))
  then have "dropWhile P (rev ys @ [y]) = dropWhile P (rev ys) @ [y]"
    by (induction "rev ys" arbitrary: ys rule: list.induct) (auto simp: dropWhile_append)
  with Cons \<open>\<not> P y\<close> show ?thesis by simp
qed (simp del: dropWhile_eq_Nil_conv)

lemma js_trim_trim: "js_trim (js_trim s) = js_trim s"
  by (simp add: js_trim_def dropWhile_rev_dropWhile dropWhile_twice)

lemma dash_no_word [simp]: "\<not> is_word_char CHR ''-''"
  by (simp add: is_word_char_def)

lemma single_dashes_dashes: "single_dashes inrun (dashes inrun cs)"
  by (induction inrun cs rule: dashes.induct) (auto simp: is_word_char_def)

lemma dashes_id: "single_dashes inrun cs \<Longrightarrow> dashes inrun cs = cs"
  by (induction inrun cs rule: single_dashes.induct) (auto split: if_splits)

lemma single_dashes_weaken: "single_dashes True cs \<Longrightarrow> single_dashes b cs"
  by (cases cs) (auto split: if_splits)

lemma single_dashes_hd: "single_dashes True cs \<Longrightarrow> cs \<noteq> [] \<Longrightarrow> hd cs \<noteq> CHR ''-''"
  by (cases cs) (auto split: if_splits)

lemma single_dashes_butlast: "single_dashes b cs \<Longrightarrow> single_dashes b (butlast cs)"
  by (induction b cs rule: single_dashes.induct) (auto split: if_splits)

lemma single_dashes_ends:
  "single_dashes b (xs @ [x, y]) \<Longrightarrow> y = CHR ''-'' \<Longrightarrow> x \<noteq> CHR ''-''"
  by (induction b xs rule: single_dashes.induct) (auto simp: is_word_char_def split: if_splits)

lemma canonical_strip:
  assumes "single_dashes False s" and "strip_dashes s \<noteq> []"
  shows "canonical (strip_dashes s)"
proof -
  define s' where "s' = (if s \<noteq> [] \<and> hd s = CHR ''-'' then tl s else s)"
  have s': "single_dashes False s' \<and> (s' \<noteq> [] \<longrightarrow> hd s' \<noteq> CHR ''-'')"
  proof (cases "s \<noteq> [] \<and> hd s = CHR ''-''")
    case True
    then have "single_dashes True s'" using assms(1) by (cases s) (simp_all add: s'_def)
    then show ?thesis using single_dashes_weaken single_dashes_hd by blast
  qed (use assms(1) in \<open>auto simp: s'_def\<close>)
  have t: "strip_dashes s = (if s' \<noteq> [] \<and> last s' = CHR ''-'' then butlast s' else s')"
    by (simp add: strip_dashes_def s'_def Let_def)
  show ?thesis
  proof (cases "s' \<noteq> [] \<and> last s' = CHR ''-''")
    case True
    with assms(2) t have ne: "butlast s' \<noteq> []" by simp
    then obtain xs x where x: "butlast s' = xs @ [x]" by (cases "butlast s'" rule: rev_cases) auto
    with True have "s' = xs @ [x, CHR ''-'']" by (metis append.assoc append_Cons append_Nil append_butlast_last_id)
    then have "x \<noteq> CHR ''-''" using s' single_dashes_ends by blast
    moreover have "hd (butlast s') = hd s'" using ne by (cases s'; cases "tl s'") auto
    ultimately show ?thesis
      using True t ne x s' single_dashes_butlast [of False s'] by (auto simp: canonical_def)
  next
    case False
    then show ?thesis using t assms(2) s' by (auto simp: canonical_def)
  qed
qed

lemma canonical_normalizeDimension: "canonical (normalizeDimension v)"
proof -
  have "canonical ''unknown''" by code_simp
  then show ?thesis
    using canonical_strip [OF single_dashes_dashes] by (simp add: normalizeDimension_def Let_def)
qed

lemma single_dashes_chars: "single_dashes b s \<Longrightarrow> c \<in> set s \<Longrightarrow> is_word_char c \<or> c = CHR ''-''"
  by (induction b s rule: single_dashes.induct) (auto split: if_splits)

lemma plain_char:
  assumes "is_word_char c \<or> c = CHR ''-''"
  shows "lower_char c = c \<and> nfkd_char c = [c] \<and> \<not> js_space c \<and> c \<noteq> CHR '':''"
proof -
  define k :: nat where "k = of_char c"
  have k: "45 \<le> k" "k < 160" "k < 65 \<or> 90 < k" "k \<noteq> 58"
    using assms by (auto simp: is_word_char_def Let_def k_def)
  then have "lower_char c = c" "nfkd_char c = [c]" "\<not> js_space c"
    by (auto simp add: lower_char_def nfkd_char_def js_space_def Let_def simp flip: k_def)
  moreover have "c \<noteq> CHR '':''" using k(4) by (auto simp: k_def)
  ultimately show ?thesis by blast
qed

lemma canonical_char:
  assumes "canonical s" and "c \<in> set s"
  shows "lower_char c = c \<and> nfkd_char c = [c] \<and> \<not> js_space c \<and> c \<noteq> CHR '':''"
  using assms by (intro plain_char single_dashes_chars [of False s]) (simp_all add: canonical_def)

lemma normalizeDimension_canonical:
  assumes "canonical s"
  shows "normalizeDimension (Some s) = s"
proof -
  have plain: "lower_char c = c" "nfkd_char c = [c]" "\<not> js_space c" if "c \<in> set s" for c
    using canonical_char [OF assms that] by simp_all
  have "dropWhile js_space ys = ys" if "\<forall>c \<in> set ys. \<not> js_space c" for ys
    using that by (cases ys) simp_all
  from this [of s] this [of "rev s"] have trim: "js_trim s = s" using plain(3) by (simp add: js_trim_def)
  have "js_lower s = s" using plain(1) by (simp add: js_lower_def map_idI)
  moreover have "concat (map nfkd_char s) = s" using plain(2) by (induction s) simp_all
  moreover have "dashes False s = s" using assms by (simp add: canonical_def dashes_id)
  moreover have "strip_dashes s = s" using assms by (simp add: canonical_def strip_dashes_def Let_def)
  ultimately show ?thesis using assms by (simp add: normalizeDimension_def Let_def trim canonical_def)
qed

lemma no_colon: "CHR '':'' \<notin> set (normalizeDimension v)"
  using canonical_char [OF canonical_normalizeDimension] by blast

lemma colon_split: "CHR '':'' \<notin> set a \<Longrightarrow> CHR '':'' \<notin> set b \<Longrightarrow> a @ CHR '':'' # x = b @ CHR '':'' # y \<longleftrightarrow> a = b \<and> x = y"
proof (induction a arbitrary: b)
  case Nil
  then show ?case by (cases b) auto
next
  case (Cons c a)
  then show ?case by (cases b) auto
qed

section \<open>From the places of a tournament to contributions\<close>

definition unknownFighterInEnglish :: "nat option \<Rightarrow> string" where
  "unknownFighterInEnglish bib =
     (case bib of None \<Rightarrow> ''Unknown fighter'' | Some n \<Rightarrow> ''Unknown fighter (bib '' @ show_nat n @ '')'')"

fun join_with :: "string \<Rightarrow> string list \<Rightarrow> string" where
  "join_with sep [] = []"
| "join_with sep [x] = x"
| "join_with sep (x # y # ys) = x @ sep @ join_with sep (y # ys)"

text \<open>
  The refusal of a registration without a fighter. An identifier that is the empty string
  counts as none.
\<close>

definition missing_identities :: "contribution_input list \<Rightarrow> contribution_input list" where
  "missing_identities inputs = filter (\<lambda>i. or_else (ci_fighterId i) [] = []) inputs"

definition validateContributionIdentities :: "contribution_input list \<Rightarrow> string option" where
  "validateContributionIdentities inputs =
     (let missing = missing_identities inputs in
      if length missing = 0 then None
      else Some (''League calculation requires global Fighter links for every registration. Missing: '' @
        join_with '', '' (take 5 (map (\<lambda>i.
          if ci_fighterName i \<noteq> [] then ci_fighterName i else unknownFighterInEnglish (ci_bib i)) missing))))"

definition to_contribution :: "scoring_config \<Rightarrow> contribution_input \<Rightarrow> contribution" where
  "to_contribution config i = \<lparr>
     lc_leagueId = ci_leagueId i, lc_tournamentId = ci_tournamentId i, lc_eventId = ci_eventId i,
     lc_fighterId = or_else (ci_fighterId i) [], lc_fighterName = ci_fighterName i,
     lc_clubName = ci_clubName i, lc_clubCity = ci_clubCity i,
     lc_rankingGroupKey = groupKey config i, lc_weapon = ci_weapon i, lc_groupName = ci_groupName i,
     lc_finalRank = ci_finalRank i, lc_leaguePoints = pointsForRank config (ci_finalRank i),
     lc_medal = medalFor (ci_resultKind i) (ci_finalRank i), lc_doubleHits = max 0 (ci_doubleHits i)\<rparr>"

definition toTournamentContributions ::
    "scoring_config \<Rightarrow> contribution_input list \<Rightarrow> string + contribution list" where
  "toTournamentContributions config inputs =
     (case validateContributionIdentities inputs of
        Some message \<Rightarrow> Inl message
      | None \<Rightarrow> Inr (map (to_contribution config) inputs))"

section \<open>The standings\<close>

definition contribution_key :: "contribution \<Rightarrow> string" where
  "contribution_key c = lc_rankingGroupKey c @ '':'' @ lc_fighterId c"

definition new_row :: "contribution \<Rightarrow> league_row" where
  "new_row c = \<lparr>lr_leagueId = lc_leagueId c, lr_rankingGroupKey = lc_rankingGroupKey c,
     lr_fighterId = lc_fighterId c, lr_fighterName = lc_fighterName c, lr_clubName = lc_clubName c,
     lr_clubCity = lc_clubCity c, lr_rank = 0, lr_totalPoints = 0, lr_participationCount = 0, lr_medalCount = 0,
     lr_doubleHitsTotal = 0, lr_doubleHitAverage = 0, lr_perTournament = []\<rparr>"

definition contribution_entry :: "contribution \<Rightarrow> tournament_entry" where
  "contribution_entry c = \<lparr>te_tournamentId = lc_tournamentId c, te_eventId = lc_eventId c, te_finalRank = lc_finalRank c,
     te_leaguePoints = lc_leaguePoints c\<rparr>"

definition add_contribution :: "contribution \<Rightarrow> league_row option \<Rightarrow> league_row" where
  "add_contribution c old =
     (let row = or_else old (new_row c);
          n = lr_participationCount row + 1;
          d = lr_doubleHitsTotal row + lc_doubleHits c
      in row\<lparr>lr_totalPoints := lr_totalPoints row + lc_leaguePoints c,
             lr_participationCount := n,
             lr_medalCount := lr_medalCount row + (if lc_medal c \<noteq> None then 1 else 0),
             lr_doubleHitsTotal := d,
             lr_doubleHitAverage := (if n > 0 then d / n else 0),
             lr_perTournament := lr_perTournament row @ [contribution_entry c]\<rparr>)"

definition byFighter :: "contribution list \<Rightarrow> league_row list" where
  "byFighter cs = map snd (gather contribution_key add_contribution cs)"

fun tiedOnChain :: "league_row \<Rightarrow> league_row \<Rightarrow> league_tiebreaker list \<Rightarrow> bool" where
  "tiedOnChain a b [] = True"
| "tiedOnChain a b (t # ts) =
     (if t = TotalPoints \<and> lr_totalPoints a \<noteq> lr_totalPoints b then False
      else if t = ParticipationCount \<and> lr_participationCount a \<noteq> lr_participationCount b then False
      else if t = MedalCount \<and> lr_medalCount a \<noteq> lr_medalCount b then False
      else if t = DoubleHitAverage \<and> lr_doubleHitAverage a \<noteq> lr_doubleHitAverage b then False
      else tiedOnChain a b ts)"

fun compare_on_chain :: "league_tiebreaker list \<Rightarrow> league_row \<Rightarrow> league_row \<Rightarrow> rat" where
  "compare_on_chain [] a b = 0"
| "compare_on_chain (t # ts) a b =
     (if t = TotalPoints \<and> lr_totalPoints a \<noteq> lr_totalPoints b then lr_totalPoints b - lr_totalPoints a
      else if t = ParticipationCount \<and> lr_participationCount a \<noteq> lr_participationCount b
        then lr_participationCount b - lr_participationCount a
      else if t = MedalCount \<and> lr_medalCount a \<noteq> lr_medalCount b then lr_medalCount b - lr_medalCount a
      else if t = DoubleHitAverage \<and> lr_doubleHitAverage a \<noteq> lr_doubleHitAverage b
        then lr_doubleHitAverage a - lr_doubleHitAverage b
      else compare_on_chain ts a b)"

definition compareRankings :: "league_tiebreaker list \<Rightarrow> league_row \<Rightarrow> league_row \<Rightarrow> rat" where
  "compareRankings chain =
     then_by (compare_on_chain chain)
       (then_by (\<lambda>a b. byCodepoint (lr_fighterName a) (lr_fighterName b))
                (\<lambda>a b. byCodepoint (lr_fighterId a) (lr_fighterId b)))"

text \<open>Standard competition numbering, 1, 2, 2, 4.\<close>

fun number_rows ::
    "league_tiebreaker list \<Rightarrow> league_row option \<Rightarrow> nat \<Rightarrow> nat \<Rightarrow> league_row list \<Rightarrow> league_row list" where
  "number_rows chain previous previousRank i [] = []"
| "number_rows chain previous previousRank i (row # rows) =
     (let rank = (case previous of
              Some p \<Rightarrow> if tiedOnChain p row chain then previousRank else i + 1
            | None \<Rightarrow> i + 1);
          numbered = row\<lparr>lr_rank := rank\<rparr>
      in numbered # number_rows chain (Some numbered) rank (i + 1) rows)"

definition computeRankingsFromContributions ::
    "league_tiebreaker list \<Rightarrow> contribution list \<Rightarrow> league_row list" where
  "computeRankingsFromContributions chain cs =
     (let byGroup = groupBy lr_rankingGroupKey (byFighter cs) in
      concat (map (\<lambda>g. number_rows chain None 0 0 (sort_by (compareRankings chain) (or_else (map_of byGroup g) [])))
        (sort_by byCodepoint (map fst byGroup))))"

definition computeRankings :: "scoring_config \<Rightarrow> contribution_input list \<Rightarrow> string + league_row list" where
  "computeRankings config inputs =
     (case toTournamentContributions config inputs of
        Inl message \<Rightarrow> Inl message
      | Inr cs \<Rightarrow> Inr (computeRankingsFromContributions (sc_tieBreakers config) cs))"

section \<open>The order of a table\<close>

lemma league_chain_comparator: "comparator (compare_on_chain chain)"
proof (induction chain)
  case Nil
  show ?case by unfold_locales simp_all
next
  case (Cons t ts)
  define key :: "league_row \<Rightarrow> rat" where
    "key = (case t of TotalPoints \<Rightarrow> lr_totalPoints | ParticipationCount \<Rightarrow> lr_participationCount
       | MedalCount \<Rightarrow> lr_medalCount | DoubleHitAverage \<Rightarrow> (\<lambda>r. - lr_doubleHitAverage r))"
  have "comparator (\<lambda>a b. key b - key a)" by unfold_locales auto
  from then_by_comparator [OF this Cons.IH] show ?case
    by (rule back_subst [of comparator]) (cases t; auto simp: then_by_def fun_eq_iff key_def)
qed

interpretation league_chain: comparator "compare_on_chain chain" for chain
  by (rule league_chain_comparator)

interpretation league_rows: comparator "compareRankings chain" for chain
  unfolding compareRankings_def by (intro then_by_comparator league_chain_comparator codepoint_on)

lemma tied_iff: "tiedOnChain a b chain \<longleftrightarrow> compare_on_chain chain a b = 0"
proof (induction chain)
  case (Cons t ts)
  then show ?case by (cases t) auto
qed simp

lemma compare_rank [simp]:
  "compare_on_chain chain (a\<lparr>lr_rank := r\<rparr>) b = compare_on_chain chain a b"
  "compare_on_chain chain a (b\<lparr>lr_rank := r\<rparr>) = compare_on_chain chain a b"
  by (induction chain) auto

lemma compareRankings_chain: "compareRankings chain a b \<le> 0 \<Longrightarrow> compare_on_chain chain a b \<le> 0"
  by (auto simp: compareRankings_def then_by_def split: if_splits)

definition ahead :: "league_tiebreaker list \<Rightarrow> league_row \<Rightarrow> league_row \<Rightarrow> bool" where
  "ahead chain a b \<longleftrightarrow> compare_on_chain chain a b < 0"

lemma ahead_rank [simp]:
  "ahead chain (a\<lparr>lr_rank := r\<rparr>) b = ahead chain a b" "ahead chain a (b\<lparr>lr_rank := r\<rparr>) = ahead chain a b"
  by (simp_all add: ahead_def)

lemma ahead_trans: "ahead chain a b \<Longrightarrow> compare_on_chain chain b c \<le> 0 \<Longrightarrow> ahead chain a c"
  unfolding ahead_def
  by (meson league_chain.flip league_chain.trans linorder_not_less order_less_imp_le)

lemma behind_ahead: "compare_on_chain chain a b \<le> 0 \<Longrightarrow> ahead chain b c \<Longrightarrow> ahead chain a c"
  unfolding ahead_def
  by (meson league_chain.flip league_chain.trans linorder_not_less order_less_imp_le)

lemma ahead_level: "compare_on_chain chain a b = 0 \<Longrightarrow> ahead chain x a = ahead chain x b"
  by (metis ahead_trans league_chain.flip order_refl)

lemma not_ahead_later: "compare_on_chain chain a b \<le> 0 \<Longrightarrow> \<not> ahead chain b a"
  unfolding ahead_def by (simp add: league_chain.flip [of chain a b])

text \<open>The place that a row has to get: one more than the rows that stand ahead of it.\<close>

definition place_in :: "league_tiebreaker list \<Rightarrow> league_row list \<Rightarrow> league_row \<Rightarrow> nat" where
  "place_in chain rows row = 1 + length (filter (\<lambda>other. ahead chain other row) rows)"

lemma place_level: "compare_on_chain chain a b = 0 \<Longrightarrow> place_in chain rows a = place_in chain rows b"
  by (simp add: place_in_def ahead_level)

lemma place_after:
  assumes "list_all (\<lambda>a. ahead chain a row) before" and "list_all (\<lambda>b. compare_on_chain chain row b \<le> 0) rest"
  shows "place_in chain (before @ row # rest) row = length before + 1"
proof -
  have "filter (\<lambda>other. ahead chain other row) before = before" using assms(1) by (simp add: list_all_iff filter_id_conv)
  moreover have "\<not> ahead chain b row" if "b \<in> set rest" for b
    using assms(2) that not_ahead_later [of chain row b] by (simp add: list_all_iff)
  then have "filter (\<lambda>other. ahead chain other row) (row # rest) = []"
    by (auto simp: filter_empty_conv) (simp add: ahead_def league_chain.self)
  ultimately show ?thesis by (simp add: place_in_def)
qed

lemma place_less:
  assumes "ahead chain a b" and "a \<in> set rows"
  shows "place_in chain rows a < place_in chain rows b"
proof -
  have sub: "ahead chain x b" if "ahead chain x a" for x
    using ahead_trans [OF that] assms(1) by (simp add: ahead_def)
  have self: "\<not> ahead chain a a" by (simp add: ahead_def league_chain.self)
  have "length (filter (\<lambda>x. ahead chain x a) rows) < length (filter (\<lambda>x. ahead chain x b) rows)"
    using assms(2)
  proof (induction rows)
    case (Cons y rows)
    have "length (filter (\<lambda>x. ahead chain x a) ys) \<le> length (filter (\<lambda>x. ahead chain x b) ys)" for ys
      by (induction ys) (auto dest: sub)
    from this [of rows] show ?case using Cons self assms(1) by (cases "y = a") (auto dest: sub)
  qed simp
  then show ?thesis by (simp add: place_in_def)
qed

lemma all_ahead:
  assumes "sorted_wrt (\<lambda>a b. compare_on_chain chain a b \<le> 0) before" and "before \<noteq> []" and "ahead chain (last before) row"
  shows "list_all (\<lambda>a. ahead chain a row) before"
  using assms by (cases before rule: rev_cases) (auto simp: sorted_wrt_append list_all_iff intro: behind_ahead)

lemma number_previous: "number_rows chain (Some (p\<lparr>lr_rank := r\<rparr>)) k i rows = number_rows chain (Some p) k i rows"
  by (cases rows) (simp_all add: tied_iff)

text \<open>The numbering of a sorted table gives every row its place.\<close>

lemma number_rows_places:
  assumes "sorted_wrt (\<lambda>a b. compare_on_chain chain a b \<le> 0) (before @ rows)"
    and "before = [] \<Longrightarrow> previous = None"
    and "before \<noteq> [] \<Longrightarrow> previous = Some (last before) \<and> k = place_in chain (before @ rows) (last before)"
  shows "number_rows chain previous k (length before) rows
    = map (\<lambda>row. row\<lparr>lr_rank := place_in chain (before @ rows) row\<rparr>) rows"
  using assms
proof (induction rows arbitrary: before previous k)
  case Nil
  show ?case by simp
next
  case (Cons row rows)
  let ?all = "before @ row # rows"
  have rest: "list_all (\<lambda>b. compare_on_chain chain row b \<le> 0) rows"
    and upto: "list_all (\<lambda>a. compare_on_chain chain a row \<le> 0) before"
    using Cons.prems(1) by (auto simp: sorted_wrt_append list_all_iff)
  have fresh: "place_in chain ?all row = length before + 1" if "list_all (\<lambda>a. ahead chain a row) before"
    using that rest by (rule place_after)
  have place: "(case previous of Some p \<Rightarrow> if tiedOnChain p row chain then k else length before + 1
      | None \<Rightarrow> length before + 1) = place_in chain ?all row"
  proof (cases "before = []")
    case True
    then show ?thesis using Cons.prems(2) fresh by simp
  next
    case False
    note prev = Cons.prems(3) [OF False]
    show ?thesis
    proof (cases "tiedOnChain (last before) row chain")
      case True
      then show ?thesis using prev by (simp add: tied_iff place_level [of chain "last before" row])
    next
      case untied: False
      have "ahead chain (last before) row"
        using untied upto False by (simp add: tied_iff ahead_def list_all_iff order_less_le)
      then have "list_all (\<lambda>a. ahead chain a row) before"
        using Cons.prems(1) False by (intro all_ahead) (simp_all add: sorted_wrt_append)
      then show ?thesis using prev untied fresh by simp
    qed
  qed
  have "number_rows chain (Some row) (place_in chain ?all row) (length (before @ [row])) rows
      = map (\<lambda>row'. row'\<lparr>lr_rank := place_in chain ((before @ [row]) @ rows) row'\<rparr>) rows"
    by (rule Cons.IH) (use Cons.prems(1) in simp_all)
  then show ?case by (simp only: number_rows.simps Let_def place) (simp add: number_previous)
qed

section \<open>What the table holds\<close>

definition unnumbered :: "league_row \<Rightarrow> league_row" where
  "unnumbered row = row\<lparr>lr_rank := 0\<rparr>"

definition groups_of :: "contribution list \<Rightarrow> string list" where
  "groups_of cs = sort_by byCodepoint (map fst (groupBy lr_rankingGroupKey (byFighter cs)))"

definition rows_of :: "contribution list \<Rightarrow> string \<Rightarrow> league_row list" where
  "rows_of cs g = filter (\<lambda>r. lr_rankingGroupKey r = g) (byFighter cs)"

definition table_of :: "league_tiebreaker list \<Rightarrow> contribution list \<Rightarrow> string \<Rightarrow> league_row list" where
  "table_of chain cs g = map (\<lambda>row. row\<lparr>lr_rank := place_in chain (rows_of cs g) row\<rparr>)
     (sort_by (compareRankings chain) (rows_of cs g))"

lemma place_in_mset: "mset xs = mset ys \<Longrightarrow> place_in chain xs row = place_in chain ys row"
  unfolding place_in_def by (metis mset_filter size_mset)

lemma set_groups_of [simp]: "set (groups_of cs) = lr_rankingGroupKey ` set (byFighter cs)"
  by (simp add: groups_of_def)

lemma distinct_groups_of [simp]: "distinct (groups_of cs)"
  by (simp add: groups_of_def)

lemma computeRankings_tables:
  "computeRankingsFromContributions chain cs = concat (map (table_of chain cs) (groups_of cs))"
proof -
  have "number_rows chain None 0 0 (sort_by (compareRankings chain)
      (or_else (map_of (groupBy lr_rankingGroupKey (byFighter cs)) g) [])) = table_of chain cs g"
    if "g \<in> set (groups_of cs)" for g
  proof -
    have rows: "or_else (map_of (groupBy lr_rankingGroupKey (byFighter cs)) g) [] = rows_of cs g"
      using that by (simp add: map_of_groupBy rows_of_def)
    have "sorted_wrt (\<lambda>a b. compare_on_chain chain a b \<le> 0) (sort_by (compareRankings chain) (rows_of cs g))"
      using league_rows.sorted_sort_by [of chain "rows_of cs g"] compareRankings_chain
      by (rule sorted_wrt_mono_rel [rotated])
    from number_rows_places [of chain "[]" _ None 0, simplified, OF this] show ?thesis
      unfolding rows table_of_def by (simp add: place_in_mset [of "sort_by _ _" "rows_of cs g"])
  qed
  then show ?thesis
    unfolding computeRankingsFromContributions_def Let_def groups_of_def [symmetric]
    by (intro arg_cong [where f = concat] map_cong) simp_all
qed

lemma fresh_rows: "row \<in> set (byFighter cs) \<Longrightarrow> lr_rank row = 0"
proof -
  assume "row \<in> set (byFighter cs)"
  then obtain k where "(k, row) \<in> set (gather contribution_key add_contribution cs)" by (auto simp: byFighter_def)
  then show ?thesis
    by (rule gather_all [where P = "\<lambda>_ row. lr_rank row = 0"]) (simp_all add: add_contribution_def new_row_def Let_def)
qed

text \<open>But for the places, the table is the rows of the fighters in another order.\<close>

lemma mset_rankings: "mset (map unnumbered (computeRankingsFromContributions chain cs)) = mset (byFighter cs)"
proof -
  have one: "mset (map unnumbered (table_of chain cs g)) = mset (rows_of cs g)" for g
  proof -
    have "map unnumbered (table_of chain cs g) = map unnumbered (sort_by (compareRankings chain) (rows_of cs g))"
      by (simp add: table_of_def unnumbered_def)
    also have "\<dots> = sort_by (compareRankings chain) (rows_of cs g)"
      by (rule map_idI) (auto simp: rows_of_def unnumbered_def dest: fresh_rows)
    finally show ?thesis by simp
  qed
  have "mset (map unnumbered (concat (map (table_of chain cs) gs))) = mset (concat (map (rows_of cs) gs))" for gs
    by (induction gs) (simp_all add: one [unfolded mset_map])
  moreover have "mset (concat (map (rows_of cs) (groups_of cs))) = mset (byFighter cs)"
    unfolding rows_of_def by (rule mset_groupBy) (simp add: groups_of_def)
  ultimately show ?thesis by (simp add: computeRankings_tables)
qed

lemma in_rankings:
  assumes "row \<in> set (computeRankingsFromContributions chain cs)"
  shows "unnumbered row \<in> set (byFighter cs)"
proof -
  have "unnumbered row \<in> set (map unnumbered (computeRankingsFromContributions chain cs))" using assms by simp
  then show ?thesis using mset_rankings [of chain cs] by (metis mset_eq_setD)
qed

lemma rank_of_row:
  assumes "row \<in> set (computeRankingsFromContributions chain cs)"
  shows "lr_rank row = place_in chain (rows_of cs (lr_rankingGroupKey row)) row"
  using assms by (auto simp: computeRankings_tables table_of_def place_in_def rows_of_def)

text \<open>The rows ahead of a row, counted in the table itself.\<close>

lemma place_in_rankings:
  "place_in chain (rows_of cs g) row = 1 + length (filter (\<lambda>other. lr_rankingGroupKey other = g \<and> ahead chain other row)
     (computeRankingsFromContributions chain cs))"
proof -
  let ?T = "computeRankingsFromContributions chain cs" and ?P = "\<lambda>other. lr_rankingGroupKey other = g \<and> ahead chain other row"
  have "length (filter ?P (map unnumbered ?T)) = length (filter ?P ?T)"
    by (simp add: filter_map o_def unnumbered_def)
  moreover have "length (filter ?P (map unnumbered ?T)) = length (filter ?P (byFighter cs))"
    using mset_rankings [of chain cs] by (metis mset_filter size_mset)
  ultimately show ?thesis by (simp add: place_in_def rows_of_def conj_commute)
qed

lemma rankings_sorted:
  "sorted_wrt (\<lambda>a b. if lr_rankingGroupKey a = lr_rankingGroupKey b then compare_on_chain chain a b \<le> 0
     else byCodepoint (lr_rankingGroupKey a) (lr_rankingGroupKey b) < 0) (computeRankingsFromContributions chain cs)"
    (is "sorted_wrt ?R _")
proof -
  have key: "lr_rankingGroupKey row = g" if "row \<in> set (table_of chain cs g)" for row g
    using that by (auto simp: table_of_def rows_of_def)
  have table: "sorted_wrt ?R (table_of chain cs g)" for g
  proof -
    have "sorted_wrt (\<lambda>a b. compare_on_chain chain a b \<le> 0) (sort_by (compareRankings chain) (rows_of cs g))"
      using league_rows.sorted_sort_by [of chain "rows_of cs g"] compareRankings_chain
      by (rule sorted_wrt_mono_rel [rotated])
    then have "sorted_wrt (\<lambda>a b. compare_on_chain chain a b \<le> 0) (table_of chain cs g)"
      by (simp add: table_of_def sorted_wrt_map)
    then show ?thesis by (rule sorted_wrt_mono_rel [rotated]) (simp add: key)
  qed
  have "sorted_wrt (\<lambda>a b. byCodepoint a b < 0) (groups_of cs)"
    using codepoint.sorted_sort_by [of "map fst (groupBy lr_rankingGroupKey (byFighter cs))"] distinct_groups_of [of cs]
    unfolding groups_of_def [symmetric] distinct_conv_nth sorted_wrt_iff_nth_less
    by (metis codepoint.level_eq less_trans nat_neq_iff order_less_le)
  moreover have "sorted_wrt ?R (concat (map (table_of chain cs) gs))" if "sorted_wrt (\<lambda>a b. byCodepoint a b < 0) gs" for gs
    using that
  proof (induction gs)
    case (Cons g gs)
    have "?R a b" if "a \<in> set (table_of chain cs g)" and "h \<in> set gs" and "b \<in> set (table_of chain cs h)" for a b h
      using Cons.prems that codepoint.self [of g] by (auto simp: key)
    then show ?case using Cons table [of g] by (simp add: sorted_wrt_append)
  qed simp
  ultimately show ?thesis by (simp add: computeRankings_tables)
qed

definition row_key :: "league_row \<Rightarrow> string" where
  "row_key row = lr_rankingGroupKey row @ '':'' @ lr_fighterId row"

definition adds_up :: "contribution list \<Rightarrow> league_row \<Rightarrow> bool" where
  "adds_up own row \<longleftrightarrow> own \<noteq> [] \<and>
     lr_totalPoints row = sum_list (map lc_leaguePoints own) \<and>
     lr_participationCount row = of_nat (length own) \<and>
     lr_medalCount row = of_nat (length (filter (\<lambda>c. lc_medal c \<noteq> None) own)) \<and>
     lr_doubleHitsTotal row = sum_list (map lc_doubleHits own) \<and>
     lr_doubleHitAverage row = sum_list (map lc_doubleHits own) / of_nat (length own) \<and>
     lr_perTournament row = map contribution_entry own"

lemma sum_list_same: "mset xs = mset ys \<Longrightarrow> sum_list (map f xs) = sum_list (map f ys)"
  for f :: "'a \<Rightarrow> 'b::comm_monoid_add"
  by (metis mset_map sum_mset_sum_list)

lemma adds_up_single: "adds_up [c] (add_contribution c None)"
  by (simp add: adds_up_def add_contribution_def new_row_def Let_def)

lemma adds_up_more: "adds_up own row \<Longrightarrow> adds_up (own @ [c]) (add_contribution c (Some row))"
  by (simp add: adds_up_def add_contribution_def Let_def)

lemma gathered_row:
  assumes "(k, row) \<in> set (gather contribution_key add_contribution cs)"
  shows "adds_up (filter (\<lambda>c. contribution_key c = k) cs) row \<and> row_key row = k"
  using assms by (rule gather_all [where P = "\<lambda>own row. adds_up own row \<and> row_key row = k"])
    (auto simp: adds_up_single adds_up_more, simp_all add: row_key_def contribution_key_def add_contribution_def new_row_def Let_def)

lemma adds_up_rank [simp]: "adds_up own (row\<lparr>lr_rank := r\<rparr>) = adds_up own row" "row_key (row\<lparr>lr_rank := r\<rparr>) = row_key row"
  by (simp_all add: adds_up_def row_key_def)

lemma byFighter_adds_up: "row \<in> set (byFighter cs) \<Longrightarrow> adds_up (filter (\<lambda>c. contribution_key c = row_key row) cs) row"
  by (auto simp: byFighter_def dest: gathered_row)

lemma byFighter_keys: "map row_key (byFighter cs) = map fst (gather contribution_key add_contribution cs)"
  by (auto simp: byFighter_def dest: gathered_row)

lemma byFighter_points: "sum_list (map lr_totalPoints (byFighter cs)) = sum_list (map lc_leaguePoints cs)"
  using sum_gather [of lr_totalPoints add_contribution lc_leaguePoints contribution_key cs]
  by (simp add: byFighter_def o_def add_contribution_def new_row_def Let_def split: option.split)

lemma place_mono: "compare_on_chain chain a b \<le> 0 \<Longrightarrow> place_in chain rows a \<le> place_in chain rows b"
proof -
  assume "compare_on_chain chain a b \<le> 0"
  then have "ahead chain x b" if "ahead chain x a" for x using ahead_trans that by blast
  then have "length (filter (\<lambda>x. ahead chain x a) rows) \<le> length (filter (\<lambda>x. ahead chain x b) rows)"
    by (induction rows) auto
  then show ?thesis by (simp add: place_in_def)
qed

lemma place_in_rows_less:
  assumes "a \<in> set (computeRankingsFromContributions chain cs)" and "ahead chain a b"
  shows "place_in chain (rows_of cs (lr_rankingGroupKey a)) a < place_in chain (rows_of cs (lr_rankingGroupKey a)) b"
proof -
  have "unnumbered a \<in> set (rows_of cs (lr_rankingGroupKey a))"
    using in_rankings [OF assms(1)] by (simp add: rows_of_def unnumbered_def)
  moreover have "ahead chain (unnumbered a) b" using assms(2) by (simp add: unnumbered_def)
  ultimately have "place_in chain (rows_of cs (lr_rankingGroupKey a)) (unnumbered a)
      < place_in chain (rows_of cs (lr_rankingGroupKey a)) b"
    by (rule place_less [rotated])
  then show ?thesis by (simp add: unnumbered_def place_in_def)
qed

section \<open>Properties\<close>

text \<open>
  C19. The league numbers its tables fairly: a fighter's rank in a table is one more than
  the number of fighters of this table that stand strictly ahead of it on the organiser's chain,
  whatever the other tables hold; so fighters level on the whole chain share a rank, the
  places they take are skipped, and no rank follows from a name. The tables follow each
  other in the order of their keys, and within a table the ranks never fall.
\<close>

theorem league_places_count_those_ahead:
  "let table = computeRankingsFromContributions chain cs in
   list_all (\<lambda>row. lr_rank row = 1 + length (filter (\<lambda>other.
       lr_rankingGroupKey other = lr_rankingGroupKey row \<and> compare_on_chain chain other row < 0) table)) table \<and>
   sorted_wrt (\<lambda>a b. if lr_rankingGroupKey a = lr_rankingGroupKey b then lr_rank a \<le> lr_rank b
       else byCodepoint (lr_rankingGroupKey a) (lr_rankingGroupKey b) < 0) table"
proof -
  let ?T = "computeRankingsFromContributions chain cs"
  have rank: "lr_rank row = place_in chain (rows_of cs (lr_rankingGroupKey row)) row" if "row \<in> set ?T" for row
    using that by (rule rank_of_row)
  have "lr_rank a \<le> lr_rank b"
    if "a \<in> set ?T" "b \<in> set ?T" "lr_rankingGroupKey a = lr_rankingGroupKey b" "compare_on_chain chain a b \<le> 0" for a b
    using that rank place_mono by simp
  then have "sorted_wrt (\<lambda>a b. if lr_rankingGroupKey a = lr_rankingGroupKey b then lr_rank a \<le> lr_rank b
       else byCodepoint (lr_rankingGroupKey a) (lr_rankingGroupKey b) < 0) ?T"
    by (intro sorted_wrt_mono_rel [OF _ rankings_sorted [of chain cs]]) (auto split: if_splits)
  then show ?thesis
    by (simp add: Let_def list_all_iff rank place_in_rankings ahead_def)
qed

text \<open>
  C20. The standings hold what was earned, and nothing else: there is one row for every
  table and fighter with a contribution, its points, starts, medals and double hits are those
  of the fighter's contributions to this table, its average is their double hits by
  their number, and it lists these tournaments in the order they were read.
\<close>

theorem league_rows_add_up:
  fixes cs :: "contribution list"
  shows "let table = computeRankingsFromContributions chain cs in
   distinct (map row_key table) \<and> set (map row_key table) = set (map contribution_key cs) \<and>
   list_all (\<lambda>row. adds_up (filter (\<lambda>c. contribution_key c = row_key row) cs) row) table \<and>
   sum_list (map lr_totalPoints table) = sum_list (map lc_leaguePoints cs)"
proof -
  let ?T = "computeRankingsFromContributions chain cs"
  have keys: "map row_key (map unnumbered ?T) = map row_key ?T" by (simp add: row_key_def unnumbered_def)
  note same = mset_rankings [of chain cs]
  have "mset (map row_key (map unnumbered ?T)) = mset (map row_key (byFighter cs))"
    by (simp only: mset_map [of row_key] same)
  then have m: "mset (map row_key ?T) = mset (map fst (gather contribution_key add_contribution cs))"
    unfolding keys byFighter_keys .
  have "distinct (map row_key ?T)" using mset_eq_imp_distinct_iff [OF m] by simp
  moreover have "set (map row_key ?T) = set (map contribution_key cs)"
    using mset_eq_setD [OF m] by simp
  moreover have "adds_up (filter (\<lambda>c. contribution_key c = row_key row) cs) row" if "row \<in> set ?T" for row
    using byFighter_adds_up [OF in_rankings [OF that]] by (simp add: unnumbered_def)
  moreover have "sum_list (map lr_totalPoints ?T) = sum_list (map lc_leaguePoints cs)"
  proof -
    have "sum_list (map lr_totalPoints (map unnumbered ?T)) = sum_list (map lr_totalPoints (byFighter cs))"
      by (rule sum_list_same) (rule same)
    then show ?thesis by (simp add: unnumbered_def o_def byFighter_points)
  qed
  ultimately show ?thesis
    by (simp add: Let_def list_all_iff)
qed

text \<open>
  Two results fall in the same table exactly when they belong together: on the weapon, the
  group, or both, as the league ranks, after the writing is evened out. An evened out name
  is never empty, is letters and digits in words joined by single dashes, is left as it is when it is
  evened out again, and two names that differ only in the white space around them are the same.
\<close>

lemma league_tables_are_told_apart:
  "(groupKey config a = groupKey config b \<longleftrightarrow>
     (case sc_rankingDimensions config of
        ByWeapon \<Rightarrow> normalizeDimension (ci_weapon a) = normalizeDimension (ci_weapon b)
      | ByGroup \<Rightarrow> normalizeDimension (ci_groupName a) = normalizeDimension (ci_groupName b)
      | ByWeaponAndGroup \<Rightarrow> normalizeDimension (ci_weapon a) = normalizeDimension (ci_weapon b) \<and>
          normalizeDimension (ci_groupName a) = normalizeDimension (ci_groupName b))) \<and>
   canonical (normalizeDimension v) \<and>
   normalizeDimension (Some (normalizeDimension v)) = normalizeDimension v \<and>
   normalizeDimension (Some (js_trim s)) = normalizeDimension (Some s)"
proof (intro conjI)
  show "groupKey config a = groupKey config b \<longleftrightarrow>
     (case sc_rankingDimensions config of
        ByWeapon \<Rightarrow> normalizeDimension (ci_weapon a) = normalizeDimension (ci_weapon b)
      | ByGroup \<Rightarrow> normalizeDimension (ci_groupName a) = normalizeDimension (ci_groupName b)
      | ByWeaponAndGroup \<Rightarrow> normalizeDimension (ci_weapon a) = normalizeDimension (ci_weapon b) \<and>
          normalizeDimension (ci_groupName a) = normalizeDimension (ci_groupName b))"
    by (cases "sc_rankingDimensions config") (simp_all add: groupKey_def Let_def colon_split no_colon)
  show "canonical (normalizeDimension v)" by (rule canonical_normalizeDimension)
  then show "normalizeDimension (Some (normalizeDimension v)) = normalizeDimension v"
    by (rule normalizeDimension_canonical)
  show "normalizeDimension (Some (js_trim s)) = normalizeDimension (Some s)"
    by (simp add: normalizeDimension_def js_trim_trim)
qed

end
