(* ===== verification/League_Tables.thy ===== *)
theory League_Tables
  imports League
begin

text \<open>
  What the readers of a league see beside the table itself: why a fighter stands below the one
  above, the clubs' standings, and whether the table is still the one the results say.
\<close>

section \<open>The deciding tiebreak\<close>

record league_deciding_tiebreak =
  ld_key :: league_tiebreaker
  ld_direction :: ranking_direction
  ld_mine :: rat
  ld_theirs :: rat

fun TIEBREAK_DIRECTION :: "league_tiebreaker \<Rightarrow> ranking_direction" where
  "TIEBREAK_DIRECTION TotalPoints = Desc"
| "TIEBREAK_DIRECTION ParticipationCount = Desc"
| "TIEBREAK_DIRECTION MedalCount = Desc"
| "TIEBREAK_DIRECTION DoubleHitAverage = Asc"

fun valueForKey :: "league_row \<Rightarrow> league_tiebreaker \<Rightarrow> rat" where
  "valueForKey row TotalPoints = lr_totalPoints row"
| "valueForKey row ParticipationCount = lr_participationCount row"
| "valueForKey row MedalCount = lr_medalCount row"
| "valueForKey row DoubleHitAverage = lr_doubleHitAverage row"

fun league_decidingTiebreakBetween ::
    "league_row \<Rightarrow> league_row \<Rightarrow> league_tiebreaker list \<Rightarrow> league_deciding_tiebreak option" where
  "league_decidingTiebreakBetween abv me [] = None"
| "league_decidingTiebreakBetween abv me (key # keys) =
     (let theirs' = valueForKey abv key; mine' = valueForKey me key in
      if mine' \<noteq> theirs'
      then Some \<lparr>ld_key = key, ld_direction = TIEBREAK_DIRECTION key, ld_mine = mine', ld_theirs = theirs'\<rparr>
      else league_decidingTiebreakBetween abv me keys)"

definition attachDecidingTiebreaks ::
    "league_row list \<Rightarrow> league_tiebreaker list \<Rightarrow> (league_row \<times> league_deciding_tiebreak option) list" where
  "attachDecidingTiebreaks rows chain =
     map (\<lambda>i. let row = rows ! i; previous = (if i > 0 then Some (rows ! (i - 1)) else None) in
       (row, case previous of
          Some p \<Rightarrow> if lr_rankingGroupKey p = lr_rankingGroupKey row
            then league_decidingTiebreakBetween p row chain else None
        | None \<Rightarrow> None))
     [0..<length rows]"

lemma deciding_cases:
  assumes "compare_on_chain chain a b \<le> 0"
  shows "case league_decidingTiebreakBetween a b chain of
      None \<Rightarrow> compare_on_chain chain a b = 0
    | Some d \<Rightarrow> compare_on_chain chain a b < 0 \<and> ld_key d = hd (dropWhile (\<lambda>k. valueForKey a k = valueForKey b k) chain) \<and>
        ld_theirs d = valueForKey a (ld_key d) \<and> ld_mine d = valueForKey b (ld_key d) \<and>
        (if ld_direction d = Desc then ld_mine d < ld_theirs d else ld_theirs d < ld_mine d)"
  using assms
proof (induction chain)
  case (Cons t ts)
  show ?case
  proof (cases "valueForKey a t = valueForKey b t")
    case True
    then have "compare_on_chain (t # ts) a b = compare_on_chain ts a b" by (cases t) simp_all
    with Cons True show ?thesis
      by (cases "league_decidingTiebreakBetween a b ts") (auto simp del: compare_on_chain.simps split: if_splits)
  next
    case False
    with Cons.prems show ?thesis by (cases t) auto
  qed
qed simp

text \<open>What the reason given for the place of \<open>row\<close>, below \<open>prev\<close>, has to say.\<close>

definition explains :: "league_tiebreaker list \<Rightarrow> league_row \<Rightarrow> league_row \<Rightarrow> league_deciding_tiebreak option \<Rightarrow> bool" where
  "explains chain prev row why \<longleftrightarrow>
     (if lr_rankingGroupKey prev = lr_rankingGroupKey row then
        (case why of
           None \<Rightarrow> lr_rank prev = lr_rank row
         | Some d \<Rightarrow> lr_rank prev < lr_rank row \<and>
             ld_key d = hd (dropWhile (\<lambda>k. valueForKey prev k = valueForKey row k) chain) \<and>
             ld_theirs d = valueForKey prev (ld_key d) \<and> ld_mine d = valueForKey row (ld_key d) \<and>
             (if ld_direction d = Desc then ld_mine d < ld_theirs d else ld_theirs d < ld_mine d))
      else why = None)"

lemma neighbours_explained:
  assumes "i + 1 < length (computeRankingsFromContributions chain cs)"
    and "a = computeRankingsFromContributions chain cs ! i" and "b = computeRankingsFromContributions chain cs ! (i + 1)"
  shows "explains chain a b
    (if lr_rankingGroupKey a = lr_rankingGroupKey b then league_decidingTiebreakBetween a b chain else None)"
proof (cases "lr_rankingGroupKey a = lr_rankingGroupKey b")
  case True
  let ?T = "computeRankingsFromContributions chain cs"
  have ab: "a \<in> set ?T" "b \<in> set ?T" using assms by simp_all
  have le: "compare_on_chain chain a b \<le> 0"
    using rankings_sorted [of chain cs] True assms unfolding sorted_wrt_iff_nth_less by fastforce
  have "lr_rank a < lr_rank b" if "compare_on_chain chain a b < 0"
    using that ab True place_in_rows_less [OF ab(1), of b] by (simp add: rank_of_row ahead_def)
  moreover have "lr_rank a = lr_rank b" if "compare_on_chain chain a b = 0"
    using that ab True place_level [OF that] by (simp add: rank_of_row)
  ultimately show ?thesis
    using deciding_cases [OF le] True by (auto simp: explains_def split: option.splits)
qed (simp add: explains_def)

text \<open>
  C21. The league's table explains itself: in the table of a league every row but a table's
  first is told why it stands below the one above. Nothing is named exactly where the two share their
  rank; otherwise the key named is the first of the chain on which they differ,
  the two values are theirs, and the row above has the better one in the key's direction.
\<close>

theorem league_tiebreaks_explain_ranks:
  "let rows = attachDecidingTiebreaks (computeRankingsFromContributions chain cs) chain in
   map fst rows = computeRankingsFromContributions chain cs \<and>
   list_all (\<lambda>((prev, _), (row, why)). explains chain prev row why) (zip rows (tl rows)) \<and>
   map snd (take 1 rows) = map (\<lambda>_. None) (take 1 rows)"
proof -
  let ?T = "computeRankingsFromContributions chain cs" and ?A = "attachDecidingTiebreaks (computeRankingsFromContributions chain cs) chain"
  have len: "length ?A = length ?T" by (simp add: attachDecidingTiebreaks_def)
  have later: "?A ! (i + 1) = (?T ! (i + 1), if lr_rankingGroupKey (?T ! i) = lr_rankingGroupKey (?T ! (i + 1))
      then league_decidingTiebreakBetween (?T ! i) (?T ! (i + 1)) chain else None)" if "i + 1 < length ?T" for i
    using that by (simp add: attachDecidingTiebreaks_def Let_def del: upt_Suc)
  have fsts: "fst (?A ! i) = ?T ! i" if "i < length ?T" for i
    using that by (simp add: attachDecidingTiebreaks_def Let_def del: upt_Suc)
  have "explains chain (fst (?A ! i)) (fst (?A ! (i + 1))) (snd (?A ! (i + 1)))" if "i + 1 < length ?T" for i
    using neighbours_explained [OF that refl refl] fsts [of i] that by (simp only: later) simp
  then have "list_all (\<lambda>((prev, _), (row, why)). explains chain prev row why) (zip ?A (tl ?A))"
    by (simp add: list_all_length len nth_tl case_prod_beta)
  moreover have "map fst ?A = ?T" by (simp add: attachDecidingTiebreaks_def Let_def o_def map_nth)
  moreover have "map snd (take 1 ?A) = map (\<lambda>_. None) (take 1 ?A)"
    by (cases "length ?T") (simp_all add: attachDecidingTiebreaks_def Let_def upt_conv_Cons del: upt_Suc)
  ultimately show ?thesis unfolding Let_def by blast
qed

section \<open>The standings of the clubs\<close>

text \<open>
  A to-one relation is read as an object, or as a list of one; both count as the object.
\<close>

datatype 'a embed = Absent | Embedded 'a | Listed "'a list"

fun embedObject :: "'a embed \<Rightarrow> 'a option" where
  "embedObject Absent = None"
| "embedObject (Embedded x) = Some x"
| "embedObject (Listed []) = None"
| "embedObject (Listed (x # xs)) = Some x"

record club_embed =
  cb_id :: "string option"
  cb_name :: "string option"
  cb_city :: "string option"

record person_embed =
  pe_display_name :: "string option"
  pe_clubs :: "club_embed embed"

record ranking_row =
  rk_total_points :: "rat option"
  rk_medal_count :: "rat option"
  rk_global_person_id :: "string option"
  rk_global_persons :: "person_embed embed"

record club_member =
  cm_fighterId :: string
  cm_name :: string
  cm_points :: rat

record club_standing =
  cs_clubId :: string
  cs_name :: string
  cs_city :: "string option"
  cs_totalPoints :: rat
  cs_memberCount :: nat
  cs_medalCount :: rat
  cs_topMembers :: "club_member list"

record unaffiliated_bucket =
  ub_totalPoints :: rat
  ub_memberCount :: nat
  ub_medalCount :: rat

record club_accumulator =
  ac_clubId :: string
  ac_name :: string
  ac_city :: "string option"
  ac_totalPoints :: rat
  ac_medalCount :: rat
  ac_members :: "(string \<times> club_member) list"

record club_loop =
  cl_byClub :: "(string \<times> club_accumulator) list"
  cl_unaffiliatedMembers :: "string list"
  cl_unaffiliatedPoints :: rat
  cl_unaffiliatedMedals :: rat
  cl_unaffiliatedRows :: nat

definition TOP_MEMBERS_LIMIT :: nat where
  "TOP_MEMBERS_LIMIT = 3"

definition row_points :: "ranking_row \<Rightarrow> rat" where
  "row_points row = or_else (rk_total_points row) 0"

definition row_medals :: "ranking_row \<Rightarrow> rat" where
  "row_medals row = or_else (rk_medal_count row) 0"

definition row_fighter :: "ranking_row \<Rightarrow> string" where
  "row_fighter row = or_else (rk_global_person_id row) []"

definition row_club :: "ranking_row \<Rightarrow> club_embed option" where
  "row_club row = (case embedObject (rk_global_persons row) of
     Some person \<Rightarrow> embedObject (pe_clubs person) | None \<Rightarrow> None)"

definition row_clubId :: "ranking_row \<Rightarrow> string" where
  "row_clubId row = (case row_club row of Some cb \<Rightarrow> or_else (cb_id cb) [] | None \<Rightarrow> [])"

definition row_fighterName :: "ranking_row \<Rightarrow> string" where
  "row_fighterName row =
     (let displayName = (case embedObject (rk_global_persons row) of
          Some person \<Rightarrow> js_trim (or_else (pe_display_name person) []) | None \<Rightarrow> [])
      in if displayName \<noteq> [] then displayName else row_fighter row)"

definition new_club :: "ranking_row \<Rightarrow> club_accumulator" where
  "new_club row = \<lparr>ac_clubId = row_clubId row,
     ac_name = (case row_club row of Some cb \<Rightarrow> or_else (cb_name cb) [] | None \<Rightarrow> []),
     ac_city = (case row_club row of Some cb \<Rightarrow> cb_city cb | None \<Rightarrow> None),
     ac_totalPoints = 0, ac_medalCount = 0, ac_members = []\<rparr>"

definition add_member :: "ranking_row \<Rightarrow> club_member option \<Rightarrow> club_member" where
  "add_member row old =
     (let member = or_else old \<lparr>cm_fighterId = row_fighter row, cm_name = row_fighterName row, cm_points = 0\<rparr>
      in member\<lparr>cm_points := cm_points member + row_points row\<rparr>)"

definition add_to_club :: "ranking_row \<Rightarrow> club_accumulator option \<Rightarrow> club_accumulator" where
  "add_to_club row old =
     (let acc = or_else old (new_club row)
      in acc\<lparr>ac_totalPoints := ac_totalPoints acc + row_points row,
             ac_medalCount := ac_medalCount acc + row_medals row,
             ac_members := (if row_fighter row \<noteq> [] then upsert (row_fighter row) (add_member row) (ac_members acc)
               else ac_members acc)\<rparr>)"

definition club_step :: "ranking_row \<Rightarrow> club_loop \<Rightarrow> club_loop" where
  "club_step row s =
     (if row_clubId row = [] then
        s\<lparr>cl_unaffiliatedPoints := cl_unaffiliatedPoints s + row_points row,
          cl_unaffiliatedMedals := cl_unaffiliatedMedals s + row_medals row,
          cl_unaffiliatedRows := cl_unaffiliatedRows s + 1,
          cl_unaffiliatedMembers := (if row_fighter row \<noteq> [] then List.insert (row_fighter row) (cl_unaffiliatedMembers s)
            else cl_unaffiliatedMembers s)\<rparr>
      else s\<lparr>cl_byClub := upsert (row_clubId row) (add_to_club row) (cl_byClub s)\<rparr>)"

definition no_clubs :: club_loop where
  "no_clubs = \<lparr>cl_byClub = [], cl_unaffiliatedMembers = [], cl_unaffiliatedPoints = 0, cl_unaffiliatedMedals = 0,
     cl_unaffiliatedRows = 0\<rparr>"

definition compare_members :: "club_member \<Rightarrow> club_member \<Rightarrow> rat" where
  "compare_members =
     then_by (\<lambda>a b. cm_points b - cm_points a) (\<lambda>a b. byCodepoint (cm_name a) (cm_name b))"

definition compare_clubs :: "club_standing \<Rightarrow> club_standing \<Rightarrow> rat" where
  "compare_clubs =
     then_by (\<lambda>a b. cs_totalPoints b - cs_totalPoints a)
       (then_by (\<lambda>a b. of_nat (cs_memberCount b) - of_nat (cs_memberCount a))
         (then_by (\<lambda>a b. cs_medalCount b - cs_medalCount a)
           (\<lambda>a b. byCodepoint (cs_name a) (cs_name b))))"

definition club_standing_of :: "club_accumulator \<Rightarrow> club_standing" where
  "club_standing_of acc = \<lparr>cs_clubId = ac_clubId acc, cs_name = ac_name acc, cs_city = ac_city acc,
     cs_totalPoints = ac_totalPoints acc, cs_memberCount = length (ac_members acc),
     cs_medalCount = ac_medalCount acc,
     cs_topMembers = take TOP_MEMBERS_LIMIT (sort_by compare_members (map snd (ac_members acc)))\<rparr>"

definition aggregateClubStandings :: "ranking_row list \<Rightarrow> club_standing list \<times> unaffiliated_bucket option" where
  "aggregateClubStandings rows =
     (let s = fold club_step rows no_clubs
      in (sort_by compare_clubs (map club_standing_of (map snd (cl_byClub s))),
          if cl_unaffiliatedRows s > 0 then
            Some \<lparr>ub_totalPoints = cl_unaffiliatedPoints s, ub_memberCount = length (cl_unaffiliatedMembers s),
              ub_medalCount = cl_unaffiliatedMedals s\<rparr>
          else None))"

text \<open>The loop splits the rows: those of a club go to the \<open>Map\<close>, the others to the bucket.\<close>

definition has_club :: "ranking_row \<Rightarrow> bool" where
  "has_club row \<longleftrightarrow> row_clubId row \<noteq> []"

lemma club_loop:
  "cl_byClub (fold club_step rows no_clubs) = gather row_clubId add_to_club (filter has_club rows)"
  "cl_unaffiliatedPoints (fold club_step rows no_clubs) = sum_list (map row_points (filter (\<lambda>r. \<not> has_club r) rows))"
  "cl_unaffiliatedMedals (fold club_step rows no_clubs) = sum_list (map row_medals (filter (\<lambda>r. \<not> has_club r) rows))"
  "cl_unaffiliatedRows (fold club_step rows no_clubs) = length (filter (\<lambda>r. \<not> has_club r) rows)"
  by (induction rows rule: rev_induct) (simp_all add: no_clubs_def club_step_def has_club_def gather_snoc)

definition club_holds :: "ranking_row list \<Rightarrow> club_accumulator \<Rightarrow> bool" where
  "club_holds own acc \<longleftrightarrow>
     ac_totalPoints acc = sum_list (map row_points own) \<and>
     ac_medalCount acc = sum_list (map row_medals own) \<and>
     ac_members acc = gather row_fighter add_member (filter (\<lambda>r. row_fighter r \<noteq> []) own)"

lemma club_holds_single: "club_holds [row] (add_to_club row None)"
  by (simp add: club_holds_def add_to_club_def new_club_def Let_def gather_def)

lemma club_holds_more: "club_holds own acc \<Longrightarrow> club_holds (own @ [row]) (add_to_club row (Some acc))"
  by (simp add: club_holds_def add_to_club_def Let_def gather_snoc)

lemma gathered_club:
  assumes "(k, acc) \<in> set (gather row_clubId add_to_club rows)"
  shows "club_holds (filter (\<lambda>r. row_clubId r = k) rows) acc \<and> ac_clubId acc = k"
  using assms by (rule gather_all [where P = "\<lambda>own acc. club_holds own acc \<and> ac_clubId acc = k"])
    (auto simp: club_holds_single club_holds_more, simp_all add: add_to_club_def new_club_def Let_def)

lemma length_gather: "length (gather key add xs) = card (key ` set xs)"
  by (metis distinct_card distinct_gather keys_gather length_map list.set_map)

definition club_adds_up :: "ranking_row list \<Rightarrow> club_standing \<Rightarrow> bool" where
  "club_adds_up own c \<longleftrightarrow>
     cs_totalPoints c = sum_list (map row_points own) \<and>
     cs_medalCount c = sum_list (map row_medals own) \<and>
     cs_memberCount c = card (row_fighter ` set own - {[]}) \<and>
     length (cs_topMembers c) \<le> TOP_MEMBERS_LIMIT"

lemma club_standing_adds_up: "club_holds own acc \<Longrightarrow> club_adds_up own (club_standing_of acc)"
proof -
  assume holds: "club_holds own acc"
  have "row_fighter ` set (filter (\<lambda>r. row_fighter r \<noteq> []) own) = row_fighter ` set own - {[]}" by auto
  with holds show ?thesis by (simp add: club_adds_up_def club_holds_def club_standing_of_def length_gather)
qed

interpretation clubs: comparator compare_clubs
proof -
  have "comparator (\<lambda>a b. cs_totalPoints b - cs_totalPoints a)"
    "comparator (\<lambda>a b. of_nat (cs_memberCount b) - of_nat (cs_memberCount a) :: rat)"
    "comparator (\<lambda>a b. cs_medalCount b - cs_medalCount a)"
    by (unfold_locales, auto)
  then show "comparator compare_clubs"
    unfolding compare_clubs_def by (intro then_by_comparator codepoint_on)
qed

text \<open>
  C22. The club standings lose nothing: every point and every medal of the league's rows is in
  exactly one club or in the bucket of the fighters without one. There is one line for every
  club with a row, its points and medals are those of the rows of its fighters, a
  fighter with rows in several tables counts once among its members, and the clubs are in
  the announced order.
\<close>

theorem club_standings_lose_nothing:
  "let clubs = fst (aggregateClubStandings rows); other = snd (aggregateClubStandings rows) in
   sum_list (map cs_totalPoints clubs) + (case other of None \<Rightarrow> 0 | Some u \<Rightarrow> ub_totalPoints u) = sum_list (map row_points rows) \<and>
   sum_list (map cs_medalCount clubs) + (case other of None \<Rightarrow> 0 | Some u \<Rightarrow> ub_medalCount u) = sum_list (map row_medals rows) \<and>
   distinct (map cs_clubId clubs) \<and> set (map cs_clubId clubs) = set (map row_clubId rows) - {[]} \<and>
   list_all (\<lambda>c. club_adds_up (filter (\<lambda>r. row_clubId r = cs_clubId c) rows) c) clubs \<and>
   sorted_wrt (\<lambda>a b. compare_clubs a b \<le> 0) clubs"
proof -
  let ?kept = "filter has_club rows" and ?rest = "filter (\<lambda>r. \<not> has_club r) rows"
  let ?m = "gather row_clubId add_to_club ?kept"
  let ?cs = "map (\<lambda>e. club_standing_of (snd e)) ?m"
  have clubs: "fst (aggregateClubStandings rows) = sort_by compare_clubs ?cs"
    by (simp add: aggregateClubStandings_def Let_def club_loop o_def)
  have other: "(case snd (aggregateClubStandings rows) of None \<Rightarrow> 0 | Some u \<Rightarrow> ub_totalPoints u) = sum_list (map row_points ?rest)"
    "(case snd (aggregateClubStandings rows) of None \<Rightarrow> 0 | Some u \<Rightarrow> ub_medalCount u) = sum_list (map row_medals ?rest)"
    by (auto simp: aggregateClubStandings_def Let_def club_loop)
  have split: "sum_list (map f ?kept) + sum_list (map f ?rest) = sum_list (map f rows)" for f :: "ranking_row \<Rightarrow> rat"
    by (induction rows) simp_all
  have points: "sum_list (map cs_totalPoints ?cs) = sum_list (map row_points ?kept)"
    using sum_gather [of ac_totalPoints add_to_club row_points row_clubId ?kept]
    by (simp add: o_def club_standing_of_def add_to_club_def new_club_def Let_def split: option.split)
  have medals: "sum_list (map cs_medalCount ?cs) = sum_list (map row_medals ?kept)"
    using sum_gather [of ac_medalCount add_to_club row_medals row_clubId ?kept]
    by (simp add: o_def club_standing_of_def add_to_club_def new_club_def Let_def split: option.split)
  have entry: "ac_clubId (snd e) = fst e" "club_adds_up (filter (\<lambda>r. row_clubId r = fst e) ?kept) (club_standing_of (snd e))"
    if "e \<in> set ?m" for e
    using gathered_club [of "fst e" "snd e" ?kept] that by (simp_all add: club_standing_adds_up)
  have ids: "map cs_clubId ?cs = map fst ?m" using entry by (simp add: club_standing_of_def)
  have "filter (\<lambda>r. row_clubId r = fst e) ?kept = filter (\<lambda>r. row_clubId r = fst e) rows" if "e \<in> set ?m" for e
  proof -
    have "fst e \<in> row_clubId ` set ?kept" using that by (metis imageI keys_gather)
    then show ?thesis by (auto simp: has_club_def intro!: filter_cong)
  qed
  then have adds: "list_all (\<lambda>c. club_adds_up (filter (\<lambda>r. row_clubId r = cs_clubId c) rows) c) ?cs"
    using entry by (simp add: list_all_iff club_standing_of_def)
  have sums: "sum_list (map f (sort_by compare_clubs ?cs)) = sum_list (map f ?cs)" for f :: "club_standing \<Rightarrow> rat"
    by (rule sum_list_same) simp
  have "distinct (map cs_clubId (sort_by compare_clubs ?cs))"
    unfolding distinct_map_sort_by ids by simp
  moreover have "set (map cs_clubId (sort_by compare_clubs ?cs)) = set (map row_clubId rows) - {[]}"
  proof -
    have "set (map cs_clubId (sort_by compare_clubs ?cs)) = set (map cs_clubId ?cs)" by (simp only: list.set_map set_sort_by)
    also have "\<dots> = row_clubId ` set ?kept" unfolding ids by simp
    finally show ?thesis by (auto simp: has_club_def)
  qed
  moreover have "list_all (\<lambda>c. club_adds_up (filter (\<lambda>r. row_clubId r = cs_clubId c) rows) c) (sort_by compare_clubs ?cs)"
    using adds unfolding list_all_iff set_sort_by .
  ultimately show ?thesis
    unfolding Let_def clubs other sums points medals split using clubs.sorted_sort_by by blast
qed

section \<open>Is the table still the one the results say\<close>

text \<open>Times are milliseconds, as \<open>Date.getTime\<close> reads the stored stamps.\<close>

datatype freshness_state = Frozen | NeverComputed | Fresh | Stale

record linked_tournament =
  lt_tournamentId :: string
  lt_name :: string
  lt_lastChangedAt :: "int option"

record freshness_input =
  fi_finalizedAt :: "int option"
  fi_computedAt :: "int option"
  fi_linkedTournaments :: "linked_tournament list"

record freshness_report =
  fr_state :: freshness_state
  fr_computedAt :: "int option"
  fr_changedTournamentNames :: "string list"

definition changedSince :: "int \<Rightarrow> linked_tournament \<Rightarrow> bool" where
  "changedSince computed t = (case lt_lastChangedAt t of None \<Rightarrow> False | Some changed \<Rightarrow> changed > computed)"

definition computeLeagueFreshness :: "freshness_input \<Rightarrow> freshness_report" where
  "computeLeagueFreshness i =
     (if fi_finalizedAt i \<noteq> None then
        \<lparr>fr_state = Frozen, fr_computedAt = fi_computedAt i, fr_changedTournamentNames = []\<rparr>
      else if length (fi_linkedTournaments i) = 0 then
        \<lparr>fr_state = Fresh, fr_computedAt = fi_computedAt i, fr_changedTournamentNames = []\<rparr>
      else case fi_computedAt i of
        None \<Rightarrow> \<lparr>fr_state = NeverComputed, fr_computedAt = None, fr_changedTournamentNames = []\<rparr>
      | Some computed \<Rightarrow>
          let changed = filter (changedSince computed) (fi_linkedTournaments i)
          in \<lparr>fr_state = (if length changed > 0 then Stale else Fresh), fr_computedAt = Some computed,
              fr_changedTournamentNames = map lt_name changed\<rparr>)"

text \<open>A recompute clears the badge: computed again at or after the last change, the table is not stale.\<close>

lemma recompute_clears_the_badge:
  assumes "list_all (\<lambda>t. or_else (lt_lastChangedAt t) now \<le> now) (fi_linkedTournaments i)"
  shows "fr_state (computeLeagueFreshness (i\<lparr>fi_computedAt := Some now\<rparr>)) \<noteq> Stale"
proof -
  have "filter (changedSince now) (fi_linkedTournaments i) = []"
    using assms by (auto simp: list_all_iff filter_empty_conv changedSince_def split: option.split)
  then show ?thesis by (simp add: computeLeagueFreshness_def Let_def)
qed

end
