(* ===== verification/Referee_Checker.thy ===== *)
theory Referee_Checker
  imports Grouping Formula_Schema
begin

text \<open>
  The one answer to whether a person may referee a unit: what the person is doing, what there
  is to referee, and every reason against it, by its code and level. A time is an instant in
  milliseconds; a day is its date on the clock of the event.
\<close>

section \<open>Windows and availability\<close>

record time_window =
  w_startMs :: int
  w_endMs :: int

definition overlapsHalfOpen :: "time_window \<Rightarrow> time_window \<Rightarrow> bool" where
  "overlapsHalfOpen a b \<longleftrightarrow> w_startMs a < w_endMs b \<and> w_startMs b < w_endMs a"

definition overlaps :: "time_window option \<Rightarrow> time_window option \<Rightarrow> bool" where
  "overlaps a b = (case (a, b) of (Some x, Some y) \<Rightarrow> overlapsHalfOpen x y | _ \<Rightarrow> False)"

text \<open>The hull of a run of windows, earliest start to latest end.\<close>

definition hullMs :: "time_window list \<Rightarrow> time_window option" where
  "hullMs windows =
     (case windows of
        [] \<Rightarrow> None
      | w # ws \<Rightarrow> Some (fold (\<lambda>v h. \<lparr>w_startMs = (if w_startMs v < w_startMs h then w_startMs v else w_startMs h),
                                     w_endMs = (if w_endMs v > w_endMs h then w_endMs v else w_endMs h)\<rparr>) ws w))"

record available_day =
  ad_date :: string
  ad_window :: time_window

record referee_availability =
  av_tournamentIds :: "string list option"
  av_days :: "available_day list option"

definition ANY_AVAILABILITY :: referee_availability where
  "ANY_AVAILABILITY = \<lparr>av_tournamentIds = None, av_days = None\<rparr>"

record availability_ask =
  ask_tournamentId :: string
  ask_date :: "string option"
  ask_window :: "time_window option"

definition isAvailableFor :: "referee_availability \<Rightarrow> availability_ask \<Rightarrow> bool" where
  "isAvailableFor availability ask =
     (if (case av_tournamentIds availability of Some ids \<Rightarrow> ask_tournamentId ask \<notin> set ids | None \<Rightarrow> False) then False
      else case (av_days availability, ask_date ask) of
        (Some days, Some date) \<Rightarrow>
          (case find (\<lambda>d. ad_date d = date) days of
             None \<Rightarrow> False
           | Some day \<Rightarrow>
               (case ask_window ask of
                  None \<Rightarrow> True
                | Some w \<Rightarrow> w_startMs w \<ge> w_startMs (ad_window day) \<and> w_endMs w \<le> w_endMs (ad_window day)))
      | _ \<Rightarrow> True)"

section \<open>Commitments, targets and reasons\<close>

record fight =
  fg_personId :: string
  fg_window :: "time_window option"
  fg_label :: string
  fg_matchId :: string
  fg_groupId :: "string option"

record fight_pool =
  fp_personId :: string
  fp_window :: "time_window option"
  fp_label :: string
  fp_groupId :: string

record duty =
  du_personId :: string
  du_window :: "time_window option"
  du_label :: string
  du_unitId :: string
  du_poolId :: "string option"
  du_matchId :: "string option"
  du_role :: string
  du_matchIds :: "string list"
  du_slot :: "int option"
  du_day :: "string option"

record workshop =
  ws_personId :: string
  ws_window :: "time_window option"
  ws_label :: string
  ws_sessionId :: string

datatype commitment =
  Fight fight | FightPool fight_pool | Duty duty | Teach workshop | Attend workshop

fun personOf :: "commitment \<Rightarrow> string" where
  "personOf (Fight f) = fg_personId f"
| "personOf (FightPool p) = fp_personId p"
| "personOf (Duty d) = du_personId d"
| "personOf (Teach w) = ws_personId w"
| "personOf (Attend w) = ws_personId w"

definition fights_of :: "commitment list \<Rightarrow> fight list" where
  "fights_of cs = concat (map (\<lambda>c. case c of Fight f \<Rightarrow> [f] | _ \<Rightarrow> []) cs)"

definition fight_pools_of :: "commitment list \<Rightarrow> fight_pool list" where
  "fight_pools_of cs = concat (map (\<lambda>c. case c of FightPool p \<Rightarrow> [p] | _ \<Rightarrow> []) cs)"

definition duties_of :: "commitment list \<Rightarrow> duty list" where
  "duties_of cs = concat (map (\<lambda>c. case c of Duty d \<Rightarrow> [d] | _ \<Rightarrow> []) cs)"

datatype target_scope = PoolScope | MatchScope

record referee_target =
  tg_scope :: target_scope
  tg_unitId :: string
  tg_poolId :: "string option"
  tg_groupId :: "string option"
  tg_matchIds :: "string list"
  tg_window :: "time_window option"
  tg_role :: string
  tg_tournamentId :: string
  tg_day :: "string option"
  tg_slot :: "int option"

record referee_switches =
  sw_ownPool :: bool
  sw_ownPoolSpan :: bool
  sw_twoRoles :: bool
  sw_attendWorkshop :: bool
  sw_restSlots :: int
  sw_maxBoutsPerDay :: int

datatype reason_code =
  OwnMatch | FightsOverlap | RefereesOverlap | TeachesOverlap | OutsideAvailability |
  OwnPool | OwnPoolSpan | TwoRoles | AttendsOverlap | Rest | Cap

definition REFEREE_REASON_CODES :: "reason_code list" where
  "REFEREE_REASON_CODES = [OwnMatch, FightsOverlap, RefereesOverlap, TeachesOverlap, OutsideAvailability,
     OwnPool, OwnPoolSpan, TwoRoles, AttendsOverlap, Rest, Cap]"

text \<open>The level of a verdict; a reason has one of the first two.\<close>

datatype referee_level = Impossible | Discouraged | Fine

definition levelOf :: "reason_code \<Rightarrow> referee_level" where
  "levelOf code =
     (if code \<in> set [OwnMatch, FightsOverlap, RefereesOverlap, TeachesOverlap, OutsideAvailability]
      then Impossible else Discouraged)"

datatype against_kind = AgainstMatch | AgainstPool | AgainstUnit | AgainstWorkshop | AgainstDay

record against =
  ag_kind :: against_kind
  ag_id :: string
  ag_label :: string

record referee_reason =
  re_code :: reason_code
  re_level :: referee_level
  re_against :: "against option"
  re_confirmed :: bool

record referee_verdict =
  vd_level :: referee_level
  vd_reasons :: "referee_reason list"

record stored_reason =
  sr_code :: reason_code
  sr_label :: string

definition reason_of :: "reason_code \<Rightarrow> against option \<Rightarrow> referee_reason" where
  "reason_of code what = \<lparr>re_code = code, re_level = levelOf code, re_against = what, re_confirmed = False\<rparr>"

definition against_of :: "against_kind \<Rightarrow> string \<Rightarrow> string \<Rightarrow> against option" where
  "against_of kind i label = Some \<lparr>ag_kind = kind, ag_id = i, ag_label = label\<rparr>"

section \<open>The rules\<close>

definition fightReasons :: "referee_target \<Rightarrow> fight list \<Rightarrow> fight_pool list \<Rightarrow> referee_switches \<Rightarrow> referee_reason list" where
  "fightReasons target fights pools switches =
     (let onTarget = (\<lambda>f. fg_matchId f \<in> set (tg_matchIds target));
          ownBouts = (if tg_scope target = MatchScope then filter onTarget fights else []);
          clashing = filter (\<lambda>f. \<not> onTarget f \<and> overlaps (fg_window f) (tg_window target)) fights
      in map (\<lambda>f. reason_of OwnMatch (against_of AgainstMatch (fg_matchId f) (fg_label f))) ownBouts @
         map (\<lambda>f. reason_of FightsOverlap (against_of AgainstMatch (fg_matchId f) (fg_label f))) clashing @
         (if sw_ownPool switches \<and> length ownBouts = 0 \<and> tg_groupId target \<noteq> None then
            (case find (\<lambda>p. Some (fp_groupId p) = tg_groupId target) pools of
               Some own \<Rightarrow> [reason_of OwnPool (against_of AgainstPool (fp_groupId own) (fp_label own))]
             | None \<Rightarrow> [])
          else []) @
         (if sw_ownPoolSpan switches then
            map (\<lambda>p. reason_of OwnPoolSpan (against_of AgainstPool (fp_groupId p) (fp_label p)))
              (filter (\<lambda>p. Some (fp_groupId p) \<noteq> tg_groupId target \<and>
                 Some (fp_groupId p) \<notin> set (map fg_groupId clashing) \<and>
                 overlaps (fp_window p) (tg_window target)) pools)
          else []))"

definition isOnTarget :: "duty \<Rightarrow> referee_target \<Rightarrow> bool" where
  "isOnTarget d target \<longleftrightarrow>
     du_unitId d = tg_unitId target \<or>
     (tg_poolId target \<noteq> None \<and> du_poolId d = tg_poolId target) \<or>
     (case du_matchId d of Some m \<Rightarrow> m \<in> set (tg_matchIds target) | None \<Rightarrow> False)"

text \<open>The reason of one duty, a turn of the loop of \<open>dutyReasons\<close>.\<close>

definition dutyReason :: "referee_target \<Rightarrow> referee_switches \<Rightarrow> duty \<Rightarrow> referee_reason list" where
  "dutyReason target switches d =
     (let what = against_of AgainstUnit (du_unitId d) (du_label d);
          siblingBout = (case du_matchId d of Some m \<Rightarrow> m \<notin> set (tg_matchIds target) | None \<Rightarrow> False)
      in if isOnTarget d target \<and> siblingBout \<and> overlaps (du_window d) (tg_window target) then
           [reason_of RefereesOverlap what]
         else if isOnTarget d target then
           (if sw_twoRoles switches \<and> du_role d \<noteq> tg_role target then [reason_of TwoRoles what] else [])
         else if overlaps (du_window d) (tg_window target) then [reason_of RefereesOverlap what]
         else [])"

definition dutyReasons :: "referee_target \<Rightarrow> duty list \<Rightarrow> referee_switches \<Rightarrow> referee_reason list" where
  "dutyReasons target duties switches = concat (map (dutyReason target switches) duties)"

definition dutiesTooClose :: "referee_target \<Rightarrow> duty list \<Rightarrow> int \<Rightarrow> duty list" where
  "dutiesTooClose target duties restSlots =
     (case (tg_slot target, tg_day target) of
        (Some slot, Some day) \<Rightarrow>
          if restSlots \<le> 0 then []
          else filter (\<lambda>d. case du_slot d of
              None \<Rightarrow> False
            | Some s \<Rightarrow> du_day d = Some day \<and> (let gap = \<bar>s - slot\<bar> in gap > 0 \<and> gap \<le> restSlots)) duties
      | _ \<Rightarrow> [])"

text \<open>The distinct bouts of one day: a \<open>Set\<close> is its elements, its size their number.\<close>

definition bouts_of_day :: "duty list \<Rightarrow> string \<Rightarrow> string list \<Rightarrow> string set" where
  "bouts_of_day duties day extra = set (extra @ concat (map (\<lambda>d. if du_day d = Some day then du_matchIds d else []) duties))"

definition boutsOnDay :: "commitment list \<Rightarrow> string option \<Rightarrow> string list \<Rightarrow> nat" where
  "boutsOnDay commitments day extra =
     (case day of None \<Rightarrow> 0 | Some date \<Rightarrow> card (bouts_of_day (duties_of commitments) date extra))"

definition boutsOverCap :: "referee_target \<Rightarrow> duty list \<Rightarrow> int \<Rightarrow> nat option" where
  "boutsOverCap target duties maxBoutsPerDay =
     (if maxBoutsPerDay \<le> 0 \<or> tg_day target = None then None
      else let n = boutsOnDay (map Duty duties) (tg_day target) (tg_matchIds target)
           in if int n > maxBoutsPerDay then Some n else None)"

definition loadReasons :: "referee_target \<Rightarrow> duty list \<Rightarrow> referee_switches \<Rightarrow> referee_reason list" where
  "loadReasons target duties switches =
     map (\<lambda>d. reason_of Rest (against_of AgainstUnit (du_unitId d) (du_label d)))
       (dutiesTooClose target (filter (\<lambda>d. \<not> isOnTarget d target) duties) (sw_restSlots switches)) @
     (case boutsOverCap target duties (sw_maxBoutsPerDay switches) of
        Some n \<Rightarrow> [reason_of Cap (against_of AgainstDay (or_else (tg_day target) ''null'') (show_nat n))]
      | None \<Rightarrow> [])"

fun workshopReason :: "referee_target \<Rightarrow> referee_switches \<Rightarrow> commitment \<Rightarrow> referee_reason list" where
  "workshopReason target switches (Teach w) =
     (if overlaps (ws_window w) (tg_window target)
      then [reason_of TeachesOverlap (against_of AgainstWorkshop (ws_sessionId w) (ws_label w))] else [])"
| "workshopReason target switches (Attend w) =
     (if overlaps (ws_window w) (tg_window target) \<and> sw_attendWorkshop switches
      then [reason_of AttendsOverlap (against_of AgainstWorkshop (ws_sessionId w) (ws_label w))] else [])"
| "workshopReason target switches _ = []"

definition workshopReasons :: "referee_target \<Rightarrow> commitment list \<Rightarrow> referee_switches \<Rightarrow> referee_reason list" where
  "workshopReasons target own switches = concat (map (workshopReason target switches) own)"

definition availabilityReasons :: "referee_target \<Rightarrow> referee_availability \<Rightarrow> referee_reason list" where
  "availabilityReasons target availability =
     (if isAvailableFor availability
           \<lparr>ask_tournamentId = tg_tournamentId target, ask_date = tg_day target, ask_window = tg_window target\<rparr>
      then [] else [reason_of OutsideAvailability None])"

text \<open>
  The key of a reason. The code joins its three parts with colons, of which the first two have
  none, so equal keys are equal parts.
\<close>

definition reasonKey :: "referee_reason \<Rightarrow> reason_code \<times> (against_kind \<times> string) option" where
  "reasonKey r = (re_code r, map_option (\<lambda>a. (ag_kind a, ag_id a)) (re_against r))"

fun dedupe_from :: "(reason_code \<times> (against_kind \<times> string) option) set \<Rightarrow> referee_reason list \<Rightarrow> referee_reason list" where
  "dedupe_from seen [] = []"
| "dedupe_from seen (r # rs) =
     (if reasonKey r \<in> seen then dedupe_from seen rs else r # dedupe_from (insert (reasonKey r) seen) rs)"

definition dedupe :: "referee_reason list \<Rightarrow> referee_reason list" where
  "dedupe = dedupe_from {}"

definition FINE :: referee_verdict where
  "FINE = \<lparr>vd_level = Fine, vd_reasons = []\<rparr>"

definition verdictOf :: "referee_reason list \<Rightarrow> referee_verdict" where
  "verdictOf reasons =
     \<lparr>vd_level =
        (if list_ex (\<lambda>r. re_level r = Impossible) reasons then Impossible
         else if list_ex (\<lambda>r. re_level r = Discouraged \<and> \<not> re_confirmed r) reasons then Discouraged
         else Fine),
      vd_reasons = reasons\<rparr>"

definition mergeVerdicts :: "referee_verdict \<Rightarrow> referee_verdict \<Rightarrow> referee_verdict" where
  "mergeVerdicts a b =
     verdictOf (map snd (gather reasonKey
       (\<lambda>r seen. case seen of Some s \<Rightarrow> s\<lparr>re_confirmed := re_confirmed s \<or> re_confirmed r\<rparr> | None \<Rightarrow> r)
       (vd_reasons a @ vd_reasons b)))"

definition checkReferee ::
    "string \<Rightarrow> referee_target \<Rightarrow> commitment list \<Rightarrow> referee_availability \<Rightarrow> referee_switches \<Rightarrow> referee_verdict" where
  "checkReferee personId target commitments availability switches =
     (let own = filter (\<lambda>c. personOf c = personId) commitments
      in verdictOf (dedupe (
           fightReasons target (fights_of own) (fight_pools_of own) switches @
           dutyReasons target (duties_of own) switches @
           loadReasons target (duties_of own) switches @
           workshopReasons target own switches @
           availabilityReasons target availability)))"

text \<open>An assignment that exists, judged again without its own duty.\<close>

definition own_duty :: "string \<Rightarrow> referee_target \<Rightarrow> commitment \<Rightarrow> bool" where
  "own_duty personId target c =
     (case c of
        Duty d \<Rightarrow> du_personId d = personId \<and> du_unitId d = tg_unitId target \<and> du_role d = tg_role target \<and>
          (case du_matchId d of None \<Rightarrow> True | Some m \<Rightarrow> m \<in> set (tg_matchIds target))
      | _ \<Rightarrow> False)"

definition checkAssignment ::
    "commitment list \<Rightarrow> (string \<Rightarrow> referee_availability) \<Rightarrow> referee_switches \<Rightarrow> string \<Rightarrow> referee_target \<Rightarrow> referee_verdict" where
  "checkAssignment commitments availabilityOf switches personId target =
     checkReferee personId target (filter (\<lambda>c. \<not> own_duty personId target c) commitments) (availabilityOf personId) switches"

definition checkAssignments ::
    "('id \<times> string \<times> referee_target) list \<Rightarrow> commitment list \<Rightarrow> (string \<Rightarrow> referee_availability) \<Rightarrow>
     referee_switches \<Rightarrow> ('id \<times> referee_verdict) list" where
  "checkAssignments assignments commitments availabilityOf switches =
     gather fst (\<lambda>(_, personId, target) _. checkAssignment commitments availabilityOf switches personId target) assignments"

definition label_against :: "referee_reason \<Rightarrow> string" where
  "label_against r = (case re_against r of Some a \<Rightarrow> ag_label a | None \<Rightarrow> [])"

definition markConfirmed :: "referee_verdict \<Rightarrow> stored_reason list \<Rightarrow> referee_verdict" where
  "markConfirmed verdict stored =
     verdictOf (map (\<lambda>r. r\<lparr>re_confirmed := re_level r = Discouraged \<and>
         list_ex (\<lambda>s. sr_code s = re_code r \<and> sr_label s = label_against r) stored\<rparr>) (vd_reasons verdict))"

definition toStoredReasons :: "referee_verdict \<Rightarrow> stored_reason list" where
  "toStoredReasons verdict =
     map (\<lambda>r. \<lparr>sr_code = re_code r, sr_label = label_against r\<rparr>)
       (filter (\<lambda>r. re_level r = Discouraged) (vd_reasons verdict))"

section \<open>When a verdict is Fine\<close>

lemma dedupe_from_Nil: "\<forall>r \<in> set rs. reasonKey r \<notin> seen \<Longrightarrow> dedupe_from seen rs = [] \<longleftrightarrow> rs = []"
  by (cases rs) auto

lemma dedupe_Nil [simp]: "dedupe rs = [] \<longleftrightarrow> rs = []"
  by (simp add: dedupe_def dedupe_from_Nil)

lemma dedupe_empty [simp]: "dedupe [] = []"
  by (simp add: dedupe_def)

lemma set_dedupe_from: "set (dedupe_from seen rs) \<subseteq> set rs"
  by (induction seen rs rule: dedupe_from.induct) auto

text \<open>A reason as the rules make it: of one of the two levels, and not confirmed.\<close>

definition unconfirmed :: "referee_reason \<Rightarrow> bool" where
  "unconfirmed r \<longleftrightarrow> re_level r \<noteq> Fine \<and> \<not> re_confirmed r"

lemma unconfirmed_reason_of [simp]: "unconfirmed (reason_of code what)"
  by (simp add: unconfirmed_def reason_of_def levelOf_def)

lemma verdictOf_fine:
  assumes "\<forall>r \<in> set rs. unconfirmed r"
  shows "verdictOf (dedupe rs) = FINE \<longleftrightarrow> rs = []" and "vd_level (verdictOf (dedupe rs)) = Fine \<longleftrightarrow> rs = []"
proof -
  have level: "vd_level (verdictOf (dedupe rs)) = Fine \<longleftrightarrow> dedupe rs = []"
  proof (cases "dedupe rs")
    case (Cons r rest)
    then have "r \<in> set rs" using set_dedupe_from [of "{}" rs] unfolding dedupe_def by auto
    then have "unconfirmed r" using assms by blast
    then show ?thesis
      using Cons by (cases "re_level r") (auto simp: verdictOf_def unconfirmed_def)
  qed (simp add: verdictOf_def)
  then show "vd_level (verdictOf (dedupe rs)) = Fine \<longleftrightarrow> rs = []" by simp
  show "verdictOf (dedupe rs) = FINE \<longleftrightarrow> rs = []"
    using level by (auto simp: FINE_def) (simp add: verdictOf_def)
qed

definition all_reasons ::
    "string \<Rightarrow> referee_target \<Rightarrow> commitment list \<Rightarrow> referee_availability \<Rightarrow> referee_switches \<Rightarrow> referee_reason list" where
  "all_reasons personId target commitments availability switches =
     (let own = filter (\<lambda>c. personOf c = personId) commitments
      in fightReasons target (fights_of own) (fight_pools_of own) switches @
         dutyReasons target (duties_of own) switches @
         loadReasons target (duties_of own) switches @
         workshopReasons target own switches @
         availabilityReasons target availability)"

lemma in_optional: "r \<in> set (case x of None \<Rightarrow> [] | Some y \<Rightarrow> [f y]) \<longleftrightarrow> (\<exists>y. x = Some y \<and> r = f y)"
  by (cases x) auto

lemma in_wanted: "r \<in> set (if b then xs else []) \<longleftrightarrow> b \<and> r \<in> set xs"
  by simp

lemma fight_unconfirmed: "r \<in> set (fightReasons t fs ps sw) \<Longrightarrow> unconfirmed r"
  unfolding fightReasons_def Let_def set_append Un_iff in_wanted in_optional set_map
  by (elim disjE conjE exE imageE) simp_all

lemma duty_unconfirmed: "r \<in> set (dutyReason t sw d) \<Longrightarrow> unconfirmed r"
  unfolding dutyReason_def Let_def by (auto split: if_splits)

lemma load_unconfirmed: "r \<in> set (loadReasons t ds sw) \<Longrightarrow> unconfirmed r"
  unfolding loadReasons_def by (auto split: option.splits)

lemma workshop_reason_unconfirmed: "r \<in> set (workshopReason t sw c) \<Longrightarrow> unconfirmed r"
  by (cases c) (auto split: if_split_asm)

lemma workshop_unconfirmed: "r \<in> set (workshopReasons t cs sw) \<Longrightarrow> unconfirmed r"
  unfolding workshopReasons_def by (auto dest: workshop_reason_unconfirmed)

lemma all_unconfirmed: "r \<in> set (all_reasons p t cs av sw) \<Longrightarrow> unconfirmed r"
  by (auto simp: all_reasons_def Let_def dutyReasons_def availabilityReasons_def
      intro: fight_unconfirmed duty_unconfirmed load_unconfirmed workshop_unconfirmed split: if_splits)

lemma checkReferee_fine:
  "checkReferee p t cs av sw = FINE \<longleftrightarrow> all_reasons p t cs av sw = []"
  "vd_level (checkReferee p t cs av sw) = Fine \<longleftrightarrow> all_reasons p t cs av sw = []"
  using verdictOf_fine [of "all_reasons p t cs av sw"] all_unconfirmed
  by (simp_all add: checkReferee_def all_reasons_def Let_def)

section \<open>What the duties of a person decide, and what they do not\<close>

text \<open>Two targets of one day too close to each other; a duty that is no obstacle to a target.\<close>

definition too_close :: "referee_target \<Rightarrow> int \<Rightarrow> duty \<Rightarrow> bool" where
  "too_close t rest d \<longleftrightarrow> (\<exists>s s' day. tg_slot t = Some s \<and> tg_day t = Some day \<and> du_slot d = Some s' \<and> du_day d = Some day \<and>
     0 < rest \<and> s' \<noteq> s \<and> \<bar>s' - s\<bar> \<le> rest)"

definition duty_free :: "referee_target \<Rightarrow> referee_switches \<Rightarrow> duty \<Rightarrow> bool" where
  "duty_free t sw d \<longleftrightarrow> dutyReason t sw d = [] \<and> (isOnTarget d t \<or> \<not> too_close t (sw_restSlots sw) d)"

definition day_bouts :: "string \<Rightarrow> referee_target \<Rightarrow> duty set \<Rightarrow> string set" where
  "day_bouts p t ds = set (tg_matchIds t) \<union> (\<Union>d \<in> {d \<in> ds. du_personId d = p \<and> du_day d = tg_day t}. set (du_matchIds d))"

definition free_of :: "string \<Rightarrow> referee_target \<Rightarrow> referee_switches \<Rightarrow> duty set \<Rightarrow> bool" where
  "free_of p t sw ds \<longleftrightarrow> (\<forall>d \<in> ds. du_personId d = p \<longrightarrow> duty_free t sw d) \<and>
     (0 < sw_maxBoutsPerDay sw \<longrightarrow> tg_day t \<noteq> None \<longrightarrow> int (card (day_bouts p t ds)) \<le> sw_maxBoutsPerDay sw)"

definition besides_duties ::
    "string \<Rightarrow> referee_target \<Rightarrow> commitment list \<Rightarrow> referee_availability \<Rightarrow> referee_switches \<Rightarrow> bool" where
  "besides_duties p t cs av sw \<longleftrightarrow>
     (let own = filter (\<lambda>c. personOf c = p) cs
      in fightReasons t (fights_of own) (fight_pools_of own) sw = [] \<and> workshopReasons t own sw = [] \<and> availabilityReasons t av = [])"

lemma commitments_append [simp]:
  "fights_of (xs @ ys) = fights_of xs @ fights_of ys" "fight_pools_of (xs @ ys) = fight_pools_of xs @ fight_pools_of ys"
  "duties_of (xs @ ys) = duties_of xs @ duties_of ys" "workshopReasons t (xs @ ys) sw = workshopReasons t xs sw @ workshopReasons t ys sw"
  by (simp_all add: fights_of_def fight_pools_of_def duties_of_def workshopReasons_def)

lemma commitments_duties [simp]:
  "fights_of (map Duty ds) = []" "fight_pools_of (map Duty ds) = []" "duties_of (map Duty ds) = ds" "workshopReasons t (map Duty ds) sw = []"
  by (induction ds) (simp_all add: fights_of_def fight_pools_of_def duties_of_def workshopReasons_def)

lemma filter_duties [simp]: "filter P (map Duty ds) = map Duty (filter (\<lambda>d. P (Duty d)) ds)"
  by (induction ds) simp_all

lemma duties_of_filter: "duties_of (filter P cs) = filter (\<lambda>d. P (Duty d)) (duties_of cs)"
proof (induction cs)
  case (Cons c cs)
  then show ?case by (cases c) (auto simp: duties_of_def)
qed (simp add: duties_of_def)

lemma others_kept:
  assumes "\<And>c. \<not> P c \<Longrightarrow> \<exists>d. c = Duty d"
  shows "fights_of (filter P cs) = fights_of cs" "fight_pools_of (filter P cs) = fight_pools_of cs"
    "workshopReasons t (filter P cs) sw = workshopReasons t cs sw"
proof -
  have "fights_of (filter P cs) = fights_of cs \<and> fight_pools_of (filter P cs) = fight_pools_of cs \<and>
      workshopReasons t (filter P cs) sw = workshopReasons t cs sw"
  proof (induction cs)
    case (Cons c cs)
    show ?case
    proof (cases "P c")
      case False
      then obtain d where "c = Duty d" using assms by blast
      with Cons False show ?thesis by (simp add: fights_of_def fight_pools_of_def workshopReasons_def)
    qed (use Cons in \<open>simp add: fights_of_def fight_pools_of_def workshopReasons_def\<close>)
  qed simp
  then show "fights_of (filter P cs) = fights_of cs" "fight_pools_of (filter P cs) = fight_pools_of cs"
    "workshopReasons t (filter P cs) sw = workshopReasons t cs sw" by simp_all
qed

lemma besides_append_duties [simp]: "besides_duties p t (cs @ map Duty ds) av sw = besides_duties p t cs av sw"
  by (simp add: besides_duties_def Let_def)

lemma own_duty_duty: "own_duty p t c \<Longrightarrow> \<exists>d. c = Duty d"
  by (cases c) (simp_all add: own_duty_def)

lemma besides_without_own [simp]:
  "besides_duties p t (filter (\<lambda>c. \<not> own_duty p t c) cs) av sw = besides_duties p t cs av sw"
proof -
  have swap: "filter (\<lambda>c. personOf c = p) (filter (\<lambda>c. \<not> own_duty p t c) cs)
      = filter (\<lambda>c. \<not> own_duty p t c) (filter (\<lambda>c. personOf c = p) cs)"
    by (simp add: conj_commute)
  have keep: "fights_of (filter (\<lambda>c. \<not> own_duty p t c) xs) = fights_of xs"
    "fight_pools_of (filter (\<lambda>c. \<not> own_duty p t c) xs) = fight_pools_of xs"
    "workshopReasons t (filter (\<lambda>c. \<not> own_duty p t c) xs) sw = workshopReasons t xs sw" for xs
    by (rule others_kept; use own_duty_duty in blast)+
  show ?thesis unfolding besides_duties_def Let_def swap keep ..
qed

lemma too_close_iff: "d \<in> set (dutiesTooClose t ds rest) \<longleftrightarrow> d \<in> set ds \<and> too_close t rest d"
  by (cases "tg_slot t"; cases "tg_day t"; cases "du_slot d") (auto simp: dutiesTooClose_def too_close_def Let_def)

lemma dutiesTooClose_Nil: "dutiesTooClose t ds rest = [] \<longleftrightarrow> (\<forall>d \<in> set ds. \<not> too_close t rest d)"
  using too_close_iff [of _ t ds rest] by (metis all_not_in_conv set_empty)

lemma over_cap_None:
  "boutsOverCap t (filter (\<lambda>d. du_personId d = p) ds) mx = None \<longleftrightarrow>
   (0 < mx \<longrightarrow> tg_day t \<noteq> None \<longrightarrow> int (card (day_bouts p t (set ds))) \<le> mx)"
proof (cases "tg_day t")
  case (Some date)
  have "bouts_of_day (filter (\<lambda>d. du_personId d = p) ds) date (tg_matchIds t) = day_bouts p t (set ds)"
    using Some by (auto simp: bouts_of_day_def day_bouts_def split: if_splits)
  then show ?thesis using Some by (auto simp: boutsOverCap_def boutsOnDay_def Let_def)
qed (simp add: boutsOverCap_def)

text \<open>A verdict is Fine when nothing besides the duties is in the way and the person is free of the duties.\<close>

lemma checkReferee_fine_iff:
  "checkReferee p t cs av sw = FINE \<longleftrightarrow> besides_duties p t cs av sw \<and> free_of p t sw (set (duties_of cs))"
proof -
  let ?ds = "filter (\<lambda>d. du_personId d = p) (duties_of cs)"
  have ds: "duties_of (filter (\<lambda>c. personOf c = p) cs) = ?ds" by (simp add: duties_of_filter)
  have "dutyReasons t ?ds sw = [] \<longleftrightarrow> (\<forall>d \<in> set ?ds. dutyReason t sw d = [])"
    by (auto simp: dutyReasons_def)
  moreover have "loadReasons t ?ds sw = [] \<longleftrightarrow> (\<forall>d \<in> set ?ds. isOnTarget d t \<or> \<not> too_close t (sw_restSlots sw) d) \<and>
      boutsOverCap t ?ds (sw_maxBoutsPerDay sw) = None"
    by (auto simp: loadReasons_def dutiesTooClose_Nil split: option.splits)
  ultimately show ?thesis
    unfolding checkReferee_fine all_reasons_def Let_def ds append_is_Nil_conv besides_duties_def free_of_def over_cap_None duty_free_def
    by auto
qed

lemma free_of_subset:
  assumes "free_of p t sw ds'" and "ds \<subseteq> ds'" and "finite ds'"
  shows "free_of p t sw ds"
proof -
  have "day_bouts p t ds \<subseteq> day_bouts p t ds'" using assms(2) by (auto simp: day_bouts_def)
  moreover have "finite (day_bouts p t ds')" using assms(3) by (simp add: day_bouts_def)
  ultimately have "card (day_bouts p t ds) \<le> card (day_bouts p t ds')" by (rule card_mono [rotated])
  then show ?thesis using assms(1,2) unfolding free_of_def by (auto intro: order_trans)
qed

lemma free_of_other_person: "du_personId d \<noteq> p \<Longrightarrow> free_of p t sw (insert d ds) = free_of p t sw ds"
proof -
  assume "du_personId d \<noteq> p"
  then have "day_bouts p t (insert d ds) = day_bouts p t ds" by (auto simp: day_bouts_def)
  with \<open>du_personId d \<noteq> p\<close> show ?thesis by (simp add: free_of_def)
qed

lemma checkAssignment_fine_iff:
  "checkAssignment cs avf sw p t = FINE \<longleftrightarrow>
   besides_duties p t cs (avf p) sw \<and> free_of p t sw {d \<in> set (duties_of cs). \<not> own_duty p t (Duty d)}"
  by (simp add: checkAssignment_def checkReferee_fine_iff duties_of_filter)

section \<open>Confirming\<close>

text \<open>A confirm never covers an Impossible reason, and covers every Discouraged one it was shown.\<close>

lemma impossible_is_never_confirmed:
  "vd_level (markConfirmed v stored) = Impossible \<longleftrightarrow> list_ex (\<lambda>r. re_level r = Impossible) (vd_reasons v)"
  by (auto simp: markConfirmed_def verdictOf_def list_ex_iff)

lemma confirm_covers_what_it_was_shown: "vd_level (markConfirmed v (toStoredReasons v)) \<noteq> Discouraged"
proof -
  define mark where "mark = (\<lambda>r. r\<lparr>re_confirmed := re_level r = Discouraged \<and>
    list_ex (\<lambda>s. sr_code s = re_code r \<and> sr_label s = label_against r) (toStoredReasons v)\<rparr>)"
  have "re_confirmed (mark r)" if "r \<in> set (vd_reasons v)" "re_level r = Discouraged" for r :: referee_reason
    using that by (auto simp: mark_def toStoredReasons_def list_ex_iff)
  moreover have "re_level (mark r) = re_level r" for r by (simp add: mark_def)
  ultimately have "\<not> list_ex (\<lambda>r. re_level r = Discouraged \<and> \<not> re_confirmed r) (map mark (vd_reasons v))"
    by (auto simp: list_ex_iff)
  then show ?thesis by (simp add: markConfirmed_def verdictOf_def flip: mark_def)
qed

text \<open>
  What was stored is read back from its JSON; anything in it that is not a stored reason is dropped.
\<close>

fun code_text :: "reason_code \<Rightarrow> string" where
  "code_text OwnMatch = ''own_match''"
| "code_text FightsOverlap = ''fights_overlap''"
| "code_text RefereesOverlap = ''referees_overlap''"
| "code_text TeachesOverlap = ''teaches_overlap''"
| "code_text OutsideAvailability = ''outside_availability''"
| "code_text OwnPool = ''own_pool''"
| "code_text OwnPoolSpan = ''own_pool_span''"
| "code_text TwoRoles = ''two_roles''"
| "code_text AttendsOverlap = ''attends_overlap''"
| "code_text Rest = ''rest''"
| "code_text Cap = ''cap''"

definition stored_item :: "json \<Rightarrow> stored_reason list" where
  "stored_item item =
     (case (field ''code'' item, field ''label'' item) of
        (Some (JText code), Some (JText label)) \<Rightarrow>
          (case find (\<lambda>c. code_text c = code) REFEREE_REASON_CODES of
             Some c \<Rightarrow> [\<lparr>sr_code = c, sr_label = label\<rparr>]
           | None \<Rightarrow> [])
      | _ \<Rightarrow> [])"

definition parseStoredReasons :: "json \<Rightarrow> stored_reason list" where
  "parseStoredReasons stored = (case stored of JList items \<Rightarrow> concat (map stored_item items) | _ \<Rightarrow> [])"

definition stored_json :: "stored_reason \<Rightarrow> json" where
  "stored_json s = JObject [(''code'', JText (code_text (sr_code s))), (''label'', JText (sr_label s))]"

lemma find_code [simp]: "find (\<lambda>c. code_text c = code_text code) REFEREE_REASON_CODES = Some code"
  by (cases code) (simp_all add: REFEREE_REASON_CODES_def)

lemma stored_item_json [simp]: "stored_item (stored_json s) = [s]"
  by (simp add: stored_item_def stored_json_def field_def)

lemma stored_reasons_read_back: "parseStoredReasons (JList (map stored_json ss)) = ss"
  by (induction ss) (simp_all add: parseStoredReasons_def)

end
