(* ===== verification/Referee_Assigner.thy ===== *)
theory Referee_Assigner
  imports Referee_Checker
begin

text \<open>
  The engine that proposes referees: every slot of every unit in turn, every candidate put to the
  checker with the proposals so far counted as duties, and among those the checker leaves
  Fine the best rated, then the least loaded.
\<close>

record qualification =
  ql_role :: string
  ql_rating :: "rat option"

record referee_candidate =
  ca_personId :: string
  ca_personName :: string
  ca_qualifications :: "qualification list"

record slot_definition =
  sl_index :: nat
  sl_displayName :: "string option"
  sl_allowedSkillIds :: "string list"

text \<open>The target of a unit has no role yet: the engine overwrites it for every candidate.\<close>

record pool_slot =
  ps_poolId :: string
  ps_poolName :: string
  ps_target :: referee_target
  ps_label :: string
  ps_slotDefinitions :: "slot_definition list option"
  ps_isFinals :: bool

record assignment_settings =
  as_ratingBasedOrdering :: bool
  as_workloadBalance :: bool

record engine_rules =
  er_commitmentsByPerson :: "string \<Rightarrow> commitment list option"
  er_availabilityOf :: "string \<Rightarrow> referee_availability"
  er_switches :: referee_switches

record referee_assignment =
  ra_poolId :: string
  ra_poolName :: string
  ra_slotIndex :: nat
  ra_role :: string
  ra_personId :: string
  ra_personName :: string
  ra_autoAssigned :: bool
  ra_isFinals :: bool

datatype empty_slot_reason = NoQualifiedUsers | AllQualifiedAlreadySeated | Refused reason_code

record missing_assignment =
  mi_poolId :: string
  mi_poolName :: string
  mi_slotIndex :: nat
  mi_role :: "string option"
  mi_rejectionReasons :: "empty_slot_reason list"
  mi_isFinals :: bool

record prior_assignment =
  pr_poolId :: string
  pr_role :: string
  pr_personId :: string

definition LEGACY_DEFAULT_SLOTS :: "slot_definition list" where
  "LEGACY_DEFAULT_SLOTS =
     [\<lparr>sl_index = 1, sl_displayName = None, sl_allowedSkillIds = [''arbitre_declarant'']\<rparr>,
      \<lparr>sl_index = 2, sl_displayName = None, sl_allowedSkillIds = [''arbitre_assesseur'']\<rparr>,
      \<lparr>sl_index = 3, sl_displayName = None, sl_allowedSkillIds = [''arbitre_table'']\<rparr>]"

text \<open>The run so far. A \<open>Map\<close> that is read with a default is the function of its reads.\<close>

record run_state =
  rs_proposals :: "string \<Rightarrow> duty list"
  rs_seated :: "string \<Rightarrow> string list"
  rs_workload :: "string \<Rightarrow> nat"

definition seatKey :: "string \<Rightarrow> string \<Rightarrow> string" where
  "seatKey personId role = personId @ ''|'' @ role"

definition seat :: "string \<Rightarrow> string \<Rightarrow> string \<Rightarrow> run_state \<Rightarrow> run_state" where
  "seat poolId personId role st = st\<lparr>
     rs_seated := (rs_seated st)(poolId := List.insert (seatKey personId role) (rs_seated st poolId)),
     rs_workload := (rs_workload st)(personId := rs_workload st personId + 1)\<rparr>"

definition proposed_duty :: "pool_slot \<Rightarrow> referee_assignment \<Rightarrow> duty" where
  "proposed_duty pool a = \<lparr>du_personId = ra_personId a, du_window = tg_window (ps_target pool), du_label = ps_label pool,
     du_unitId = tg_unitId (ps_target pool), du_poolId = tg_poolId (ps_target pool), du_matchId = None,
     du_role = ra_role a, du_matchIds = tg_matchIds (ps_target pool), du_slot = tg_slot (ps_target pool),
     du_day = tg_day (ps_target pool)\<rparr>"

definition propose :: "run_state \<Rightarrow> pool_slot \<Rightarrow> referee_assignment \<Rightarrow> run_state" where
  "propose st pool a =
     (let st' = seat (ps_poolId pool) (ra_personId a) (ra_role a) st
      in st'\<lparr>rs_proposals := (rs_proposals st')(ra_personId a := rs_proposals st' (ra_personId a) @ [proposed_duty pool a])\<rparr>)"

fun best_from :: "slot_definition \<Rightarrow> qualification option \<Rightarrow> qualification list \<Rightarrow> qualification option" where
  "best_from slot best [] = best"
| "best_from slot best (q # qs) =
     (if ql_role q \<notin> set (sl_allowedSkillIds slot) then best_from slot best qs
      else case best of
        None \<Rightarrow> best_from slot (Some q) qs
      | Some b \<Rightarrow>
          if or_else (ql_rating q) (-1) > or_else (ql_rating b) (-1) then best_from slot (Some q) qs
          else best_from slot (Some b) qs)"

definition bestMatchingQual :: "referee_candidate \<Rightarrow> slot_definition \<Rightarrow> qualification option" where
  "bestMatchingQual candidate slot = best_from slot None (ca_qualifications candidate)"

definition fightsIn :: "commitment list \<Rightarrow> referee_target \<Rightarrow> bool" where
  "fightsIn commitments target \<longleftrightarrow>
     list_ex (\<lambda>c. case c of FightPool p \<Rightarrow> tg_groupId target \<noteq> None \<and> Some (fp_groupId p) = tg_groupId target | _ \<Rightarrow> False)
       commitments"

definition refusals :: "string \<Rightarrow> string \<Rightarrow> pool_slot \<Rightarrow> engine_rules \<Rightarrow> run_state \<Rightarrow> reason_code list" where
  "refusals personId role pool rules st =
     (let own = or_else (er_commitmentsByPerson rules personId) [] in
      if fightsIn own (ps_target pool) then [OwnPool]
      else let verdict = checkReferee personId ((ps_target pool)\<lparr>tg_role := role\<rparr>)
                 (own @ map Duty (rs_proposals st personId)) (er_availabilityOf rules personId) (er_switches rules)
           in if vd_level verdict = Fine then [] else map re_code (vd_reasons verdict))"

definition score :: "assignment_settings \<Rightarrow> run_state \<Rightarrow> referee_candidate \<times> qualification \<Rightarrow> rat" where
  "score settings st cq =
     (if as_ratingBasedOrdering settings then - or_else (ql_rating (snd cq)) 0 * 10 else 0) +
     (if as_workloadBalance settings then of_nat (rs_workload st (ca_personId (fst cq))) * 5 else 0)"

definition qualified_for :: "referee_candidate list \<Rightarrow> slot_definition \<Rightarrow> (referee_candidate \<times> qualification) list" where
  "qualified_for candidates slot =
     concat (map (\<lambda>c. case bestMatchingQual c slot of Some q \<Rightarrow> [(c, q)] | None \<Rightarrow> []) candidates)"

definition assignSlot ::
    "pool_slot \<Rightarrow> slot_definition \<Rightarrow> referee_candidate list \<Rightarrow> assignment_settings \<Rightarrow> engine_rules \<Rightarrow> run_state \<Rightarrow>
     empty_slot_reason list + referee_assignment" where
  "assignSlot pool slot candidates settings rules st =
     (let qualified = qualified_for candidates slot in
      if length qualified = 0 then Inl [NoQualifiedUsers]
      else
        let seatedHere = rs_seated st (ps_poolId pool);
            free = filter (\<lambda>(c, q). seatKey (ca_personId c) (ql_role q) \<notin> set seatedHere) qualified
        in if length free = 0 then Inl [AllQualifiedAlreadySeated]
        else
          let codes = (\<lambda>(c, q). refusals (ca_personId c) (ql_role q) pool rules st);
              refused = concat (map codes free);
              fine = filter (\<lambda>cq. codes cq = []) free
          in if length fine = 0 then Inl (map Refused (filter (\<lambda>code. code \<in> set refused) REFEREE_REASON_CODES))
          else
            let (c, q) = hd (sort_by (\<lambda>a b. score settings st a - score settings st b) fine)
            in Inr \<lparr>ra_poolId = ps_poolId pool, ra_poolName = ps_poolName pool, ra_slotIndex = sl_index slot,
                  ra_role = ql_role q, ra_personId = ca_personId c, ra_personName = ca_personName c,
                  ra_autoAssigned = True, ra_isFinals = False\<rparr>)"

text \<open>The roles of the priors of a unit, each taken by the first slot that allows it.\<close>

fun take_first :: "('a \<Rightarrow> bool) \<Rightarrow> 'a list \<Rightarrow> 'a list option" where
  "take_first P [] = None"
| "take_first P (x # xs) = (if P x then Some xs else map_option ((#) x) (take_first P xs))"

record engine_state =
  es_assignments :: "referee_assignment list"
  es_missing :: "missing_assignment list"
  es_run :: run_state
  es_priorRoles :: "string \<Rightarrow> string list"

definition slot_step ::
    "referee_candidate list \<Rightarrow> assignment_settings \<Rightarrow> engine_rules \<Rightarrow> pool_slot \<Rightarrow> slot_definition \<Rightarrow> engine_state \<Rightarrow> engine_state" where
  "slot_step candidates settings rules pool slot st =
     (case take_first (\<lambda>r. r \<in> set (sl_allowedSkillIds slot)) (es_priorRoles st (ps_poolId pool)) of
        Some rest \<Rightarrow> st\<lparr>es_priorRoles := (es_priorRoles st)(ps_poolId pool := rest)\<rparr>
      | None \<Rightarrow>
          (case assignSlot pool slot candidates settings rules (es_run st) of
             Inr assigned \<Rightarrow>
               let stamped = (if ps_isFinals pool then assigned\<lparr>ra_isFinals := True\<rparr> else assigned)
               in st\<lparr>es_assignments := es_assignments st @ [stamped], es_run := propose (es_run st) pool stamped\<rparr>
           | Inl reasons \<Rightarrow>
               st\<lparr>es_missing := es_missing st @ [\<lparr>mi_poolId = ps_poolId pool, mi_poolName = ps_poolName pool,
                 mi_slotIndex = sl_index slot,
                 mi_role = (case sl_allowedSkillIds slot of [] \<Rightarrow> None | r # _ \<Rightarrow> Some r),
                 mi_rejectionReasons = reasons, mi_isFinals = ps_isFinals pool\<rparr>]\<rparr>))"

definition slots_of :: "pool_slot \<Rightarrow> slot_definition list" where
  "slots_of pool = or_else (ps_slotDefinitions pool) LEGACY_DEFAULT_SLOTS"

definition pool_step ::
    "referee_candidate list \<Rightarrow> assignment_settings \<Rightarrow> engine_rules \<Rightarrow> pool_slot \<Rightarrow> engine_state \<Rightarrow> engine_state" where
  "pool_step candidates settings rules pool = fold (slot_step candidates settings rules pool) (slots_of pool)"

definition start_state :: "prior_assignment list \<Rightarrow> engine_state" where
  "start_state priors = \<lparr>es_assignments = [], es_missing = [],
     es_run = fold (\<lambda>p. seat (pr_poolId p) (pr_personId p) (pr_role p)) priors
       \<lparr>rs_proposals = (\<lambda>_. []), rs_seated = (\<lambda>_. []), rs_workload = (\<lambda>_. 0)\<rparr>,
     es_priorRoles = (\<lambda>poolId. map pr_role (filter (\<lambda>p. pr_poolId p = poolId) priors))\<rparr>"

definition assignReferees ::
    "pool_slot list \<Rightarrow> referee_candidate list \<Rightarrow> assignment_settings \<Rightarrow> engine_rules \<Rightarrow> prior_assignment list \<Rightarrow>
     referee_assignment list \<times> missing_assignment list" where
  "assignReferees pools candidates settings rules priors =
     (let st = fold (pool_step candidates settings rules) pools (start_state priors)
      in (es_assignments st, es_missing st))"

section \<open>Two proposals never disturb each other\<close>

definition proposed_target :: "pool_slot \<Rightarrow> referee_assignment \<Rightarrow> referee_target" where
  "proposed_target pool a = (ps_target pool)\<lparr>tg_role := ra_role a\<rparr>"

lemma overlaps_sym: "overlaps a b = overlaps b a"
  by (cases a; cases b) (auto simp: overlaps_def overlapsHalfOpen_def)

lemma on_target_sym: "isOnTarget (proposed_duty pool a) (proposed_target pool' b) = isOnTarget (proposed_duty pool' b) (proposed_target pool a)"
  by (auto simp: isOnTarget_def proposed_duty_def proposed_target_def)

lemma too_close_sym: "too_close (proposed_target pool' b) rest (proposed_duty pool a) = too_close (proposed_target pool a) rest (proposed_duty pool' b)"
  by (auto simp: too_close_def proposed_duty_def proposed_target_def abs_minus_commute)

lemma duty_free_sym:
  "duty_free (proposed_target pool' b) sw (proposed_duty pool a) = duty_free (proposed_target pool a) sw (proposed_duty pool' b)"
proof -
  have d: "du_matchId (proposed_duty p x) = None" "du_window (proposed_duty p x) = tg_window (proposed_target p x)"
    "du_role (proposed_duty p x) = tg_role (proposed_target p x)" for p x
    by (simp_all add: proposed_duty_def proposed_target_def)
  have "(dutyReason (proposed_target pool' b) sw (proposed_duty pool a) = []) = (dutyReason (proposed_target pool a) sw (proposed_duty pool' b) = [])"
    unfolding dutyReason_def Let_def d on_target_sym [of pool a pool' b] overlaps_sym [of "tg_window (proposed_target pool a)"]
    by auto
  then show ?thesis
    unfolding duty_free_def on_target_sym [of pool a pool' b] too_close_sym [of pool' b _ pool a] by simp
qed

lemma proposed_simps [simp]:
  "du_personId (proposed_duty pool a) = ra_personId a" "du_day (proposed_duty pool a) = tg_day (proposed_target pool a)"
  "du_matchIds (proposed_duty pool a) = tg_matchIds (proposed_target pool a)"
  by (simp_all add: proposed_duty_def proposed_target_def)

section \<open>The run as a log\<close>

text \<open>A run as the unit, the slot and the assignment of every proposal, in their order.\<close>

type_synonym run_log = "(pool_slot \<times> slot_definition \<times> referee_assignment) list"

definition own_of :: "engine_rules \<Rightarrow> string \<Rightarrow> commitment list" where
  "own_of rules p = or_else (er_commitmentsByPerson rules p) []"

definition duties_in :: "run_log \<Rightarrow> duty list" where
  "duties_in made = map (\<lambda>(pool, _, a). proposed_duty pool a) made"

lemma duties_in_snoc [simp]: "duties_in (made @ [(pool, slot, a)]) = duties_in made @ [proposed_duty pool a]"
  by (simp add: duties_in_def)

text \<open>
  A proposal stands when the checker, asked again about it with all the other proposals of
  the run as duties, has nothing against it.
\<close>

definition proposal_stands :: "engine_rules \<Rightarrow> run_log \<Rightarrow> pool_slot \<times> slot_definition \<times> referee_assignment \<Rightarrow> bool" where
  "proposal_stands rules made e =
     (case e of (pool, _, a) \<Rightarrow>
        checkAssignment (own_of rules (ra_personId a) @ map Duty (duties_in made)) (er_availabilityOf rules) (er_switches rules)
          (ra_personId a) (proposed_target pool a) = FINE)"

definition free_when_proposed :: "engine_rules \<Rightarrow> run_log \<Rightarrow> pool_slot \<Rightarrow> referee_assignment \<Rightarrow> bool" where
  "free_when_proposed rules made pool a \<longleftrightarrow>
     besides_duties (ra_personId a) (proposed_target pool a) (own_of rules (ra_personId a)) (er_availabilityOf rules (ra_personId a)) (er_switches rules) \<and>
     free_of (ra_personId a) (proposed_target pool a) (er_switches rules)
       (set (duties_of (own_of rules (ra_personId a))) \<union> {d \<in> set (duties_in made). du_personId d = ra_personId a})"

definition others :: "engine_rules \<Rightarrow> run_log \<Rightarrow> pool_slot \<Rightarrow> referee_assignment \<Rightarrow> duty set" where
  "others rules made pool a =
     {d \<in> set (duties_of (own_of rules (ra_personId a))) \<union> set (duties_in made). \<not> own_duty (ra_personId a) (proposed_target pool a) (Duty d)}"

lemma finite_others [simp]: "finite (others rules made pool a)"
  by (simp add: others_def)

lemma proposal_stands_iff:
  "proposal_stands rules made (pool, slot, a) \<longleftrightarrow>
     besides_duties (ra_personId a) (proposed_target pool a) (own_of rules (ra_personId a)) (er_availabilityOf rules (ra_personId a)) (er_switches rules) \<and>
     free_of (ra_personId a) (proposed_target pool a) (er_switches rules) (others rules made pool a)"
  by (simp add: proposal_stands_def checkAssignment_fine_iff others_def)

lemma free_of_persons: "free_of p t sw ds = free_of p t sw {d \<in> ds. du_personId d = p}"
proof -
  have "day_bouts p t {d \<in> ds. du_personId d = p} = day_bouts p t ds" by (auto simp: day_bouts_def)
  then show ?thesis by (auto simp: free_of_def)
qed

lemma new_proposal_stands:
  assumes "free_when_proposed rules made pool a"
  shows "proposal_stands rules (made @ [(pool, slot, a)]) (pool, slot, a)"
proof -
  let ?p = "ra_personId a" and ?t = "proposed_target pool a"
  have "own_duty ?p ?t (Duty (proposed_duty pool a))"
    by (simp add: own_duty_def proposed_duty_def proposed_target_def)
  then have "{d \<in> others rules (made @ [(pool, slot, a)]) pool a. du_personId d = ?p}
      \<subseteq> set (duties_of (own_of rules ?p)) \<union> {d \<in> set (duties_in made). du_personId d = ?p}"
    by (auto simp: others_def)
  then have "free_of ?p ?t (er_switches rules) (others rules (made @ [(pool, slot, a)]) pool a)"
    using assms unfolding free_when_proposed_def by (subst free_of_persons) (auto elim!: free_of_subset)
  then show ?thesis using assms by (simp add: proposal_stands_iff free_when_proposed_def)
qed

text \<open>A proposal made later leaves the earlier ones standing.\<close>

lemma old_proposal_stands:
  assumes "(pool, slot, a) \<in> set made" and "proposal_stands rules made (pool, slot, a)" and "free_when_proposed rules made pool' b"
  shows "proposal_stands rules (made @ [(pool', slot', b)]) (pool, slot, a)"
proof -
  let ?p = "ra_personId a" and ?t = "proposed_target pool a" and ?d = "proposed_duty pool' b"
  let ?old = "others rules made pool a" and ?new = "others rules (made @ [(pool', slot', b)]) pool a"
  have new: "?new \<subseteq> insert ?d ?old" by (auto simp: others_def)
  have "free_of ?p ?t (er_switches rules) (insert ?d ?old)"
  proof (cases "ra_personId b = ?p")
    case False
    then show ?thesis using assms(2) by (simp add: proposal_stands_iff free_of_other_person)
  next
    case True
    let ?seen = "set (duties_of (own_of rules ?p)) \<union> {d \<in> set (duties_in made). du_personId d = ?p}"
    have b: "free_of ?p (proposed_target pool' b) (er_switches rules) ?seen"
      using assms(3) True by (simp add: free_when_proposed_def)
    have mine: "proposed_duty pool a \<in> ?seen" using assms(1) by (force simp: duties_in_def)
    then have "duty_free (proposed_target pool' b) (er_switches rules) (proposed_duty pool a)"
      using b by (auto simp: free_of_def)
    then have free: "duty_free ?t (er_switches rules) ?d" by (simp only: duty_free_sym)
    have old: "free_of ?p ?t (er_switches rules) ?old" using assms(2) by (simp add: proposal_stands_iff)
    have cap: "int (card (day_bouts ?p ?t (insert ?d ?old))) \<le> sw_maxBoutsPerDay (er_switches rules)"
      if "0 < sw_maxBoutsPerDay (er_switches rules)" and "tg_day ?t \<noteq> None"
    proof (cases "tg_day (proposed_target pool' b) = tg_day ?t")
      case False
      then have "day_bouts ?p ?t (insert ?d ?old) = day_bouts ?p ?t ?old" by (auto simp: day_bouts_def)
      then show ?thesis using old that by (simp add: free_of_def)
    next
      case same: True
      have "day_bouts ?p ?t (insert ?d ?old) \<subseteq> day_bouts ?p (proposed_target pool' b) ?seen"
        using same mine by (fastforce simp: day_bouts_def others_def)
      moreover have "finite (day_bouts ?p (proposed_target pool' b) ?seen)" by (simp add: day_bouts_def)
      ultimately have "card (day_bouts ?p ?t (insert ?d ?old)) \<le> card (day_bouts ?p (proposed_target pool' b) ?seen)"
        by (rule card_mono [rotated])
      then show ?thesis using b same that by (auto simp: free_of_def)
    qed
    show ?thesis using free old cap by (auto simp: free_of_def)
  qed
  then have "free_of ?p ?t (er_switches rules) ?new"
    using new by (rule free_of_subset) simp
  then show ?thesis using assms(2) by (simp add: proposal_stands_iff)
qed

section \<open>One slot\<close>

lemma qualified_for_iff:
  "(c, q) \<in> set (qualified_for candidates slot) \<longleftrightarrow> c \<in> set candidates \<and> bestMatchingQual c slot = Some q"
  by (auto simp: qualified_for_def split: option.splits)

lemma best_from_cases: "best_from slot best qs = Some q \<Longrightarrow> Some q = best \<or> q \<in> set qs \<and> ql_role q \<in> set (sl_allowedSkillIds slot)"
  by (induction slot best qs rule: best_from.induct) (auto split: if_splits option.splits)

lemma qualified_holds:
  assumes "(c, q) \<in> set (qualified_for candidates slot)"
  shows "c \<in> set candidates" and "q \<in> set (ca_qualifications c)" and "ql_role q \<in> set (sl_allowedSkillIds slot)"
  using assms best_from_cases [of slot None "ca_qualifications c" q] by (auto simp: qualified_for_iff bestMatchingQual_def)

lemma not_fine_reasons: "vd_level (checkReferee p t cs av sw) \<noteq> Fine \<Longrightarrow> vd_reasons (checkReferee p t cs av sw) \<noteq> []"
  by (auto simp: checkReferee_def Let_def verdictOf_def split: if_splits)

lemma no_refusal:
  assumes "refusals p role pool rules st = []"
  shows "\<not> fightsIn (own_of rules p) (ps_target pool)"
    and "checkReferee p ((ps_target pool)\<lparr>tg_role := role\<rparr>) (own_of rules p @ map Duty (rs_proposals st p))
      (er_availabilityOf rules p) (er_switches rules) = FINE"
  using assms not_fine_reasons [of p "(ps_target pool)\<lparr>tg_role := role\<rparr>"]
  by (auto simp: refusals_def Let_def own_of_def [symmetric] checkReferee_fine split: if_splits)

text \<open>Whom the engine picks: a free candidate without a refusal, and nobody of these scores lower.\<close>

lemma picked:
  assumes "assignSlot pool slot candidates settings rules st = Inr a"
  obtains c q where "(c, q) \<in> set (qualified_for candidates slot)"
    and "seatKey (ca_personId c) (ql_role q) \<notin> set (rs_seated st (ps_poolId pool))"
    and "refusals (ca_personId c) (ql_role q) pool rules st = []"
    and "ra_personId a = ca_personId c" and "ra_role a = ql_role q" and "ra_poolId a = ps_poolId pool"
    and "ra_slotIndex a = sl_index slot" and "\<not> ra_isFinals a"
proof -
  define fine where "fine = filter (\<lambda>cq. (\<lambda>(c, q). refusals (ca_personId c) (ql_role q) pool rules st) cq = [])
    (filter (\<lambda>(c, q). seatKey (ca_personId c) (ql_role q) \<notin> set (rs_seated st (ps_poolId pool))) (qualified_for candidates slot))"
  define best where "best = hd (sort_by (\<lambda>a b. score settings st a - score settings st b) fine)"
  have ne: "fine \<noteq> []" and a: "(case best of (c, q) \<Rightarrow> \<lparr>ra_poolId = ps_poolId pool, ra_poolName = ps_poolName pool,
      ra_slotIndex = sl_index slot, ra_role = ql_role q, ra_personId = ca_personId c, ra_personName = ca_personName c,
      ra_autoAssigned = True, ra_isFinals = False\<rparr>) = a"
    using assms unfolding assignSlot_def Let_def fine_def [symmetric] best_def [symmetric]
    by (auto split: if_splits prod.splits)
  have "best \<in> set fine"
    unfolding best_def using ne by (metis hd_in_set set_sort_by sort_by_eq_Nil)
  then show ?thesis using a by (intro that [of "fst best" "snd best"]) (auto simp: fine_def split: prod.splits)
qed

lemma all_codes: "code \<in> set REFEREE_REASON_CODES"
  by (cases code) (simp_all add: REFEREE_REASON_CODES_def)

lemma reasons_named:
  assumes "assignSlot pool slot candidates settings rules st = Inl reasons"
  shows "reasons \<noteq> []"
proof -
  define free where "free = filter (\<lambda>(c, q). seatKey (ca_personId c) (ql_role q) \<notin> set (rs_seated st (ps_poolId pool))) (qualified_for candidates slot)"
  define codes where "codes = (\<lambda>(c :: referee_candidate, q :: qualification). refusals (ca_personId c) (ql_role q) pool rules st)"
  have "filter (\<lambda>code. code \<in> set (concat (map codes free))) REFEREE_REASON_CODES \<noteq> []"
    if "free \<noteq> []" and none: "filter (\<lambda>cq. codes cq = []) free = []"
  proof -
    have "codes (hd free) \<noteq> []" using that by (metis (mono_tags, lifting) filter_empty_conv hd_in_set)
    then have "hd (codes (hd free)) \<in> set (concat (map codes free))" using that by (auto intro: hd_in_set)
    then show ?thesis using all_codes by (metis (mono_tags, lifting) filter_empty_conv)
  qed
  then show ?thesis
    using assms unfolding assignSlot_def Let_def free_def [symmetric] codes_def [symmetric]
    by (auto split: if_splits prod.splits simp del: set_concat)
qed

section \<open>The whole run\<close>

definition referee_slots :: "pool_slot list \<Rightarrow> (pool_slot \<times> slot_definition) list" where
  "referee_slots pools = concat (map (\<lambda>pool. map (Pair pool) (slots_of pool)) pools)"

lemma run_over_slots:
  "fold (pool_step candidates settings rules) pools st
    = fold (\<lambda>(pool, slot). slot_step candidates settings rules pool slot) (referee_slots pools) st"
  by (induction pools arbitrary: st) (simp_all add: referee_slots_def pool_step_def fold_map o_def)

text \<open>What the engine owes for a proposal.\<close>

definition well_seated ::
    "referee_candidate list \<Rightarrow> engine_rules \<Rightarrow> pool_slot \<times> slot_definition \<times> referee_assignment \<Rightarrow> bool" where
  "well_seated candidates rules e =
     (case e of (pool, slot, a) \<Rightarrow>
        ra_poolId a = ps_poolId pool \<and> ra_slotIndex a = sl_index slot \<and> ra_isFinals a = ps_isFinals pool \<and>
        ra_role a \<in> set (sl_allowedSkillIds slot) \<and>
        (\<exists>c \<in> set candidates. ra_personId a = ca_personId c \<and> ra_role a \<in> ql_role ` set (ca_qualifications c)) \<and>
        \<not> fightsIn (own_of rules (ra_personId a)) (ps_target pool))"

definition seat_of :: "pool_slot \<times> slot_definition \<times> referee_assignment \<Rightarrow> string \<times> string \<times> string" where
  "seat_of e = (case e of (pool, _, a) \<Rightarrow> (ps_poolId pool, ra_personId a, ra_role a))"

definition prior_seat :: "prior_assignment \<Rightarrow> string \<times> string \<times> string" where
  "prior_seat p = (pr_poolId p, pr_personId p, pr_role p)"

definition seat_taken :: "run_state \<Rightarrow> string \<times> string \<times> string \<Rightarrow> bool" where
  "seat_taken st s = (case s of (poolId, personId, role) \<Rightarrow> seatKey personId role \<in> set (rs_seated st poolId))"

definition says_why :: "pool_slot \<times> slot_definition \<Rightarrow> missing_assignment \<Rightarrow> bool" where
  "says_why ps m \<longleftrightarrow> mi_poolId m = ps_poolId (fst ps) \<and> mi_slotIndex m = sl_index (snd ps) \<and> mi_rejectionReasons m \<noteq> []"

definition has_prior :: "prior_assignment list \<Rightarrow> pool_slot \<times> slot_definition \<Rightarrow> bool" where
  "has_prior priors ps \<longleftrightarrow> (\<exists>p \<in> set priors. pr_poolId p = ps_poolId (fst ps) \<and> pr_role p \<in> set (sl_allowedSkillIds (snd ps)))"

definition run_ok ::
    "referee_candidate list \<Rightarrow> engine_rules \<Rightarrow> prior_assignment list \<Rightarrow> (pool_slot \<times> slot_definition) list \<Rightarrow>
     run_log \<Rightarrow> (pool_slot \<times> slot_definition) list \<Rightarrow> (pool_slot \<times> slot_definition) list \<Rightarrow> engine_state \<Rightarrow> bool" where
  "run_ok candidates rules priors slots made missed skipped st \<longleftrightarrow>
     es_assignments st = map (\<lambda>(_, _, a). a) made \<and>
     (\<forall>p. rs_proposals (es_run st) p = filter (\<lambda>d. du_personId d = p) (duties_in made)) \<and>
     list_all (proposal_stands rules made) made \<and> list_all (well_seated candidates rules) made \<and>
     distinct (map seat_of made) \<and> set (map seat_of made) \<inter> set (map prior_seat priors) = {} \<and>
     list_all (seat_taken (es_run st)) (map seat_of made @ map prior_seat priors) \<and>
     (\<forall>poolId. set (es_priorRoles st poolId) \<subseteq> set (map pr_role (filter (\<lambda>p. pr_poolId p = poolId) priors))) \<and>
     list_all2 says_why missed (es_missing st) \<and> list_all (has_prior priors) skipped \<and>
     mset (map (\<lambda>(pool, slot, _). (pool, slot)) made) + mset missed + mset skipped = mset slots"

lemma take_first_found: "take_first P xs = Some ys \<Longrightarrow> set ys \<subseteq> set xs \<and> (\<exists>x \<in> set xs. P x)"
  by (induction xs arbitrary: ys) (auto split: if_splits)

lemma seat_taken_seat: "seat_taken (seat poolId personId role st) s \<longleftrightarrow> seat_taken st s \<or> (case s of (u, p, r) \<Rightarrow> u = poolId \<and> seatKey p r = seatKey personId role)"
  by (auto simp: seat_taken_def seat_def split: prod.splits)

lemma prior_proposals [simp]:
  "rs_proposals (fold (\<lambda>p. seat (pr_poolId p) (pr_personId p) (pr_role p)) ps st) = rs_proposals st"
  by (induction ps arbitrary: st) (simp_all add: seat_def)

lemma prior_seats:
  "seat_taken (fold (\<lambda>p. seat (pr_poolId p) (pr_personId p) (pr_role p)) ps st) (u, q, r) \<longleftrightarrow>
    seat_taken st (u, q, r) \<or> (\<exists>p \<in> set ps. u = pr_poolId p \<and> seatKey q r = seatKey (pr_personId p) (pr_role p))"
proof (induction ps arbitrary: st)
  case (Cons p ps)
  show ?case by (simp add: Cons.IH seat_taken_seat disj_assoc)
qed simp

lemma start_ok: "run_ok candidates rules priors [] [] [] [] (start_state priors)"
  by (auto simp: run_ok_def start_state_def duties_in_def list_all_iff prior_seat_def prior_seats)

text \<open>A slot keeps the run in order, whichever way it goes.\<close>

lemma skipped_ok:
  assumes "run_ok candidates rules priors slots made missed skipped st"
    and "take_first (\<lambda>r. r \<in> set (sl_allowedSkillIds slot)) (es_priorRoles st (ps_poolId pool)) = Some rest"
  shows "run_ok candidates rules priors (slots @ [(pool, slot)]) made missed (skipped @ [(pool, slot)])
    (st\<lparr>es_priorRoles := (es_priorRoles st)(ps_poolId pool := rest)\<rparr>)"
proof -
  have roles: "set (es_priorRoles st (ps_poolId pool)) \<subseteq> set (map pr_role (filter (\<lambda>p. pr_poolId p = ps_poolId pool) priors))"
    using assms(1) by (simp add: run_ok_def)
  then have "has_prior priors (pool, slot)" using take_first_found [OF assms(2)] by (auto simp: has_prior_def)
  moreover have "set rest \<subseteq> set (map pr_role (filter (\<lambda>p. pr_poolId p = ps_poolId pool) priors))"
    using take_first_found [OF assms(2)] roles by blast
  ultimately show ?thesis using assms(1) by (simp add: run_ok_def)
qed

lemma missing_ok:
  assumes "run_ok candidates rules priors slots made missed skipped st" and "says_why (pool, slot) m"
  shows "run_ok candidates rules priors (slots @ [(pool, slot)]) made (missed @ [(pool, slot)]) skipped
    (st\<lparr>es_missing := es_missing st @ [m]\<rparr>)"
  using assms by (simp add: run_ok_def list_all2_appendI)

lemma proposed_ok:
  assumes ok: "run_ok candidates rules priors slots made missed skipped st"
    and free: "free_when_proposed rules made pool a" and well: "well_seated candidates rules (pool, slot, a)"
    and untaken: "\<not> seat_taken (es_run st) (seat_of (pool, slot, a))"
  shows "run_ok candidates rules priors (slots @ [(pool, slot)]) (made @ [(pool, slot, a)]) missed skipped
    (st\<lparr>es_assignments := es_assignments st @ [a], es_run := propose (es_run st) pool a\<rparr>)"
proof -
  let ?made = "made @ [(pool, slot, a)]" and ?run = "propose (es_run st) pool a"
  have taken: "seat_taken ?run s \<longleftrightarrow> seat_taken (es_run st) s \<or> (case s of (u, p, r) \<Rightarrow> u = ps_poolId pool \<and> seatKey p r = seatKey (ra_personId a) (ra_role a))" for s
    unfolding seat_taken_seat [symmetric] by (simp add: propose_def seat_taken_def Let_def)
  have "list_all (proposal_stands rules ?made) ?made"
    using ok new_proposal_stands [OF free] old_proposal_stands [OF _ _ free] by (fastforce simp: run_ok_def list_all_iff)
  moreover have "rs_proposals ?run p = filter (\<lambda>d. du_personId d = p) (duties_in ?made)" for p
    using ok by (simp add: run_ok_def propose_def seat_def Let_def)
  moreover have "list_all (seat_taken ?run) (map seat_of ?made @ map prior_seat priors)"
    using ok well by (auto simp: run_ok_def list_all_iff taken seat_of_def well_seated_def)
  moreover have "distinct (map seat_of ?made)" "set (map seat_of ?made) \<inter> set (map prior_seat priors) = {}"
    using ok untaken by (auto simp: run_ok_def list_all_iff)
  ultimately show ?thesis using ok well by (simp add: run_ok_def)
qed

lemma slot_step_ok:
  assumes ok: "run_ok candidates rules priors slots made missed skipped st"
  shows "\<exists>made' missed' skipped'. run_ok candidates rules priors (slots @ [(pool, slot)]) made' missed' skipped'
    (slot_step candidates settings rules pool slot st)"
proof (cases "take_first (\<lambda>r. r \<in> set (sl_allowedSkillIds slot)) (es_priorRoles st (ps_poolId pool))")
  case (Some rest)
  then show ?thesis using skipped_ok [OF ok Some] by (auto simp: slot_step_def)
next
  case None
  show ?thesis
  proof (cases "assignSlot pool slot candidates settings rules (es_run st)")
    case (Inl reasons)
    let ?m = "\<lparr>mi_poolId = ps_poolId pool, mi_poolName = ps_poolName pool, mi_slotIndex = sl_index slot,
      mi_role = (case sl_allowedSkillIds slot of [] \<Rightarrow> None | r # _ \<Rightarrow> Some r),
      mi_rejectionReasons = reasons, mi_isFinals = ps_isFinals pool\<rparr>"
    have "says_why (pool, slot) ?m" using reasons_named [OF Inl] by (simp add: says_why_def)
    from missing_ok [OF ok this] show ?thesis using None Inl by (auto simp: slot_step_def)
  next
    case (Inr a)
    define b where "b = (if ps_isFinals pool then a\<lparr>ra_isFinals := True\<rparr> else a)"
    obtain c q where cq: "(c, q) \<in> set (qualified_for candidates slot)"
      and key: "seatKey (ca_personId c) (ql_role q) \<notin> set (rs_seated (es_run st) (ps_poolId pool))"
      and none: "refusals (ca_personId c) (ql_role q) pool rules (es_run st) = []"
      and a: "ra_personId a = ca_personId c" "ra_role a = ql_role q" "ra_poolId a = ps_poolId pool"
        "ra_slotIndex a = sl_index slot" "\<not> ra_isFinals a"
      using Inr by (rule picked)
    have b: "ra_personId b = ca_personId c" "ra_role b = ql_role q" "ra_poolId b = ps_poolId pool"
      "ra_slotIndex b = sl_index slot" "ra_isFinals b = ps_isFinals pool"
      using a by (simp_all add: b_def)
    note fine = no_refusal [OF none]
    have "duties_of (own_of rules (ca_personId c) @ map Duty (rs_proposals (es_run st) (ca_personId c)))
        = duties_of (own_of rules (ca_personId c)) @ filter (\<lambda>d. du_personId d = ca_personId c) (duties_in made)"
      using ok by (simp add: run_ok_def)
    then have "free_when_proposed rules made pool b"
      using fine(2) b by (simp add: free_when_proposed_def checkReferee_fine_iff proposed_target_def)
    moreover have "well_seated candidates rules (pool, slot, b)"
      using b fine(1) qualified_holds [OF cq] by (auto simp: well_seated_def)
    moreover have "\<not> seat_taken (es_run st) (seat_of (pool, slot, b))"
      using key b by (simp add: seat_taken_def seat_of_def)
    ultimately have "run_ok candidates rules priors (slots @ [(pool, slot)]) (made @ [(pool, slot, b)]) missed skipped
        (st\<lparr>es_assignments := es_assignments st @ [b], es_run := propose (es_run st) pool b\<rparr>)"
      by (rule proposed_ok [OF ok])
    then show ?thesis using None Inr by (auto simp: slot_step_def Let_def b_def [symmetric] cong: if_cong)
  qed
qed

lemma engine_run_ok:
  "\<exists>made missed skipped. run_ok candidates rules priors (referee_slots pools) made missed skipped
    (fold (pool_step candidates settings rules) pools (start_state priors))"
proof -
  have "\<exists>made missed skipped. run_ok candidates rules priors slots made missed skipped
      (fold (\<lambda>(pool, slot). slot_step candidates settings rules pool slot) slots (start_state priors))" for slots
  proof (induction slots rule: rev_induct)
    case Nil
    show ?case using start_ok [of candidates rules priors] unfolding fold_simps(1) by blast
  next
    case (snoc ps slots)
    then show ?case using slot_step_ok [of candidates rules priors slots _ _ _ _ "fst ps" "snd ps"]
      by (cases ps) fastforce
  qed
  then show ?thesis by (simp add: run_over_slots)
qed

text \<open>
  C26. The proposals of a run stand together. Each was Fine when it was made, and it still is when
  it is judged again with every other proposal of the run on the person's plate, those made after it
  included: nobody is proposed to two places at once, to two roles of a unit, too close to another duty
  or past the day's number of bouts. Each goes to a candidate with a qualification its slot allows
  who does not fight in the unit's group, and no seat is given twice or given where a human has taken it.
\<close>

theorem referee_proposals_stand_together:
  "\<exists>made. fst (assignReferees pools candidates settings rules priors) = map (\<lambda>(_, _, a). a) made \<and>
     list_all (\<lambda>(pool, slot, a). (pool, slot) \<in> set (referee_slots pools)) made \<and>
     list_all (proposal_stands rules made) made \<and> list_all (well_seated candidates rules) made \<and>
     distinct (map seat_of made) \<and> set (map seat_of made) \<inter> set (map prior_seat priors) = {}"
proof -
  obtain made missed skipped where ok: "run_ok candidates rules priors (referee_slots pools) made missed skipped
      (fold (pool_step candidates settings rules) pools (start_state priors))"
    using engine_run_ok by blast
  then have "mset (map (\<lambda>(pool, slot, _). (pool, slot)) made) + mset missed + mset skipped = mset (referee_slots pools)"
    unfolding run_ok_def by (elim conjE)
  from arg_cong [OF this, of set_mset]
  have "set (map (\<lambda>(pool, slot, _). (pool, slot)) made) \<subseteq> set (referee_slots pools)"
    unfolding set_mset_union set_mset_mset by blast
  then have "list_all (\<lambda>(pool, slot, a). (pool, slot) \<in> set (referee_slots pools)) made"
    unfolding list_all_iff by (auto simp: image_subset_iff)
  moreover have "fst (assignReferees pools candidates settings rules priors) = map (\<lambda>(_, _, a). a) made"
    using ok by (simp add: run_ok_def assignReferees_def Let_def)
  ultimately show ?thesis using ok unfolding run_ok_def by blast
qed


end
