(* ===== verification/Pool_Standings.thy ===== *)
theory Pool_Standings
  imports Pool_Scores Grouping
begin

text \<open>
  The tables of the pools, from the rows of the database to the ranked rows a reader sees:
  \<open>compute-rows.ts\<close>, \<open>ruleset-scores.ts\<close> and \<open>getPoolStandings\<close> of
  \<open>pool-standings.service.ts\<close>. A ruleset is one of the three kinds with its config.
\<close>

section \<open>The rows that are read\<close>

record person_row =
  pe_given_name :: string
  pe_family_name :: string
  pe_clubs :: "standings_club option"

record standings_member =
  mb_registration_id :: reg_id
  mb_person :: person_row

record pool_match =
  mt_id :: string
  mt_pool_id :: string
  mt_status :: match_status
  mt_red_registration_id :: reg_id
  mt_blue_registration_id :: reg_id
  mt_red_score :: "int option"
  mt_blue_score :: "int option"
  mt_winner_registration_id :: "reg_id option"
  mt_end_reason :: "string option"

record exchange_row =
  xr_match_id :: string
  xr_exchange :: exchange

record forfeit_row =
  ff_match_id :: string
  ff_forfeiting_registration_id :: reg_id
  ff_reason :: string
  ff_voided :: bool

record pool_with_members =
  pw_id :: string
  pw_name :: string
  pw_members :: "standings_member list"

record standings_column =
  col_key :: string
  col_label :: string

datatype ruleset_kind = TfRuleset score_options | PointsCapRuleset generic_config | FormulaRuleset formula_config

fun scorePoolFighters :: "ruleset_kind \<Rightarrow> afterblow_mode \<Rightarrow> reg_id list \<Rightarrow> scored_match list \<Rightarrow> reg_id \<Rightarrow> rat option" where
  "scorePoolFighters (TfRuleset cfg) mode = tf_scorePoolFighters cfg mode"
| "scorePoolFighters (PointsCapRuleset config) mode = generic_scorePoolFighters config"
| "scorePoolFighters (FormulaRuleset config) mode = formula_scorePoolFighters config mode"

text \<open>The columns a ruleset declares, by key and label, and the chain it is ranked by.\<close>

definition GENERIC_STANDINGS_COLUMNS :: "standings_column list" where
  "GENERIC_STANDINGS_COLUMNS =
     [\<lparr>col_key = ''W'', col_label = ''Wins''\<rparr>, \<lparr>col_key = ''L'', col_label = ''Losses''\<rparr>,
      \<lparr>col_key = ''D'', col_label = ''Draws''\<rparr>, \<lparr>col_key = ''ptsScored'', col_label = ''Points scored''\<rparr>,
      \<lparr>col_key = ''ptsConceded'', col_label = ''Points conceded''\<rparr>, \<lparr>col_key = ''diff'', col_label = ''Differential''\<rparr>]"

definition TF_V1_STANDINGS_COLUMNS :: "standings_column list" where
  "TF_V1_STANDINGS_COLUMNS =
     [\<lparr>col_key = ''score'', col_label = ''Score''\<rparr>, \<lparr>col_key = ''W'', col_label = ''Wins''\<rparr>,
      \<lparr>col_key = ''L'', col_label = ''Losses''\<rparr>, \<lparr>col_key = ''D'', col_label = ''Draws''\<rparr>,
      \<lparr>col_key = ''F'', col_label = ''Forfeits''\<rparr>, \<lparr>col_key = ''ptsScored'', col_label = ''Points scored''\<rparr>,
      \<lparr>col_key = ''ptsConceded'', col_label = ''Points conceded''\<rparr>, \<lparr>col_key = ''diff'', col_label = ''Differential''\<rparr>,
      \<lparr>col_key = ''doubles'', col_label = ''Doubles''\<rparr>, \<lparr>col_key = ''hitsGiven'', col_label = ''Hits given''\<rparr>,
      \<lparr>col_key = ''hitsReceived'', col_label = ''Hits received''\<rparr>]"

definition FORMULA_STANDINGS_COLUMNS :: "standings_column list" where
  "FORMULA_STANDINGS_COLUMNS = TF_V1_STANDINGS_COLUMNS"

definition TF_V1_RANKING_CHAIN :: "ranking_rule list" where
  "TF_V1_RANKING_CHAIN =
     [\<lparr>rule_key = ''score'', direction = Desc\<rparr>, \<lparr>rule_key = ''W'', direction = Desc\<rparr>,
      \<lparr>rule_key = ''doubles'', direction = Asc\<rparr>, \<lparr>rule_key = ''hitsReceived'', direction = Asc\<rparr>]"

definition GENERIC_RANKING_CHAIN :: "ranking_rule list" where
  "GENERIC_RANKING_CHAIN =
     [\<lparr>rule_key = ''W'', direction = Desc\<rparr>, \<lparr>rule_key = ''diff'', direction = Desc\<rparr>, \<lparr>rule_key = ''ptsScored'', direction = Desc\<rparr>]"

fun standingsColumns :: "ruleset_kind \<Rightarrow> standings_column list" where
  "standingsColumns (TfRuleset _) = TF_V1_STANDINGS_COLUMNS"
| "standingsColumns (PointsCapRuleset _) = GENERIC_STANDINGS_COLUMNS"
| "standingsColumns (FormulaRuleset _) = FORMULA_STANDINGS_COLUMNS"

fun rankingChain :: "ruleset_kind \<Rightarrow> ranking_rule list" where
  "rankingChain (TfRuleset _) = TF_V1_RANKING_CHAIN"
| "rankingChain (PointsCapRuleset _) = GENERIC_RANKING_CHAIN"
| "rankingChain (FormulaRuleset config) = buildRankingChain (fc_tiebreakers config)"

definition to_scored :: "(string \<Rightarrow> exchange list) \<Rightarrow> pool_match \<Rightarrow> scored_match" where
  "to_scored exchangesOf m =
     \<lparr>sm_id = mt_id m, sm_redRegistrationId = mt_red_registration_id m, sm_blueRegistrationId = mt_blue_registration_id m,
      sm_winnerRegistrationId = mt_winner_registration_id m, sm_endReason = mt_end_reason m,
      sm_redScore = mt_red_score m, sm_blueScore = mt_blue_score m, sm_exchanges = exchangesOf (mt_id m)\<rparr>"

definition poolScoresByRegistration ::
    "ruleset_kind \<Rightarrow> standings_member list \<Rightarrow> pool_match list \<Rightarrow> (string \<Rightarrow> exchange list) \<Rightarrow> afterblow_mode \<Rightarrow> reg_id \<Rightarrow> rat option" where
  "poolScoresByRegistration kind members completedMatches exchangesOf mode =
     scorePoolFighters kind mode (map mb_registration_id members) (map (to_scored exchangesOf) completedMatches)"

section \<open>The rows of a table\<close>

type_synonym stat_table = "reg_id \<Rightarrow> (string \<times> rat) list option"

text \<open>\<open>stats[key] = (stats[key] ?? 0) + x\<close>, and the same on the entry of a fighter.\<close>

definition bump :: "string \<Rightarrow> rat \<Rightarrow> (string \<times> rat) list \<Rightarrow> (string \<times> rat) list" where
  "bump k x = upsert k (\<lambda>old. or_else old 0 + x)"

definition credit :: "reg_id \<Rightarrow> string \<Rightarrow> rat \<Rightarrow> stat_table \<Rightarrow> stat_table" where
  "credit i k x tbl = tbl(i := map_option (bump k x) (tbl i))"

fun COLUMN_FOR :: "bout_outcome \<Rightarrow> string" where
  "COLUMN_FOR Win = ''W''"
| "COLUMN_FOR Loss = ''L''"
| "COLUMN_FOR DrawnBout = ''D''"

definition outcome_columns :: "pool_match \<Rightarrow> bout_columns" where
  "outcome_columns m =
     \<lparr>bc_winner = mt_winner_registration_id m, bc_red = Some (mt_red_registration_id m), bc_blue = Some (mt_blue_registration_id m),
      bc_redScore = Some (or_else (mt_red_score m) 0), bc_blueScore = Some (or_else (mt_blue_score m) 0), bc_endReason = mt_end_reason m\<rparr>"

definition credit_bout :: "pool_match \<Rightarrow> stat_table \<Rightarrow> stat_table" where
  "credit_bout m tbl =
     (let red = mt_red_registration_id m; blue = mt_blue_registration_id m;
          rs = of_int (or_else (mt_red_score m) 0); bs = of_int (or_else (mt_blue_score m) 0);
          outcome = boutOutcomes (outcome_columns m)
      in (credit blue (COLUMN_FOR (snd outcome)) 1 \<circ> credit red (COLUMN_FOR (fst outcome)) 1 \<circ>
          credit blue ''ptsConceded'' rs \<circ> credit blue ''ptsScored'' bs \<circ>
          credit red ''ptsConceded'' bs \<circ> credit red ''ptsScored'' rs) tbl)"

text \<open>One turn of the loop over the bouts; a bout with a fighter who is not a member is passed over.\<close>

definition bout_turn ::
    "afterblow_mode \<Rightarrow> (string \<Rightarrow> exchange list) \<Rightarrow> pool_match \<Rightarrow> stat_table \<times> (reg_id \<Rightarrow> fighter_aggregates option) \<Rightarrow>
     stat_table \<times> (reg_id \<Rightarrow> fighter_aggregates option)" where
  "bout_turn mode exchangesOf m = (\<lambda>(tbl, agg).
     if tbl (mt_red_registration_id m) = None \<or> tbl (mt_blue_registration_id m) = None then (tbl, agg)
     else (credit_bout m tbl, tf_bout mode (to_scored exchangesOf m) agg))"

definition set_declared :: "string \<Rightarrow> rat \<Rightarrow> (string \<times> rat) list \<Rightarrow> (string \<times> rat) list" where
  "set_declared k x st = (if map_of st k \<noteq> None then upsert k (\<lambda>_. x) st else st)"

definition fill_diff :: "(string \<times> rat) list \<Rightarrow> (string \<times> rat) list" where
  "fill_diff st = set_declared ''diff'' (or_else (map_of st ''ptsScored'') 0 - or_else (map_of st ''ptsConceded'') 0) st"

definition fill_extended :: "bool \<Rightarrow> fighter_aggregates \<Rightarrow> rat \<Rightarrow> nat \<Rightarrow> (string \<times> rat) list \<Rightarrow> (string \<times> rat) list" where
  "fill_extended forceScore agg score forfeits st =
     (let st1 = set_declared ''hitsGiven'' (of_int (fa_targetPoints agg)) st;
          st2 = set_declared ''hitsReceived'' (of_int (fa_timesHit agg)) st1;
          st3 = set_declared ''doubles'' (of_int (fa_doubles agg)) st2;
          st4 = set_declared ''score'' (roundTo score 2) st3;
          st5 = set_declared ''F'' (of_nat forfeits) st4
      in if forceScore \<and> map_of st5 ''score'' = None then upsert ''score'' (\<lambda>_. roundTo score 2) st5 else st5)"

definition empty_stats :: "standings_column list \<Rightarrow> (string \<times> rat) list" where
  "empty_stats columns = fold (\<lambda>c. upsert (col_key c) (\<lambda>_. 0)) columns []"

definition row_name :: "person_row \<Rightarrow> string" where
  "row_name person = js_trim (pe_given_name person @ '' '' @ pe_family_name person)"

definition computeStandingsRows ::
    "standings_member list \<Rightarrow> pool_match list \<Rightarrow> ruleset_kind \<Rightarrow> standings_status \<Rightarrow> (string \<Rightarrow> exchange list) \<Rightarrow>
     (reg_id \<Rightarrow> nat) \<Rightarrow> afterblow_mode \<Rightarrow> bool \<Rightarrow> standings_row list" where
  "computeStandingsRows members completedMatches rs st exchangesOf forfeitsOf mode forceScore =
     (let columns = standingsColumns rs;
          declaresScore = list_ex (\<lambda>col. col_key col = ''score'') columns;
          (tbl, agg) = fold (bout_turn mode exchangesOf) completedMatches
            (map_of (map (\<lambda>i. (i, empty_stats columns)) (map mb_registration_id members)),
             map_of (map (\<lambda>i. (i, no_aggregates)) (map mb_registration_id members)));
          scoreOf = (if declaresScore \<or> forceScore
            then poolScoresByRegistration rs members completedMatches exchangesOf mode else (\<lambda>_. None));
          filled = (\<lambda>i. map_option (\<lambda>s. fill_extended forceScore (or_else (agg i) no_aggregates) (or_else (scoreOf i) 0) (forfeitsOf i) (fill_diff s)) (tbl i));
          rows = map (\<lambda>m. \<lparr>row_rank = 0, row_registrationId = mb_registration_id m, displayName = row_name (mb_person m),
                       club = pe_clubs (mb_person m), row_status = st,
                       stats = or_else (filled (mb_registration_id m)) [], decidingTiebreak = None\<rparr>) members
      in applyRanking rows (rankingChain rs))"

section \<open>The tables of a tournament\<close>

definition FORFEIT_REASONS :: "string list" where
  "FORFEIT_REASONS = [''injury'', ''voluntary'', ''black_card_1'', ''black_card_2'', ''conduct_violation'']"

datatype standings_mode = ByPool | Overall

record pool_table =
  pt_poolId :: string
  pt_poolName :: string
  pt_status :: standings_status
  pt_rows :: "standings_row list"

datatype standings_response = Pools "pool_table list" | Ranked "standings_row list"

definition pool_status :: "pool_match list \<Rightarrow> standings_status" where
  "pool_status poolMatches =
     (if length poolMatches > 0 \<and> length (filter (\<lambda>m. mt_status m = MCompleted) poolMatches) = length poolMatches
      then Completed else InProgress)"

definition pool_table_of ::
    "ruleset_kind \<Rightarrow> afterblow_mode \<Rightarrow> pool_match list \<Rightarrow> (string \<Rightarrow> exchange list) \<Rightarrow> (reg_id \<Rightarrow> nat) \<Rightarrow> pool_with_members \<Rightarrow> pool_table" where
  "pool_table_of rs mode matchRows exchangesOf forfeitsOf pool =
     (let poolMatches = filter (\<lambda>m. mt_pool_id m = pw_id pool) matchRows;
          completed = filter (\<lambda>m. mt_status m = MCompleted) poolMatches;
          st = pool_status poolMatches
      in \<lparr>pt_poolId = pw_id pool, pt_poolName = pw_name pool, pt_status = st,
          pt_rows = computeStandingsRows (pw_members pool) completed rs st exchangesOf forfeitsOf mode False\<rparr>)"

text \<open>
  \<open>phase\<close> holds the pools of the pool phase in their order, the bouts of the phase, the
  exchanges and the forfeits, each as its table returns it; the two filters are those of the queries.
\<close>

record pool_phase_rows =
  pp_pools :: "pool_with_members list"
  pp_matches :: "pool_match list"
  pp_exchanges :: "exchange_row list"
  pp_forfeits :: "forfeit_row list"

definition completed_ids :: "pool_match list \<Rightarrow> string set" where
  "completed_ids matchRows = mt_id ` set (filter (\<lambda>m. mt_status m = MCompleted) matchRows)"

definition exchanges_of :: "string set \<Rightarrow> exchange_row list \<Rightarrow> string \<Rightarrow> exchange list" where
  "exchanges_of ids rows matchId =
     map xr_exchange (or_else (map_of (groupBy xr_match_id
       (filter (\<lambda>r. xr_match_id r \<in> ids \<and> \<not> voided (xr_exchange r)) rows)) matchId) [])"

definition forfeits_of :: "string set \<Rightarrow> forfeit_row list \<Rightarrow> reg_id \<Rightarrow> nat" where
  "forfeits_of ids rows i =
     or_else (map_of (gather ff_forfeiting_registration_id (\<lambda>_ old. or_else old 0 + 1)
       (filter (\<lambda>r. ff_match_id r \<in> ids \<and> ff_reason r \<in> set FORFEIT_REASONS \<and> \<not> ff_voided r) rows)) i) 0"

definition getPoolStandings :: "ruleset_kind \<Rightarrow> afterblow_mode \<Rightarrow> pool_phase_rows option \<Rightarrow> standings_mode \<Rightarrow> standings_response" where
  "getPoolStandings rs afterblow phase mode =
     (case phase of
        None \<Rightarrow> (if mode = Overall then Ranked [] else Pools [])
      | Some p \<Rightarrow>
          let ids = completed_ids (pp_matches p);
              perPool = map (pool_table_of rs afterblow (pp_matches p) (exchanges_of ids (pp_exchanges p)) (forfeits_of ids (pp_forfeits p))) (pp_pools p)
          in if mode = ByPool then Pools perPool
             else Ranked (applyRanking (concat (map pt_rows perPool)) (rankingChain rs)))"

section \<open>What a row says\<close>

subsection \<open>A table with a fixed list of keys\<close>

definition keyed :: "string list \<Rightarrow> (string \<Rightarrow> rat) \<Rightarrow> (string \<times> rat) list" where
  "keyed ks v = map (\<lambda>k. (k, v k)) ks"

lemma map_of_table [simp]: "map_of (keyed ks v) k = (if k \<in> set ks then Some (v k) else None)"
  by (simp add: keyed_def map_of_same)

lemma table_cong: "(\<And>k. k \<in> set ks \<Longrightarrow> v k = w k) \<Longrightarrow> keyed ks v = keyed ks w"
  by (simp add: keyed_def)

lemma update_table: "distinct ks \<Longrightarrow> AList.update k x (keyed ks v) = (if k \<in> set ks then keyed ks (v(k := x)) else keyed ks v @ [(k, x)])"
  by (induction ks) (auto simp: keyed_def)

lemma upsert_table: "distinct ks \<Longrightarrow> k \<in> set ks \<Longrightarrow> upsert k f (keyed ks v) = keyed ks (v(k := f (Some (v k))))"
  by (simp add: upsert_def update_table)

lemma bump_table: "distinct ks \<Longrightarrow> k \<in> set ks \<Longrightarrow> bump k x (keyed ks v) = keyed ks (v(k := v k + x))"
  by (simp add: bump_def upsert_table)

lemma set_declared_table: "distinct ks \<Longrightarrow> set_declared k x (keyed ks v) = keyed ks (v(k := x))"
  by (auto simp: set_declared_def upsert_table intro!: table_cong)

definition keys_of :: "ruleset_kind \<Rightarrow> string list" where
  "keys_of rs = map col_key (standingsColumns rs)"

lemmas column_defs = keys_of_def TF_V1_STANDINGS_COLUMNS_def FORMULA_STANDINGS_COLUMNS_def GENERIC_STANDINGS_COLUMNS_def

lemma keys_distinct [simp]: "distinct (keys_of rs)"
  by (cases rs) (simp_all add: column_defs)

lemma bumped_keys:
  "''W'' \<in> set (keys_of rs)" "''L'' \<in> set (keys_of rs)" "''D'' \<in> set (keys_of rs)"
  "''ptsScored'' \<in> set (keys_of rs)" "''ptsConceded'' \<in> set (keys_of rs)" "''diff'' \<in> set (keys_of rs)"
  by (cases rs; simp add: column_defs)+

lemma column_for_key [simp]: "COLUMN_FOR r \<in> set (keys_of rs)"
  by (cases r) (simp_all add: bumped_keys)

lemma empty_stats_table: "distinct (map col_key columns) \<Longrightarrow> empty_stats columns = keyed (map col_key columns) (\<lambda>_. 0)"
proof (induction columns rule: rev_induct)
  case (snoc c cs)
  then show ?case by (simp add: empty_stats_def upsert_def update_table) (simp add: keyed_def)
qed (simp add: empty_stats_def keyed_def)

subsection \<open>The entry of one fighter\<close>

text \<open>What a bout is worth to a fighter in a column.\<close>

definition side_worth :: "bout_outcome \<Rightarrow> rat \<Rightarrow> rat \<Rightarrow> string \<Rightarrow> rat" where
  "side_worth outcome scored conceded k =
     (if k = ''ptsScored'' then scored else 0) + (if k = ''ptsConceded'' then conceded else 0) + (if k = COLUMN_FOR outcome then 1 else 0)"

definition worth_to :: "reg_id \<Rightarrow> pool_match \<Rightarrow> string \<Rightarrow> rat" where
  "worth_to i m k =
     (let rs = of_int (or_else (mt_red_score m) 0); bs = of_int (or_else (mt_blue_score m) 0); outcome = boutOutcomes (outcome_columns m)
      in (if mt_red_registration_id m = i then side_worth (fst outcome) rs bs k else 0) +
         (if mt_blue_registration_id m = i then side_worth (snd outcome) bs rs k else 0))"

definition between :: "reg_id set \<Rightarrow> pool_match \<Rightarrow> bool" where
  "between ids m \<longleftrightarrow> mt_red_registration_id m \<in> ids \<and> mt_blue_registration_id m \<in> ids"

lemma credit_entry:
  "k \<in> set (keys_of rs) \<Longrightarrow> tbl i = Some (keyed (keys_of rs) v) \<Longrightarrow>
   credit j k x tbl i = Some (keyed (keys_of rs) (\<lambda>l. v l + (if i = j \<and> l = k then x else 0)))"
  by (cases "i = j") (auto simp: credit_def bump_table intro!: table_cong)

lemma credit_None [simp]: "credit j k x tbl i = None \<longleftrightarrow> tbl i = None"
  by (simp add: credit_def)

lemma credit_bout_None [simp]: "credit_bout m tbl i = None \<longleftrightarrow> tbl i = None"
  by (simp add: credit_bout_def Let_def)

lemma credit_bout_entry:
  assumes "tbl i = Some (keyed (keys_of rs) v)"
  shows "credit_bout m tbl i = Some (keyed (keys_of rs) (\<lambda>k. v k + worth_to i m k))"
proof -
  note step = credit_entry [where rs = rs and i = i, OF bumped_keys(4)] credit_entry [where rs = rs and i = i, OF bumped_keys(5)]
    credit_entry [where rs = rs and i = i, OF column_for_key]
  show ?thesis
    unfolding credit_bout_def Let_def comp_apply
    by (subst step(3), subst step(3), subst step(2), subst step(1), subst step(2), subst step(1), rule assms, rule refl, rule refl, rule refl, rule refl, rule refl)
       (auto simp: keyed_def worth_to_def side_worth_def Let_def)
qed

lemma turns_entry:
  assumes "tbl i = Some (keyed (keys_of rs) v)" and "agg i = Some a" and "\<And>j. tbl j = None \<longleftrightarrow> j \<notin> ids"
  shows "fst (fold (bout_turn mode ex) ms (tbl, agg)) i =
      Some (keyed (keys_of rs) (\<lambda>k. v k + sum_list (map (\<lambda>m. worth_to i m k) (filter (between ids) ms)))) \<and>
    snd (fold (bout_turn mode ex) ms (tbl, agg)) i = Some (fold (tf_own mode i) (map (to_scored ex) (filter (between ids) ms)) a)"
  using assms
proof (induction ms arbitrary: tbl agg v a)
  case (Cons m ms)
  show ?case
  proof (cases "between ids m")
    case True
    then have turn: "bout_turn mode ex m (tbl, agg) = (credit_bout m tbl, tf_bout mode (to_scored ex m) agg)"
      using Cons.prems(3) by (auto simp: bout_turn_def between_def)
    have agg: "tf_bout mode (to_scored ex m) agg i = Some (tf_own mode i (to_scored ex m) a)"
      using Cons.prems(2) by (simp add: tf_bout_own)
    show ?thesis
      using Cons.IH [where tbl = "credit_bout m tbl" and v = "\<lambda>k. v k + worth_to i m k" and
          agg = "tf_bout mode (to_scored ex m) agg" and a = "tf_own mode i (to_scored ex m) a"]
        credit_bout_entry [where tbl = tbl and i = i and rs = rs and v = v and m = m] agg Cons.prems True
      by (simp add: turn add.assoc)
  next
    case False
    then have "bout_turn mode ex m (tbl, agg) = (tbl, agg)"
      using Cons.prems(3) by (auto simp: bout_turn_def between_def)
    then show ?thesis using Cons.IH [where tbl = tbl and v = v and agg = agg and a = a] Cons.prems False by simp
  qed
qed simp

subsection \<open>The rows\<close>

text \<open>The value of a column, from the bouts between members of the pool.\<close>

definition column_value ::
    "ruleset_kind \<Rightarrow> afterblow_mode \<Rightarrow> standings_member list \<Rightarrow> pool_match list \<Rightarrow> (string \<Rightarrow> exchange list) \<Rightarrow> (reg_id \<Rightarrow> nat) \<Rightarrow>
     reg_id \<Rightarrow> string \<Rightarrow> rat" where
  "column_value rs mode members ms exchangesOf forfeitsOf i k =
     (let own = filter (between (mb_registration_id ` set members)) ms;
          worth = (\<lambda>k. sum_list (map (\<lambda>m. worth_to i m k) own));
          agg = fold (tf_own mode i) (map (to_scored exchangesOf) own) no_aggregates
      in if k = ''diff'' then worth ''ptsScored'' - worth ''ptsConceded''
         else if k = ''hitsGiven'' then of_int (fa_targetPoints agg)
         else if k = ''hitsReceived'' then of_int (fa_timesHit agg)
         else if k = ''doubles'' then of_int (fa_doubles agg)
         else if k = ''score'' then roundTo (or_else (poolScoresByRegistration rs members ms exchangesOf mode i) 0) 2
         else if k = ''F'' then of_nat (forfeitsOf i)
         else worth k)"

definition standings_row_of where
  "standings_row_of rs mode members ms exchangesOf forfeitsOf st m =
     \<lparr>row_rank = 0, row_registrationId = mb_registration_id m, displayName = row_name (mb_person m),
       club = pe_clubs (mb_person m), row_status = st,
       stats = keyed (keys_of rs) (column_value rs mode members ms exchangesOf forfeitsOf (mb_registration_id m)), decidingTiebreak = None\<rparr>"

lemma filled_entry:
  "fill_extended False agg score forfeits (fill_diff (keyed (keys_of rs) v)) =
   keyed (keys_of rs) (\<lambda>k. if k = ''diff'' then v ''ptsScored'' - v ''ptsConceded''
      else if k = ''hitsGiven'' then of_int (fa_targetPoints agg) else if k = ''hitsReceived'' then of_int (fa_timesHit agg)
      else if k = ''doubles'' then of_int (fa_doubles agg) else if k = ''score'' then roundTo score 2
      else if k = ''F'' then of_nat forfeits else v k)"
  unfolding fill_extended_def fill_diff_def Let_def
  by (simp add: set_declared_table bumped_keys) (rule table_cong, simp)

lemma declares_score: "list_ex (\<lambda>col. col_key col = ''score'') (standingsColumns rs) \<longleftrightarrow> ''score'' \<in> set (keys_of rs)"
  by (cases rs) (simp_all add: column_defs)

lemma computeStandingsRows_rows:
  "computeStandingsRows members ms rs st ex ff mode False =
   applyRanking (map (standings_row_of rs mode members ms ex ff st) members) (rankingChain rs)"
proof -
  let ?ids = "map mb_registration_id members"
  let ?tbl = "map_of (map (\<lambda>i. (i, empty_stats (standingsColumns rs))) ?ids)" and ?agg = "map_of (map (\<lambda>i. (i, no_aggregates)) ?ids)"
  obtain tbl agg where run: "fold (bout_turn mode ex) ms (?tbl, ?agg) = (tbl, agg)" by fastforce
  have filled: "map_option (\<lambda>s. fill_extended False (or_else (agg i) no_aggregates)
        (or_else ((if ''score'' \<in> set (keys_of rs) then poolScoresByRegistration rs members ms ex mode else (\<lambda>_. None)) i) 0) (ff i) (fill_diff s)) (tbl i) =
      Some (keyed (keys_of rs) (column_value rs mode members ms ex ff i))" if "i \<in> set ?ids" for i
  proof -
    have "?tbl i = Some (keyed (keys_of rs) (\<lambda>_. 0))" "?agg i = Some no_aggregates" "\<And>j. ?tbl j = None \<longleftrightarrow> j \<notin> set ?ids"
      using that keys_distinct [of rs] unfolding map_of_same keys_of_def by (simp_all add: empty_stats_table)
    with turns_entry [where tbl = ?tbl and i = i and rs = rs and v = "\<lambda>_. 0" and agg = ?agg and a = no_aggregates
        and ids = "set ?ids" and mode = mode and ex = ex and ms = ms]
    have entry: "tbl i = Some (keyed (keys_of rs) (\<lambda>k. sum_list (map (\<lambda>m. worth_to i m k) (filter (between (set ?ids)) ms))))"
      "agg i = Some (fold (tf_own mode i) (map (to_scored ex) (filter (between (set ?ids)) ms)) no_aggregates)"
      unfolding run fst_conv snd_conv add_0 by blast+
    show ?thesis
      unfolding entry option.map option.inject or_else_simps filled_entry
    proof (rule table_cong)
      fix k assume "k \<in> set (keys_of rs)"
      then show "(if k = ''diff'' then sum_list (map (\<lambda>m. worth_to i m ''ptsScored'') (filter (between (set ?ids)) ms)) -
            sum_list (map (\<lambda>m. worth_to i m ''ptsConceded'') (filter (between (set ?ids)) ms))
          else if k = ''hitsGiven'' then of_int (fa_targetPoints (fold (tf_own mode i) (map (to_scored ex) (filter (between (set ?ids)) ms)) no_aggregates))
          else if k = ''hitsReceived'' then of_int (fa_timesHit (fold (tf_own mode i) (map (to_scored ex) (filter (between (set ?ids)) ms)) no_aggregates))
          else if k = ''doubles'' then of_int (fa_doubles (fold (tf_own mode i) (map (to_scored ex) (filter (between (set ?ids)) ms)) no_aggregates))
          else if k = ''score'' then roundTo (or_else ((if ''score'' \<in> set (keys_of rs)
            then poolScoresByRegistration rs members ms ex mode else (\<lambda>_. None)) i) 0) 2
          else if k = ''F'' then of_nat (ff i) else sum_list (map (\<lambda>m. worth_to i m k) (filter (between (set ?ids)) ms))) =
        column_value rs mode members ms ex ff i k"
        by (cases "k = ''score''") (simp_all add: column_value_def Let_def)
    qed
  qed
  show ?thesis
    unfolding computeStandingsRows_def Let_def run prod.case declares_score simp_thms
    by (intro arg_cong [where f = "\<lambda>rows. applyRanking rows (rankingChain rs)"] map_cong refl)
       (simp add: filled standings_row_of_def)
qed

text \<open>A ranking keeps what the rows say.\<close>

lemma ranked_rows:
  "map (\<lambda>r. (row_registrationId r, stats r)) (applyRanking rows chain) =
   map (\<lambda>r. (row_registrationId r, stats r)) (sort_by (compareRows chain) rows)"
  by (auto simp: nth_applyRanking intro!: nth_equalityI)

lemma ranked_all:
  assumes "list_all (\<lambda>r. P (row_registrationId r) (stats r)) rows"
  shows "list_all (\<lambda>r. P (row_registrationId r) (stats r)) (applyRanking rows chain)"
proof -
  have all: "list_all (\<lambda>r. P (row_registrationId r) (stats r)) xs = list_all (case_prod P) (map (\<lambda>r. (row_registrationId r, stats r)) xs)"
    for xs :: "standings_row list"
    by (simp add: list_all_iff)
  have "mset (sort_by (compareRows chain) rows) = mset rows" by simp
  then have same: "set (sort_by (compareRows chain) rows) = set rows" by (rule mset_eq_setD)
  show ?thesis using assms unfolding all ranked_rows unfolding list_all_iff set_map same .
qed

lemma ranked_ids: "mset (map row_registrationId (applyRanking rows chain)) = mset (map row_registrationId rows)"
  by (simp add: stats_applyRanking)

lemma ranks: "map row_rank (applyRanking rows chain) = [1..<length rows + 1]"
  by (rule nth_equalityI) (simp_all add: nth_applyRanking del: upt_Suc)

text \<open>Every bout of a fighter is counted once in the wins, the losses or the draws.\<close>

definition own_sides :: "reg_id \<Rightarrow> pool_match \<Rightarrow> nat" where
  "own_sides i m = (if mt_red_registration_id m = i then 1 else 0) + (if mt_blue_registration_id m = i then 1 else 0)"

lemma one_outcome: "side_worth r s c ''W'' + side_worth r s c ''L'' + side_worth r s c ''D'' = 1"
  by (cases r) (simp_all add: side_worth_def)

lemma worth_outcome: "worth_to i m ''W'' + worth_to i m ''L'' + worth_to i m ''D'' = of_nat (own_sides i m)"
  using one_outcome [of "fst (boutOutcomes (outcome_columns m))" "of_int (or_else (mt_red_score m) 0)" "of_int (or_else (mt_blue_score m) 0)"]
    one_outcome [of "snd (boutOutcomes (outcome_columns m))" "of_int (or_else (mt_blue_score m) 0)" "of_int (or_else (mt_red_score m) 0)"]
  by (cases "mt_red_registration_id m = i"; cases "mt_blue_registration_id m = i"; simp add: worth_to_def own_sides_def Let_def; linarith)

lemma worth_outcomes:
  "sum_list (map (\<lambda>m. worth_to i m ''W'') ms) + sum_list (map (\<lambda>m. worth_to i m ''L'') ms) + sum_list (map (\<lambda>m. worth_to i m ''D'') ms) =
   of_nat (sum_list (map (own_sides i) ms))"
proof (induction ms)
  case (Cons m ms)
  then show ?case using worth_outcome [of i m] by simp
qed simp


section \<open>The order of the reads\<close>

text \<open>The exchanges of a bout as a scorer may see them: those that count, in no order.\<close>

definition same_exchanges :: "(string \<Rightarrow> exchange list) \<Rightarrow> (string \<Rightarrow> exchange list) \<Rightarrow> bool" where
  "same_exchanges ex ex' \<longleftrightarrow> (\<forall>k. mset (filter (\<lambda>e. \<not> voided e) (ex k)) = mset (filter (\<lambda>e. \<not> voided e) (ex' k)))"

lemma result_same: "same_exchanges ex ex' \<Longrightarrow> result_of (to_scored ex m) = result_of (to_scored ex' m)"
  by (simp add: result_of_def to_scored_def same_exchanges_def)

lemma own_results_rows:
  assumes "mset ms = mset ms'" and "same_exchanges ex ex'"
  shows "own_results i (map (to_scored ex) ms) = own_results i (map (to_scored ex') ms')"
proof -
  have fighters: "fights i (to_scored e m) \<longleftrightarrow> fights i (to_scored ex m)" for e m
    by (simp add: fights_def to_scored_def)
  have view: "own_results i (map (to_scored e) ns) = image_mset (\<lambda>m. result_of (to_scored e m)) (filter_mset (\<lambda>m. fights i (to_scored ex m)) (mset ns))" for e ns
    by (simp add: own_results_def filter_map comp_def fighters [of e] flip: mset_filter)
  show ?thesis unfolding view assms(1) by (simp add: result_same [OF assms(2)])
qed

lemma scorePoolFighters_own:
  assumes "own_results i bouts = own_results i bouts'" and "set ids = set ids'"
  shows "scorePoolFighters rs mode ids bouts i = scorePoolFighters rs mode ids' bouts' i"
proof (cases "i \<in> set ids")
  case True
  then show ?thesis using assms
    by (cases rs) (auto intro: tf.score_of_own_results generic.score_of_own_results authored.score_of_own_results)
next
  case False
  then show ?thesis using assms(2) by (cases rs) (simp_all add: tf.scored generic.scored authored.scored)
qed

lemma column_value_same:
  assumes "mset ms = mset ms'" and "mset members = mset members'" and "same_exchanges ex ex'"
  shows "column_value rs mode members ms ex ff i k = column_value rs mode members' ms' ex' ff i k"
proof -
  have set: "set members = set members'" using assms(2) by (rule mset_eq_setD)
  let ?own = "filter (between (mb_registration_id ` set members'))"
  have own: "mset (?own ms) = mset (?own ms')" by (simp add: assms(1))
  then have worth: "sum_list (map (\<lambda>m. worth_to i m c) (?own ms)) = sum_list (map (\<lambda>m. worth_to i m c) (?own ms'))" for c
    by (metis mset_map sum_mset_sum_list)
  have agg: "fold (tf_own mode i) (map (to_scored ex) (?own ms)) no_aggregates = fold (tf_own mode i) (map (to_scored ex') (?own ms')) no_aggregates"
    by (rule tf.only_own_results) (rule own_results_rows [OF own assms(3)])
  have score: "poolScoresByRegistration rs members ms ex mode i = poolScoresByRegistration rs members' ms' ex' mode i"
    unfolding poolScoresByRegistration_def by (rule scorePoolFighters_own) (simp_all add: own_results_rows [OF assms(1,3)] set)
  show ?thesis unfolding column_value_def Let_def set worth agg score ..
qed

lemma computeStandingsRows_same:
  assumes "mset ms = mset ms'" and "mset members = mset members'" and "same_exchanges ex ex'" and "distinct (map mb_registration_id members)"
  shows "computeStandingsRows members ms rs st ex ff mode False = computeStandingsRows members' ms' rs st ex' ff mode False"
proof -
  have row: "standings_row_of rs mode members ms ex ff st = standings_row_of rs mode members' ms' ex' ff st"
    by (rule ext) (simp add: standings_row_of_def keyed_def column_value_same [OF assms(1-3)])
  have "mset (map (standings_row_of rs mode members' ms' ex' ff st) members) = mset (map (standings_row_of rs mode members' ms' ex' ff st) members')"
    using assms(2) by simp
  then show ?thesis
    unfolding computeStandingsRows_rows row
    by (rule conjunct1 [OF standings_are_deterministic]) (use assms(4) in \<open>simp add: standings_row_of_def comp_def\<close>)
qed

subsection \<open>The rows of the exchanges and of the forfeits\<close>

lemma exchanges_of_rows:
  "exchanges_of ids rows k = map xr_exchange (filter (\<lambda>r. xr_match_id r = k \<and> xr_match_id r \<in> ids \<and> \<not> voided (xr_exchange r)) rows)"
  by (auto simp: exchanges_of_def map_of_groupBy filter_empty_conv conj_commute conj_left_commute)

lemma same_exchange_rows: "mset rows = mset rows' \<Longrightarrow> same_exchanges (exchanges_of ids rows) (exchanges_of ids rows')"
  by (simp add: same_exchanges_def exchanges_of_rows filter_map)

lemma forfeits_of_rows:
  "forfeits_of ids rows i = length (filter (\<lambda>r. ff_forfeiting_registration_id r = i \<and> ff_match_id r \<in> ids \<and> ff_reason r \<in> set FORFEIT_REASONS \<and> \<not> ff_voided r) rows)"
proof -
  have count: "or_else (fold (\<lambda>x old. Some (Suc (or_else old 0))) xs old) 0 = or_else old 0 + length xs" for xs :: "forfeit_row list" and old :: "nat option"
    by (induction xs arbitrary: old) simp_all
  show ?thesis by (simp add: forfeits_of_def map_of_gather count conj_commute conj_left_commute)
qed

lemma same_forfeit_rows: "mset rows = mset rows' \<Longrightarrow> forfeits_of ids rows = forfeits_of ids rows'"
  by (rule ext) (metis (no_types, lifting) forfeits_of_rows mset_filter size_mset)

subsection \<open>The tables\<close>

definition same_pool :: "pool_with_members \<Rightarrow> pool_with_members \<Rightarrow> bool" where
  "same_pool p q \<longleftrightarrow> pw_id p = pw_id q \<and> pw_name p = pw_name q \<and> mset (pw_members p) = mset (pw_members q)"

definition same_rows :: "pool_phase_rows \<Rightarrow> pool_phase_rows \<Rightarrow> bool" where
  "same_rows p q \<longleftrightarrow> list_all2 same_pool (pp_pools p) (pp_pools q) \<and> mset (pp_matches p) = mset (pp_matches q) \<and>
     mset (pp_exchanges p) = mset (pp_exchanges q) \<and> mset (pp_forfeits p) = mset (pp_forfeits q)"

definition one_entry_each :: "pool_phase_rows \<Rightarrow> bool" where
  "one_entry_each p \<longleftrightarrow> list_all (\<lambda>pool. distinct (map mb_registration_id (pw_members pool))) (pp_pools p)"

lemma pool_status_same: "mset ms = mset ms' \<Longrightarrow> pool_status ms = pool_status ms'"
  unfolding pool_status_def by (metis mset_filter size_mset)

lemma pool_table_same:
  assumes "same_pool p q" and "mset ms = mset ms'" and "same_exchanges ex ex'" and "distinct (map mb_registration_id (pw_members p))"
  shows "pool_table_of rs mode ms ex ff p = pool_table_of rs mode ms' ex' ff q"
proof -
  have own: "mset (filter (\<lambda>m. mt_pool_id m = pw_id q) ms) = mset (filter (\<lambda>m. mt_pool_id m = pw_id q) ms')"
    by (simp add: assms(2))
  then have completed: "mset (filter (\<lambda>m. mt_status m = MCompleted) (filter (\<lambda>m. mt_pool_id m = pw_id q) ms)) =
      mset (filter (\<lambda>m. mt_status m = MCompleted) (filter (\<lambda>m. mt_pool_id m = pw_id q) ms'))"
    by (metis mset_filter)
  have pool: "pw_id p = pw_id q" "pw_name p = pw_name q" "mset (pw_members p) = mset (pw_members q)"
    using assms(1) by (simp_all add: same_pool_def)
  show ?thesis
    unfolding pool_table_of_def Let_def pool(1,2) pool_status_same [OF own] computeStandingsRows_same [OF completed pool(3) assms(3,4)] ..
qed

text \<open>
  C15. The tables depend on what is stored, not on how it is read. Whatever order the database
  returns the members of a pool, the bouts, the exchanges and the forfeits in, and whichever kind
  of ruleset scores them, the standings are the same: every row, every rank and every reason
  given for a rank, pool by pool and over all pools. The ranks decide who is drawn where in
  the bracket.
\<close>

theorem pool_standings_ignore_the_order_of_reads:
  assumes "same_rows p q" and "one_entry_each p"
  shows "getPoolStandings rs afterblow (Some p) mode = getPoolStandings rs afterblow (Some q) mode"
proof -
  have pools: "list_all2 same_pool (pp_pools p) (pp_pools q)" and matches: "mset (pp_matches p) = mset (pp_matches q)"
    using assms(1) by (simp_all add: same_rows_def)
  let ?ids = "completed_ids (pp_matches p)"
  have ids: "completed_ids (pp_matches q) = ?ids"
    using mset_eq_setD [OF matches] by (simp add: completed_ids_def)
  have exchanges: "same_exchanges (exchanges_of ?ids (pp_exchanges p)) (exchanges_of ?ids (pp_exchanges q))"
    and forfeits: "forfeits_of ?ids (pp_forfeits p) = forfeits_of ?ids (pp_forfeits q)"
    by (rule same_exchange_rows, use assms(1) in \<open>simp add: same_rows_def\<close>)
      (rule same_forfeit_rows, use assms(1) in \<open>simp add: same_rows_def\<close>)
  have "map (pool_table_of rs afterblow (pp_matches p) (exchanges_of ?ids (pp_exchanges p)) (forfeits_of ?ids (pp_forfeits p))) (pp_pools p) =
      map (pool_table_of rs afterblow (pp_matches q) (exchanges_of ?ids (pp_exchanges q)) (forfeits_of ?ids (pp_forfeits q))) (pp_pools q)"
    unfolding list_eq_iff_nth_eq length_map
  proof (intro conjI allI impI)
    show "length (pp_pools p) = length (pp_pools q)" using pools by (rule list_all2_lengthD)
    fix i assume i: "i < length (pp_pools p)"
    then have "same_pool (pp_pools p ! i) (pp_pools q ! i)" by (rule list_all2_nthD [OF pools])
    moreover have "distinct (map mb_registration_id (pw_members (pp_pools p ! i)))"
      using assms(2) i by (simp add: one_entry_each_def list_all_length)
    ultimately show "map (pool_table_of rs afterblow (pp_matches p) (exchanges_of ?ids (pp_exchanges p)) (forfeits_of ?ids (pp_forfeits p))) (pp_pools p) ! i =
        map (pool_table_of rs afterblow (pp_matches q) (exchanges_of ?ids (pp_exchanges q)) (forfeits_of ?ids (pp_forfeits q))) (pp_pools q) ! i"
      using i list_all2_lengthD [OF pools] by (simp add: pool_table_same [OF _ matches exchanges] forfeits)
  qed
  then show ?thesis unfolding getPoolStandings_def option.case Let_def ids by (rule arg_cong)
qed

subsection \<open>A pool of two, read twice\<close>

definition member_of :: "string \<Rightarrow> standings_member" where
  "member_of i = \<lparr>mb_registration_id = i, mb_person = \<lparr>pe_given_name = i, pe_family_name = ''X'', pe_clubs = None\<rparr>\<rparr>"

definition fought :: "string \<Rightarrow> string \<Rightarrow> string \<Rightarrow> int \<Rightarrow> int \<Rightarrow> pool_match" where
  "fought i red blue rs bs = \<lparr>mt_id = i, mt_pool_id = ''p'', mt_status = MCompleted, mt_red_registration_id = red, mt_blue_registration_id = blue,
     mt_red_score = Some rs, mt_blue_score = Some bs, mt_winner_registration_id = Some red, mt_end_reason = None\<rparr>"

definition read_once :: pool_phase_rows where
  "read_once = \<lparr>pp_pools = [\<lparr>pw_id = ''p'', pw_name = ''Pool 1'', pw_members = [member_of ''a'', member_of ''b'']\<rparr>],
     pp_matches = [fought ''1'' ''a'' ''b'' 3 1, fought ''2'' ''b'' ''a'' 5 2],
     pp_exchanges = [\<lparr>xr_match_id = ''1'', xr_exchange = hit Red 2\<rparr>, \<lparr>xr_match_id = ''2'', xr_exchange = hit Red 3\<rparr>], pp_forfeits = []\<rparr>"

definition read_again :: pool_phase_rows where
  "read_again = \<lparr>pp_pools = [\<lparr>pw_id = ''p'', pw_name = ''Pool 1'', pw_members = [member_of ''b'', member_of ''a'']\<rparr>],
     pp_matches = [fought ''2'' ''b'' ''a'' 5 2, fought ''1'' ''a'' ''b'' 3 1],
     pp_exchanges = [\<lparr>xr_match_id = ''2'', xr_exchange = hit Red 3\<rparr>, \<lparr>xr_match_id = ''1'', xr_exchange = hit Red 2\<rparr>], pp_forfeits = []\<rparr>"

theorem pool_standings_ignore_the_order_of_reads_witness:
  "getPoolStandings (PointsCapRuleset one_hit_config) Full (Some read_once) Overall =
   getPoolStandings (PointsCapRuleset one_hit_config) Full (Some read_again) Overall"
proof (rule pool_standings_ignore_the_order_of_reads)
  show "same_rows read_once read_again" by (simp add: same_rows_def same_pool_def read_once_def read_again_def)
  show "one_entry_each read_once" by (simp add: one_entry_each_def read_once_def member_of_def)
qed

lemma the_winner_leads:
  "(case getPoolStandings (PointsCapRuleset one_hit_config) Full (Some read_once) Overall of
      Ranked rows \<Rightarrow> map (\<lambda>r. (row_rank r, row_registrationId r, statOf r ''diff'')) rows | Pools _ \<Rightarrow> []) =
   [(1, ''b'', 1), (2, ''a'', -1)]"
  by code_simp

end
