(* ===== verification/Bracket_Branches.thy ===== *)
theory Bracket_Branches
  imports Grouping
begin

text \<open>
  \<open>packages/rules/src/scheduling/bracket-branches.ts\<close>: the bouts of a bracket in units that run on
  one piste each, a sub-tree of the spread round or the rounds above it. Round 0 is a play-in.
\<close>

section \<open>The grouping\<close>

record branch_slot =
  br_matchId :: string
  br_round :: nat
  br_position :: nat

datatype branch_kind = AnchorUnit | ConvergeUnit

record branch_unit =
  bu_kind :: branch_kind
  bu_anchor :: "(nat \<times> nat) option"
  bu_matchIds :: "string list"

record branches =
  bb_units :: "branch_unit list"
  bb_spreadRound :: nat
  bb_orphans :: "string list"

definition slot_order :: "branch_slot \<Rightarrow> branch_slot \<Rightarrow> int" where
  "slot_order a b = (if br_round a \<noteq> br_round b then int (br_round a) - int (br_round b) else int (br_position a) - int (br_position b))"

definition ordered :: "branch_slot list \<Rightarrow> string list" where
  "ordered slots = map br_matchId (sort_by slot_order slots)"

text \<open>\<open>Math.floor(Math.log2(n))\<close> of a positive count.\<close>

fun floor_log2 :: "nat \<Rightarrow> nat" where
  "floor_log2 n = (if n < 2 then 0 else 1 + floor_log2 (n div 2))"

declare floor_log2.simps [simp del]

text \<open>\<open>Math.ceil(position / 2 ** (spreadRound - round))\<close>.\<close>

definition anchor_position :: "nat \<Rightarrow> branch_slot \<Rightarrow> nat" where
  "anchor_position spreadRound s = (br_position s + 2 ^ (spreadRound - br_round s) - 1) div 2 ^ (spreadRound - br_round s)"

definition converge_unit :: "string list \<Rightarrow> branch_unit" where
  "converge_unit ids = \<lparr>bu_kind = ConvergeUnit, bu_anchor = None, bu_matchIds = ids\<rparr>"

definition max_round :: "branch_slot list \<Rightarrow> nat" where
  "max_round slots = Max (set (map br_round slots))"

definition spread_of :: "branch_slot list \<Rightarrow> nat \<Rightarrow> nat" where
  "spread_of slots liceCount = max 1 (max_round slots - floor_log2 liceCount)"

definition spreadBranches :: "branch_slot list \<Rightarrow> nat \<Rightarrow> branches" where
  "spreadBranches slots liceCount =
     (if length slots = 0 then \<lparr>bb_units = [], bb_spreadRound = 0, bb_orphans = []\<rparr>
      else
        let rounds = map br_round slots in
        if liceCount \<le> 1 \<or> card (set rounds) \<le> 1 then
          \<lparr>bb_units = [converge_unit (ordered slots)],
            bb_spreadRound = max 1 (Min (set (filter (\<lambda>r. r \<ge> 1) rounds @ [max_round slots]))), bb_orphans = []\<rparr>
        else
          let spreadRound = spread_of slots liceCount;
              convergeSlots = filter (\<lambda>s. br_round s > spreadRound) slots;
              anchorBuckets = groupBy (anchor_position spreadRound) (filter (\<lambda>s. \<not> br_round s > spreadRound) slots);
              anchors = map (\<lambda>p. \<lparr>bu_kind = AnchorUnit, bu_anchor = Some (spreadRound, p),
                  bu_matchIds = ordered (or_else (map_of anchorBuckets p) [])\<rparr>) (sort (map fst anchorBuckets))
          in \<lparr>bb_units = anchors @ (if length convergeSlots > 0 then [converge_unit (ordered convergeSlots)] else []),
               bb_spreadRound = spreadRound, bb_orphans = []\<rparr>)"

definition convergeIds :: "branch_unit list \<Rightarrow> string list" where
  "convergeIds units = (case find (\<lambda>u. bu_kind u = ConvergeUnit) units of Some u \<Rightarrow> bu_matchIds u | None \<Rightarrow> [])"

definition groupBracketBranches :: "branch_slot list \<Rightarrow> nat \<Rightarrow> nat option \<Rightarrow> nat option \<Rightarrow> branches" where
  "groupBracketBranches slots liceCount wbRounds lbRounds =
     (case (wbRounds, lbRounds) of
        (Some wb, Some lb) \<Rightarrow>
          if wb > 0 then
            let tree = spreadBranches (filter (\<lambda>s. br_round s \<le> wb) slots) liceCount;
                ids = convergeIds (bb_units tree) @ ordered (filter (\<lambda>s. br_round s > wb) slots);
                anchors = filter (\<lambda>u. bu_kind u = AnchorUnit) (bb_units tree)
            in \<lparr>bb_units = anchors @ (if length ids > 0 then [converge_unit ids] else []),
                 bb_spreadRound = bb_spreadRound tree, bb_orphans = []\<rparr>
          else spreadBranches slots liceCount
      | _ \<Rightarrow> spreadBranches slots liceCount)"

section \<open>Every bout in one unit\<close>

interpretation slot_order: comparator slot_order
  by unfold_locales (auto simp: slot_order_def split: if_splits)

lemma mset_ordered [simp]: "mset (ordered slots) = mset (map br_matchId slots)"
  by (simp add: ordered_def)

lemma length_ordered [simp]: "length (ordered slots) = length slots"
  by (simp add: ordered_def flip: size_mset)

lemma ordered_Nil [simp]: "ordered slots = [] \<longleftrightarrow> slots = []"
  by (metis length_0_conv length_ordered)

abbreviation unit_ids :: "branch_unit list \<Rightarrow> string list" where
  "unit_ids units \<equiv> concat (map bu_matchIds units)"

lemma anchors_hold_their_slots:
  "mset (concat (map (\<lambda>p. ordered (or_else (map_of (groupBy key slots) p) [])) (sort (map fst (groupBy key slots))))) =
   mset (map br_matchId slots)"
proof -
  let ?ks = "sort (map fst (groupBy key slots))"
  have ids: "mset (concat (map (\<lambda>p. ordered (filter (\<lambda>s. key s = p) slots)) ks)) =
      image_mset br_matchId (mset (concat (map (\<lambda>p. filter (\<lambda>s. key s = p) slots) ks)))" for ks
    by (induction ks) simp_all
  have "map (\<lambda>p. ordered (or_else (map_of (groupBy key slots) p) [])) ?ks = map (\<lambda>p. ordered (filter (\<lambda>s. key s = p) slots)) ?ks"
    by (rule map_cong) (auto simp: map_of_groupBy filter_empty_conv)
  moreover have "mset (concat (map (\<lambda>p. filter (\<lambda>s. key s = p) slots) ?ks)) = mset slots"
    by (rule mset_groupBy) simp
  ultimately show ?thesis by (simp only: ids) simp
qed

lemma spread_ids: "mset (unit_ids (bb_units (spreadBranches slots liceCount))) = mset (map br_matchId slots)"
proof -
  have all: "image_mset br_matchId (filter_mset (\<lambda>s. \<not> P s) (mset slots)) + image_mset br_matchId (filter_mset P (mset slots)) =
      image_mset br_matchId (mset slots)" for P
    by (metis image_mset_union multiset_partition union_commute)
  show ?thesis
    using anchors_hold_their_slots [of "anchor_position (spread_of slots liceCount)" "filter (\<lambda>s. \<not> br_round s > spread_of slots liceCount) slots"]
      all [of "\<lambda>s. br_round s > spread_of slots liceCount"]
    by (auto simp: spreadBranches_def converge_unit_def comp_def Let_def filter_empty_conv not_less simp flip: mset_filter)
qed

definition tree_shaped :: "nat option \<Rightarrow> nat option \<Rightarrow> nat option" where
  "tree_shaped wbRounds lbRounds = (case (wbRounds, lbRounds) of (Some wb, Some lb) \<Rightarrow> if wb > 0 then Some wb else None | _ \<Rightarrow> None)"

lemma spread_units:
  obtains anchors ids where "bb_units (spreadBranches slots liceCount) = anchors @ (if ids = [] then [] else [converge_unit ids])"
    and "list_all (\<lambda>u. bu_kind u = AnchorUnit) anchors"
proof -
  define sp where "sp = spread_of slots liceCount"
  let ?buckets = "groupBy (anchor_position sp) (filter (\<lambda>s. \<not> br_round s > sp) slots)"
  show thesis
  proof (cases "slots = [] \<or> liceCount \<le> 1 \<or> card (set (map br_round slots)) \<le> 1")
    case True
    then show thesis
      by (intro that [of "[]" "if slots = [] then [] else ordered slots"])
         (auto simp: spreadBranches_def Let_def)
  next
    case False
    then show thesis
      by (intro that [of "map (\<lambda>p. \<lparr>bu_kind = AnchorUnit, bu_anchor = Some (sp, p), bu_matchIds = ordered (or_else (map_of ?buckets p) [])\<rparr>)
            (sort (map fst ?buckets))" "ordered (filter (\<lambda>s. br_round s > sp) slots)"])
         (simp_all add: spreadBranches_def Let_def sp_def list_all_iff)
  qed
qed

lemma ids_with_converge: "mset (unit_ids (anchors @ (if ids = [] then [] else [converge_unit ids]))) = mset (unit_ids anchors) + mset ids"
  by (simp add: converge_unit_def)

lemma find_converge: "list_all (\<lambda>u. bu_kind u = AnchorUnit) anchors \<Longrightarrow> convergeIds (anchors @ (if ids = [] then [] else [converge_unit ids])) = ids"
  by (induction anchors) (auto simp: convergeIds_def converge_unit_def)

text \<open>
  Nobody is left out and nobody is twice in a schedule: the units of a bracket hold each of
  its bouts once, however many pistes there are and whether it is a single or a double elimination.
\<close>

lemma every_slot_in_one_unit:
  "mset (unit_ids (bb_units (groupBracketBranches slots liceCount wbRounds lbRounds))) = mset (map br_matchId slots)"
proof (cases "tree_shaped wbRounds lbRounds")
  case None
  then have "groupBracketBranches slots liceCount wbRounds lbRounds = spreadBranches slots liceCount"
    by (auto simp: groupBracketBranches_def tree_shaped_def split: option.splits if_splits)
  then show ?thesis by (simp add: spread_ids)
next
  case (Some wb)
  define up where "up = filter (\<lambda>s. br_round s \<le> wb) slots"
  obtain anchors ids where units: "bb_units (spreadBranches up liceCount) = anchors @ (if ids = [] then [] else [converge_unit ids])"
    and kind: "list_all (\<lambda>u. bu_kind u = AnchorUnit) anchors" by (rule spread_units)
  have anchored: "filter (\<lambda>u. bu_kind u = AnchorUnit) (bb_units (spreadBranches up liceCount)) = anchors"
    using kind by (simp add: units list_all_iff converge_unit_def)
  have "mset (unit_ids (bb_units (spreadBranches up liceCount))) = mset (map br_matchId up)" by (rule spread_ids)
  then have upper: "mset (unit_ids anchors) + mset ids = mset (map br_matchId up)"
    unfolding units ids_with_converge .
  obtain lb where shape: "wbRounds = Some wb" "lbRounds = Some lb" "wb > 0"
    using Some by (auto simp: tree_shaped_def split: option.splits if_splits)
  have grouped: "bb_units (groupBracketBranches slots liceCount wbRounds lbRounds) =
      anchors @ (let below = ids @ ordered (filter (\<lambda>s. br_round s > wb) slots) in if below = [] then [] else [converge_unit below])"
    unfolding groupBracketBranches_def shape option.case prod.case Let_def up_def [symmetric] anchored
    unfolding units find_converge [OF kind] using shape(3) by simp
  moreover have "mset (map br_matchId up) + mset (map br_matchId (filter (\<lambda>s. br_round s > wb) slots)) = mset (map br_matchId slots)"
    unfolding up_def not_le [symmetric] by (induction slots) auto
  ultimately show ?thesis
    unfolding grouped Let_def ids_with_converge mset_append mset_ordered add.assoc [symmetric] upper by simp
qed

section \<open>A sub-tree in the order of its rounds\<close>

definition comes_before :: "'a \<Rightarrow> 'a \<Rightarrow> 'a list \<Rightarrow> bool" where
  "comes_before x y xs \<longleftrightarrow> (\<exists>as bs cs. xs = as @ x # bs @ y # cs)"

lemma comes_before_map: "comes_before x y xs \<Longrightarrow> comes_before (f x) (f y) (map f xs)"
  by (fastforce simp: comes_before_def)

lemma ordered_before:
  assumes "f \<in> set slots" and "s \<in> set slots" and "br_round f < br_round s"
  shows "comes_before (br_matchId f) (br_matchId s) (ordered slots)"
proof -
  have in_sort: "f \<in> set (sort_by slot_order slots)" "s \<in> set (sort_by slot_order slots)"
    using assms(1,2) by (metis mset_sort_by set_mset_mset)+
  then obtain as bs where split: "sort_by slot_order slots = as @ f # bs" using split_list [OF in_sort(1)] by blast
  have "s \<noteq> f" using assms(3) by auto
  have "s \<notin> set as"
  proof
    assume "s \<in> set as"
    then have "slot_order s f \<le> 0" using slot_order.sorted_sort_by [of slots] by (simp add: split sorted_wrt_append)
    then show False using assms(3) by (simp add: slot_order_def split: if_splits)
  qed
  then have "s \<in> set bs" using in_sort(2) split \<open>s \<noteq> f\<close> by simp
  then obtain bs1 bs2 where "bs = bs1 @ s # bs2" by (auto dest: split_list)
  then have "comes_before f s (sort_by slot_order slots)" by (auto simp: split comes_before_def)
  then show ?thesis unfolding ordered_def by (rule comes_before_map)
qed

text \<open>A bout and the two that feed it fold into the same anchor.\<close>

definition feeds :: "branch_slot \<Rightarrow> branch_slot \<Rightarrow> bool" where
  "feeds f s \<longleftrightarrow> br_round s = Suc (br_round f) \<and> br_position s = (br_position f + 1) div 2"

lemma same_anchor:
  assumes "feeds f s" and "br_round s \<le> sp"
  shows "anchor_position sp f = anchor_position sp s"
proof -
  obtain k where k: "sp - br_round s = k" "sp - br_round f = Suc k" using assms by (auto simp: feeds_def)
  let ?q = "br_position f" and ?m = "(2::nat) ^ k"
  have "(?q + 1) div 2 + (?m - 1) = (?q + 1 + 2 * (?m - 1)) div 2" by presburger
  also have "?q + 1 + 2 * (?m - 1) = ?q + 2 * ?m - 1" using one_le_power [of "2::nat" k] by arith
  finally have "((?q + 1) div 2 + (?m - 1)) div ?m = (?q + 2 * ?m - 1) div (2 * ?m)" by (simp add: div_mult2_eq)
  moreover have "(?q + 1) div 2 + (?m - 1) = (?q + 1) div 2 + ?m - 1" by simp
  ultimately show ?thesis unfolding anchor_position_def k using assms(1) by (simp add: feeds_def)
qed

text \<open>
  Up to the spread round a bout is in the unit of the bouts that feed it, behind them; with one
  piste that holds for the whole tree.
\<close>

lemma feeder_goes_first:
  assumes "f \<in> set slots" and "s \<in> set slots" and "feeds f s" and "br_round s \<le> spread_of slots liceCount \<or> liceCount \<le> 1"
  shows "\<exists>u \<in> set (bb_units (spreadBranches slots liceCount)). comes_before (br_matchId f) (br_matchId s) (bu_matchIds u)"
proof -
  have less: "br_round f < br_round s" using assms(3) by (simp add: feeds_def)
  have "slots \<noteq> []" using assms(1) by auto
  have "card {br_round f, br_round s} \<le> card (set (map br_round slots))" using assms(1,2) by (intro card_mono) auto
  then have rounds: "\<not> card (set (map br_round slots)) \<le> 1" using less by simp
  show ?thesis
  proof (cases "liceCount \<le> 1")
    case True
    then show ?thesis using ordered_before [OF assms(1,2) less] \<open>slots \<noteq> []\<close> by (simp add: spreadBranches_def converge_unit_def)
  next
    case False
    define sp where "sp = spread_of slots liceCount"
    define low where "low = filter (\<lambda>s. \<not> br_round s > sp) slots"
    define p where "p = anchor_position sp f"
    have s_round: "br_round s \<le> sp" using assms(4) False by (simp add: sp_def)
    have same: "anchor_position sp s = p" using same_anchor [OF assms(3) s_round] by (simp add: p_def)
    have low: "f \<in> set (filter (\<lambda>s. anchor_position sp s = p) low)" "s \<in> set (filter (\<lambda>s. anchor_position sp s = p) low)"
      using assms(1,2) s_round less by (auto simp: low_def p_def same [unfolded p_def])
    then have bucket: "map_of (groupBy (anchor_position sp) low) p = Some (filter (\<lambda>s. anchor_position sp s = p) low)"
      by (auto simp: map_of_groupBy image_iff)
    then have key: "p \<in> fst ` set (groupBy (anchor_position sp) low)" by (metis map_of_eq_None_iff option.distinct(1))
    let ?u = "\<lparr>bu_kind = AnchorUnit, bu_anchor = Some (sp, p), bu_matchIds = ordered (or_else (map_of (groupBy (anchor_position sp) low) p) [])\<rparr>"
    have "?u \<in> set (bb_units (spreadBranches slots liceCount))"
      using False rounds \<open>slots \<noteq> []\<close> key by (simp add: spreadBranches_def Let_def sp_def [symmetric] low_def [symmetric])
    moreover have "comes_before (br_matchId f) (br_matchId s) (bu_matchIds ?u)"
      using ordered_before [OF low less] by (simp add: bucket)
    ultimately show ?thesis by (rule bexI [rotated])
  qed
qed

end
