(* ===== verification/Schedule_Run.thy ===== *)
theory Schedule_Run
  imports Grouping Referee_Checker
begin

text \<open>
  The lengths of bouts and the laying out of a run: \<open>planned-length.ts\<close> and \<open>lay-run.ts\<close> of
  \<open>apps/api/src/modules/schedule\<close>, over the sheet of lengths of \<open>packages/types\<close>. Instants and spans
  are milliseconds.
\<close>

section \<open>How long a bout lasts\<close>

datatype match_kind = PoolBout | SwissBout | EliminationBout | FinalsBout

record tournament_lengths =
  tl_tournamentId :: string
  tl_poolMatchDurationMinutes :: "int option"
  tl_swissMatchDurationMinutes :: "int option"
  tl_eliminationMatchDurationMinutes :: "int option"
  tl_finalsMatchDurationMinutes :: "int option"
  tl_minRestMinutes :: "int option"

record suggest_config =
  sh_poolMatchDurationMinutes :: int
  sh_swissMatchDurationMinutes :: "int option"
  sh_eliminationMatchDurationMinutes :: int
  sh_finalsMatchDurationMinutes :: int
  sh_matchGapSeconds :: int
  sh_minRestMinutes :: int
  sh_tournaments :: "tournament_lengths list"

definition finalRoundOf :: "int option list \<Rightarrow> int option" where
  "finalRoundOf rounds =
     (let known = concat (map (\<lambda>r. case r of Some n \<Rightarrow> [n] | None \<Rightarrow> []) rounds)
      in if length known > 0 then Some (Max (set known)) else None)"

definition finalRoundsByPhase :: "(string \<times> int option) list \<Rightarrow> (string \<times> int option) list" where
  "finalRoundsByPhase rows = map (\<lambda>(phaseId, rs). (phaseId, finalRoundOf (map snd rs))) (groupBy fst rows)"

definition plannedLengthOf :: "(string \<Rightarrow> int option) \<Rightarrow> string \<Rightarrow> string + int" where
  "plannedLengthOf lengths matchId =
     (case lengths matchId of None \<Rightarrow> Inl (''No planned length for match '' @ matchId) | Some minutes \<Rightarrow> Inr minutes)"

definition plannedEnd :: "(int option \<times> int) list \<Rightarrow> int option" where
  "plannedEnd bouts = map_option w_endMs (hullMs (concat (map
     (\<lambda>(scheduledAt, minutes). case scheduledAt of
        None \<Rightarrow> [] | Some t \<Rightarrow> [\<lparr>w_startMs = t, w_endMs = t + minutes * 60000\<rparr>]) bouts)))"

definition isFinalsMatch :: "int option \<Rightarrow> int option \<Rightarrow> bool" where
  "isFinalsMatch r finalRound \<longleftrightarrow> r \<noteq> None \<and> finalRound \<noteq> None \<and> r = finalRound"

definition matchKind :: "string option \<Rightarrow> int option \<Rightarrow> int option \<Rightarrow> match_kind" where
  "matchKind phaseType r finalRound =
     (if phaseType = Some ''pool'' then PoolBout
      else if phaseType = Some ''swiss'' then SwissBout
      else if isFinalsMatch r finalRound then FinalsBout else EliminationBout)"

definition own_row :: "suggest_config \<Rightarrow> string \<Rightarrow> tournament_lengths option" where
  "own_row sheet tournamentId = find (\<lambda>r. tl_tournamentId r = tournamentId) (sh_tournaments sheet)"

definition sheetRestFor :: "suggest_config \<Rightarrow> string \<Rightarrow> int" where
  "sheetRestFor sheet tournamentId =
     or_else (Option.bind (own_row sheet tournamentId) tl_minRestMinutes) (sh_minRestMinutes sheet)"

fun tournamentLength :: "match_kind \<Rightarrow> tournament_lengths \<Rightarrow> int option" where
  "tournamentLength PoolBout row = tl_poolMatchDurationMinutes row"
| "tournamentLength SwissBout row =
     (case tl_swissMatchDurationMinutes row of Some n \<Rightarrow> Some n | None \<Rightarrow> tl_poolMatchDurationMinutes row)"
| "tournamentLength EliminationBout row = tl_eliminationMatchDurationMinutes row"
| "tournamentLength FinalsBout row = tl_finalsMatchDurationMinutes row"

fun eventLength :: "match_kind \<Rightarrow> suggest_config \<Rightarrow> int" where
  "eventLength PoolBout sheet = sh_poolMatchDurationMinutes sheet"
| "eventLength SwissBout sheet = or_else (sh_swissMatchDurationMinutes sheet) (sh_poolMatchDurationMinutes sheet)"
| "eventLength EliminationBout sheet = sh_eliminationMatchDurationMinutes sheet"
| "eventLength FinalsBout sheet = sh_finalsMatchDurationMinutes sheet"

definition sheetLengthFor :: "match_kind \<Rightarrow> suggest_config \<Rightarrow> string \<Rightarrow> int" where
  "sheetLengthFor kind sheet tournamentId =
     or_else (Option.bind (own_row sheet tournamentId) (tournamentLength kind)) (eventLength kind sheet)"

section \<open>Laying out a run\<close>

record run_bout =
  rb_id :: string
  rb_liceId :: string
  rb_startMs :: int

record sized_run_bout = run_bout +
  rb_lengthMinutes :: int

record laid_bout =
  lb_id :: string
  lb_liceId :: string
  lb_scheduledAt :: int

definition boutsBeforeRest :: "nat \<Rightarrow> nat" where
  "boutsBeforeRest queueLength = queueLength div 2"

definition byStartThenId :: "'a run_bout_scheme \<Rightarrow> 'a run_bout_scheme \<Rightarrow> int" where
  "byStartThenId = then_by (\<lambda>a b. rb_startMs a - rb_startMs b) (\<lambda>a b. if rb_id a < rb_id b then -1 else if rb_id a > rb_id b then 1 else 0)"

text \<open>The queue of one piste from \<open>atMs\<close>, with \<open>placed\<close> bouts laid before it.\<close>

fun lay_queue :: "string \<Rightarrow> nat \<Rightarrow> int \<Rightarrow> int \<Rightarrow> nat \<Rightarrow> int \<Rightarrow> sized_run_bout list \<Rightarrow> laid_bout list" where
  "lay_queue liceId restAfter gapMs midRestMs placed atMs [] = []"
| "lay_queue liceId restAfter gapMs midRestMs placed atMs (bout # bouts) =
     \<lparr>lb_id = rb_id bout, lb_liceId = liceId, lb_scheduledAt = atMs\<rparr> #
     lay_queue liceId restAfter gapMs midRestMs (placed + 1)
       (atMs + (rb_lengthMinutes bout * 60000 + gapMs) + (if placed + 1 = restAfter then midRestMs else 0)) bouts"

definition layRun :: "sized_run_bout list \<Rightarrow> int \<Rightarrow> int \<Rightarrow> int option \<Rightarrow> laid_bout list" where
  "layRun bouts startMs gapMs midRestMs =
     concat (map (\<lambda>(liceId, queue).
         lay_queue liceId (boutsBeforeRest (length queue)) gapMs (or_else midRestMs 0) 0 startMs (sort_by byStartThenId queue))
       (groupBy rb_liceId bouts))"

definition shiftRun :: "run_bout list \<Rightarrow> int \<Rightarrow> laid_bout list" where
  "shiftRun bouts startMs =
     (if length bouts = 0 then []
      else
        let earliest = Min (set (map rb_startMs bouts)); deltaMs = startMs - earliest
        in if deltaMs = 0 then []
           else map (\<lambda>b. \<lparr>lb_id = rb_id b, lb_liceId = rb_liceId b, lb_scheduledAt = rb_startMs b + deltaMs\<rparr>) bouts)"

section \<open>What a laid run keeps\<close>

text \<open>The place of a bout: all that runs before it on its piste, and the one break behind the first half.\<close>

lemma lay_queue_starts:
  "map lb_scheduledAt (lay_queue liceId restAfter gap rest placed t bouts) =
   map (\<lambda>i. t + sum_list (map (\<lambda>b. rb_lengthMinutes b * 60000 + gap) (take i bouts)) +
        (if placed < restAfter \<and> restAfter \<le> placed + i then rest else 0)) [0..<length bouts]"
proof (induction bouts arbitrary: placed t)
  case (Cons b bouts)
  show ?case
    unfolding length_Cons upt_conv_Cons [OF zero_less_Suc] map_Suc_upt [symmetric]
    by (auto simp: Cons.IH comp_def)
qed simp

lemma lay_queue_ids: "map lb_id (lay_queue liceId restAfter gap rest placed t bouts) = map rb_id bouts"
  by (induction bouts arbitrary: placed t) simp_all

lemma lay_queue_lice: "lb_liceId ` set (lay_queue liceId restAfter gap rest placed t bouts) \<subseteq> {liceId}"
  by (induction bouts arbitrary: placed t) auto

text \<open>A bout starts when the one before it on its piste has ended and the gap has passed.\<close>

lemma lay_queue_apart:
  assumes "Suc i < length bouts" and "0 \<le> rest"
  shows "lb_scheduledAt (lay_queue liceId restAfter gap rest placed t bouts ! i) + rb_lengthMinutes (bouts ! i) * 60000 + gap
    \<le> lb_scheduledAt (lay_queue liceId restAfter gap rest placed t bouts ! Suc i)"
proof -
  have len: "length (lay_queue liceId restAfter gap rest placed t bouts) = length bouts"
    by (metis lay_queue_ids length_map)
  have at: "lb_scheduledAt (lay_queue liceId restAfter gap rest placed t bouts ! k) =
      t + sum_list (map (\<lambda>b. rb_lengthMinutes b * 60000 + gap) (take k bouts)) + (if placed < restAfter \<and> restAfter \<le> placed + k then rest else 0)"
    if "k < length bouts" for k
    using arg_cong [OF lay_queue_starts [of liceId restAfter gap rest placed t bouts], of "\<lambda>xs. xs ! k"] that len by simp
  show ?thesis using assms by (simp add: at take_Suc_conv_app_nth)
qed

text \<open>Every bout of the run is laid once.\<close>

lemma layRun_ids: "mset (map lb_id (layRun bouts startMs gapMs midRestMs)) = mset (map rb_id bouts)"
proof -
  have "mset (map lb_id (concat (map (\<lambda>(l, q). lay_queue l (boutsBeforeRest (length q)) gapMs (or_else midRestMs 0) 0 startMs (sort_by byStartThenId q)) gs))) =
      mset (map rb_id (concat (map snd gs)))" for gs :: "(string \<times> sized_run_bout list) list"
    by (induction gs) (auto simp: lay_queue_ids simp flip: mset_map, metis mset_map mset_sort_by)
  moreover have "mset (concat (map snd (groupBy rb_liceId bouts))) = mset bouts" by (rule mset_groups)
  ultimately show ?thesis by (simp add: layRun_def)
qed

text \<open>A run that is shifted starts where it was asked to and keeps its spacing.\<close>

lemma shiftRun_spacing:
  assumes "shiftRun bouts startMs \<noteq> []"
  shows "Min (set (map lb_scheduledAt (shiftRun bouts startMs))) = startMs \<and>
    map (\<lambda>b. lb_scheduledAt b - startMs) (shiftRun bouts startMs) = map (\<lambda>b. rb_startMs b - Min (set (map rb_startMs bouts))) bouts"
proof -
  let ?d = "startMs - Min (set (map rb_startMs bouts))"
  have ne: "bouts \<noteq> []" using assms by (auto simp: shiftRun_def)
  then have laid: "shiftRun bouts startMs = map (\<lambda>b. \<lparr>lb_id = rb_id b, lb_liceId = rb_liceId b, lb_scheduledAt = rb_startMs b + ?d\<rparr>) bouts"
    using assms by (auto simp: shiftRun_def Let_def split: if_splits)
  have "Min ((\<lambda>b. rb_startMs b + ?d) ` set bouts) = Min (rb_startMs ` set bouts) + ?d"
    using Min_add_commute [of "set bouts" rb_startMs ?d] ne by simp
  then show ?thesis by (simp add: laid image_image)
qed

end
