(* ===== verification/Match_Scheduler.thy ===== *)
theory Match_Scheduler
  imports Bracket_Branches Schedule_Run
begin

text \<open>
  \<open>apps/api/src/modules/schedule/match-scheduler.ts\<close>: bouts laid on pistes. Instants and spans are
  rationals in milliseconds; the rounding of an instant to a whole millisecond is not modelled.
  The comparison of two pool ids by \<open>localeCompare\<close> is a parameter.
\<close>

section \<open>The scheduler\<close>

record scheduler_match =
  fx_id :: string
  fx_redRegistrationId :: "string option"
  fx_blueRegistrationId :: "string option"
  fx_estimatedDurationMinutes :: rat
  fx_poolId :: "string option"
  fx_poolSortOrder :: "int option"
  fx_matchNumberLabel :: "string option"
  fx_bracketRound :: "nat option"
  fx_bracketPosition :: "nat option"
  fx_wbRounds :: "nat option"
  fx_lbRounds :: "nat option"

record scheduler_lice =
  li_id :: string
  li_name :: string
  li_sortOrder :: "int option"

datatype pool_affinity = Strict | Off | BracketBranch

record scheduler_options =
  so_midRestMinutes :: rat
  so_startTime :: "rat option"
  so_transitionMinutes :: rat
  so_poolAffinity :: "pool_affinity option"
  so_liceBusyUntil :: "string \<Rightarrow> rat option"

record scheduled_match =
  sc_matchId :: string
  sc_liceId :: string
  sc_liceName :: string
  sc_scheduledAt :: rat
  sc_estimatedEndAt :: rat

record schedule_result =
  sr_scheduledMatches :: "scheduled_match list"
  sr_liceLoad :: "(string \<times> nat) list"
  sr_imbalancePercent :: int
  sr_unscheduled :: "string list"

text \<open>The affinity of a block of \<open>programme.service.ts\<close>, from its bouts and the types of their phases.\<close>

definition decidePoolAffinity :: "bool \<Rightarrow> (nat option \<times> nat option \<times> string option) list \<Rightarrow> pool_affinity" where
  "decidePoolAffinity isPool matches =
     (if isPool then Strict
      else
        let hasTree = list_ex (\<lambda>(r, p, _). r \<noteq> None \<and> p \<noteq> None) matches;
            allElim = length matches > 0 \<and> list_all (\<lambda>(_, _, t). t = Some ''single_elim'' \<or> t = Some ''double_elim'') matches
        in if hasTree \<and> allElim then BracketBranch else Off)"

text \<open>A unit is laid on one piste; \<open>None\<close> sorts as infinity.\<close>

record schedule_unit =
  un_poolId :: "string option"
  un_sortOrder :: "int option"
  un_matches :: "scheduler_match list"

subsection \<open>The units\<close>

definition pooled :: "scheduler_match \<Rightarrow> bool" where
  "pooled m \<longleftrightarrow> or_else (fx_poolId m) [] \<noteq> []"

definition lone :: "int option \<Rightarrow> scheduler_match \<Rightarrow> schedule_unit" where
  "lone order m = \<lparr>un_poolId = None, un_sortOrder = order, un_matches = [m]\<rparr>"

definition unit_order :: "(string \<Rightarrow> string \<Rightarrow> int) \<Rightarrow> schedule_unit \<Rightarrow> schedule_unit \<Rightarrow> int" where
  "unit_order localeCompare a b =
     (case (un_sortOrder a, un_sortOrder b) of
        (Some x, Some y) \<Rightarrow> if x \<noteq> y then x - y else localeCompare (or_else (un_poolId a) []) (or_else (un_poolId b) [])
      | (Some x, None) \<Rightarrow> -1
      | (None, Some y) \<Rightarrow> 1
      | (None, None) \<Rightarrow> localeCompare (or_else (un_poolId a) []) (or_else (un_poolId b) []))"

definition pool_unit :: "string \<times> scheduler_match list \<Rightarrow> schedule_unit" where
  "pool_unit = (\<lambda>(poolId, ms). \<lparr>un_poolId = Some poolId,
     un_sortOrder = Some (or_else (Option.bind (find (\<lambda>m. fx_poolSortOrder m \<noteq> None) ms) fx_poolSortOrder) 0), un_matches = ms\<rparr>)"

definition strict_units :: "(string \<Rightarrow> string \<Rightarrow> int) \<Rightarrow> scheduler_match list \<Rightarrow> schedule_unit list" where
  "strict_units localeCompare matches =
     sort_by (unit_order localeCompare)
       (map (lone None) (filter (\<lambda>m. \<not> pooled m) matches) @
        map pool_unit (groupBy (\<lambda>m. or_else (fx_poolId m) []) (filter pooled matches)))"

definition coords :: "scheduler_match \<Rightarrow> bool" where
  "coords m \<longleftrightarrow> fx_bracketRound m \<noteq> None \<and> fx_bracketPosition m \<noteq> None"

definition branch_slots :: "scheduler_match list \<Rightarrow> branch_slot list" where
  "branch_slots matches = map (\<lambda>m. \<lparr>br_matchId = fx_id m, br_round = the (fx_bracketRound m), br_position = the (fx_bracketPosition m)\<rparr>)
     (filter coords matches)"

text \<open>\<open>byId.get\<close> of a \<open>Map\<close> made of the list: a later match of the same id replaces an earlier one.\<close>

definition toUnit :: "scheduler_match list \<Rightarrow> string list \<Rightarrow> scheduler_match list" where
  "toUnit matches ids = concat (map (\<lambda>i. case map_of (rev (map (\<lambda>m. (fx_id m, m)) matches)) i of Some m \<Rightarrow> [m] | None \<Rightarrow> []) ids)"

definition built_units :: "scheduler_match list list \<Rightarrow> schedule_unit list" where
  "built_units mss = map (\<lambda>(i, ms). \<lparr>un_poolId = None, un_sortOrder = Some (int i), un_matches = ms\<rparr>) (enumerate 0 mss)"

definition bracket_units :: "scheduler_match list \<Rightarrow> nat \<Rightarrow> schedule_unit list" where
  "bracket_units matches liceCount =
     (let shaped = find (\<lambda>m. fx_wbRounds m \<noteq> None \<and> fx_lbRounds m \<noteq> None) matches;
          units = bb_units (groupBracketBranches (branch_slots matches) liceCount (Option.bind shaped fx_wbRounds) (Option.bind shaped fx_lbRounds));
          anchors = map (\<lambda>u. toUnit matches (bu_matchIds u)) (filter (\<lambda>u. bu_kind u = AnchorUnit) units);
          built = (case find (\<lambda>u. bu_kind u = ConvergeUnit) units of
            None \<Rightarrow> anchors
          | Some u \<Rightarrow> let tail = toUnit matches (bu_matchIds u) in
              if length anchors > 0 then butlast anchors @ [last anchors @ tail] else [tail])
      in built_units built @ map (lone None) (filter (\<lambda>m. \<not> coords m) matches))"

definition units_for :: "(string \<Rightarrow> string \<Rightarrow> int) \<Rightarrow> pool_affinity \<Rightarrow> scheduler_match list \<Rightarrow> nat \<Rightarrow> schedule_unit list" where
  "units_for localeCompare affinity matches liceCount =
     (case affinity of
        Strict \<Rightarrow> strict_units localeCompare matches
      | BracketBranch \<Rightarrow> bracket_units matches liceCount
      | Off \<Rightarrow> map (lone (Some 0)) matches)"

text \<open>The number a label ends in, \<open>/(\d+)$/\<close>; without one the match sinks to the end.\<close>

definition matchNumericOrder :: "scheduler_match \<Rightarrow> nat option" where
  "matchNumericOrder m =
     read_nat (rev (takeWhile (\<lambda>c. digit_value c \<noteq> None) (rev (or_else (fx_matchNumberLabel m) []))))"

definition number_order :: "scheduler_match \<Rightarrow> scheduler_match \<Rightarrow> int" where
  "number_order a b =
     (case (matchNumericOrder a, matchNumericOrder b) of
        (Some x, Some y) \<Rightarrow> int x - int y
      | (Some x, None) \<Rightarrow> -1
      | (None, Some y) \<Rightarrow> 1
      | (None, None) \<Rightarrow> 0)"

definition orderedMatches :: "pool_affinity \<Rightarrow> schedule_unit \<Rightarrow> scheduler_match list" where
  "orderedMatches affinity u = (if affinity = BracketBranch then un_matches u else sort_by number_order (un_matches u))"

subsection \<open>Laying the units\<close>

text \<open>
  \<open>fighterNextFree\<close> is an object with the registration as its key: an absent registration,
  \<open>null\<close>, is the key \<open>"null"\<close>.
\<close>

definition property_key :: "string option \<Rightarrow> string" where
  "property_key i = or_else i ''null''"

record lay_state =
  ls_cursor :: rat
  ls_placed :: nat
  ls_fighterNextFree :: "string \<Rightarrow> rat option"
  ls_scheduled :: "scheduled_match list"

definition lay_match :: "scheduler_lice \<Rightarrow> rat \<Rightarrow> rat \<Rightarrow> rat \<Rightarrow> nat \<Rightarrow> scheduler_match \<Rightarrow> lay_state \<Rightarrow> lay_state" where
  "lay_match lice startTime transition midRest restAfter m st =
     (let duration = fx_estimatedDurationMinutes m * 60000;
          red = property_key (fx_redRegistrationId m); blue = property_key (fx_blueRegistrationId m);
          redFree = or_else (ls_fighterNextFree st red) startTime;
          blueFree = or_else (ls_fighterNextFree st blue) startTime;
          start = max (ls_cursor st) (max redFree blueFree);
          end' = start + duration
      in \<lparr>ls_cursor = end' + transition + (if ls_placed st + 1 = restAfter then midRest else 0),
          ls_placed = ls_placed st + 1,
          ls_fighterNextFree = (ls_fighterNextFree st)(red \<mapsto> end', blue \<mapsto> end'),
          ls_scheduled = ls_scheduled st @ [\<lparr>sc_matchId = fx_id m, sc_liceId = li_id lice, sc_liceName = li_name lice,
            sc_scheduledAt = start, sc_estimatedEndAt = end'\<rparr>]\<rparr>)"

record scheduler_state =
  st_liceNextFree :: "string \<Rightarrow> rat option"
  st_fighterNextFree :: "string \<Rightarrow> rat option"
  st_scheduled :: "scheduled_match list"

definition lay_unit ::
    "pool_affinity \<Rightarrow> scheduler_lice list \<Rightarrow> rat \<Rightarrow> rat \<Rightarrow> rat \<Rightarrow> nat \<times> schedule_unit \<Rightarrow> scheduler_state \<Rightarrow> scheduler_state" where
  "lay_unit affinity liceByIndex startTime transition midRest = (\<lambda>(unitIdx, u) st.
     (let lice = liceByIndex ! (unitIdx mod length liceByIndex);
          ms = orderedMatches affinity u;
          restAfter = (if un_poolId u \<noteq> None then boutsBeforeRest (length ms) else 0);
          st' = fold (lay_match lice startTime transition midRest restAfter) ms
            \<lparr>ls_cursor = or_else (st_liceNextFree st (li_id lice)) startTime, ls_placed = 0,
              ls_fighterNextFree = st_fighterNextFree st, ls_scheduled = st_scheduled st\<rparr>
      in \<lparr>st_liceNextFree = (st_liceNextFree st)(li_id lice \<mapsto> ls_cursor st'),
          st_fighterNextFree = ls_fighterNextFree st', st_scheduled = ls_scheduled st'\<rparr>))"

definition liceByIndex :: "scheduler_lice list \<Rightarrow> scheduler_lice list" where
  "liceByIndex lices = sort_by (\<lambda>a b. or_else (li_sortOrder a) 0 - or_else (li_sortOrder b) 0) lices"

definition first_free :: "scheduler_options \<Rightarrow> rat \<Rightarrow> string \<Rightarrow> rat" where
  "first_free opts startTime i = (case so_liceBusyUntil opts i of Some busy \<Rightarrow> max startTime busy | None \<Rightarrow> startTime)"

definition liceLoad :: "scheduler_lice list \<Rightarrow> scheduled_match list \<Rightarrow> (string \<times> nat) list" where
  "liceLoad lices scheduled =
     fold (\<lambda>sm. upsert (sc_liceId sm) (\<lambda>old. or_else old 0 + 1)) scheduled (fold (\<lambda>l. upsert (li_id l) (\<lambda>_. 0)) lices [])"

definition imbalancePercent :: "nat list \<Rightarrow> int" where
  "imbalancePercent loads =
     (let maxLoad = Max (set loads); minLoad = Min (set loads)
      in if maxLoad > 0 then \<lfloor>of_nat (maxLoad - minLoad) / of_nat maxLoad * 100 + (1 / 2 :: rat)\<rfloor> else 0)"

definition scheduleMatches ::
    "(string \<Rightarrow> string \<Rightarrow> int) \<Rightarrow> rat \<Rightarrow> scheduler_match list \<Rightarrow> scheduler_lice list \<Rightarrow> scheduler_options \<Rightarrow> string + schedule_result" where
  "scheduleMatches localeCompare now matches lices opts =
     (if length lices = 0 then Inl ''At least one Lice is required''
      else if length matches = 0 then
        Inr \<lparr>sr_scheduledMatches = [], sr_liceLoad = [], sr_imbalancePercent = 0, sr_unscheduled = []\<rparr>
      else
        let midRest = so_midRestMinutes opts * 60000; transition = so_transitionMinutes opts * 60000;
            startTime = or_else (so_startTime opts) now; affinity = or_else (so_poolAffinity opts) Strict;
            units = units_for localeCompare affinity matches (length lices);
            start = \<lparr>st_liceNextFree = map_of (map (\<lambda>i. (i, first_free opts startTime i)) (map li_id lices)),
                      st_fighterNextFree = (\<lambda>_. None), st_scheduled = []\<rparr>;
            st = fold (lay_unit affinity (liceByIndex lices) startTime transition midRest) (enumerate 0 units) start;
            load = liceLoad lices (st_scheduled st)
        in Inr \<lparr>sr_scheduledMatches = st_scheduled st, sr_liceLoad = load,
             sr_imbalancePercent = imbalancePercent (map snd load), sr_unscheduled = []\<rparr>)"

section \<open>Nobody is in two bouts at once\<close>

text \<open>A laid bout is the match with its place; two of them are apart when the second waits for the first.\<close>

type_synonym laid = "scheduler_match \<times> scheduled_match"

definition fighters :: "scheduler_match \<Rightarrow> string set" where
  "fighters m = {property_key (fx_redRegistrationId m), property_key (fx_blueRegistrationId m)}"

definition apart :: "rat \<Rightarrow> laid \<Rightarrow> laid \<Rightarrow> bool" where
  "apart transition = (\<lambda>(m, s) (m', s').
     (sc_liceId s = sc_liceId s' \<longrightarrow> sc_estimatedEndAt s + transition \<le> sc_scheduledAt s') \<and>
     (fighters m \<inter> fighters m' \<noteq> {} \<longrightarrow> sc_estimatedEndAt s \<le> sc_scheduledAt s'))"

definition laid_right :: "(string \<Rightarrow> rat) \<Rightarrow> laid \<Rightarrow> bool" where
  "laid_right base = (\<lambda>(m, s). sc_matchId s = fx_id m \<and> base (sc_liceId s) \<le> sc_scheduledAt s \<and>
     sc_estimatedEndAt s = sc_scheduledAt s + fx_estimatedDurationMinutes m * 60000)"

text \<open>What holds while bouts are laid: \<open>F\<close> is when a piste is free, \<open>G\<close> when a fighter is.\<close>

definition lay_ok :: "(string \<Rightarrow> rat) \<Rightarrow> rat \<Rightarrow> laid list \<Rightarrow> (string \<Rightarrow> rat) \<Rightarrow> (string \<Rightarrow> rat) \<Rightarrow> bool" where
  "lay_ok base transition made F G \<longleftrightarrow>
     sorted_wrt (apart transition) made \<and> list_all (laid_right base) made \<and>
     list_all (\<lambda>(m, s). sc_estimatedEndAt s + transition \<le> F (sc_liceId s) \<and> (\<forall>k \<in> fighters m. sc_estimatedEndAt s \<le> G k)) made \<and>
     (\<forall>l. base l \<le> F l)"

lemma lay_ok_step:
  assumes ok: "lay_ok base transition made F G" and "0 \<le> transition" and "0 \<le> fx_estimatedDurationMinutes m"
    and "F (sc_liceId s) \<le> sc_scheduledAt s" and "\<forall>k \<in> fighters m. G k \<le> sc_scheduledAt s"
    and end_at: "sc_estimatedEndAt s = sc_scheduledAt s + fx_estimatedDurationMinutes m * 60000" and "sc_matchId s = fx_id m"
    and F': "sc_estimatedEndAt s + transition \<le> F' (sc_liceId s)" "\<And>l. l \<noteq> sc_liceId s \<Longrightarrow> F' l = F l"
    and G': "\<And>k. G' k = (if k \<in> fighters m then sc_estimatedEndAt s else G k)"
  shows "lay_ok base transition (made @ [(m, s)]) F' G'"
proof -
  have later: "sc_scheduledAt s \<le> sc_estimatedEndAt s" using assms(3) end_at by simp
  have mono: "F l \<le> F' l" for l
    using F' assms(2,4) later by (cases "l = sc_liceId s") auto
  have fmono: "e \<le> G k \<Longrightarrow> e \<le> G' k" for e k
    using assms(5) later G' [of k] by (auto intro: order_trans)
  have "sorted_wrt (apart transition) (made @ [(m, s)])"
    using ok assms(4,5) by (fastforce simp: lay_ok_def sorted_wrt_append apart_def list_all_iff intro: order_trans)
  moreover have "laid_right base (m, s)"
    using ok assms(4,6,7) by (auto simp: lay_ok_def laid_right_def intro: order_trans)
  moreover have "list_all (\<lambda>(m, s). sc_estimatedEndAt s + transition \<le> F' (sc_liceId s) \<and> (\<forall>k \<in> fighters m. sc_estimatedEndAt s \<le> G' k)) made"
    using ok mono fmono by (fastforce simp: lay_ok_def list_all_iff intro: order_trans)
  moreover have "\<forall>l. base l \<le> F' l" using ok mono by (auto simp: lay_ok_def intro: order_trans)
  ultimately show ?thesis using ok F'(1) G' by (simp add: lay_ok_def)
qed

definition piste_free :: "rat \<Rightarrow> (string \<Rightarrow> rat option) \<Rightarrow> string \<Rightarrow> rat" where
  "piste_free startTime nf l = or_else (nf l) startTime"

definition well_timed :: "scheduler_match list \<Rightarrow> bool" where
  "well_timed ms \<longleftrightarrow> list_all (\<lambda>m. 0 \<le> fx_estimatedDurationMinutes m) ms"

lemma lay_unit_ok:
  assumes "0 \<le> transition" and "0 \<le> midRest" and "well_timed ms"
    and "lay_ok base transition made ((piste_free startTime nf)(li_id lice := ls_cursor st)) (piste_free startTime (ls_fighterNextFree st))"
    and "ls_scheduled st = map snd made"
  shows "\<exists>seg. map fst seg = ms \<and> list_all (\<lambda>(m, s). sc_liceId s = li_id lice) seg \<and>
    ls_scheduled (fold (lay_match lice startTime transition midRest restAfter) ms st) = map snd (made @ seg) \<and>
    lay_ok base transition (made @ seg)
      ((piste_free startTime nf)(li_id lice := ls_cursor (fold (lay_match lice startTime transition midRest restAfter) ms st)))
      (piste_free startTime (ls_fighterNextFree (fold (lay_match lice startTime transition midRest restAfter) ms st)))"
  using assms(3-5)
proof (induction ms arbitrary: made st)
  case Nil
  then show ?case by (intro exI [of _ "[]"]) simp
next
  case (Cons m ms)
  define st1 where "st1 = lay_match lice startTime transition midRest restAfter m st"
  define s where "s = last (ls_scheduled st1)"
  have sched: "ls_scheduled st1 = map snd (made @ [(m, s)])" and s: "sc_liceId s = li_id lice" "sc_matchId s = fx_id m"
    "sc_scheduledAt s = max (ls_cursor st) (max (piste_free startTime (ls_fighterNextFree st) (property_key (fx_redRegistrationId m)))
       (piste_free startTime (ls_fighterNextFree st) (property_key (fx_blueRegistrationId m))))"
    "sc_estimatedEndAt s = sc_scheduledAt s + fx_estimatedDurationMinutes m * 60000"
    using Cons.prems(3) by (simp_all add: s_def st1_def lay_match_def piste_free_def Let_def)
  have after: "sc_estimatedEndAt s + transition \<le> ls_cursor st1" "ls_fighterNextFree st1 = (ls_fighterNextFree st)
      (property_key (fx_redRegistrationId m) \<mapsto> sc_estimatedEndAt s, property_key (fx_blueRegistrationId m) \<mapsto> sc_estimatedEndAt s)"
    using assms(2) by (simp_all add: s_def st1_def lay_match_def Let_def)
  have "lay_ok base transition (made @ [(m, s)]) ((piste_free startTime nf)(li_id lice := ls_cursor st1)) (piste_free startTime (ls_fighterNextFree st1))"
    by (rule lay_ok_step [OF Cons.prems(2) assms(1)])
       (use Cons.prems(1) s after in \<open>auto simp: well_timed_def fighters_def piste_free_def\<close>)
  moreover have "well_timed ms" using Cons.prems(1) by (simp add: well_timed_def)
  ultimately obtain seg where seg: "map fst seg = ms" "list_all (\<lambda>(m, s). sc_liceId s = li_id lice) seg"
    and run: "ls_scheduled (fold (lay_match lice startTime transition midRest restAfter) ms st1) = map snd ((made @ [(m, s)]) @ seg)"
    "lay_ok base transition ((made @ [(m, s)]) @ seg)
      ((piste_free startTime nf)(li_id lice := ls_cursor (fold (lay_match lice startTime transition midRest restAfter) ms st1)))
      (piste_free startTime (ls_fighterNextFree (fold (lay_match lice startTime transition midRest restAfter) ms st1)))"
    using Cons.IH [of "made @ [(m, s)]" st1] sched by blast
  have "fold (lay_match lice startTime transition midRest restAfter) (m # ms) st = fold (lay_match lice startTime transition midRest restAfter) ms st1"
    by (simp add: st1_def)
  then show ?case using seg run s(1) by (intro exI [of _ "(m, s) # seg"]) (simp only: append_assoc append_Cons append_Nil list.map fst_conv list.pred_inject prod.case simp_thms)
qed

definition unit_laid :: "pool_affinity \<Rightarrow> scheduler_lice list \<Rightarrow> nat \<times> schedule_unit \<Rightarrow> laid list \<Rightarrow> bool" where
  "unit_laid affinity ls = (\<lambda>(i, u) seg. map fst seg = orderedMatches affinity u \<and>
     list_all (\<lambda>(m, s). sc_liceId s = li_id (ls ! (i mod length ls))) seg)"

lemma lay_units_ok:
  assumes "0 \<le> transition" and "0 \<le> midRest" and "list_all (\<lambda>(i, u). well_timed (orderedMatches affinity u)) us"
    and "lay_ok base transition made (piste_free startTime (st_liceNextFree st)) (piste_free startTime (st_fighterNextFree st))"
    and "st_scheduled st = map snd made"
  shows "\<exists>segs. list_all2 (unit_laid affinity ls) us segs \<and>
    st_scheduled (fold (lay_unit affinity ls startTime transition midRest) us st) = map snd (made @ concat segs) \<and>
    lay_ok base transition (made @ concat segs)
      (piste_free startTime (st_liceNextFree (fold (lay_unit affinity ls startTime transition midRest) us st)))
      (piste_free startTime (st_fighterNextFree (fold (lay_unit affinity ls startTime transition midRest) us st)))"
  using assms(3-5)
proof (induction us arbitrary: made st)
  case Nil
  then show ?case by (intro exI [of _ "[]"]) simp
next
  case (Cons iu us)
  obtain i u where iu: "iu = (i, u)" by fastforce
  define lice where "lice = ls ! (i mod length ls)"
  define ms where "ms = orderedMatches affinity u"
  define r where "r = (if un_poolId u \<noteq> None then boutsBeforeRest (length ms) else 0)"
  define l0 where "l0 = \<lparr>ls_cursor = or_else (st_liceNextFree st (li_id lice)) startTime, ls_placed = 0,
    ls_fighterNextFree = st_fighterNextFree st, ls_scheduled = st_scheduled st\<rparr>"
  define l1 where "l1 = fold (lay_match lice startTime transition midRest r) ms l0"
  have unit: "lay_unit affinity ls startTime transition midRest iu st =
      \<lparr>st_liceNextFree = (st_liceNextFree st)(li_id lice \<mapsto> ls_cursor l1), st_fighterNextFree = ls_fighterNextFree l1, st_scheduled = ls_scheduled l1\<rparr>"
    unfolding lay_unit_def iu prod.case Let_def l1_def l0_def r_def ms_def lice_def ..
  have start: "(piste_free startTime (st_liceNextFree st))(li_id lice := ls_cursor l0) = piste_free startTime (st_liceNextFree st)"
    by (rule ext) (simp add: piste_free_def l0_def)
  have moved: "(piste_free startTime nf)(l := c) = piste_free startTime (nf(l \<mapsto> c))" for nf l c
    by (rule ext) (simp add: piste_free_def)
  have "lay_ok base transition made ((piste_free startTime (st_liceNextFree st))(li_id lice := ls_cursor l0)) (piste_free startTime (ls_fighterNextFree l0))"
    unfolding start using Cons.prems(2) by (simp add: l0_def)
  moreover have "well_timed ms" "ls_scheduled l0 = map snd made" using Cons.prems(1,3) by (simp_all add: iu ms_def l0_def)
  ultimately obtain seg where seg: "map fst seg = ms" "list_all (\<lambda>(m, s). sc_liceId s = li_id lice) seg"
    and run: "ls_scheduled l1 = map snd (made @ seg)"
    "lay_ok base transition (made @ seg) (piste_free startTime ((st_liceNextFree st)(li_id lice \<mapsto> ls_cursor l1))) (piste_free startTime (ls_fighterNextFree l1))"
    using lay_unit_ok [OF assms(1,2), of ms base made startTime "st_liceNextFree st" lice l0 r] unfolding l1_def [symmetric] moved by blast
  define st1 where "st1 = lay_unit affinity ls startTime transition midRest iu st"
  have st1: "lay_ok base transition (made @ seg) (piste_free startTime (st_liceNextFree st1)) (piste_free startTime (st_fighterNextFree st1))"
    "st_scheduled st1 = map snd (made @ seg)" "list_all (\<lambda>(i, u). well_timed (orderedMatches affinity u)) us"
    using run Cons.prems(1) by (simp_all add: st1_def unit)
  obtain segs where segs: "list_all2 (unit_laid affinity ls) us segs"
    and rest: "st_scheduled (fold (lay_unit affinity ls startTime transition midRest) us st1) = map snd ((made @ seg) @ concat segs)"
      "lay_ok base transition ((made @ seg) @ concat segs)
        (piste_free startTime (st_liceNextFree (fold (lay_unit affinity ls startTime transition midRest) us st1)))
        (piste_free startTime (st_fighterNextFree (fold (lay_unit affinity ls startTime transition midRest) us st1)))"
    using Cons.IH [OF st1(3,1,2)] by blast
  have "unit_laid affinity ls iu seg" using seg by (simp add: unit_laid_def iu ms_def lice_def)
  then show ?case using segs rest by (intro exI [of _ "seg # segs"]) (simp add: st1_def)
qed

subsection \<open>Every match is in a unit\<close>

lemma mset_orderedMatches [simp]: "mset (orderedMatches affinity u) = mset (un_matches u)"
  by (simp add: orderedMatches_def)

lemma mset_units: "mset (concat (map (orderedMatches affinity) units)) = mset (concat (map un_matches units))"
  by (induction units) simp_all

lemma concat_lone [simp]: "concat (map un_matches (map (lone order) ms)) = ms"
  by (induction ms) (simp_all add: lone_def)

lemma mset_concat_map: "mset xs = mset ys \<Longrightarrow> mset (concat (map f xs)) = mset (concat (map f ys))"
proof -
  assume "mset xs = mset ys"
  then have "mset (map (mset \<circ> f) xs) = mset (map (mset \<circ> f) ys)" by (metis mset_map)
  then show ?thesis by (metis map_map mset_concat sum_mset_sum_list)
qed

lemma strict_matches: "mset (concat (map un_matches (strict_units lc matches))) = mset matches"
proof -
  let ?lone = "map (lone None) (filter (\<lambda>m. \<not> pooled m) matches)"
  let ?pools = "groupBy (\<lambda>m. or_else (fx_poolId m) []) (filter pooled matches)"
  have pools: "concat (map un_matches (map pool_unit gs)) = concat (map snd gs)" for gs
    by (induction gs) (auto simp: pool_unit_def)
  have "mset (concat (map un_matches (strict_units lc matches))) = mset (concat (map un_matches (?lone @ map pool_unit ?pools)))"
    unfolding strict_units_def by (rule mset_concat_map) simp
  also have "\<dots> = mset (filter (\<lambda>m. \<not> pooled m) matches) + mset (concat (map snd ?pools))"
    unfolding map_append concat_append mset_append concat_lone pools ..
  also have "\<dots> = mset matches" unfolding mset_groups by (simp add: union_commute flip: multiset_partition)
  finally show ?thesis .
qed

text \<open>With ids of their own the matches come back from the ids of a bracket's units.\<close>

lemma toUnit_append [simp]: "toUnit matches (xs @ ys) = toUnit matches xs @ toUnit matches ys"
  by (simp add: toUnit_def)

lemma toUnit_Nil [simp]: "toUnit matches [] = []"
  by (simp add: toUnit_def)

lemma toUnit_concat: "concat (map (toUnit matches) idss) = toUnit matches (concat idss)"
  by (induction idss) simp_all

lemma toUnit_ids:
  assumes "distinct (map fx_id matches)" and "set ms \<subseteq> set matches"
  shows "toUnit matches (map fx_id ms) = ms"
proof -
  have "map_of (rev (map (\<lambda>m. (fx_id m, m)) matches)) (fx_id m) = Some m" if "m \<in> set matches" for m
    using that assms(1) by (intro map_of_is_SomeI) (auto simp: comp_def simp flip: rev_map)
  then show ?thesis using assms(2) by (induction ms) (auto simp: toUnit_def)
qed

lemma toUnit_mset: "mset ids = mset ids' \<Longrightarrow> mset (toUnit matches ids) = mset (toUnit matches ids')"
  unfolding toUnit_def by (rule mset_concat_map)

lemma built_matches: "concat (map un_matches (built_units mss)) = concat mss"
proof -
  have "map un_matches (map (\<lambda>(i, ms). \<lparr>un_poolId = None, un_sortOrder = Some (int i), un_matches = ms\<rparr>) (enumerate n mss)) = mss" for n
    by (induction mss arbitrary: n) simp_all
  then show ?thesis by (simp add: built_units_def)
qed

lemma branch_unit_list:
  obtains anchors ids where "bb_units (groupBracketBranches slots n wb lb) = anchors @ (if ids = [] then [] else [converge_unit ids])"
    and "list_all (\<lambda>u. bu_kind u = AnchorUnit) anchors"
proof -
  have "\<exists>anchors ids. bb_units (groupBracketBranches slots n wb lb) = anchors @ (if ids = [] then [] else [converge_unit ids]) \<and>
      list_all (\<lambda>u. bu_kind u = AnchorUnit) anchors"
  proof (cases "tree_shaped wb lb")
    case None
    then have "groupBracketBranches slots n wb lb = spreadBranches slots n"
      by (auto simp: groupBracketBranches_def tree_shaped_def split: option.splits if_splits)
    then show ?thesis using spread_units [of slots n] by metis
  next
    case (Some w)
    then obtain l where shape: "wb = Some w" "lb = Some l" "w > 0" by (auto simp: tree_shaped_def split: option.splits if_splits)
    show ?thesis
      by (rule exI [of _ "filter (\<lambda>u. bu_kind u = AnchorUnit) (bb_units (spreadBranches (filter (\<lambda>s. br_round s \<le> w) slots) n))"],
          rule exI [of _ "convergeIds (bb_units (spreadBranches (filter (\<lambda>s. br_round s \<le> w) slots) n)) @ ordered (filter (\<lambda>s. br_round s > w) slots)"])
         (simp add: groupBracketBranches_def shape Let_def list_all_iff)
  qed
  then show thesis using that by blast
qed

definition with_tail :: "scheduler_match list list \<Rightarrow> scheduler_match list \<Rightarrow> scheduler_match list list" where
  "with_tail A tail = (if A = [] then [tail] else butlast A @ [last A @ tail])"

definition branch_units :: "scheduler_match list \<Rightarrow> nat \<Rightarrow> branch_unit list" where
  "branch_units matches n = (let shaped = find (\<lambda>m. fx_wbRounds m \<noteq> None \<and> fx_lbRounds m \<noteq> None) matches in
     bb_units (groupBracketBranches (branch_slots matches) n (Option.bind shaped fx_wbRounds) (Option.bind shaped fx_lbRounds)))"

lemma bracket_units_built:
  obtains anchors ids where "branch_units matches n = anchors @ (if ids = [] then [] else [converge_unit ids])"
    and "bracket_units matches n =
      built_units (let A = map (\<lambda>u. toUnit matches (bu_matchIds u)) anchors in if ids = [] then A else with_tail A (toUnit matches ids)) @
      map (lone None) (filter (\<lambda>m. \<not> coords m) matches)"
proof -
  obtain anchors ids where units: "branch_units matches n = anchors @ (if ids = [] then [] else [converge_unit ids])"
    and kind: "list_all (\<lambda>u. bu_kind u = AnchorUnit) anchors"
    unfolding branch_units_def Let_def by (rule branch_unit_list)
  have find: "find (\<lambda>u. bu_kind u = ConvergeUnit) (anchors @ us) = find (\<lambda>u. bu_kind u = ConvergeUnit) us" for us
    using kind by (induction anchors) auto
  have anchored: "filter (\<lambda>u. bu_kind u = AnchorUnit) anchors = anchors" using kind by (simp add: list_all_iff)
  show thesis
  proof (rule that [OF units])
    show "bracket_units matches n =
        built_units (let A = map (\<lambda>u. toUnit matches (bu_matchIds u)) anchors in if ids = [] then A else with_tail A (toUnit matches ids)) @
        map (lone None) (filter (\<lambda>m. \<not> coords m) matches)"
      unfolding bracket_units_def Let_def units [unfolded branch_units_def Let_def]
      by (simp add: find anchored converge_unit_def with_tail_def)
  qed
qed

lemma bracket_matches:
  assumes "distinct (map fx_id matches)"
  shows "mset (concat (map un_matches (bracket_units matches n))) = mset matches"
proof -
  obtain anchors ids where units: "branch_units matches n = anchors @ (if ids = [] then [] else [converge_unit ids])"
    and built: "bracket_units matches n =
      built_units (let A = map (\<lambda>u. toUnit matches (bu_matchIds u)) anchors in if ids = [] then A else with_tail A (toUnit matches ids)) @
      map (lone None) (filter (\<lambda>m. \<not> coords m) matches)" by (rule bracket_units_built)
  define A where "A = map (\<lambda>u. toUnit matches (bu_matchIds u)) anchors"
  note built [unfolded A_def [symmetric] Let_def with_tail_def]
  then have split: "mset (concat (map un_matches (bracket_units matches n))) =
      mset (concat A) + mset (toUnit matches ids) + mset (filter (\<lambda>m. \<not> coords m) matches)"
    by (cases A rule: rev_cases) (auto simp: built_matches simp del: map_map)
  have "mset (concat A @ toUnit matches ids) = mset (toUnit matches (unit_ids (anchors @ (if ids = [] then [] else [converge_unit ids]))))"
    by (simp add: A_def converge_unit_def flip: toUnit_concat) (simp add: comp_def)
  also have "\<dots> = mset (toUnit matches (map br_matchId (branch_slots matches)))"
    by (rule toUnit_mset) (simp only: units [symmetric] branch_units_def Let_def every_slot_in_one_unit)
  also have "map br_matchId (branch_slots matches) = map fx_id (filter coords matches)" by (simp add: branch_slots_def)
  also have "toUnit matches (map fx_id (filter coords matches)) = filter coords matches"
    by (rule toUnit_ids [OF assms]) auto
  finally have "mset (concat A) + mset (toUnit matches ids) = mset (filter coords matches)" by simp
  then show ?thesis unfolding split by (simp flip: multiset_partition)
qed

lemma units_hold_all:
  assumes "distinct (map fx_id matches)"
  shows "mset (concat (map (orderedMatches affinity) (units_for lc affinity matches n))) = mset matches"
  unfolding mset_units using strict_matches [of lc matches] bracket_matches [OF assms, of n]
  by (cases affinity) (simp_all add: units_for_def del: map_map)

subsection \<open>The schedule\<close>

definition start_of :: "scheduler_options \<Rightarrow> rat \<Rightarrow> rat" where
  "start_of opts now = or_else (so_startTime opts) now"

definition affinity_of :: "scheduler_options \<Rightarrow> pool_affinity" where
  "affinity_of opts = or_else (so_poolAffinity opts) Strict"

definition timed_options :: "scheduler_options \<Rightarrow> bool" where
  "timed_options opts \<longleftrightarrow> 0 \<le> so_transitionMinutes opts \<and> 0 \<le> so_midRestMinutes opts"

lemma in_liceByIndex: "lices \<noteq> [] \<Longrightarrow> liceByIndex lices ! (i mod length (liceByIndex lices)) \<in> set lices"
proof -
  assume ne: "lices \<noteq> []"
  have len: "length (liceByIndex lices) = length lices" by (simp add: liceByIndex_def flip: size_mset)
  have "set (liceByIndex lices) = set lices" by (simp add: liceByIndex_def flip: set_mset_mset)
  moreover have "liceByIndex lices ! (i mod length (liceByIndex lices)) \<in> set (liceByIndex lices)"
    using ne len by (intro nth_mem) simp
  ultimately show ?thesis by simp
qed

lemma no_units: "units_for lc affinity [] n = []"
  by (cases affinity) (simp_all add: units_for_def strict_units_def bracket_units_def branch_slots_def groupBracketBranches_def spreadBranches_def
      built_units_def groupBy_def split: option.split)

lemma schedule_segments:
  assumes "lices \<noteq> []" and "timed_options opts" and "well_timed matches" and "distinct (map fx_id matches)"
  obtains res segs where "scheduleMatches lc now matches lices opts = Inr res" and "sr_unscheduled res = []"
    and "list_all2 (unit_laid (affinity_of opts) (liceByIndex lices))
      (enumerate 0 (units_for lc (affinity_of opts) matches (length lices))) segs"
    and "sr_scheduledMatches res = map snd (concat segs)"
    and "mset (map fst (concat segs)) = mset matches"
    and "sorted_wrt (apart (so_transitionMinutes opts * 60000)) (concat segs)"
    and "list_all (laid_right (first_free opts (start_of opts now))) (concat segs)"
    and "list_all (\<lambda>(m, s). sc_liceId s \<in> li_id ` set lices) (concat segs)"
proof -
  define units where "units = units_for lc (affinity_of opts) matches (length lices)"
  define nf where "nf = map_of (map (\<lambda>i. (i, first_free opts (start_of opts now) i)) (map li_id lices))"
  define st0 where "st0 = \<lparr>st_liceNextFree = nf, st_fighterNextFree = (\<lambda>_. None), st_scheduled = []\<rparr>"
  define run where "run = fold (lay_unit (affinity_of opts) (liceByIndex lices) (start_of opts now)
    (so_transitionMinutes opts * 60000) (so_midRestMinutes opts * 60000))"
  define base where "base = piste_free (start_of opts now) nf"
  have mset: "mset (concat (map (orderedMatches (affinity_of opts)) units)) = mset matches"
    unfolding units_def by (rule units_hold_all [OF assms(4)])
  then have sets: "set (concat (map (orderedMatches (affinity_of opts)) units)) = set matches" by (rule mset_eq_setD)
  have "list_all (\<lambda>(i, u). well_timed (orderedMatches (affinity_of opts) u)) (enumerate 0 units)"
    using assms(3) sets by (auto simp: well_timed_def list_all_iff in_set_enumerate_eq)
  moreover have "lay_ok base (so_transitionMinutes opts * 60000) [] (piste_free (start_of opts now) (st_liceNextFree st0)) (piste_free (start_of opts now) (st_fighterNextFree st0))"
    by (simp add: lay_ok_def st0_def base_def)
  ultimately obtain segs where segs: "list_all2 (unit_laid (affinity_of opts) (liceByIndex lices)) (enumerate 0 units) segs"
    and laid: "st_scheduled (run (enumerate 0 units) st0) = map snd ([] @ concat segs)"
    and ok: "lay_ok base (so_transitionMinutes opts * 60000) ([] @ concat segs)
      (piste_free (start_of opts now) (st_liceNextFree (run (enumerate 0 units) st0))) (piste_free (start_of opts now) (st_fighterNextFree (run (enumerate 0 units) st0)))"
    using lay_units_ok [of "so_transitionMinutes opts * 60000" "so_midRestMinutes opts * 60000" "affinity_of opts" "enumerate 0 units" base "[]"
        "start_of opts now" st0 "liceByIndex lices"] assms(2) unfolding run_def timed_options_def st0_def by auto
  have "map fst (concat segs) = concat (map (orderedMatches (affinity_of opts)) us)"
    if "list_all2 (unit_laid (affinity_of opts) (liceByIndex lices)) (enumerate n us) segs" for n us
    using that by (induction us arbitrary: n segs) (auto simp: list_all2_Cons1 unit_laid_def)
  then have fst: "mset (map fst (concat segs)) = mset matches" using segs mset by simp
  have known: "list_all (\<lambda>(m, s). sc_liceId s \<in> li_id ` set lices) (concat segs)"
  proof -
    have step: "list_all (\<lambda>(m, s). sc_liceId s \<in> li_id ` set lices) seg" if "unit_laid (affinity_of opts) (liceByIndex lices) iu seg" for iu seg
      using that in_liceByIndex [OF assms(1), of "fst iu"] by (cases iu) (auto simp: unit_laid_def list_all_iff)
    from segs show ?thesis by (induction rule: list_all2_induct) (auto dest: step)
  qed
  have laid_at: "list_all (laid_right (first_free opts (start_of opts now))) (concat segs)"
  proof -
    have base: "base l = first_free opts (start_of opts now) l" if "l \<in> li_id ` set lices" for l
      using that by (simp add: base_def piste_free_def nf_def map_of_map_restrict del: map_map)
    have "laid_right (first_free opts (start_of opts now)) p" if "laid_right base p" "(\<lambda>(m, s). sc_liceId s \<in> li_id ` set lices) p" for p
      using that base by (cases p) (simp add: laid_right_def)
    moreover have "list_all (laid_right base) (concat segs)" using ok unfolding lay_ok_def append_Nil by blast
    ultimately show ?thesis using known unfolding list_all_iff by blast
  qed
  have scheduled: "\<exists>res. scheduleMatches lc now matches lices opts = Inr res \<and> sr_unscheduled res = [] \<and> sr_scheduledMatches res = map snd (concat segs)"
  proof (cases "matches = []")
    case True
    then show ?thesis using assms(1) segs by (simp add: scheduleMatches_def units_def no_units)
  next
    case False
    have "scheduleMatches lc now matches lices opts = Inr \<lparr>sr_scheduledMatches = map snd (concat segs),
        sr_liceLoad = liceLoad lices (map snd (concat segs)), sr_imbalancePercent = imbalancePercent (map snd (liceLoad lices (map snd (concat segs)))), sr_unscheduled = []\<rparr>"
      using assms(1) False laid unfolding scheduleMatches_def Let_def start_of_def affinity_of_def units_def st0_def run_def nf_def by simp
    then show ?thesis by simp
  qed
  have "sorted_wrt (apart (so_transitionMinutes opts * 60000)) (concat segs)" using ok by (simp add: lay_ok_def)
  with scheduled segs fst known laid_at show thesis unfolding units_def by (blast intro: that)
qed

text \<open>
  C28. Nobody fights twice at once. Whatever way the bouts are grouped on the pistes, the schedule holds
  every bout once, for its planned length, on a piste that was given and not before that
  piste is free; two bouts on one piste have the gap between them, and of two bouts of one
  fighter, on whatever pistes, the second does not start before the first has ended.
\<close>

theorem nobody_fights_twice_at_once:
  assumes "lices \<noteq> []" and "timed_options opts" and "well_timed matches" and "distinct (map fx_id matches)"
  shows "\<exists>res made. scheduleMatches lc now matches lices opts = Inr res \<and> sr_unscheduled res = [] \<and>
    sr_scheduledMatches res = map snd made \<and> mset (map fst made) = mset matches \<and>
    sorted_wrt (apart (so_transitionMinutes opts * 60000)) made \<and>
    list_all (laid_right (first_free opts (start_of opts now))) made \<and>
    list_all (\<lambda>(m, s). sc_liceId s \<in> li_id ` set lices) made"
  by (rule schedule_segments [OF assms, of lc now]) blast

subsection \<open>A sub-tree of a bracket runs in the order of its rounds\<close>

lemma unit_holds:
  assumes "u \<in> set (branch_units matches n)"
  obtains un as bs where "un \<in> set (bracket_units matches n)" and "un_matches un = as @ toUnit matches (bu_matchIds u) @ bs"
proof -
  obtain anchors ids where units: "branch_units matches n = anchors @ (if ids = [] then [] else [converge_unit ids])"
    and built: "bracket_units matches n =
      built_units (let A = map (\<lambda>u. toUnit matches (bu_matchIds u)) anchors in if ids = [] then A else with_tail A (toUnit matches ids)) @
      map (lone None) (filter (\<lambda>m. \<not> coords m) matches)" by (rule bracket_units_built)
  define A where "A = map (\<lambda>u. toUnit matches (bu_matchIds u)) anchors"
  define mss where "mss = (if ids = [] then A else with_tail A (toUnit matches ids))"
  have "u \<in> set anchors \<or> bu_matchIds u = ids \<and> ids \<noteq> []" using assms by (auto simp: units converge_unit_def split: if_splits)
  then have "\<exists>as bs. as @ toUnit matches (bu_matchIds u) @ bs \<in> set mss"
  proof
    assume "u \<in> set anchors"
    then have "toUnit matches (bu_matchIds u) \<in> set A" by (simp add: A_def)
    then obtain ys y where A: "A = ys @ [y]" and "toUnit matches (bu_matchIds u) \<in> set ys \<or> toUnit matches (bu_matchIds u) = y"
      by (cases A rule: rev_cases) auto
    then show ?thesis
    proof (elim disjE)
      assume "toUnit matches (bu_matchIds u) \<in> set ys"
      then show ?thesis by (intro exI [of _ "[]"]) (simp add: mss_def with_tail_def A)
    next
      assume "toUnit matches (bu_matchIds u) = y"
      then show ?thesis
        by (intro exI [of _ "[]"] exI [of _ "if ids = [] then [] else toUnit matches ids"]) (simp add: mss_def with_tail_def A)
    qed
  next
    assume "bu_matchIds u = ids \<and> ids \<noteq> []"
    then show ?thesis by (intro exI [of _ "if A = [] then [] else last A"] exI [of _ "[]"]) (simp add: mss_def with_tail_def)
  qed
  then obtain as bs where ms: "as @ toUnit matches (bu_matchIds u) @ bs \<in> set mss" by blast
  have "map un_matches (built_units mss) = mss"
  proof -
    have "map un_matches (map (\<lambda>(i, ms). \<lparr>un_poolId = None, un_sortOrder = Some (int i), un_matches = ms\<rparr>) (enumerate k mss)) = mss" for k
      by (induction mss arbitrary: k) simp_all
    then show ?thesis by (simp add: built_units_def)
  qed
  then obtain un where "un \<in> set (built_units mss)" "un_matches un = as @ toUnit matches (bu_matchIds u) @ bs"
    using ms by (metis (no_types, lifting) imageE list.set_map)
  then show thesis using that built unfolding Let_def A_def [symmetric] mss_def [symmetric] by auto
qed

lemma comes_before_within: "comes_before x y xs \<Longrightarrow> comes_before x y (as @ xs @ bs)"
proof -
  assume "comes_before x y xs"
  then obtain a b c where "xs = a @ x # b @ y # c" by (auto simp: comes_before_def)
  then have "as @ xs @ bs = (as @ a) @ x # b @ y # (c @ bs)" by simp
  then show ?thesis unfolding comes_before_def by blast
qed

lemma toUnit_before:
  assumes "distinct (map fx_id matches)" and "f \<in> set matches" and "m \<in> set matches" and "comes_before (fx_id f) (fx_id m) ids"
  shows "comes_before f m (toUnit matches ids)"
proof -
  obtain a b c where "ids = a @ [fx_id f] @ b @ [fx_id m] @ c" using assms(4) by (auto simp: comes_before_def)
  then have "toUnit matches ids = toUnit matches a @ [f] @ toUnit matches b @ [m] @ toUnit matches c"
    using toUnit_ids [OF assms(1), of "[f]"] toUnit_ids [OF assms(1), of "[m]"] assms(2,3) by (simp only: toUnit_append) simp
  then show ?thesis by (auto simp: comes_before_def)
qed

lemma map_split: "map f xs = ys @ z # zs \<Longrightarrow> \<exists>as x bs. xs = as @ x # bs \<and> f x = z \<and> map f bs = zs"
  by (auto simp: map_eq_append_conv map_eq_Cons_conv)

lemma before_pairs:
  assumes "map fst ps = xs" and "comes_before x y xs"
  shows "\<exists>s t. comes_before (x, s) (y, t) ps"
proof -
  obtain a b c where "map fst ps = a @ x # b @ y # c" using assms by (auto simp: comes_before_def)
  then obtain p1 p q1 where p: "ps = p1 @ p # q1" "fst p = x" "map fst q1 = b @ y # c" by (meson map_split)
  from map_split [OF p(3)] obtain p2 q p3 where q: "q1 = p2 @ q # p3" "fst q = y" by blast
  have "ps = p1 @ (x, snd p) # p2 @ (y, snd q) # p3" using p(1,2) q by auto
  then show ?thesis unfolding comes_before_def by blast
qed

lemma before_members: "comes_before x y xs \<Longrightarrow> x \<in> set xs \<and> y \<in> set xs"
  by (auto simp: comes_before_def)

lemma before_sorted: "comes_before p q ps \<Longrightarrow> sorted_wrt R ps \<Longrightarrow> R p q"
  by (auto simp: comes_before_def sorted_wrt_append)

definition slot_of_match :: "scheduler_match \<Rightarrow> branch_slot" where
  "slot_of_match m = \<lparr>br_matchId = fx_id m, br_round = the (fx_bracketRound m), br_position = the (fx_bracketPosition m)\<rparr>"

definition single_elimination :: "scheduler_match list \<Rightarrow> bool" where
  "single_elimination matches \<longleftrightarrow> list_all (\<lambda>m. fx_wbRounds m = None) matches"

lemma single_branch_units: "single_elimination matches \<Longrightarrow> branch_units matches n = bb_units (spreadBranches (branch_slots matches) n)"
proof -
  assume "single_elimination matches"
  then have "find (\<lambda>m. fx_wbRounds m \<noteq> None \<and> fx_lbRounds m \<noteq> None) matches = None"
    by (auto simp: find_None_iff single_elimination_def list_all_iff)
  then show ?thesis by (simp add: branch_units_def groupBracketBranches_def Let_def)
qed


subsection \<open>Fighters who are not known yet\<close>

definition open_corner :: "scheduler_match \<Rightarrow> bool" where
  "open_corner m \<longleftrightarrow> fx_redRegistrationId m = None \<or> fx_blueRegistrationId m = None"


subsection \<open>A bracket of four on two pistes\<close>

definition bout_at :: "string \<Rightarrow> string option \<Rightarrow> string option \<Rightarrow> nat \<Rightarrow> nat \<Rightarrow> scheduler_match" where
  "bout_at i red blue r p = \<lparr>fx_id = i, fx_redRegistrationId = red, fx_blueRegistrationId = blue, fx_estimatedDurationMinutes = 10,
     fx_poolId = None, fx_poolSortOrder = None, fx_matchNumberLabel = None, fx_bracketRound = Some r, fx_bracketPosition = Some p,
     fx_wbRounds = None, fx_lbRounds = None\<rparr>"

definition drawn_four :: "scheduler_match list" where
  "drawn_four = [bout_at ''s1'' (Some ''a'') (Some ''d'') 1 1, bout_at ''s2'' (Some ''b'') (Some ''c'') 1 2, bout_at ''f'' None None 2 1]"

definition empty_four :: "scheduler_match list" where
  "empty_four = [bout_at ''s1'' None None 1 1, bout_at ''s2'' None None 1 2, bout_at ''f'' None None 2 1]"

definition two_lices :: "scheduler_lice list" where
  "two_lices = [\<lparr>li_id = ''L1'', li_name = ''Piste 1'', li_sortOrder = Some 0\<rparr>, \<lparr>li_id = ''L2'', li_name = ''Piste 2'', li_sortOrder = Some 1\<rparr>]"

text \<open>The first piste is taken for its first hour.\<close>

definition branch_options :: "scheduler_options" where
  "branch_options = \<lparr>so_midRestMinutes = 0, so_startTime = Some 0, so_transitionMinutes = 1, so_poolAffinity = Some BracketBranch,
     so_liceBusyUntil = (\<lambda>i. if i = ''L1'' then Some 3600000 else None)\<rparr>"

definition no_locale :: "string \<Rightarrow> string \<Rightarrow> int" where
  "no_locale a b = 0"

lemma four_facts: "two_lices \<noteq> []" "timed_options branch_options" "well_timed drawn_four" "well_timed empty_four"
  "distinct (map fx_id drawn_four)" "distinct (map fx_id empty_four)" "list_all open_corner empty_four"
  by (simp_all add: two_lices_def timed_options_def branch_options_def well_timed_def drawn_four_def empty_four_def bout_at_def open_corner_def)

theorem nobody_fights_twice_at_once_witness:
  "\<exists>res. scheduleMatches no_locale 0 drawn_four two_lices branch_options = Inr res \<and> length (sr_scheduledMatches res) = 3"
proof -
  obtain res made where "scheduleMatches no_locale 0 drawn_four two_lices branch_options = Inr res" "sr_scheduledMatches res = map snd made"
    "mset (map fst made) = mset drawn_four"
    using nobody_fights_twice_at_once [OF four_facts(1,2,3,5), of no_locale 0] by blast
  moreover from this(3) have "length made = length drawn_four" by (metis length_map size_mset)
  ultimately show ?thesis by (simp add: drawn_four_def)
qed


definition one_lice :: "scheduler_lice list" where
  "one_lice = [\<lparr>li_id = ''L1'', li_name = ''Piste 1'', li_sortOrder = None\<rparr>]"

lemma drawn_four_facts: "one_lice \<noteq> []" "affinity_of branch_options = BracketBranch" "single_elimination drawn_four"
  "drawn_four ! 1 \<in> set drawn_four" "drawn_four ! 2 \<in> set drawn_four" "coords (drawn_four ! 1)" "coords (drawn_four ! 2)"
  "feeds (slot_of_match (drawn_four ! 1)) (slot_of_match (drawn_four ! 2))" "length one_lice \<le> 1"
  by (simp_all add: one_lice_def affinity_of_def branch_options_def single_elimination_def drawn_four_def bout_at_def coords_def
    slot_of_match_def feeds_def)


text \<open>
  The final can be laid before a semi-final. The rounds above the spread go behind the last
  sub-tree on its piste, and wait for no other: while the first piste is still taken, the semi-final
  laid on it starts after an hour, and the final, on the other piste, after eleven minutes.
\<close>

lemma final_before_a_semi_final:
  "(case scheduleMatches no_locale 0 drawn_four two_lices branch_options of
      Inr res \<Rightarrow> map (\<lambda>s. (sc_matchId s, sc_liceId s, sc_scheduledAt s, sc_estimatedEndAt s)) (sr_scheduledMatches res) | Inl _ \<Rightarrow> []) =
   [(''s1'', ''L1'', 3600000, 4200000), (''s2'', ''L2'', 0, 600000), (''f'', ''L2'', 660000, 1260000)]"
  by code_simp

end
