(* ===== verification/Spec2Isabelle.thy ===== *)
theory Spec2Isabelle
  imports Prelude Domain Match_Format Clock Berger Snake_Seeding Local_Search Bracket Single_Elim
    Double_Elim Swiss_Matching Swiss Standings R1_Seeding Swiss_Tiebreaks
    Bracket_Advance Bracket_Play Bracket_Generation Bracket_Edit Final_Ranking Bracket_Result
    Offline_Store Offline_Sync Offline_Drain Offline_Pad
    Formula Formula_Text Formula_Schema Ruleset_Scoring Pool_Scores Grouping League League_Tables
    Referee_Checker Referee_Assigner Pool_Standings Bracket_Branches Schedule_Run Match_Scheduler
begin

text \<open>
  The competition core of MyClash, a system that runs fencing tournaments.

  The program. A tournament is a sequence of phases: pools, a Swiss phase, a single- or a
  double-elimination bracket. The package \<open>packages/rules\<close> holds the rules as pure functions:
  it decides bouts, runs their clock, schedules pools, pairs Swiss rounds, generates brackets
  and orders the standings. The package \<open>packages/rulesets\<close> scores the pools by one of three
  kinds of ruleset, one of them a formula its author writes, and proposes referees. The services
  of \<open>apps/api/src/modules\<close> keep all that in database tables and call those functions: they
  generate a bracket, draw it from a ranking, hand each result on to the bouts that wait for it,
  make the tables of the pools, lay the bouts on pistes and add tournaments up to a league. The
  tablet at a piste, \<open>apps/web-staff\<close>, queues what the referee enters and sends it.

  Theories, in the order of their dependence, with the code each models.
  \<^item> \<open>Prelude\<close>: comparators as a locale (a stable sort by a total preorder), decimal numbers in
    strings, trimming, lookups in lists.
  \<^item> \<open>Domain\<close>: \<open>domain.ts\<close> and \<open>afterblow.ts\<close>, the shapes of a bout and the netting of an
    afterblow.
  \<^item> \<open>Match_Format\<close>: \<open>match-format.ts\<close>, when a round and a series of rounds end and who has
    won; the scorer of a ruleset is an interface of \<open>evaluateRound\<close>, given as a locale and
    interpreted on the default scorer.
  \<^item> \<open>Clock\<close>: \<open>clock.ts\<close>, the fold of the clock over its moves and the presses of the tablet.
  \<^item> \<open>Berger\<close>, \<open>Snake_Seeding\<close>, \<open>Local_Search\<close>: \<open>scheduling/berger.ts\<close>,
    \<open>scheduling/snake-seeding.ts\<close> and \<open>scheduling/local-search.ts\<close>, the pools.
  \<^item> \<open>Bracket\<close>, \<open>Single_Elim\<close>, \<open>Double_Elim\<close>: the seeding order, \<open>scheduling/single-elim.ts\<close>
    and the three files \<open>scheduling/double-elim*.ts\<close>. A bracket is a list of slots whose
    sides name a seed, or the winner or the loser of another slot, as a string.
  \<^item> \<open>Swiss_Matching\<close>, \<open>Swiss\<close>: \<open>scheduling/swiss-matching.ts\<close> and \<open>scheduling/swiss.ts\<close>.
  \<^item> \<open>Standings\<close>, \<open>R1_Seeding\<close>, \<open>Swiss_Tiebreaks\<close>: \<open>results/standings.ts\<close>,
    \<open>results/r1-ranking.ts\<close> with \<open>results/bracket-r1-seeding.ts\<close>, and
    \<open>results/swiss-tiebreaks.ts\<close>.
  \<^item> \<open>Bracket_Advance\<close>: \<open>bracket-refs.ts\<close>, \<open>bracket-advance.service.ts\<close>,
    \<open>bracket-match-sync.ts\<close> and \<open>bracket-downstream.ts\<close> of the phases module, and the draw of
    \<open>populateBracket\<close>. The state is \<open>bracket_db\<close>: the type and the config of one phase and
    its rows of \<open>bracket_slots\<close> and \<open>matches\<close>. An operation takes the state and returns it.
  \<^item> \<open>Bracket_Play\<close>: the runs of a bracket as a step relation over those operations, with
    their invariant.
  \<^item> \<open>Bracket_Generation\<close>: \<open>generateBracket\<close> of \<open>phases.service.ts\<close> with
    \<open>double-elim-config.ts\<close> and \<open>bracket-placeholder-match.ts\<close>.
  \<^item> \<open>Bracket_Edit\<close>: \<open>editBracketConfig\<close> with \<open>syncGrandFinalResetSlot\<close>, and
    \<open>dto/double-elim-podium.ts\<close>.
  \<^item> \<open>Final_Ranking\<close>: \<open>final-ranking-core.ts\<close>, \<open>final-ranking.ts\<close> and
    \<open>final-ranking-double-elim.ts\<close> of \<open>packages/types\<close>, the places of a tournament. The order
    of names, which depends on the locale of the host, is a parameter.
  \<^item> \<open>Bracket_Result\<close>: the slots as \<open>getTournamentBracket\<close> of \<open>phases.service.ts\<close> returns
    them and \<open>tournament-placement.service.ts\<close>, from the rows of a fought bracket to the
    placements of its tournament.
  \<^item> \<open>Offline_Store\<close>: \<open>db.ts\<close>, \<open>outbox.ts\<close>, \<open>press-queue.ts\<close>, \<open>can-send-again.ts\<close> and
    \<open>undone.ts\<close> of \<open>apps/web-staff/src/offline\<close>, the store of the scoring tablet: the queue of
    hits, cards and presses, the inbox of refused rows, what was synced and what was undone. The
    state is \<open>tablet\<close>, one table for each table of \<open>ScoringDb\<close> the queue uses.
  \<^item> \<open>Offline_Sync\<close>: \<open>sync.ts\<close>, \<open>press-send.ts\<close>, \<open>failure-kind.ts\<close> and
    \<open>caller-refusal.ts\<close>, a send of the queue from the first listed row to what the bar says;
    \<open>engine\<close> holds the fields of \<open>SyncEngine\<close>. The server is its answers, which are arguments.
  \<^item> \<open>Offline_Drain\<close>: the actions of the inbox in \<open>sync.ts\<close>, and a send the server takes.
  \<^item> \<open>Offline_Pad\<close>: a send cut at each call of the store and of the network, with the actions
    of the referee in between: a step relation over those operations.
  \<^item> \<open>Formula\<close>, \<open>Formula_Text\<close>, \<open>Formula_Schema\<close>: \<open>types.ts\<close>, \<open>evaluator.ts\<close> and \<open>render.ts\<close>
    of \<open>packages/rules/src/formula\<close>, \<open>tf_v1/double-penalty.ts\<close>, and the schema of
    \<open>packages/rulesets/src/formula/types.ts\<close>: the tree of a formula, what it evaluates to, what
    it is shown as, and which stored values are one.
  \<^item> \<open>Ruleset_Scoring\<close>: \<open>formula/derive-stats.ts\<close> and \<open>tf_v1/score.ts\<close> of the rules, and
    \<open>formula/ruleset.ts\<close>, \<open>tf_v1/index.ts\<close>, \<open>generic_points_cap/index.ts\<close> and
    \<open>match-format.ts\<close> of the rulesets: what the three kinds make of the bouts of a pool.
  \<^item> \<open>Pool_Scores\<close>: \<open>scorePoolFighters\<close> of a ruleset as an interface of the standings, given as
    a locale and interpreted on the three kinds.
  \<^item> \<open>Grouping\<close>: a \<open>Map\<close> built while a list is read, as an association list in the order of
    first insertion.
  \<^item> \<open>League\<close>, \<open>League_Tables\<close>: \<open>league-scoring.ts\<close>, \<open>league-types.ts\<close>,
    \<open>league-standings-rows.ts\<close>, \<open>league-club-standings.ts\<close> and \<open>league-freshness.ts\<close> of
    \<open>packages/rules/src/results\<close>, and \<open>league-scoring.service.ts\<close> of the API.
  \<^item> \<open>Referee_Checker\<close>, \<open>Referee_Assigner\<close>: the referees in \<open>packages/rulesets/src/scheduling\<close>,
    with \<open>referee-availability.ts\<close> and \<open>match-window.ts\<close>: every reason against a person at a
    unit, and the engine that proposes people for the slots.
  \<^item> \<open>Pool_Standings\<close>: \<open>compute-rows.ts\<close>, \<open>ruleset-scores.ts\<close>, \<open>pool-rows.ts\<close> and
    \<open>pool-standings.service.ts\<close> of the API, from the rows of the database to the tables.
  \<^item> \<open>Bracket_Branches\<close>, \<open>Schedule_Run\<close>, \<open>Match_Scheduler\<close>: \<open>scheduling/bracket-branches.ts\<close>
    of the rules, and \<open>planned-length.ts\<close>, \<open>lay-run.ts\<close> and \<open>match-scheduler.ts\<close> of the API:
    which bouts share a piste, how long they last and when they start.

  What the theorems show. The engine of a bout: a round that ends by itself has a winner where
  the phase allows no draw, a series ends within its rounds, counting down decides as counting
  up, the corners may be exchanged, the score does not depend on the order of the exchanges; the
  clock counts the running intervals, presses sent again are harmless and the tablet's clock is
  the server's. Pools: every pair meets once, nobody twice in a round, the snake fills the
  announced sizes, the search only improves. Brackets: everybody enters once, every winner and
  every loser with a second chance has exactly one place, the closed counts are those of the
  slots; and composed with the API, a generated and drawn bracket plays out: whatever the order
  of the bouts and whoever wins them, no fighter is awaited in two places and the bracket does
  not stall. The reset of a grand final can be switched on and off, with the bracket a
  generation gives, and an edit keeps everything else. The final ranking has no gap and no
  fighter twice, puts the fighters of the bracket first and the deeper exit higher; composed
  with the generation, the draw and the bouts, a single elimination that has been fought gives
  everybody drawn one place and crowns the winner of its final. Swiss: the search is sound and
  complete within its budget, a round takes in everybody, rematches are disclosed, the bye goes
  to the lowest without one. Results: the standings and the draws depend on the data alone, and
  the reported tiebreak is the reason. The tablet: nothing that was queued is lost or doubled
  however the referee's actions fall between the steps of a send, an undo is final, the rows of
  a bout go in order unless a Retry falls in one gap of the code, a row leaves the queue on the
  server's word alone, a retried row is where it was, and a server that takes the rows empties
  the queue. Rulesets: a formula that is shown reads back as the formula that is evaluated, the
  schema accepts the typed trees of the allowed depth, the statistics of a pool balance, and the
  score of a fighter depends on the own bouts alone. Tables: a row of a pool says what was
  fought, and the tables do not depend on the order in which the database returns its rows.
  League: a row adds up the results of its fighter, a place counts those ahead, the reported
  tiebreak explains it, and the clubs lose no point. Referees: the proposals of a run stand
  together, each fine for the checker with all the others counted, and every slot is filled,
  reported or left to a person. Schedule: every bout is laid once, on a free piste, nobody is in
  two bouts at once, and a sub-tree of a bracket runs in the order of its rounds; bouts whose
  fighters are not known yet run one after the other, and a final can be laid before a
  semi-final where a piste is still taken.

  Interfaces. \<open>comparator\<close> and \<open>strict_comparator\<close> (the sorts), \<open>bracket_generator\<close> (the
  seeds of the slots are the field) and \<open>advancing_bracket\<close>, which extends it by what the
  advance needs (every side is fed from an earlier round); both generators interpret them.
  \<open>round_scorer\<close> (what \<open>evaluateRound\<close> asks of a ruleset), \<open>pool_scorer\<close> (what the standings
  ask of one) and \<open>repeatable_press\<close> (a press that may arrive twice).

  Bounds. Counts are naturals and scores are integers: the code's numbers are doubles, and the
  values the code computes with stay far below the bound of exact integers. Ratings, points
  and costs are rationals, so the rounding of doubles is not modelled. The 32-bit generator of
  \<open>local-search.ts\<close> works on \<open>32 word\<close>. The search of a Swiss pairing runs on the budget of
  the code; its completeness is stated with a budget that is enough. Bracket sizes are powers
  of two up to 128. Every other recursion terminates by structure or by a measure. Times are
  instants in milliseconds, rational ones in the scheduler, whose gaps may be a fraction of a
  minute. A character is one of the 256 of Isabelle's type.

  Not modelled, and why. Validation of requests by schemas, authorisation, audit logs and the
  texts of messages: input and output around the operations. A failing database call: each
  operation is its effect when its calls succeed. The stamp of the ruleset on the rows of
  bouts: data that no modelled operation reads. Of the tablet: the bodies and addresses of its
  requests, its listeners, the abort of a send, several tabs that send at once, and what it shows
  of its queue. Of the rulesets: the parsing of a config, the metadata and documentation they
  carry, forfeits, penalties, hashes and the registry; a penalty named like a property every
  object inherits. Of the schedule: the services that read and write its rows, the ISO texts of
  instants and their rounding to whole milliseconds. The careers of fighters, the swiss service,
  the layout of the schedule board and everything that depends on the data of time zones.
\<close>

end
